(* ===== verification/Prelude.thy ===== *)
theory Prelude
  imports Main "HOL-Library.Word" "HOL-Library.Monad_Syntax"
begin

text \<open>
  Shared vocabulary of the development: the machine integers of the code, the result of an
  operation that sets \<^verbatim>\<open>errno\<close>, and the convention for operations that may stop the process.

  A C++ operation that can fail a \<^verbatim>\<open>zmq_assert\<close> or that reads through a pointer returns an
  \<open>option\<close>: \<open>None\<close> is the abort (or the invalid access), so a theorem that such an operation
  yields \<open>Some\<close> is a theorem that neither happens. An operation with an integer return code
  returns an \<open>rc\<close>: \<open>OK\<close> for 0 and \<open>Err e\<close> for -1 with \<^verbatim>\<open>errno\<close> set to \<open>e\<close>.
\<close>

unbundle bit_operations_syntax

type_synonym byte = "8 word"
type_synonym u16 = "16 word"
type_synonym u32 = "32 word"
type_synonym u64 = "64 word"
type_synonym blob = "byte list"

datatype errno =
  EAGAIN | EFSM | EFAULT | EINVAL | ENOTSUP | ETERM | ENOTSOCK | EPROTONOSUPPORT
  | ENOCOMPATPROTO | EMTHREAD | EADDRINUSE | ECONNREFUSED | EMFILE | ENOMEM | EINTR | EACCES

datatype rc = OK | Err errno

text \<open>\<^verbatim>\<open>zmq_assert\<close>: the process goes on only when the condition holds.\<close>

definition zmq_assert :: "bool \<Rightarrow> unit option" where
  "zmq_assert b = (if b then Some () else None)"

lemma zmq_assert_simps [simp]:
  "zmq_assert True = Some ()" "zmq_assert False = None"
  by (simp_all add: zmq_assert_def)

lemma zmq_assert_eq_Some [simp]: "zmq_assert b = Some u \<longleftrightarrow> b"
  by (simp add: zmq_assert_def)

lemma zmq_assert_eq_None [simp]: "zmq_assert b = None \<longleftrightarrow> \<not> b"
  by (simp add: zmq_assert_def)

lemma bind_assert [simp]: "b \<Longrightarrow> Option.bind (zmq_assert b) f = f ()"
  by simp

lemma bind_assert_None: "\<not> b \<Longrightarrow> Option.bind (zmq_assert b) f = None"
  by simp

section \<open>Lists\<close>

lemma butlast_nth_less: "i < length xs - 1 \<Longrightarrow> butlast xs ! i = xs ! i"
  by (simp add: nth_butlast)

lemma last_eq_nth: "xs \<noteq> [] \<Longrightarrow> last xs = xs ! (length xs - 1)"
  by (rule last_conv_nth)

lemma nth_append_len [simp]: "(xs @ y # ys) ! length xs = y"
  by (simp add: nth_append)

lemma distinct_nth_inj:
  "distinct xs \<Longrightarrow> i < length xs \<Longrightarrow> j < length xs \<Longrightarrow> xs ! i = xs ! j \<longleftrightarrow> i = j"
  by (simp add: nth_eq_iff_index_eq)

lemma upt_snoc: "i \<le> j \<Longrightarrow> [i..<Suc j] = [i..<j] @ [j]"
  by simp

lemma map_upt_cong: "(\<And>k. i \<le> k \<Longrightarrow> k < j \<Longrightarrow> f k = g k) \<Longrightarrow> map f [i..<j] = map g [i..<j]"
  by simp

end
