(* ===== verification/Wire.thy ===== *)
theory Wire
  imports Prelude
begin

text \<open>
  \<^verbatim>\<open>src/wire.hpp\<close>: big-endian conversion of integers to and from a buffer. A \<open>put_*\<close>
  returns the bytes it stores, most significant first; a \<open>get_*\<close> reads them from the front of
  a buffer.
\<close>

definition put_uint8 :: "byte \<Rightarrow> byte list" where
  "put_uint8 value = [value]"

definition get_uint8 :: "byte list \<Rightarrow> byte" where
  "get_uint8 buffer = buffer ! 0"

definition put_uint16 :: "u16 \<Rightarrow> byte list" where
  "put_uint16 value =
     [ucast (drop_bit 8 value AND 0xff), ucast (value AND 0xff)]"

definition get_uint16 :: "byte list \<Rightarrow> u16" where
  "get_uint16 buffer =
     push_bit 8 (ucast (buffer ! 0)) OR ucast (buffer ! 1)"

definition put_uint32 :: "u32 \<Rightarrow> byte list" where
  "put_uint32 value =
     [ucast (drop_bit 24 value AND 0xff), ucast (drop_bit 16 value AND 0xff),
      ucast (drop_bit 8 value AND 0xff), ucast (value AND 0xff)]"

definition get_uint32 :: "byte list \<Rightarrow> u32" where
  "get_uint32 buffer =
     push_bit 24 (ucast (buffer ! 0)) OR push_bit 16 (ucast (buffer ! 1)) OR
     push_bit 8 (ucast (buffer ! 2)) OR ucast (buffer ! 3)"

definition put_uint64 :: "u64 \<Rightarrow> byte list" where
  "put_uint64 value =
     [ucast (drop_bit 56 value AND 0xff), ucast (drop_bit 48 value AND 0xff),
      ucast (drop_bit 40 value AND 0xff), ucast (drop_bit 32 value AND 0xff),
      ucast (drop_bit 24 value AND 0xff), ucast (drop_bit 16 value AND 0xff),
      ucast (drop_bit 8 value AND 0xff), ucast (value AND 0xff)]"

definition get_uint64 :: "byte list \<Rightarrow> u64" where
  "get_uint64 buffer =
     push_bit 56 (ucast (buffer ! 0)) OR push_bit 48 (ucast (buffer ! 1)) OR
     push_bit 40 (ucast (buffer ! 2)) OR push_bit 32 (ucast (buffer ! 3)) OR
     push_bit 24 (ucast (buffer ! 4)) OR push_bit 16 (ucast (buffer ! 5)) OR
     push_bit 8 (ucast (buffer ! 6)) OR ucast (buffer ! 7)"

lemmas wire_defs =
  put_uint8_def get_uint8_def put_uint16_def get_uint16_def
  put_uint32_def get_uint32_def put_uint64_def get_uint64_def

lemma length_put [simp]:
  "length (put_uint8 a) = 1" "length (put_uint16 b) = 2"
  "length (put_uint32 c) = 4" "length (put_uint64 d) = 8"
  by (simp_all add: wire_defs)

text \<open>The mask before a narrowing cast changes nothing: the cast keeps the low eight bits.\<close>

lemma ucast_and_255 [simp]: "(ucast (x AND 0xff) :: byte) = ucast (x :: 'a::len word)"
proof -
  have "x AND 0xff = take_bit 8 x" by (simp add: take_bit_eq_mask mask_eq_exp_minus_1)
  then show ?thesis by (auto intro!: bit_word_eqI simp: bit_simps dest: bit_imp_le_length)
qed

text \<open>What one stored byte contributes to the value read back.\<close>

lemma bit_byte_at:
  "bit (push_bit k (ucast (ucast (drop_bit k v) :: byte)) :: 'a::len word) n \<longleftrightarrow>
     k \<le> n \<and> n < k + 8 \<and> n < LENGTH('a) \<and> bit (v :: 'a word) n"
  by (auto simp: bit_simps dest: bit_imp_le_length)

lemma bit_byte_at_0:
  "bit (ucast (ucast v :: byte) :: 'a::len word) n \<longleftrightarrow> n < 8 \<and> n < LENGTH('a) \<and> bit (v :: 'a word) n"
  by (auto simp: bit_simps dest: bit_imp_le_length)

lemmas byte_bits = bit_or_iff bit_byte_at bit_byte_at_0

lemma get_put_uint16 [simp]: "get_uint16 (put_uint16 v @ rest) = v"
proof (rule bit_word_eqI)
  fix n :: nat
  assume "n < LENGTH(16)"
  then show "bit (get_uint16 (put_uint16 v @ rest)) n \<longleftrightarrow> bit v n"
    by (cases "bit v n") (simp_all add: wire_defs byte_bits, linarith)
qed

lemma get_put_uint32 [simp]: "get_uint32 (put_uint32 v @ rest) = v"
proof (rule bit_word_eqI)
  fix n :: nat
  assume "n < LENGTH(32)"
  then show "bit (get_uint32 (put_uint32 v @ rest)) n \<longleftrightarrow> bit v n"
    by (cases "bit v n") (simp_all add: wire_defs byte_bits, linarith)
qed

lemma get_put_uint64 [simp]: "get_uint64 (put_uint64 v @ rest) = v"
proof (rule bit_word_eqI)
  fix n :: nat
  assume "n < LENGTH(64)"
  then show "bit (get_uint64 (put_uint64 v @ rest)) n \<longleftrightarrow> bit v n"
    by (cases "bit v n") (simp_all add: wire_defs byte_bits, linarith)
qed

text \<open>The other direction: a buffer of eight bytes is what storing the value it holds gives.\<close>

lemma bit_shifted_byte:
  "bit (push_bit k (ucast (b :: byte)) :: u64) n \<longleftrightarrow> k \<le> n \<and> n < k + 8 \<and> n < 64 \<and> bit b (n - k)"
  by (auto simp: bit_simps dest: bit_imp_le_length)

lemma bit_unshifted_byte: "bit (ucast (b :: byte) :: u64) n \<longleftrightarrow> n < 8 \<and> bit b n"
  by (auto simp: bit_simps dest: bit_imp_le_length)

lemma put_get_uint64:
  assumes "length buf = 8"
  shows "put_uint64 (get_uint64 buf) = buf"
proof -
  obtain a b c d e f g h where buf: "buf = [a, b, c, d, e, f, g, h]"
    using assms by (auto simp: eval_nat_numeral length_Suc_conv)
  have byte: "(ucast (drop_bit k (get_uint64 buf)) :: byte) = buf ! (7 - k div 8)"
    if "k \<in> {0, 8, 16, 24, 32, 40, 48, 56}" for k
    using that
    by (elim insertE; simp add: buf get_uint64_def)
       (rule bit_word_eqI,
        auto simp: bit_drop_bit_eq bit_or_iff bit_shifted_byte bit_unshifted_byte bit_ucast_iff
             dest: bit_imp_le_length)+
  show ?thesis
    using byte[of 0] byte[of 8] byte[of 16] byte[of 24] byte[of 32] byte[of 40] byte[of 48]
      byte[of 56]
    by (simp add: put_uint64_def buf)
qed

text \<open>C20: Integers survive the wire. Reading back what was stored gives the value, for each width and
  whatever bytes follow in the buffer; and storing the value read from eight bytes gives the bytes.\<close>

theorem wire_roundtrip:
  "get_uint8 (put_uint8 a @ rest) = a \<and> get_uint16 (put_uint16 b @ rest) = b \<and>
   get_uint32 (put_uint32 c @ rest) = c \<and> get_uint64 (put_uint64 d @ rest) = d \<and>
   put_uint64 (get_uint64 [x0, x1, x2, x3, x4, x5, x6, x7]) = [x0, x1, x2, x3, x4, x5, x6, x7]"
  by (simp add: put_get_uint64) (simp add: put_uint8_def get_uint8_def)

end
