(* ===== verification/Atomics.thy ===== *)
theory Atomics
  imports Prelude
begin

text \<open>
  \<^verbatim>\<open>src/atomic_ptr.hpp\<close> and \<^verbatim>\<open>src/atomic_counter.hpp\<close>. Each operation of an atomic
  object is one indivisible step: it returns the old value and the new state of the cell. All the
  implementations the headers select between (inline assembly, Windows, mutex) compute the same
  result; the model is the mutex one. The counter is a 32-bit unsigned integer and wraps around.
\<close>

section \<open>Pointers\<close>

definition atomic_ptr_xchg :: "'p option \<Rightarrow> 'p option \<Rightarrow> 'p option \<times> 'p option" where
  "atomic_ptr_xchg cell val = (cell, val)"

definition atomic_ptr_cas ::
  "'p option \<Rightarrow> 'p option \<Rightarrow> 'p option \<Rightarrow> 'p option \<times> 'p option" where
  "atomic_ptr_cas cell cmp val = (cell, if cell = cmp then val else cell)"

section \<open>Counters\<close>

definition atomic_counter_set :: "u32 \<Rightarrow> u32 \<Rightarrow> u32" where
  "atomic_counter_set cell val = val"

text \<open>Addition returns the old value.\<close>

definition atomic_counter_add :: "u32 \<Rightarrow> u32 \<Rightarrow> u32 \<times> u32" where
  "atomic_counter_add cell increment = (cell, cell + increment)"

text \<open>Subtraction returns false if the counter drops to zero.\<close>

definition atomic_counter_sub :: "u32 \<Rightarrow> u32 \<Rightarrow> bool \<times> u32" where
  "atomic_counter_sub cell decrement = (let value = cell - decrement in (value \<noteq> 0, value))"

definition atomic_counter_get :: "u32 \<Rightarrow> u32" where
  "atomic_counter_get cell = cell"

lemma counter_sub_1: "0 < unat cell \<Longrightarrow> unat (snd (atomic_counter_sub cell 1)) = unat cell - 1"
  by (simp add: atomic_counter_sub_def Let_def unat_gt_0 unat_minus_one)

lemma counter_sub_last: "fst (atomic_counter_sub cell 1) \<longleftrightarrow> cell \<noteq> 1"
  by (simp add: atomic_counter_sub_def Let_def)

lemma counter_add_1: "unat cell < 2 ^ 32 - 1 \<Longrightarrow> unat (snd (atomic_counter_add cell 1)) = Suc (unat cell)"
  by (simp add: atomic_counter_add_def unat_word_ariths)

text \<open>The counter wraps around to zero after the largest value.\<close>

lemma counter_wrap: "snd (atomic_counter_add 0xffffffff 1) = 0"
  by (simp add: atomic_counter_add_def)

end
