(* ===== verification/Msg.thy ===== *)
theory Msg
  imports Atomics
begin

text \<open>
  \<^verbatim>\<open>include/zmq.h\<close>, \<^verbatim>\<open>src/msg_content.hpp\<close> and the \<^verbatim>\<open>zmq_msg_*\<close> functions of
  \<^verbatim>\<open>src/zmq.cpp\<close>. A world holds the message structures by address (\<open>msgs\<close>), the heap
  blocks of type \<^verbatim>\<open>msg_content_t\<close> (\<open>contents\<close>) and the log of the calls of user-supplied
  deallocation functions. Every access to a block is a lookup, so \<open>None\<close> is a use after free.
  \<^verbatim>\<open>malloc\<close> serves a request of at most \<open>avail\<close> bytes; the request is computed in 64 bits, as in
  the code, and a block remembers how many bytes lie behind its header.

  \<open>msg_step\<close> is a program that uses the functions on its message structures, and \<open>world_inv\<close> is what
  the reference counts guarantee in every state such a program reaches.
\<close>

datatype content_ptr = Delimiter | Vsm | Ref nat

record zmq_msg_t =
  content :: content_ptr
  flags :: byte
  vsm_size :: byte
  vsm_data :: "byte list"

datatype data_ptr = NullPtr | VsmData nat | Inline nat | User nat

record msg_content_t =
  c_data :: data_ptr
  c_size :: u64
  c_ffn :: "nat option"
  c_hint :: nat
  c_refcnt :: u32
  c_space :: nat

record msg_world =
  msgs :: "nat \<Rightarrow> zmq_msg_t option"
  contents :: "nat \<Rightarrow> msg_content_t option"
  next_ref :: nat
  avail :: u64
  ffn_calls :: "(nat \<times> nat \<times> data_ptr \<times> nat) list"

definition ZMQ_MAX_VSM_SIZE :: u64 where "ZMQ_MAX_VSM_SIZE = 30"
definition ZMQ_MSG_MORE :: byte where "ZMQ_MSG_MORE = 1"
definition ZMQ_MSG_SHARED :: byte where "ZMQ_MSG_SHARED = 128"
definition ZMQ_MSG_MASK :: byte where "ZMQ_MSG_MASK = 129"
definition sizeof_msg_content :: u64 where "sizeof_msg_content = 40"

lemmas msg_consts = ZMQ_MSG_MORE_def ZMQ_MSG_SHARED_def ZMQ_MSG_MASK_def

definition valid_tag :: "zmq_msg_t \<Rightarrow> bool" where
  "valid_tag m \<longleftrightarrow> flags m OR ZMQ_MSG_MASK = 0xff"

definition is_shared :: "zmq_msg_t \<Rightarrow> bool" where
  "is_shared m \<longleftrightarrow> flags m AND ZMQ_MSG_SHARED \<noteq> 0"

definition put_msg :: "nat \<Rightarrow> zmq_msg_t \<Rightarrow> msg_world \<Rightarrow> msg_world" where
  "put_msg i m w = w\<lparr>msgs := (msgs w)(i \<mapsto> m)\<rparr>"

definition put_content :: "nat \<Rightarrow> msg_content_t \<Rightarrow> msg_world \<Rightarrow> msg_world" where
  "put_content a c w = w\<lparr>contents := (contents w)(a \<mapsto> c)\<rparr>"

text \<open>\<^verbatim>\<open>malloc (sizeof (msg_content_t) + extra)\<close>, with the sum in 64 bits.\<close>

definition content_malloc :: "u64 \<Rightarrow> msg_world \<Rightarrow> (nat \<times> nat) option" where
  "content_malloc extra w =
     (let req = sizeof_msg_content + extra
      in if req \<le> avail w then Some (next_ref w, unat req - unat sizeof_msg_content) else None)"

definition zmq_msg_init :: "nat \<Rightarrow> zmq_msg_t \<Rightarrow> msg_world \<Rightarrow> rc \<times> msg_world" where
  "zmq_msg_init i raw w =
     (OK, put_msg i (raw\<lparr>content := Vsm, flags := NOT ZMQ_MSG_MASK, vsm_size := 0\<rparr>) w)"

definition zmq_msg_init_size ::
  "nat \<Rightarrow> zmq_msg_t \<Rightarrow> u64 \<Rightarrow> msg_world \<Rightarrow> rc \<times> msg_world" where
  "zmq_msg_init_size i raw sz w =
     (if sz \<le> ZMQ_MAX_VSM_SIZE
      then (OK, put_msg i (raw\<lparr>content := Vsm, flags := NOT ZMQ_MSG_MASK, vsm_size := ucast sz\<rparr>) w)
      else case content_malloc sz w of
        None \<Rightarrow> (Err ENOMEM, w)
      | Some (a, space) \<Rightarrow>
          (OK, put_msg i (raw\<lparr>content := Ref a, flags := NOT ZMQ_MSG_MASK\<rparr>)
                 (put_content a \<lparr>c_data = Inline a, c_size = sz, c_ffn = None, c_hint = 0,
                                c_refcnt = 0, c_space = space\<rparr>
                   (w\<lparr>next_ref := Suc a\<rparr>))))"

definition zmq_msg_init_data ::
  "nat \<Rightarrow> zmq_msg_t \<Rightarrow> nat \<Rightarrow> u64 \<Rightarrow> nat option \<Rightarrow> nat \<Rightarrow> msg_world \<Rightarrow> (rc \<times> msg_world) option" where
  "zmq_msg_init_data i raw dat sz ffn hint w =
     (case content_malloc 0 w of
        None \<Rightarrow> None
      | Some (a, space) \<Rightarrow>
          Some (OK, put_msg i (raw\<lparr>content := Ref a, flags := NOT ZMQ_MSG_MASK\<rparr>)
                 (put_content a \<lparr>c_data = User dat, c_size = sz, c_ffn = ffn, c_hint = hint,
                                c_refcnt = 0, c_space = space\<rparr>
                   (w\<lparr>next_ref := Suc a\<rparr>))))"

text \<open>The block is released: the deallocation function runs, if there is one, then \<^verbatim>\<open>free\<close>.\<close>

definition release_content :: "nat \<Rightarrow> msg_content_t \<Rightarrow> msg_world \<Rightarrow> msg_world" where
  "release_content a c w =
     w\<lparr>contents := (contents w)(a := None),
       ffn_calls := ffn_calls w @ (case c_ffn c of None \<Rightarrow> [] | Some f \<Rightarrow> [(a, f, c_data c, c_hint c)])\<rparr>"

definition zmq_msg_close :: "nat \<Rightarrow> msg_world \<Rightarrow> (rc \<times> msg_world) option" where
  "zmq_msg_close i w = do {
     m \<leftarrow> msgs w i;
     (if flags m OR ZMQ_MSG_MASK \<noteq> 0xff then Some (Err EFAULT, w)
      else do {
        w1 \<leftarrow> (case content m of
                Ref a \<Rightarrow> do {
                  c \<leftarrow> contents w a;
                  Some (if flags m AND ZMQ_MSG_SHARED = 0 then release_content a c w
                        else let (more_refs, n) = atomic_counter_sub (c_refcnt c) 1
                             in if \<not> more_refs then release_content a (c\<lparr>c_refcnt := n\<rparr>) w
                                else put_content a (c\<lparr>c_refcnt := n\<rparr>) w)
                }
              | _ \<Rightarrow> Some w);
        Some (OK, put_msg i (m\<lparr>flags := 0\<rparr>) w1)
      })
   }"

definition zmq_msg_move :: "nat \<Rightarrow> nat \<Rightarrow> msg_world \<Rightarrow> (rc \<times> msg_world) option" where
  "zmq_msg_move dest src w = do {
     (_, w1) \<leftarrow> zmq_msg_close dest w;
     m \<leftarrow> msgs w1 src;
     Some (zmq_msg_init src m (put_msg dest m w1))
   }"

definition zmq_msg_copy :: "nat \<Rightarrow> nat \<Rightarrow> msg_world \<Rightarrow> (rc \<times> msg_world) option" where
  "zmq_msg_copy dest src w = do {
     d \<leftarrow> msgs w dest;
     s \<leftarrow> msgs w src;
     (if flags d OR ZMQ_MSG_MASK \<noteq> 0xff \<or> flags s OR ZMQ_MSG_MASK \<noteq> 0xff then Some (Err EFAULT, w)
      else do {
        (_, w1) \<leftarrow> zmq_msg_close dest w;
        s1 \<leftarrow> msgs w1 src;
        w2 \<leftarrow> (case content s1 of
                Ref a \<Rightarrow> do {
                  c \<leftarrow> contents w1 a;
                  Some (if flags s1 AND ZMQ_MSG_SHARED \<noteq> 0
                        then put_content a (c\<lparr>c_refcnt := snd (atomic_counter_add (c_refcnt c) 1)\<rparr>) w1
                        else put_content a (c\<lparr>c_refcnt := atomic_counter_set (c_refcnt c) 2\<rparr>)
                               (put_msg src (s1\<lparr>flags := flags s1 OR ZMQ_MSG_SHARED\<rparr>) w1))
                }
              | _ \<Rightarrow> Some w1);
        s2 \<leftarrow> msgs w2 src;
        Some (OK, put_msg dest s2 w2)
      })
   }"

definition zmq_msg_data :: "nat \<Rightarrow> msg_world \<Rightarrow> data_ptr option" where
  "zmq_msg_data i w = do {
     m \<leftarrow> msgs w i;
     zmq_assert (flags m OR ZMQ_MSG_MASK = 0xff);
     (case content m of
        Vsm \<Rightarrow> Some (VsmData i)
      | Delimiter \<Rightarrow> Some NullPtr
      | Ref a \<Rightarrow> map_option c_data (contents w a))
   }"

definition zmq_msg_size :: "nat \<Rightarrow> msg_world \<Rightarrow> u64 option" where
  "zmq_msg_size i w = do {
     m \<leftarrow> msgs w i;
     zmq_assert (flags m OR ZMQ_MSG_MASK = 0xff);
     (case content m of
        Vsm \<Rightarrow> Some (ucast (vsm_size m))
      | Delimiter \<Rightarrow> Some 0
      | Ref a \<Rightarrow> map_option c_size (contents w a))
   }"

section \<open>Programs that use messages\<close>

text \<open>
  One call of the API. The arguments follow its rules: a structure that is initialised holds no
  message (it is fresh or closed), the other operations get initialised ones, and source and
  destination differ.
\<close>

definition live :: "msg_world \<Rightarrow> nat \<Rightarrow> bool" where
  "live w i \<longleftrightarrow> (\<exists>m. msgs w i = Some m \<and> valid_tag m)"

inductive msg_step :: "msg_world \<Rightarrow> msg_world \<Rightarrow> bool" where
  step_init: "\<not> live w i \<Longrightarrow> zmq_msg_init i raw w = (rc, w') \<Longrightarrow> msg_step w w'"
| step_size: "\<not> live w i \<Longrightarrow> zmq_msg_init_size i raw sz w = (rc, w') \<Longrightarrow> msg_step w w'"
| step_data: "\<not> live w i \<Longrightarrow> zmq_msg_init_data i raw d sz f h w = Some (rc, w') \<Longrightarrow> msg_step w w'"
| step_close: "zmq_msg_close i w = Some (rc, w') \<Longrightarrow> msg_step w w'"
| step_move: "i \<noteq> j \<Longrightarrow> live w i \<Longrightarrow> live w j \<Longrightarrow> zmq_msg_move i j w = Some (rc, w') \<Longrightarrow> msg_step w w'"
| step_copy: "i \<noteq> j \<Longrightarrow> zmq_msg_copy i j w = Some (rc, w') \<Longrightarrow> msg_step w w'"

definition empty_world :: "u64 \<Rightarrow> msg_world" where
  "empty_world av = \<lparr>msgs = (\<lambda>_. None), contents = (\<lambda>_. None), next_ref = 0, avail = av, ffn_calls = []\<rparr>"

inductive msg_reachable :: "u64 \<Rightarrow> msg_world \<Rightarrow> bool" for av where
  start: "msg_reachable av (empty_world av)"
| step: "msg_reachable av w \<Longrightarrow> msg_step w w' \<Longrightarrow> card (dom (msgs w')) < 2 ^ 32 \<Longrightarrow>
    msg_reachable av w'"

text \<open>The structures that hold a block.\<close>

definition holders :: "msg_world \<Rightarrow> nat \<Rightarrow> nat set" where
  "holders w a = {i. \<exists>m. msgs w i = Some m \<and> valid_tag m \<and> content m = Ref a}"

definition counted :: "msg_world \<Rightarrow> nat \<Rightarrow> msg_content_t \<Rightarrow> bool" where
  "counted w a c \<longleftrightarrow>
     (\<forall>i \<in> holders w a. is_shared (the (msgs w i))) \<and> unat (c_refcnt c) = card (holders w a) \<or>
     (\<exists>i. holders w a = {i} \<and> \<not> is_shared (the (msgs w i)))"

definition world_inv :: "msg_world \<Rightarrow> bool" where
  "world_inv w \<longleftrightarrow>
     finite (dom (msgs w)) \<and> card (dom (msgs w)) < 2 ^ 32 \<and>
     (\<forall>a. contents w a = None \<longleftrightarrow> holders w a = {}) \<and>
     (\<forall>a c. contents w a = Some c \<longrightarrow> counted w a c) \<and>
     (\<forall>a \<in> dom (contents w). a < next_ref w) \<and>
     distinct (map fst (ffn_calls w)) \<and>
     (\<forall>a \<in> fst ` set (ffn_calls w). a < next_ref w \<and> contents w a = None)"

section \<open>Reference counts\<close>

lemma fresh_flags [simp]:
  "valid_tag (m\<lparr>flags := 126\<rparr>)" "\<not> is_shared (m\<lparr>flags := 126\<rparr>)"
  "valid_tag (m\<lparr>flags := 126, vsm_size := s\<rparr>)" "\<not> is_shared (m\<lparr>flags := 126, vsm_size := s\<rparr>)"
  "\<not> valid_tag (m\<lparr>flags := 0\<rparr>)" "NOT ZMQ_MSG_MASK = (126 :: byte)"
  by (simp_all add: valid_tag_def is_shared_def msg_consts)

lemma shared_flags:
  "valid_tag m \<Longrightarrow> valid_tag (m\<lparr>flags := flags m OR ZMQ_MSG_SHARED\<rparr>)"
  "is_shared (m\<lparr>flags := flags m OR ZMQ_MSG_SHARED\<rparr>)"
proof -
  have "(f OR 128) OR 129 = f OR 129" for f :: byte
    by (simp add: or.assoc)
  then show "valid_tag m \<Longrightarrow> valid_tag (m\<lparr>flags := flags m OR ZMQ_MSG_SHARED\<rparr>)"
    by (simp add: valid_tag_def msg_consts)
  have "bit ((f OR 128) AND 128) 7" for f :: byte
    by (simp add: bit_simps)
  then have "(f OR 128) AND 128 \<noteq> 0" for f :: byte
    by (metis bit_0_eq bot_apply bot_bool_def)
  then show "is_shared (m\<lparr>flags := flags m OR ZMQ_MSG_SHARED\<rparr>)"
    by (simp add: is_shared_def msg_consts)
qed

lemma holders_put_msg [simp]:
  "holders (put_msg i m w) a =
     (if valid_tag m \<and> content m = Ref a then insert i (holders w a) else holders w a - {i})"
  by (auto simp: holders_def put_msg_def)

lemma holders_cong: "msgs w = msgs w' \<Longrightarrow> holders w = holders w'"
  by (simp add: holders_def fun_eq_iff)

lemma put_sels [simp]:
  "msgs (put_msg i m w) = (msgs w)(i \<mapsto> m)" "contents (put_msg i m w) = contents w"
  "next_ref (put_msg i m w) = next_ref w" "ffn_calls (put_msg i m w) = ffn_calls w"
  "avail (put_msg i m w) = avail w"
  "msgs (put_content a c w) = msgs w" "contents (put_content a c w) = (contents w)(a \<mapsto> c)"
  "next_ref (put_content a c w) = next_ref w" "ffn_calls (put_content a c w) = ffn_calls w"
  "avail (put_content a c w) = avail w"
  "msgs (release_content a c w) = msgs w" "contents (release_content a c w) = (contents w)(a := None)"
  "ffn_calls (release_content a c w) = ffn_calls w @
     (case c_ffn c of None \<Rightarrow> [] | Some f \<Rightarrow> [(a, f, c_data c, c_hint c)])"
  "next_ref (release_content a c w) = next_ref w" "avail (release_content a c w) = avail w"
  by (simp_all add: put_msg_def put_content_def release_content_def)

lemma holders_other [simp]:
  "holders (put_content a c w) = holders w" "holders (release_content a c w) = holders w"
  "holders (w\<lparr>next_ref := n\<rparr>) = holders w"
  by (simp_all add: holders_def fun_eq_iff)

lemma holders_iff: "msgs w i = Some m \<Longrightarrow> i \<in> holders w a \<longleftrightarrow> valid_tag m \<and> content m = Ref a"
  by (simp add: holders_def)

text \<open>A change that concerns one block and the structures that hold it.\<close>

lemma world_inv_change:
  assumes inv: "world_inv w"
    and dom: "finite (dom (msgs w'))" "card (dom (msgs w')) < 2 ^ 32"
    and other: "\<And>b. b \<noteq> a \<Longrightarrow> contents w' b = contents w b"
      "\<And>b. b \<noteq> a \<Longrightarrow> holders w' b = holders w b"
      "\<And>b j. b \<noteq> a \<Longrightarrow> j \<in> holders w b \<Longrightarrow> msgs w' j = msgs w j"
    and at_a: "contents w' a = None \<longleftrightarrow> holders w' a = {}"
      "\<And>c. contents w' a = Some c \<Longrightarrow> counted w' a c"
    and nr: "next_ref w \<le> next_ref w'" "a < next_ref w' \<or> contents w' a = None"
    and log: "distinct (map fst (ffn_calls w'))"
      "\<And>b x. (b, x) \<in> set (ffn_calls w') \<Longrightarrow> b < next_ref w'"
      "\<And>b x. (b, x) \<in> set (ffn_calls w') \<Longrightarrow> contents w' b = None"
  shows "world_inv w'"
  unfolding world_inv_def
proof (intro conjI allI impI ballI)
  fix b
  show "contents w' b = None \<longleftrightarrow> holders w' b = {}"
    using inv other(1,2)[of b] at_a(1) by (cases "b = a") (auto simp: world_inv_def)
  show "counted w' b c" if c: "contents w' b = Some c" for c
  proof (cases "b = a")
    case False
    then have "counted w b c" "holders w' b = holders w b"
      "\<And>j. j \<in> holders w b \<Longrightarrow> msgs w' j = msgs w j"
      using inv other c by (auto simp: world_inv_def)
    then show ?thesis by (auto simp: counted_def)
  qed (use c at_a(2) in simp)
  show "b < next_ref w'" if "b \<in> dom (contents w')"
  proof (cases "b = a")
    case False
    then have "b < next_ref w"
      using that inv other(1)[of b] by (auto simp: world_inv_def dom_def)
    then show ?thesis using nr(1) by simp
  qed (use that nr in auto)
qed (use dom log in auto)

lemma dom_put_msg: "msgs w i = Some m \<Longrightarrow> dom ((msgs w)(i \<mapsto> m')) = dom (msgs w)"
  by auto

lemma world_invD:
  assumes "world_inv w"
  shows "finite (dom (msgs w))" "card (dom (msgs w)) < 2 ^ 32"
    "contents w a = None \<longleftrightarrow> holders w a = {}" "contents w a = Some c \<Longrightarrow> counted w a c"
    "contents w a = Some c \<Longrightarrow> a < next_ref w" "distinct (map fst (ffn_calls w))"
    "(b, x) \<in> set (ffn_calls w) \<Longrightarrow> b < next_ref w" "(b, x) \<in> set (ffn_calls w) \<Longrightarrow> contents w b = None"
    "finite (holders w a)" "card (holders w a) < 2 ^ 32"
proof -
  have "holders w a \<subseteq> dom (msgs w)" by (auto simp: holders_def)
  then show "finite (holders w a)" "card (holders w a) < 2 ^ 32"
    using assms card_mono[of "dom (msgs w)" "holders w a"]
    by (auto simp: world_inv_def intro: finite_subset)
qed (use assms in \<open>auto simp: world_inv_def\<close>)

lemma holder_content:
  assumes "world_inv w" "msgs w i = Some m" "valid_tag m" "content m = Ref a"
  obtains c where "contents w a = Some c" "counted w a c" "i \<in> holders w a"
    "a \<notin> fst ` set (ffn_calls w)"
proof -
  have i: "i \<in> holders w a" using assms(2-4) by (auto simp: holders_def)
  then obtain c where c: "contents w a = Some c"
    using world_invD(3)[OF assms(1)] by fastforce
  have "a \<notin> fst ` set (ffn_calls w)" using world_invD(8)[OF assms(1), of a] c by auto
  then show ?thesis using that[OF c] world_invD(4)[OF assms(1) c] i by blast
qed

text \<open>Replacing a structure that holds no block, by one that holds none.\<close>

lemma world_inv_irrelevant:
  assumes "world_inv w" "msgs w i = Some m" "valid_tag m \<Longrightarrow> \<forall>a. content m \<noteq> Ref a"
    "valid_tag m' \<Longrightarrow> \<forall>a. content m' \<noteq> Ref a"
  shows "world_inv (put_msg i m' w)"
proof -
  have i: "i \<notin> holders w a" "holders w a - {i} = holders w a" for a
    using assms(2,3) by (auto simp: holders_def)
  have dom: "insert i (dom (msgs w)) = dom (msgs w)" using assms(2) by auto
  have out: "contents w (next_ref w) = None"
    using world_invD(5)[OF assms(1)] by (cases "contents w (next_ref w)") auto
  show ?thesis
    using i out dom world_invD(1,2,5-8)[OF assms(1)] assms(4) world_invD(3)[OF assms(1), of "next_ref w"]
    by (intro world_inv_change[OF assms(1), of _ "next_ref w"]) auto
qed

text \<open>Closing: the structure leaves the holders of its block, which is released with the last one.\<close>

lemma zmq_msg_close_inv:
  assumes inv: "world_inv w" and m: "msgs w i = Some m"
  shows "\<exists>w'. zmq_msg_close i w = Some (if valid_tag m then OK else Err EFAULT, w') \<and> world_inv w' \<and>
    msgs w' = (if valid_tag m then (msgs w)(i \<mapsto> m\<lparr>flags := 0\<rparr>) else msgs w) \<and>
    (\<forall>a. contents w' a = None \<longleftrightarrow> holders w a \<subseteq> {i}) \<and> next_ref w' = next_ref w"
proof (cases "valid_tag m")
  case False
  then have "holders w a \<subseteq> {i} \<longleftrightarrow> holders w a = {}" for a
    using m by (auto simp: holders_def)
  then show ?thesis
    using False m inv world_invD(3)[OF inv]
    by (auto simp: zmq_msg_close_def valid_tag_def)
next
  case True
  let ?m = "m\<lparr>flags := 0\<rparr>"
  have dom: "insert i (dom (msgs w)) = dom (msgs w)" using m by auto
  have "\<exists>w1. zmq_msg_close i w = Some (OK, put_msg i ?m w1) \<and> world_inv (put_msg i ?m w1) \<and>
      msgs w1 = msgs w \<and> next_ref w1 = next_ref w"
  proof (cases "content m")
    case (Ref a)
    obtain c where c: "contents w a = Some c" "counted w a c" "i \<in> holders w a"
        "a \<notin> fst ` set (ffn_calls w)"
      using holder_content[OF inv m True Ref] .
    have out: "i \<notin> holders w b" if "b \<noteq> a" for b
      using m Ref that by (auto simp: holders_def)
    show ?thesis
    proof (cases "holders w a = {i}")
      case True': True
      then have one: "\<not> is_shared m \<or> unat (c_refcnt c) = 1"
        using c(2) m by (auto simp: counted_def)
      then have cnt: "is_shared m \<Longrightarrow> \<not> fst (atomic_counter_sub (c_refcnt c) 1)"
        by (simp add: counter_sub_last word_unat_eq_iff)
      define c' where "c' = (if is_shared m then c\<lparr>c_refcnt := snd (atomic_counter_sub (c_refcnt c) 1)\<rparr> else c)"
      let ?w1 = "release_content a c' w"
      have "zmq_msg_close i w = Some (OK, put_msg i ?m ?w1)"
        using m True Ref c(1) cnt
        by (auto simp: zmq_msg_close_def valid_tag_def is_shared_def c'_def split: prod.splits)
      moreover have "world_inv (put_msg i ?m ?w1)"
        using out True' world_invD(1,2,5-8)[OF inv] c(4,1) m
        by (intro world_inv_change[OF inv, of _ a])
          (auto simp: dom split: option.splits)
      ultimately show ?thesis by auto
    next
      case False
      then obtain j where j: "j \<in> holders w a" "j \<noteq> i" using c(3) by auto
      then have "holders w a \<noteq> {k}" for k using c(3) by auto
      then have sh: "\<forall>k \<in> holders w a. is_shared (the (msgs w k))"
          "unat (c_refcnt c) = card (holders w a)"
        using c(2) by (auto simp: counted_def)
      have two: "1 < card (holders w a)"
        using j c(3) card_mono[of "holders w a" "{i, j}"] world_invD(9)[OF inv] by auto
      then have pos: "0 < unat (c_refcnt c)" "c_refcnt c \<noteq> 1" using sh(2) by auto
      let ?c = "c\<lparr>c_refcnt := snd (atomic_counter_sub (c_refcnt c) 1)\<rparr>"
      let ?w1 = "put_content a ?c w"
      have "zmq_msg_close i w = Some (OK, put_msg i ?m ?w1)"
        using m True Ref c(1,3) sh(1) pos(2) counter_sub_last[of "c_refcnt c"]
        by (auto simp: zmq_msg_close_def valid_tag_def is_shared_def split: prod.splits)
      moreover have "counted (put_msg i ?m ?w1) a ?c"
        using sh c(3) world_invD(9)[OF inv, of a] counter_sub_1[OF pos(1)]
        by (auto simp: counted_def)
      ultimately show ?thesis
        using out world_invD(1,2,5-8)[OF inv] c(1,4) m j
        by (intro exI[of _ ?w1] conjI world_inv_change[OF inv, of _ a]) (auto simp: dom)
    qed
  qed (use m True world_inv_irrelevant[OF inv m, of ?m] in \<open>auto simp: zmq_msg_close_def valid_tag_def\<close>)
  then obtain w1 where w1: "zmq_msg_close i w = Some (OK, put_msg i ?m w1)"
      "world_inv (put_msg i ?m w1)" "msgs w1 = msgs w" "next_ref w1 = next_ref w" by blast
  have "holders w1 = holders w" using w1(3) by (rule holders_cong)
  then have "contents w1 a = None \<longleftrightarrow> holders w a \<subseteq> {i}" for a
    using world_invD(3)[OF w1(2), of a] by auto
  then show ?thesis using w1 True by auto
qed

lemma not_live_holders: "\<not> live w i \<Longrightarrow> i \<notin> holders w a"
  by (auto simp: live_def holders_def)

lemma contents_next_ref: "world_inv w \<Longrightarrow> contents w (next_ref w) = None"
  using world_invD(5)[of w "next_ref w"] by (cases "contents w (next_ref w)") auto

lemma init_inv:
  assumes inv: "world_inv w" and i: "\<not> live w i" "card (insert i (dom (msgs w))) < 2 ^ 32"
  shows "content m = Vsm \<Longrightarrow> world_inv (put_msg i m w)"
    and "content m = Ref (next_ref w) \<Longrightarrow> valid_tag m \<Longrightarrow> \<not> is_shared m \<Longrightarrow>
      world_inv (put_msg i m (put_content (next_ref w) c (w\<lparr>next_ref := Suc (next_ref w)\<rparr>)))"
proof -
  note D = world_invD(1,2,5-8)[OF inv] contents_next_ref[OF inv]
    world_invD(3)[OF inv, of "next_ref w"] not_live_holders[OF i(1)]
  have new: "(next_ref w, x) \<notin> set (ffn_calls w)" for x
    using world_invD(7)[OF inv] by blast
  show "world_inv (put_msg i m w)" if "content m = Vsm"
    using D i(2) that by (intro world_inv_change[OF inv, of _ "next_ref w"]) auto
  show "world_inv (put_msg i m (put_content (next_ref w) c (w\<lparr>next_ref := Suc (next_ref w)\<rparr>)))"
    if "content m = Ref (next_ref w)" "valid_tag m" "\<not> is_shared m"
    using D i(2) that new
    by (intro world_inv_change[OF inv, of _ "next_ref w"]) (auto simp: counted_def less_SucI)
qed

lemma zmq_msg_move_inv:
  assumes inv: "world_inv w" and ij: "i \<noteq> j" "msgs w i = Some d" "msgs w j = Some s" "valid_tag s"
  shows "\<exists>w'. zmq_msg_move i j w = Some (OK, w') \<and> world_inv w' \<and>
    msgs w' = (msgs w)(i \<mapsto> s, j \<mapsto> s\<lparr>content := Vsm, flags := 126, vsm_size := 0\<rparr>) \<and>
    (\<forall>a. contents w' a = None \<longleftrightarrow> holders w a \<subseteq> {i})"
proof -
  obtain w1 where w1: "zmq_msg_close i w = Some (if valid_tag d then OK else Err EFAULT, w1)" "world_inv w1"
      "msgs w1 = (if valid_tag d then (msgs w)(i \<mapsto> d\<lparr>flags := 0\<rparr>) else msgs w)"
      "\<forall>a. contents w1 a = None \<longleftrightarrow> holders w a \<subseteq> {i}"
    using zmq_msg_close_inv[OF inv ij(2)] by blast
  let ?s = "s\<lparr>content := Vsm, flags := 126, vsm_size := 0\<rparr>"
  let ?w = "put_msg j ?s (put_msg i s w1)"
  have j: "msgs w1 j = Some s" using w1(3) ij by auto
  have i: "i \<notin> holders w1 b" for b using w1(3) ij(2) by (auto simp: holders_def)
  have dom: "insert j (insert i (dom (msgs w1))) = dom (msgs w1)"
    using w1(3) ij(2,3) by auto
  have "world_inv ?w"
  proof (cases "content s")
    case (Ref a)
    obtain c where c: "contents w1 a = Some c" "counted w1 a c" "j \<in> holders w1 a"
        "a \<notin> fst ` set (ffn_calls w1)"
      using holder_content[OF w1(2) j ij(4) Ref] .
    have h: "holders ?w a = insert i (holders w1 a - {j})"
      using Ref ij(1,4) i by auto
    have card: "card (holders ?w a) = card (holders w1 a)"
      using c(3) i[of a] world_invD(9)[OF w1(2), of a] card_Suc_Diff1[of "holders w1 a" j]
      unfolding h by simp
    have at: "msgs ?w k = (if k = i then Some s else msgs w1 k)" if "k \<in> insert i (holders w1 a - {j})" for k
      using that ij(1) by auto
    have "counted ?w a c"
      using c(2)[unfolded counted_def]
    proof (elim disjE conjE exE)
      assume "\<forall>k \<in> holders w1 a. is_shared (the (msgs w1 k))" "unat (c_refcnt c) = card (holders w1 a)"
      then have "\<forall>k \<in> holders ?w a. is_shared (the (msgs ?w k))" "unat (c_refcnt c) = card (holders ?w a)"
        using c(3) j card unfolding h by (auto simp del: put_sels simp: at)
      then show "counted ?w a c" unfolding counted_def by blast
    next
      fix k assume k: "holders w1 a = {k}" "\<not> is_shared (the (msgs w1 k))"
      then have "k = j" using c(3) by simp
      then have "holders ?w a = {i}" using h k(1) by auto
      moreover have "\<not> is_shared (the (msgs ?w i))" using k(2) j at[of i] \<open>k = j\<close> by simp
      ultimately show "counted ?w a c" unfolding counted_def by blast
    qed
    then show ?thesis
      using h c j i world_invD(1,2,5-8)[OF w1(2)] Ref ij(1)
      by (intro world_inv_change[OF w1(2), of _ a]) (auto simp: dom holders_iff[OF j])
  next
    case Vsm
    show ?thesis
      using Vsm i j world_invD(1,2,5-8)[OF w1(2)] contents_next_ref[OF w1(2)]
        world_invD(3)[OF w1(2), of "next_ref w1"]
      by (intro world_inv_change[OF w1(2), of _ "next_ref w1"]) (auto simp: dom holders_iff[OF j])
  next
    case Delimiter
    show ?thesis
      using Delimiter i j world_invD(1,2,5-8)[OF w1(2)] contents_next_ref[OF w1(2)]
        world_invD(3)[OF w1(2), of "next_ref w1"]
      by (intro world_inv_change[OF w1(2), of _ "next_ref w1"]) (auto simp: dom holders_iff[OF j])
  qed
  moreover have "zmq_msg_move i j w = Some (OK, ?w)"
    using w1(1) j ij(1) by (simp add: zmq_msg_move_def zmq_msg_init_def)
  moreover have "msgs ?w = (msgs w)(i \<mapsto> s, j \<mapsto> ?s)" using w1(3) by auto
  ultimately show ?thesis using w1(4) by auto
qed

text \<open>Copying: the source becomes shared with its block counting both holders.\<close>

lemma copy_shared_inv:
  assumes inv: "world_inv w" and ij: "i \<noteq> j" "\<not> live w i" "msgs w j = Some s" "valid_tag s"
    and d: "i \<in> dom (msgs w)" and a: "content s = Ref a" "contents w a = Some c"
    and s': "s' = (if is_shared s then s else s\<lparr>flags := flags s OR ZMQ_MSG_SHARED\<rparr>)"
    and c': "c' = c\<lparr>c_refcnt := if is_shared s then c_refcnt c + 1 else 2\<rparr>"
  shows "world_inv (put_msg i s' (put_msg j s' (put_content a c' w)))" (is "world_inv ?w")
proof -
  have c: "counted w a c" using world_invD(4)[OF inv a(2)] .
  have j: "j \<in> holders w a" using holders_iff[OF ij(3)] ij(4) a(1) by simp
  have i: "i \<notin> holders w b" for b using not_live_holders[OF ij(2)] .
  have v: "valid_tag s'" "content s' = Ref a" "is_shared s'"
    using s' ij(4) a(1) shared_flags[of s] by auto
  have dom: "insert j (insert i (dom (msgs w))) = dom (msgs w)" using d ij(3) by auto
  have h: "holders ?w b = (if b = a then insert i (holders w a) else holders w b)" for b
    using v j i ij(1) holders_iff[OF ij(3), of b] a(1) by auto
  have card: "card (holders ?w a) = Suc (card (holders w a))"
    using h[of a] i[of a] world_invD(9)[OF inv, of a] by simp
  have le: "card (holders ?w a) \<le> card (dom (msgs w))"
    using world_invD(1)[OF inv] d j by (intro card_mono) (auto simp: h, auto simp: holders_def)
  have at: "msgs ?w k = (if k = i \<or> k = j then Some s' else msgs w k)" for k by simp
  have "counted ?w a c'"
  proof (cases "is_shared s")
    case True
    then have "\<forall>k \<in> holders w a. is_shared (the (msgs w k))" "unat (c_refcnt c) = card (holders w a)"
      using c j ij(3) unfolding counted_def by auto
    moreover have "unat (c_refcnt c + 1) = Suc (unat (c_refcnt c))"
      using counter_add_1[of "c_refcnt c"] calculation(2) le card world_invD(2)[OF inv]
      by (simp add: atomic_counter_add_def)
    ultimately show ?thesis
      unfolding counted_def h using True c' v(3) at card h[of a] by auto
  next
    case False
    then have "holders w a = {j}" using c j ij(3) unfolding counted_def by auto
    then show ?thesis
      using False c' v(3) h[of a] at ij(1) by (auto simp: counted_def)
  qed
  then show ?thesis
    using h i v(1,2) holders_iff[OF ij(3)] ij(4) a world_invD(1,2,5-8)[OF inv]
    by (intro world_inv_change[OF inv, of _ a]) (auto simp: dom insert_commute[of i j])
qed

lemma copy_plain:
  assumes "zmq_msg_close i w = Some (OK, w1)" "world_inv w1" "msgs w1 = (msgs w)(i \<mapsto> d\<lparr>flags := 0\<rparr>)"
    and ij: "i \<noteq> j" "msgs w i = Some d" "msgs w j = Some s" "valid_tag d" "valid_tag s"
    and s: "content s = Vsm \<or> content s = Delimiter"
  shows "zmq_msg_copy i j w = Some (OK, put_msg i s w1) \<and> world_inv (put_msg i s w1) \<and>
    msgs (put_msg i s w1) = (msgs w)(i \<mapsto> s, j \<mapsto> s)"
proof (intro conjI)
  show "zmq_msg_copy i j w = Some (OK, put_msg i s w1)"
    using assms by (auto simp: zmq_msg_copy_def valid_tag_def)
  show "world_inv (put_msg i s w1)"
    using world_inv_irrelevant[OF assms(2), of i "d\<lparr>flags := 0\<rparr>" s] assms(3) s by auto
  show "msgs (put_msg i s w1) = (msgs w)(i \<mapsto> s, j \<mapsto> s)"
    using assms(3) ij by (auto simp: fun_eq_iff)
qed

lemma zmq_msg_copy_inv:
  assumes inv: "world_inv w" and ij: "i \<noteq> j" "msgs w i = Some d" "msgs w j = Some s"
    and v: "valid_tag d" "valid_tag s"
  shows "\<exists>w' s'. zmq_msg_copy i j w = Some (OK, w') \<and> world_inv w' \<and>
    msgs w' = (msgs w)(i \<mapsto> s', j \<mapsto> s') \<and> valid_tag s' \<and> content s' = content s \<and>
    vsm_size s' = vsm_size s \<and> vsm_data s' = vsm_data s"
proof -
  obtain w1 where w1: "zmq_msg_close i w = Some (OK, w1)" "world_inv w1"
      "msgs w1 = (msgs w)(i \<mapsto> d\<lparr>flags := 0\<rparr>)"
    using zmq_msg_close_inv[OF inv ij(2)] v(1) by auto
  have j: "msgs w1 j = Some s" using w1(3) ij by auto
  have i: "\<not> live w1 i" "i \<in> dom (msgs w1)" using w1(3) by (auto simp: live_def)
  show ?thesis
  proof (cases "content s")
    case (Ref a)
    obtain c where c: "contents w1 a = Some c" using holder_content[OF w1(2) j v(2) Ref] by blast
    define s' where "s' = (if is_shared s then s else s\<lparr>flags := flags s OR ZMQ_MSG_SHARED\<rparr>)"
    define c' where "c' = c\<lparr>c_refcnt := if is_shared s then c_refcnt c + 1 else 2\<rparr>"
    let ?w = "put_msg i s' (put_msg j s' (put_content a c' w1))"
    have "zmq_msg_copy i j w = Some (OK, ?w)"
      using w1(1) ij v j Ref c
      by (auto simp: zmq_msg_copy_def valid_tag_def is_shared_def s'_def c'_def
          atomic_counter_add_def atomic_counter_set_def put_msg_def put_content_def fun_upd_idem)
    moreover have "world_inv ?w"
      using copy_shared_inv[OF w1(2) ij(1) i(1) j v(2) i(2) Ref c s'_def c'_def] .
    moreover have "valid_tag s'" "content s' = content s" "vsm_size s' = vsm_size s" "vsm_data s' = vsm_data s"
      using shared_flags(1)[OF v(2)] v(2) by (auto simp: s'_def)
    moreover have "msgs ?w = (msgs w)(i \<mapsto> s', j \<mapsto> s')" using w1(3) ij(1) by auto
    ultimately show ?thesis by blast
  next
    case Vsm
    then show ?thesis
      using copy_plain[OF w1(1,2,3) ij v] v(2)
      by (intro exI[of _ "put_msg i s w1"] exI[of _ s]) auto
  next
    case Delimiter
    then show ?thesis
      using copy_plain[OF w1(1,2,3) ij v] v(2)
      by (intro exI[of _ "put_msg i s w1"] exI[of _ s]) auto
  qed
qed

section \<open>Properties\<close>

lemma empty_world_inv: "world_inv (empty_world av)"
  by (simp add: world_inv_def empty_world_def holders_def)

lemma dom_if_upd [simp]: "dom (\<lambda>a. if a = i then Some x else f a) = insert i (dom f)"
  by auto

lemma msg_step_inv:
  assumes "msg_step w w'" "world_inv w" "card (dom (msgs w')) < 2 ^ 32"
  shows "world_inv w'"
  using assms
proof (induction rule: msg_step.induct)
  case (step_init w i raw rc w')
  then have "w' = put_msg i (raw\<lparr>content := Vsm, flags := 126, vsm_size := 0\<rparr>) w"
    by (simp add: zmq_msg_init_def)
  moreover from this have "dom (msgs w') = insert i (dom (msgs w))" by (auto simp: dom_def)
  then have "card (insert i (dom (msgs w))) < 2 ^ 32" using step_init(4) by metis
  ultimately show ?case
    using init_inv(1)[OF step_init(3,1), of "raw\<lparr>content := Vsm, flags := 126, vsm_size := 0\<rparr>"] by simp
next
  case (step_size w i raw sz rc w')
  let ?m = "raw\<lparr>content := Ref (next_ref w), flags := 126\<rparr>"
  show ?case
  proof (cases "sz \<le> ZMQ_MAX_VSM_SIZE")
    case True
    then show ?thesis
      using step_size init_inv(1)[of w i "raw\<lparr>content := Vsm, flags := 126, vsm_size := ucast sz\<rparr>"]
      by (auto simp: zmq_msg_init_size_def)
  next
    case False
    then show ?thesis
      using step_size init_inv(2)[of w i ?m]
      by (auto simp: zmq_msg_init_size_def content_malloc_def Let_def split: if_splits option.splits)
  qed
next
  case (step_data w i raw d sz f h rc w')
  then show ?case
    using init_inv(2)[of w i "raw\<lparr>content := Ref (next_ref w), flags := 126\<rparr>"]
    by (auto simp: zmq_msg_init_data_def content_malloc_def Let_def split: if_splits option.splits)
next
  case (step_close i w rc w')
  then obtain m where "msgs w i = Some m" by (auto simp: zmq_msg_close_def split: bind_splits)
  then show ?case using zmq_msg_close_inv[of w i m] step_close by auto
next
  case (step_move i j w rc w')
  then obtain d s where "msgs w i = Some d" "msgs w j = Some s" "valid_tag s" by (auto simp: live_def)
  then show ?case using zmq_msg_move_inv[of w i j d s] step_move by auto
next
  case (step_copy i j w rc w')
  then obtain d s where ds: "msgs w i = Some d" "msgs w j = Some s"
    by (auto simp: zmq_msg_copy_def split: bind_splits)
  show ?case
  proof (cases "valid_tag d \<and> valid_tag s")
    case True
    then show ?thesis using ds zmq_msg_copy_inv[of w i j d s] step_copy by auto
  next
    case False
    then show ?thesis using ds step_copy by (auto simp: zmq_msg_copy_def valid_tag_def)
  qed
qed

lemma msg_reachable_inv: "msg_reachable av w \<Longrightarrow> world_inv w"
  by (induction rule: msg_reachable.induct) (auto intro: empty_world_inv msg_step_inv)


text \<open>C6: The message API touches no freed memory. In every reachable state, closing any structure,
  moving or copying between two different live structures, and reading the data and the size
  of a live one all access allocated blocks only.\<close>

theorem msg_api_memory_safe:
  assumes "msg_reachable av w" and "live w i" "live w j" "i \<noteq> j"
  shows "\<exists>w1 w2 w3 d n. zmq_msg_close i w = Some (OK, w1) \<and> zmq_msg_move i j w = Some (OK, w2) \<and>
    zmq_msg_copy i j w = Some (OK, w3) \<and> zmq_msg_data i w = Some d \<and> zmq_msg_size i w = Some n"
proof -
  note inv = msg_reachable_inv[OF assms(1)]
  obtain m m' where m: "msgs w i = Some m" "valid_tag m" "msgs w j = Some m'" "valid_tag m'"
    using assms(2,3) by (auto simp: live_def)
  have "content m = Ref a \<Longrightarrow> \<exists>c. contents w a = Some c" for a
    using holder_content[OF inv m(1,2)] by metis
  then have "\<exists>d n. zmq_msg_data i w = Some d \<and> zmq_msg_size i w = Some n"
    using m(1,2) by (cases "content m") (auto simp: zmq_msg_data_def zmq_msg_size_def valid_tag_def)
  then show ?thesis
    using zmq_msg_close_inv[OF inv m(1)] m zmq_msg_move_inv[OF inv assms(4) m(1,3,4)]
      zmq_msg_copy_inv[OF inv assms(4) m(1,3,2,4)] by auto
qed

text \<open>A program that wraps a user buffer in a message and copies it.\<close>

definition raw_msg :: zmq_msg_t where
  "raw_msg = \<lparr>content = Vsm, flags = 0, vsm_size = 0, vsm_data = replicate 30 0\<rparr>"

definition demo_world :: msg_world where
  "demo_world =
     (let w1 = snd (zmq_msg_init 1 raw_msg (empty_world 1000));
          w2 = snd (the (zmq_msg_init_data 0 raw_msg 77 100 (Some 5) 9 w1))
      in snd (the (zmq_msg_copy 1 0 w2)))"

lemma demo_reachable: "msg_reachable 1000 demo_world"
proof -
  let ?e = "empty_world 1000"
  let ?w = "snd (zmq_msg_init 1 raw_msg ?e)"
  let ?v = "snd (the (zmq_msg_init_data 0 raw_msg 77 100 (Some 5) 9 ?w))"
  note defs = zmq_msg_init_def empty_world_def raw_msg_def zmq_msg_init_data_def content_malloc_def
    sizeof_msg_content_def Let_def
  have live: "\<not> live ?e 1" "\<not> live ?w 0"
    by (simp_all add: live_def defs)
  have 1: "msg_reachable 1000 ?w"
    by (rule msg_reachable.step[OF msg_reachable.start step_init[OF live(1) prod.collapse[symmetric]]])
      (auto simp: defs)
  have 2: "zmq_msg_init_data 0 raw_msg 77 100 (Some 5) 9 ?w = Some (OK, ?v)"
    by (simp add: defs)
  have 3: "msgs ?v = [0 \<mapsto> raw_msg\<lparr>content := Ref 0, flags := 126\<rparr>, 1 \<mapsto> raw_msg\<lparr>flags := 126\<rparr>]"
    by (simp add: defs fun_eq_iff)
  have "card (dom (msgs ?v)) < 2 ^ 32"
    unfolding 3 by simp
  then have 4: "msg_reachable 1000 ?v"
    using 1 step_data[OF live(2) 2] by (blast intro: msg_reachable.step)
  have m: "msgs ?v 1 = Some (raw_msg\<lparr>flags := 126\<rparr>)"
      "msgs ?v 0 = Some (raw_msg\<lparr>content := Ref 0, flags := 126\<rparr>)"
    unfolding 3 by simp_all
  obtain w' s' where w': "zmq_msg_copy 1 0 ?v = Some (OK, w')"
      "msgs w' = (msgs ?v)(1 \<mapsto> s', 0 \<mapsto> s')"
    using zmq_msg_copy_inv[OF msg_reachable_inv[OF 4] _ m fresh_flags(1) fresh_flags(1)] by auto
  have "card (dom (msgs w')) < 2 ^ 32"
    unfolding w'(2) 3 by simp
  then have "msg_reachable 1000 w'"
    using step_copy[OF _ w'(1)] 4 by (auto intro: msg_reachable.step)
  then show ?thesis using w'(1) by (simp add: demo_world_def Let_def)
qed

lemma live_code: "live w i \<longleftrightarrow> (case msgs w i of None \<Rightarrow> False | Some m \<Rightarrow> valid_tag m)"
  by (auto simp: live_def split: option.splits)

lemma demo_world_live: "live demo_world 0" "live demo_world 1"
  unfolding live_code by code_simp+


theorem msg_api_memory_safe_witness:
  "\<exists>w1. zmq_msg_move 0 1 demo_world = Some (OK, w1)"
  using msg_api_memory_safe[OF demo_reachable demo_world_live] by auto

text \<open>A large message gets a block that holds all its bytes exactly when the size of the block
  is computed without overflow: for a size above \<open>2\<^sup>6\<^sup>4 - 41\<close>, \<^verbatim>\<open>sizeof (msg_content_t) + size\<close> wraps
  around, the call still succeeds and the block is smaller than the size it records.\<close>

lemma msg_init_size_fits:
  assumes "zmq_msg_init_size i raw sz w = (OK, w')" and "ZMQ_MAX_VSM_SIZE < sz"
  shows "\<exists>c. contents w' (next_ref w) = Some c \<and> c_size c = sz \<and>
    (unat sz \<le> c_space c \<longleftrightarrow> unat sz + 40 < 2 ^ 64)"
proof -
  have large: "\<not> sz \<le> ZMQ_MAX_VSM_SIZE" "0 < unat sz"
    using assms(2) by (auto simp: unat_gt_0 ZMQ_MAX_VSM_SIZE_def)
  have "unat (40 + sz) = (40 + unat sz) mod 2 ^ 64"
    by (simp add: unat_word_ariths)
  moreover have "unat sz < 2 ^ 64" using unsigned_less[of sz] by simp
  ultimately have "unat (40 + sz) = (if unat sz + 40 < 2 ^ 64 then 40 + unat sz else 40 + unat sz - 2 ^ 64)"
    by (simp add: mod_if)
  then have "unat sz \<le> unat (40 + sz) - 40 \<longleftrightarrow> unat sz + 40 < 2 ^ 64"
    using large(2) \<open>unat sz < 2 ^ 64\<close> by auto
  then show ?thesis
    using assms(1) large
    by (auto simp: zmq_msg_init_size_def content_malloc_def sizeof_msg_content_def Let_def
        split: if_splits option.splits)
qed

end
