(* ===== verification/Yqueue.thy ===== *)
theory Yqueue
  imports Prelude
begin

text \<open>
  \<^verbatim>\<open>src/yqueue.hpp\<close>: the chunked queue under every pipe. The chunks live in an explicit memory
  \<open>mem\<close> (an address without a chunk is freed or was never allocated); a pointer is an address or
  \<open>None\<close> for NULL, and an element is addressed by the pair of its chunk and its index. Every
  access through a pointer is a lookup in \<open>mem\<close>, so an operation that returns \<open>Some\<close> touches no
  freed memory. Uninitialised elements read as \<open>None\<close>. \<open>malloc\<close> hands out the addresses
  \<open>brk, brk + 1, \<dots>\<close>.

  The lemmas relate the state to the list \<open>cs\<close> of the chunks from the front to the end of the
  queue (\<open>yq_inv\<close>), and element \<open>i\<close> of the queue to the slot \<open>slot_at q cs i\<close>; the interface
  that \<^verbatim>\<open>ypipe_t\<close> relies on is the locale \<open>slot_queue\<close>.
\<close>

type_synonym ptr = "nat option"
type_synonym slot = "nat \<times> nat"

record 'a chunk_t =
  ck_values :: "nat \<Rightarrow> 'a option"
  ck_prev :: ptr
  ck_next :: ptr

record 'a yqueue_t =
  mem :: "nat \<Rightarrow> 'a chunk_t option"
  brk :: nat
  granularity :: nat
  begin_chunk :: ptr
  begin_pos :: nat
  back_chunk :: ptr
  back_pos :: nat
  end_chunk :: ptr
  end_pos :: nat
  spare_chunk :: ptr

definition raw_chunk :: "'a chunk_t" where
  "raw_chunk = \<lparr>ck_values = (\<lambda>_. None), ck_prev = None, ck_next = None\<rparr>"

definition yq_put :: "nat \<Rightarrow> 'a chunk_t \<Rightarrow> 'a yqueue_t \<Rightarrow> 'a yqueue_t" where
  "yq_put a ck q = q\<lparr>mem := (mem q)(a \<mapsto> ck)\<rparr>"

definition yq_free :: "nat \<Rightarrow> 'a yqueue_t \<Rightarrow> 'a yqueue_t option" where
  "yq_free a q = (case mem q a of None \<Rightarrow> None | Some _ \<Rightarrow> Some (q\<lparr>mem := (mem q)(a := None)\<rparr>))"

definition yqueue_new :: "nat \<Rightarrow> 'a yqueue_t" where
  "yqueue_new N =
     \<lparr>mem = (\<lambda>_. None)(0 \<mapsto> raw_chunk), brk = 1, granularity = N,
      begin_chunk = Some 0, begin_pos = 0, back_chunk = None, back_pos = 0,
      end_chunk = Some 0, end_pos = 0, spare_chunk = None\<rparr>"

text \<open>The addresses of the front and the back element.\<close>

definition yqueue_front :: "'a yqueue_t \<Rightarrow> slot option" where
  "yqueue_front q = map_option (\<lambda>a. (a, begin_pos q)) (begin_chunk q)"

definition yqueue_back :: "'a yqueue_t \<Rightarrow> slot option" where
  "yqueue_back q = map_option (\<lambda>a. (a, back_pos q)) (back_chunk q)"

definition yq_get :: "'a yqueue_t \<Rightarrow> slot \<Rightarrow> 'a option" where
  "yq_get q s = (case mem q (fst s) of None \<Rightarrow> None | Some ck \<Rightarrow> ck_values ck (snd s))"

definition yq_set :: "slot \<Rightarrow> 'a \<Rightarrow> 'a yqueue_t \<Rightarrow> 'a yqueue_t option" where
  "yq_set s v q =
     (case mem q (fst s) of None \<Rightarrow> None
      | Some ck \<Rightarrow> Some (yq_put (fst s) (ck\<lparr>ck_values := (ck_values ck)(snd s \<mapsto> v)\<rparr>) q))"

definition yqueue_push :: "'a yqueue_t \<Rightarrow> 'a yqueue_t option" where
  "yqueue_push q0 =
     (let q = q0\<lparr>back_chunk := end_chunk q0, back_pos := end_pos q0,
                 end_pos := Suc (end_pos q0)\<rparr>
      in if end_pos q \<noteq> granularity q then Some q
         else do {
           e \<leftarrow> end_chunk q;
           ec \<leftarrow> mem q e;
           (case spare_chunk q of
              Some sc \<Rightarrow> do {
                let q1 = yq_put e (ec\<lparr>ck_next := Some sc\<rparr>) (q\<lparr>spare_chunk := None\<rparr>);
                scc \<leftarrow> mem q1 sc;
                let q2 = yq_put sc (scc\<lparr>ck_prev := Some e\<rparr>) q1;
                Some (q2\<lparr>end_chunk := Some sc, end_pos := 0\<rparr>)
              }
            | None \<Rightarrow> do {
                let n = brk q;
                let q1 = yq_put e (ec\<lparr>ck_next := Some n\<rparr>)
                           (yq_put n (raw_chunk\<lparr>ck_prev := Some e\<rparr>) (q\<lparr>brk := Suc n\<rparr>));
                Some (q1\<lparr>end_chunk := Some n, end_pos := 0\<rparr>)
              })
         })"

definition yqueue_unpush :: "'a yqueue_t \<Rightarrow> 'a yqueue_t option" where
  "yqueue_unpush q0 = do {
     q1 \<leftarrow> (if back_pos q0 \<noteq> 0 then Some (q0\<lparr>back_pos := back_pos q0 - 1\<rparr>)
           else do {
             b \<leftarrow> back_chunk q0;
             bc \<leftarrow> mem q0 b;
             Some (q0\<lparr>back_pos := granularity q0 - 1, back_chunk := ck_prev bc\<rparr>)
           });
     (if end_pos q1 \<noteq> 0 then Some (q1\<lparr>end_pos := end_pos q1 - 1\<rparr>)
      else do {
        e \<leftarrow> end_chunk q1;
        ec \<leftarrow> mem q1 e;
        p \<leftarrow> ck_prev ec;
        pc \<leftarrow> mem q1 p;
        let q1' = q1\<lparr>end_pos := granularity q1 - 1, end_chunk := Some p\<rparr>;
        q2 \<leftarrow> (case ck_next pc of None \<Rightarrow> Some q1' | Some n \<Rightarrow> yq_free n q1');
        pc' \<leftarrow> mem q2 p;
        Some (yq_put p (pc'\<lparr>ck_next := None\<rparr>) q2)
      })
   }"

definition yqueue_pop :: "'a yqueue_t \<Rightarrow> 'a yqueue_t option" where
  "yqueue_pop q0 =
     (let q = q0\<lparr>begin_pos := Suc (begin_pos q0)\<rparr>
      in if begin_pos q \<noteq> granularity q then Some q
         else do {
           ob \<leftarrow> begin_chunk q;
           oc \<leftarrow> mem q ob;
           b \<leftarrow> ck_next oc;
           bc \<leftarrow> mem q b;
           let q1 = yq_put b (bc\<lparr>ck_prev := None\<rparr>) (q\<lparr>begin_chunk := Some b, begin_pos := 0\<rparr>);
           let cs = spare_chunk q1;
           let q2 = q1\<lparr>spare_chunk := Some ob\<rparr>;
           (case cs of None \<Rightarrow> Some q2 | Some s \<Rightarrow> yq_free s q2)
         })"

text \<open>The destructor walks the chunks from the front to the end, then frees the spare chunk.\<close>

partial_function (option) yq_free_chunks :: "'a yqueue_t \<Rightarrow> 'a yqueue_t option" where
  "yq_free_chunks q =
     (if begin_chunk q = end_chunk q then Option.bind (begin_chunk q) (\<lambda>b. yq_free b q)
      else Option.bind (begin_chunk q) (\<lambda>b.
             Option.bind (mem q b) (\<lambda>bc.
               Option.bind (yq_free b (q\<lparr>begin_chunk := ck_next bc\<rparr>)) yq_free_chunks)))"

declare yq_free_chunks.simps [code]

definition yqueue_delete :: "'a yqueue_t \<Rightarrow> 'a yqueue_t option" where
  "yqueue_delete q = do {
     q1 \<leftarrow> yq_free_chunks q;
     (case spare_chunk q1 of None \<Rightarrow> Some q1
      | Some sc \<Rightarrow> yq_free sc (q1\<lparr>spare_chunk := None\<rparr>))
   }"

section \<open>The invariant\<close>

definition next_of :: "'a yqueue_t \<Rightarrow> nat \<Rightarrow> ptr" where
  "next_of q a = Option.bind (mem q a) ck_next"

definition prev_of :: "'a yqueue_t \<Rightarrow> nat \<Rightarrow> ptr" where
  "prev_of q a = Option.bind (mem q a) ck_prev"

definition linked :: "'a yqueue_t \<Rightarrow> nat list \<Rightarrow> bool" where
  "linked q cs \<longleftrightarrow>
     (\<forall>i. Suc i < length cs \<longrightarrow>
        next_of q (cs ! i) = Some (cs ! Suc i) \<and> prev_of q (cs ! Suc i) = Some (cs ! i))"

definition yq_size :: "'a yqueue_t \<Rightarrow> nat list \<Rightarrow> nat" where
  "yq_size q cs = (length cs - 1) * granularity q + end_pos q - begin_pos q"

definition slot_at :: "'a yqueue_t \<Rightarrow> nat list \<Rightarrow> nat \<Rightarrow> slot" where
  "slot_at q cs i =
     (cs ! ((begin_pos q + i) div granularity q), (begin_pos q + i) mod granularity q)"

definition yq_inv :: "'a yqueue_t \<Rightarrow> nat list \<Rightarrow> bool" where
  "yq_inv q cs \<longleftrightarrow>
     0 < granularity q \<and> cs \<noteq> [] \<and> distinct cs \<and>
     dom (mem q) = set cs \<union> set_option (spare_chunk q) \<and>
     (\<forall>s. spare_chunk q = Some s \<longrightarrow> s \<notin> set cs) \<and>
     (\<forall>a \<in> dom (mem q). a < brk q) \<and>
     begin_chunk q = Some (hd cs) \<and> end_chunk q = Some (last cs) \<and>
     begin_pos q < granularity q \<and> end_pos q < granularity q \<and>
     linked q cs \<and>
     begin_pos q \<le> (length cs - 1) * granularity q + end_pos q \<and>
     (0 < yq_size q cs \<longrightarrow> yqueue_back q = Some (slot_at q cs (yq_size q cs - 1)))"

lemma yq_put_simps [simp]:
  "mem (yq_put a ck q) = (mem q)(a \<mapsto> ck)" "brk (yq_put a ck q) = brk q"
  "granularity (yq_put a ck q) = granularity q"
  "begin_chunk (yq_put a ck q) = begin_chunk q" "begin_pos (yq_put a ck q) = begin_pos q"
  "back_chunk (yq_put a ck q) = back_chunk q" "back_pos (yq_put a ck q) = back_pos q"
  "end_chunk (yq_put a ck q) = end_chunk q" "end_pos (yq_put a ck q) = end_pos q"
  "spare_chunk (yq_put a ck q) = spare_chunk q"
  by (simp_all add: yq_put_def)

lemma raw_chunk_simps [simp]:
  "ck_values raw_chunk = (\<lambda>_. None)" "ck_prev raw_chunk = None" "ck_next raw_chunk = None"
  by (simp_all add: raw_chunk_def)

lemma yq_invD:
  assumes "yq_inv q cs"
  shows "0 < granularity q" "cs \<noteq> []" "distinct cs"
    "dom (mem q) = set cs \<union> set_option (spare_chunk q)"
    "spare_chunk q = Some s \<Longrightarrow> s \<notin> set cs"
    "a \<in> dom (mem q) \<Longrightarrow> a < brk q"
    "begin_chunk q = Some (hd cs)" "end_chunk q = Some (last cs)"
    "begin_pos q < granularity q" "end_pos q < granularity q" "linked q cs"
    "begin_pos q \<le> (length cs - 1) * granularity q + end_pos q"
    "0 < yq_size q cs \<Longrightarrow> yqueue_back q = Some (slot_at q cs (yq_size q cs - 1))"
  using assms by (simp_all add: yq_inv_def)

lemma slot_index_bound:
  assumes "yq_inv q cs" "i \<le> yq_size q cs"
  shows "(begin_pos q + i) div granularity q < length cs"
proof -
  note inv = yq_invD[OF assms(1)]
  have "begin_pos q + i \<le> (length cs - 1) * granularity q + end_pos q"
    using assms(2) inv(12) by (simp add: yq_size_def)
  also have "\<dots> < (length cs - 1) * granularity q + granularity q"
    using inv(10) by simp
  also have "\<dots> = length cs * granularity q"
    using inv(2) by (cases cs) simp_all
  finally show ?thesis by (simp add: less_mult_imp_div_less)
qed

lemma slot_at_inj:
  assumes "yq_inv q cs" "i \<le> yq_size q cs" "j \<le> yq_size q cs"
  shows "slot_at q cs i = slot_at q cs j \<longleftrightarrow> i = j"
proof
  assume eq: "slot_at q cs i = slot_at q cs j"
  have "(begin_pos q + i) div granularity q = (begin_pos q + j) div granularity q"
    using eq slot_index_bound[OF assms(1,2)] slot_index_bound[OF assms(1,3)] yq_invD(3)[OF assms(1)]
    by (simp add: slot_at_def nth_eq_iff_index_eq)
  moreover have "(begin_pos q + i) mod granularity q = (begin_pos q + j) mod granularity q"
    using eq by (simp add: slot_at_def)
  ultimately have "begin_pos q + i = begin_pos q + j"
    by (metis div_mult_mod_eq)
  then show "i = j" by simp
qed simp

lemma slot_at_mem:
  assumes "yq_inv q cs" "i \<le> yq_size q cs"
  shows "\<exists>ck. mem q (fst (slot_at q cs i)) = Some ck"
proof -
  have "fst (slot_at q cs i) \<in> dom (mem q)"
    using slot_index_bound[OF assms] yq_invD(4)[OF assms(1)] by (simp add: slot_at_def)
  then show ?thesis by auto
qed

lemma yqueue_front_slot: "yq_inv q cs \<Longrightarrow> yqueue_front q = Some (slot_at q cs 0)"
  by (simp add: yqueue_front_def slot_at_def yq_inv_def hd_conv_nth)

text \<open>Writing an element touches no pointer.\<close>

lemma yq_set_Some:
  assumes "yq_inv q cs" "i \<le> yq_size q cs"
  shows "\<exists>q'. yq_set (slot_at q cs i) v q = Some q' \<and> yq_inv q' cs \<and>
    yq_size q' cs = yq_size q cs \<and> slot_at q' cs = slot_at q cs \<and>
    yqueue_back q' = yqueue_back q \<and>
    (\<forall>s. yq_get q' s = (if s = slot_at q cs i then Some v else yq_get q s))"
proof -
  obtain ck where ck: "mem q (fst (slot_at q cs i)) = Some ck"
    using slot_at_mem[OF assms] by blast
  let ?a = "fst (slot_at q cs i)"
  let ?q = "yq_put ?a (ck\<lparr>ck_values := (ck_values ck)(snd (slot_at q cs i) \<mapsto> v)\<rparr>) q"
  have lk: "next_of ?q a = next_of q a" "prev_of ?q a = prev_of q a" for a
    using ck by (simp_all add: next_of_def prev_of_def)
  have sl: "slot_at ?q cs = slot_at q cs" "yq_size ?q cs = yq_size q cs"
    by (simp_all add: slot_at_def yq_size_def fun_eq_iff)
  have bk: "yqueue_back ?q = yqueue_back q" by (simp add: yqueue_back_def)
  have "yq_inv ?q cs"
    using assms(1) ck unfolding yq_inv_def sl bk linked_def lk by auto
  moreover have "yq_get ?q s = (if s = slot_at q cs i then Some v else yq_get q s)" for s
    using ck by (cases s) (auto simp: yq_get_def prod_eq_iff)
  moreover have "yq_set (slot_at q cs i) v q = Some ?q"
    using ck by (simp add: yq_set_def)
  ultimately show ?thesis using sl bk by blast
qed

text \<open>Extending the list of chunks at its end moves no element.\<close>

lemma slot_at_append:
  assumes "yq_inv q cs" "i \<le> yq_size q cs"
    "begin_pos q' = begin_pos q" "granularity q' = granularity q"
  shows "slot_at q' (cs @ zs) i = slot_at q cs i"
  using slot_index_bound[OF assms(1,2)] assms(3,4) by (simp add: slot_at_def nth_append)

lemma linked_snoc:
  assumes "linked q cs" "cs \<noteq> []"
    and "\<And>a. a \<in> set cs \<Longrightarrow> a \<noteq> last cs \<Longrightarrow> next_of q' a = next_of q a"
    and "\<And>a. a \<in> set cs \<Longrightarrow> prev_of q' a = prev_of q a"
    and "next_of q' (last cs) = Some n" "prev_of q' n = Some (last cs)" "distinct cs"
  shows "linked q' (cs @ [n])"
  unfolding linked_def
proof (intro allI impI)
  fix i assume i: "Suc i < length (cs @ [n])"
  show "next_of q' ((cs @ [n]) ! i) = Some ((cs @ [n]) ! Suc i) \<and>
        prev_of q' ((cs @ [n]) ! Suc i) = Some ((cs @ [n]) ! i)"
  proof (cases "Suc i < length cs")
    case True
    then have "cs ! i \<noteq> last cs"
      using assms(2,7) by (simp add: last_conv_nth nth_eq_iff_index_eq)
    then show ?thesis using True assms(1,3,4) by (simp add: linked_def nth_append)
  next
    case False
    then have "i = length cs - 1" "Suc i = length cs" using i by auto
    then show ?thesis using assms(2,5,6) by (simp add: nth_append last_conv_nth)
  qed
qed

lemma yqueue_push_stay:
  assumes "yq_inv q cs" "Suc (end_pos q) \<noteq> granularity q"
  shows "\<exists>q'. yqueue_push q = Some q' \<and> yq_inv q' cs \<and> yq_size q' cs = Suc (yq_size q cs) \<and>
    (\<forall>i \<le> yq_size q cs. slot_at q' cs i = slot_at q cs i) \<and> yq_get q' = yq_get q"
proof -
  note inv = yq_invD[OF assms(1)]
  define q' where "q' = q\<lparr>back_chunk := end_chunk q, back_pos := end_pos q, end_pos := Suc (end_pos q)\<rparr>"
  have size: "yq_size q' cs = Suc (yq_size q cs)"
    using inv(12) by (simp add: q'_def yq_size_def)
  have sl: "slot_at q' cs = slot_at q cs"
    by (simp add: q'_def slot_at_def fun_eq_iff)
  have lk: "linked q' cs = linked q cs" "yq_get q' = yq_get q"
    by (simp_all add: q'_def linked_def next_of_def prev_of_def yq_get_def fun_eq_iff)
  have "begin_pos q + yq_size q cs = (length cs - 1) * granularity q + end_pos q"
    using inv(12) by (simp add: yq_size_def)
  then have "slot_at q cs (yq_size q cs) = (cs ! (length cs - 1), end_pos q)"
    using inv(10) by (simp add: slot_at_def)
  moreover have "yqueue_back q' = Some (cs ! (length cs - 1), end_pos q)"
    using inv(2,8) by (simp add: q'_def yqueue_back_def last_conv_nth)
  ultimately have bk: "yqueue_back q' = Some (slot_at q' cs (yq_size q' cs - 1))"
    by (simp add: sl size)
  have "yq_inv q' cs"
    using assms inv(12) bk by (simp add: yq_inv_def lk) (simp add: yq_inv_def q'_def)
  moreover have "yqueue_push q = Some q'"
    using assms(2) by (simp add: yqueue_push_def q'_def Let_def)
  ultimately show ?thesis using size lk sl by auto
qed

lemma yqueue_push_grow:
  assumes "yq_inv q cs" "Suc (end_pos q) = granularity q"
  shows "\<exists>q' n. yqueue_push q = Some q' \<and> yq_inv q' (cs @ [n]) \<and>
    yq_size q' (cs @ [n]) = Suc (yq_size q cs) \<and>
    (\<forall>i \<le> yq_size q cs. slot_at q' (cs @ [n]) i = slot_at q cs i) \<and> yq_get q' = yq_get q"
proof -
  note inv = yq_invD[OF assms(1)]
  let ?e = "last cs"
  obtain ec where ec: "mem q ?e = Some ec"
    using inv(2,4) by (metis UnI1 domD last_in_set)
  obtain q' n where q': "yqueue_push q = Some q'" "n \<notin> set cs"
      "dom (mem q') = set (cs @ [n])" "spare_chunk q' = None" "brk q \<le> brk q'" "n < brk q'"
      "next_of q' ?e = Some n" "prev_of q' n = Some ?e"
      "\<And>a. a \<in> set cs \<Longrightarrow> a \<noteq> ?e \<Longrightarrow> next_of q' a = next_of q a"
      "\<And>a. a \<in> set cs \<Longrightarrow> prev_of q' a = prev_of q a"
      "yq_get q' = yq_get q" "granularity q' = granularity q"
      "begin_chunk q' = begin_chunk q" "begin_pos q' = begin_pos q"
      "end_chunk q' = Some n" "end_pos q' = 0"
      "yqueue_back q' = Some (?e, end_pos q)"
  proof (cases "spare_chunk q")
    case (Some s)
    then obtain scc where scc: "mem q s = Some scc" "s \<notin> set cs" "s \<noteq> ?e" "s < brk q"
      using inv(2,4,5,6) by (metis Un_iff domD domI last_in_set option.set_intros)
    show ?thesis
    proof (rule that[where n = s])
      show "yqueue_push q = Some (q\<lparr>back_chunk := Some ?e, back_pos := end_pos q, end_pos := 0,
        end_chunk := Some s, spare_chunk := None,
        mem := (mem q)(?e \<mapsto> ec\<lparr>ck_next := Some s\<rparr>, s \<mapsto> scc\<lparr>ck_prev := Some ?e\<rparr>)\<rparr>)"
        using assms(2) inv(8) ec scc Some
        by (simp add: yqueue_push_def Let_def yq_put_def)
    qed (use Some scc ec inv in \<open>auto simp: next_of_def prev_of_def yq_get_def fun_eq_iff yqueue_back_def
           split: option.splits\<close>)
  next
    case None
    have n: "brk q \<notin> dom (mem q)" using inv(6) by blast
    then have n': "brk q \<notin> set cs" "?e \<noteq> brk q" "mem q (brk q) = None" using inv(2,4) ec by auto
    show ?thesis
    proof (rule that[where n = "brk q"])
      show "yqueue_push q = Some (q\<lparr>back_chunk := Some ?e, back_pos := end_pos q, end_pos := 0,
        end_chunk := Some (brk q), brk := Suc (brk q),
        mem := (mem q)(brk q \<mapsto> raw_chunk\<lparr>ck_prev := Some ?e\<rparr>, ?e \<mapsto> ec\<lparr>ck_next := Some (brk q)\<rparr>)\<rparr>)"
        using assms(2) inv(8) ec None n'
        by (simp add: yqueue_push_def Let_def yq_put_def)
    qed (use None n' ec inv in \<open>auto simp: next_of_def prev_of_def yq_get_def fun_eq_iff yqueue_back_def
           split: option.splits\<close>)
  qed
  have size: "yq_size q' (cs @ [n]) = Suc (yq_size q cs)"
    using inv(2,12) assms(2) q'(12,14,16)
    by (cases cs) (auto simp: yq_size_def)
  have sl: "\<forall>i \<le> yq_size q cs. slot_at q' (cs @ [n]) i = slot_at q cs i"
    using slot_at_append[OF assms(1)] q'(12,14) by blast
  have lk: "linked q' (cs @ [n])"
    using linked_snoc[OF inv(11,2) q'(9,10,7,8) inv(3)] by blast
  have "begin_pos q + yq_size q cs = (length cs - 1) * granularity q + end_pos q"
    using inv(12) by (simp add: yq_size_def)
  then have "slot_at q cs (yq_size q cs) = (last cs, end_pos q)"
    using inv(2,10) by (simp add: slot_at_def last_conv_nth)
  then have bk: "yqueue_back q' = Some (slot_at q' (cs @ [n]) (yq_size q' (cs @ [n]) - 1))"
    using q'(17) size sl by simp
  have brk: "\<forall>a \<in> dom (mem q'). a < brk q'"
    using q'(3,5,6) inv(4,6) by (metis Un_iff list.set(1) list.set(2) order.strict_trans2
      empty_iff insert_iff set_append)
  have le: "begin_pos q' \<le> (length (cs @ [n]) - 1) * granularity q' + end_pos q'"
    using inv(2,9) q'(12,14) by (cases cs) auto
  have "yq_inv q' (cs @ [n])"
    unfolding yq_inv_def using inv(1,2,3,7,9) q'(2,3,4,12-16) bk lk brk le by simp
  then show ?thesis using q'(1,11) size sl by blast
qed

text \<open>The element before an element.\<close>

lemma slot_pred:
  assumes "yq_inv q cs" "Suc k \<le> yq_size q cs" "slot_at q cs (Suc k) = (a, j)"
  shows "j \<noteq> 0 \<Longrightarrow> slot_at q cs k = (a, j - 1)"
    and "j = 0 \<Longrightarrow> \<exists>p. prev_of q a = Some p \<and> slot_at q cs k = (p, granularity q - 1)"
proof -
  note inv = yq_invD[OF assms(1)]
  let ?N = "granularity q" and ?p = "begin_pos q + k"
  have aj: "a = cs ! (Suc ?p div ?N)" "j = Suc ?p mod ?N"
    using assms(3) by (simp_all add: slot_at_def)
  have lt: "Suc ?p div ?N < length cs"
    using slot_index_bound[OF assms(1,2)] by simp
  show "slot_at q cs k = (a, j - 1)" if "j \<noteq> 0"
  proof -
    from that have "Suc ?p mod ?N = Suc (?p mod ?N)" "Suc ?p div ?N = ?p div ?N"
      by (auto simp: aj mod_Suc div_Suc split: if_splits)
    then show ?thesis by (simp add: slot_at_def aj)
  qed
  show "\<exists>p. prev_of q a = Some p \<and> slot_at q cs k = (p, ?N - 1)" if "j = 0"
  proof -
    from that have "Suc (?p mod ?N) = ?N" "Suc ?p div ?N = Suc (?p div ?N)"
      using inv(1) by (auto simp: aj mod_Suc div_Suc split: if_splits)
    then have "?p mod ?N = ?N - 1" "Suc (?p div ?N) < length cs" "a = cs ! Suc (?p div ?N)"
      using lt aj(1) by auto
    then show ?thesis
      using inv(11) by (simp add: slot_at_def linked_def)
  qed
qed

lemma yqueue_unpush_Some:
  assumes inv: "yq_inv q cs" and two: "2 \<le> yq_size q cs"
  shows "\<exists>q' cs'. yqueue_unpush q = Some q' \<and> yq_inv q' cs' \<and> yq_size q' cs' = yq_size q cs - 1 \<and>
    (\<forall>i < yq_size q cs. slot_at q' cs' i = slot_at q cs i) \<and>
    (\<forall>i < yq_size q cs. yq_get q' (slot_at q cs i) = yq_get q (slot_at q cs i))"
proof -
  note I = yq_invD[OF inv]
  define k where "k = yq_size q cs - 2"
  have size: "yq_size q cs = Suc (Suc k)" using two by (simp add: k_def)
  obtain a j where aj: "slot_at q cs (Suc k) = (a, j)" by fastforce
  have bk: "back_chunk q = Some a" "back_pos q = j"
    using I(13) size aj by (auto simp: yqueue_back_def)
  obtain ac where ac: "mem q a = Some ac"
    using slot_at_mem[OF inv, of "Suc k"] size aj by auto
  note pred = slot_pred[OF inv _ aj]
  define q1 where "q1 = q\<lparr>back_chunk := Some (fst (slot_at q cs k)), back_pos := snd (slot_at q cs k)\<rparr>"
  have step1: "(if back_pos q \<noteq> 0 then Some (q\<lparr>back_pos := back_pos q - 1\<rparr>)
      else do { b \<leftarrow> back_chunk q; bc \<leftarrow> mem q b;
                Some (q\<lparr>back_pos := granularity q - 1, back_chunk := ck_prev bc\<rparr>) }) = Some q1"
  proof (cases "j = 0")
    case True
    then obtain p where "prev_of q a = Some p" "slot_at q cs k = (p, granularity q - 1)"
      using pred(2) size by auto
    then show ?thesis using True bk ac by (simp add: q1_def prev_of_def)
  next
    case False
    then have "slot_at q cs k = (a, j - 1)" using pred(1) size by simp
    then show ?thesis using False bk by (simp add: q1_def)
  qed
  have total: "begin_pos q + Suc (Suc k) = (length cs - 1) * granularity q + end_pos q"
    using I(12) size by (simp add: yq_size_def)
  show ?thesis
  proof (cases "end_pos q = 0")
    case False
    define q' where "q' = q1\<lparr>end_pos := end_pos q - 1\<rparr>"
    have un: "yqueue_unpush q = Some q'"
      unfolding yqueue_unpush_def step1 using False by (simp add: q'_def q1_def)
    have sz: "yq_size q' cs = Suc k"
      using total False by (simp add: q'_def q1_def yq_size_def)
    have eqs: "slot_at q' cs = slot_at q cs" "yq_get q' = yq_get q" "linked q' cs = linked q cs"
      by (simp_all add: q'_def q1_def slot_at_def yq_get_def linked_def next_of_def prev_of_def fun_eq_iff)
    have "yqueue_back q' = Some (slot_at q cs k)"
      by (simp add: q'_def q1_def yqueue_back_def)
    then have "yq_inv q' cs"
      using inv total False
      by (simp add: yq_inv_def sz eqs) (simp add: yq_inv_def q'_def q1_def; linarith)
    then show ?thesis using un sz size eqs by auto
  next
    case True
    obtain ds e where cs: "cs = ds @ [e]" using I(2) by (metis append_butlast_last_id)
    have dsne: "ds \<noteq> []" using total True cs by auto
    let ?p = "last ds"
    have mems: "\<exists>ec. mem q e = Some ec" "\<exists>pc. mem q ?p = Some pc"
      using I(4) cs dsne by (auto simp: dom_def set_eq_iff)
    then obtain ec pc where ec: "mem q e = Some ec" and pc: "mem q ?p = Some pc" by blast
    have pe: "?p \<noteq> e" "e \<notin> set ds" using I(3) cs dsne by auto
    have lk: "prev_of q e = Some ?p" "next_of q ?p = Some e"
      using I(11) cs dsne unfolding linked_def
      by (auto simp: last_conv_nth nth_append dest!: spec[of _ "length ds - 1"])
    define q' where "q' = q1\<lparr>end_pos := granularity q - 1, end_chunk := Some ?p,
        mem := (mem q)(e := None, ?p \<mapsto> pc\<lparr>ck_next := None\<rparr>)\<rparr>"
    have un: "yqueue_unpush q = Some q'"
      unfolding yqueue_unpush_def step1 using True I(8) ec pc lk pe
      by (simp add: q'_def q1_def cs prev_of_def next_of_def yq_free_def yq_put_def Let_def)
    have sz: "yq_size q' ds = Suc k"
      using total True I(1) cs dsne by (cases ds) (auto simp: q'_def q1_def yq_size_def)
    have sl: "\<forall>i \<le> Suc k. slot_at q' ds i = slot_at q cs i"
    proof (intro allI impI)
      fix i assume "i \<le> Suc k"
      then have "begin_pos q + i < length ds * granularity q"
        using total True cs by simp
      then show "slot_at q' ds i = slot_at q cs i"
        by (simp add: slot_at_def q'_def q1_def cs nth_append less_mult_imp_div_less)
    qed
    have nx: "next_of q' b = next_of q b" if "b \<in> set ds" "b \<noteq> ?p" for b
      using that pe by (auto simp: next_of_def q'_def q1_def)
    have pv: "prev_of q' b = prev_of q b" if "b \<in> set ds" for b
      using that pe pc by (auto simp: prev_of_def q'_def q1_def)
    have "linked q' ds"
      unfolding linked_def
    proof (intro allI impI)
      fix i assume i: "Suc i < length ds"
      then have "ds ! i \<noteq> ?p" using I(3) cs dsne by (simp add: last_conv_nth nth_eq_iff_index_eq)
      then show "next_of q' (ds ! i) = Some (ds ! Suc i) \<and> prev_of q' (ds ! Suc i) = Some (ds ! i)"
        using i I(11)[unfolded linked_def, rule_format, of i] nx pv by (simp add: cs nth_append)
    qed
    moreover have "dom (mem q') = set ds \<union> set_option (spare_chunk q')"
      using I(4,5) pe pc dsne by (auto simp: q'_def q1_def cs)
    moreover have "yqueue_back q' = Some (slot_at q' ds k)"
      using sl by (simp add: yqueue_back_def q'_def q1_def)
    moreover have "begin_pos q' \<le> (length ds - 1) * granularity q' + end_pos q'"
      using sz by (simp add: yq_size_def)
    moreover have "hd ds = hd cs" "\<forall>s. spare_chunk q = Some s \<longrightarrow> s \<notin> set ds"
      using dsne cs I(5) by auto
    moreover have "\<forall>b \<in> dom (mem q'). b < brk q'"
      using I(6) pc by (auto simp: q'_def q1_def split: if_splits)
    ultimately have "yq_inv q' ds"
      unfolding yq_inv_def sz using I(1,3,7,9) dsne cs by (simp add: q'_def q1_def)
    moreover have "yq_get q' (slot_at q cs i) = yq_get q (slot_at q cs i)" if "i < yq_size q cs" for i
    proof -
      have "slot_at q cs i = slot_at q' ds i" using that sl size by simp
      moreover have "fst (slot_at q' ds i) \<in> set ds"
        using slot_index_bound[OF \<open>yq_inv q' ds\<close>, of i] that sz size by (simp add: slot_at_def)
      ultimately show ?thesis
        using pe pc by (auto simp: yq_get_def q'_def q1_def)
    qed
    ultimately show ?thesis using un sz size sl by (intro exI[of _ q'] exI[of _ ds]) auto
  qed
qed


text \<open>Removing the front element moves every index down by one.\<close>

lemma yqueue_pop_Some:
  assumes inv: "yq_inv q cs" and pos: "0 < yq_size q cs"
  shows "\<exists>q' cs'. yqueue_pop q = Some q' \<and> yq_inv q' cs' \<and> yq_size q' cs' = yq_size q cs - 1 \<and>
    (\<forall>i < yq_size q cs. slot_at q' cs' i = slot_at q cs (Suc i)) \<and>
    (\<forall>i < yq_size q cs. yq_get q' (slot_at q cs (Suc i)) = yq_get q (slot_at q cs (Suc i)))"
proof -
  note I = yq_invD[OF inv]
  let ?N = "granularity q" and ?n = "yq_size q cs"
  have total: "begin_pos q + ?n = (length cs - 1) * ?N + end_pos q"
    using I(12) by (simp add: yq_size_def)
  show ?thesis
  proof (cases "Suc (begin_pos q) = ?N")
    case False
    define q' where "q' = q\<lparr>begin_pos := Suc (begin_pos q)\<rparr>"
    have pop: "yqueue_pop q = Some q'" using False by (simp add: yqueue_pop_def q'_def Let_def)
    have sz: "yq_size q' cs = ?n - 1" by (simp add: yq_size_def q'_def)
    have sl: "slot_at q' cs i = slot_at q cs (Suc i)" for i by (simp add: slot_at_def q'_def)
    have eqs: "yq_get q' = yq_get q" "linked q' cs = linked q cs"
      by (simp_all add: q'_def yq_get_def linked_def next_of_def prev_of_def fun_eq_iff)
    have "yqueue_back q' = yqueue_back q" by (simp add: yqueue_back_def q'_def)
    then have "0 < ?n - 1 \<longrightarrow> yqueue_back q' = Some (slot_at q' cs (?n - 1 - 1))"
      using I(13)[OF pos] by (simp add: sl Suc_diff_Suc)
    then have "yq_inv q' cs"
      unfolding yq_inv_def sz using I(1-10) I(11) total pos False
      by (simp add: eqs) (simp add: q'_def)
    then show ?thesis using pop sz sl eqs by auto
  next
    case True
    obtain b ds where cs: "cs = b # ds" using I(2) by (cases cs) auto
    have dsne: "ds \<noteq> []" using total True I(10) pos cs by (cases ds) auto
    let ?h = "hd ds"
    obtain bc hc where bc: "mem q b = Some bc" and hc: "mem q ?h = Some hc"
      using I(4) cs dsne by (metis Un_iff domD hd_in_set list.set_intros)
    have bn: "b \<noteq> ?h" "b \<notin> set ds" using I(3) cs dsne by auto
    have lk: "next_of q b = Some ?h"
      using I(11) cs dsne unfolding linked_def by (auto simp: hd_conv_nth dest!: spec[of _ 0])
    define q' where "q' = q\<lparr>begin_chunk := Some ?h, begin_pos := 0, spare_chunk := Some b,
       mem := (case spare_chunk q of None \<Rightarrow> (mem q)(?h \<mapsto> hc\<lparr>ck_prev := None\<rparr>)
                | Some s \<Rightarrow> (mem q)(?h \<mapsto> hc\<lparr>ck_prev := None\<rparr>, s := None))\<rparr>"
    have spare: "s \<noteq> ?h" "s \<noteq> b" "s \<notin> set ds" "\<exists>sc. mem q s = Some sc" if "spare_chunk q = Some s" for s
    proof -
      show "s \<noteq> ?h" "s \<noteq> b" "s \<notin> set ds" using that I(5) cs dsne by auto
      show "\<exists>sc. mem q s = Some sc" using that I(4) by (auto simp: dom_def set_eq_iff)
    qed
    have pop: "yqueue_pop q = Some q'"
      using True I(7) bc hc lk bn cs spare
      by (auto simp: yqueue_pop_def Let_def q'_def next_of_def yq_put_def yq_free_def split: option.splits)
    have sz: "yq_size q' ds = ?n - 1"
      using total True I(1) cs dsne by (cases ds) (auto simp: q'_def yq_size_def)
    have sl: "slot_at q' ds i = slot_at q cs (Suc i)" for i
      using True I(1) by (simp add: slot_at_def q'_def cs div_add_self1 flip: add_Suc)
        
    have mem_ds: "mem q' c = (if c = ?h then Some (hc\<lparr>ck_prev := None\<rparr>) else mem q c)" if "c \<in> set ds" for c
      using that spare by (auto simp: q'_def split: option.splits)
    have "linked q' ds"
      unfolding linked_def
    proof (intro allI impI)
      fix i assume i: "Suc i < length ds"
      then have "ds ! Suc i \<noteq> ?h" using I(3) cs dsne by (simp add: hd_conv_nth nth_eq_iff_index_eq)
      then have "prev_of q' (ds ! Suc i) = prev_of q (ds ! Suc i)" "next_of q' (ds ! i) = next_of q (ds ! i)"
        using i mem_ds hc by (auto simp: prev_of_def next_of_def)
      then show "next_of q' (ds ! i) = Some (ds ! Suc i) \<and> prev_of q' (ds ! Suc i) = Some (ds ! i)"
        using i I(11) unfolding linked_def cs by (metis Suc_less_eq length_Cons nth_Cons_Suc)
    qed
    moreover have "dom (mem q') = set ds \<union> set_option (spare_chunk q')"
      using I(4) spare hc dsne by (auto simp: q'_def cs split: option.splits)
    moreover have "begin_pos q' \<le> (length ds - 1) * granularity q' + end_pos q'" by (simp add: q'_def)
    moreover have "\<forall>c \<in> dom (mem q'). c < brk q'"
      using I(6) hc by (auto simp: q'_def split: option.splits if_splits)
    moreover have "yqueue_back q' = yqueue_back q" by (simp add: yqueue_back_def q'_def)
    then have "0 < ?n - 1 \<longrightarrow> yqueue_back q' = Some (slot_at q' ds (?n - 1 - 1))"
      using I(13)[OF pos] by (simp add: sl Suc_diff_Suc)
    moreover have "last ds = last cs" using cs dsne by simp
    ultimately have inv': "yq_inv q' ds"
      unfolding yq_inv_def sz using I(1,3,8,10) dsne cs bn by (simp add: q'_def)
    have "yq_get q' (slot_at q cs (Suc i)) = yq_get q (slot_at q cs (Suc i))" if "i < ?n" for i
    proof -
      have "fst (slot_at q' ds i) \<in> set ds"
        using slot_index_bound[OF inv', of i] that sz by (simp add: slot_at_def)
      then show ?thesis using mem_ds hc by (auto simp: yq_get_def sl)
    qed
    then show ?thesis using pop inv' sz sl by blast
  qed
qed


text \<open>The destructor frees every chunk of the chain, and only those.\<close>

lemma yq_free_chunks_Some:
  "\<lbrakk> cs \<noteq> []; distinct cs; set cs \<subseteq> dom (mem q); begin_chunk q = Some (hd cs);
     end_chunk q = Some (last cs);
     \<forall>i. Suc i < length cs \<longrightarrow> next_of q (cs ! i) = Some (cs ! Suc i) \<rbrakk> \<Longrightarrow>
   \<exists>q'. yq_free_chunks q = Some q' \<and> mem q' = mem q |` (- set cs) \<and>
        spare_chunk q' = spare_chunk q"
proof (induction cs arbitrary: q)
  case (Cons b ds)
  obtain bc where bc: "mem q b = Some bc" using Cons.prems(3) by auto
  show ?case
  proof (cases "ds = []")
    case True
    then show ?thesis using Cons.prems(4,5) bc
      by (subst yq_free_chunks.simps)
         (auto simp: yq_free_def restrict_map_def fun_eq_iff)
  next
    case False
    have nx: "ck_next bc = Some (hd ds)"
      using Cons.prems(6)[rule_format, of 0] False bc by (simp add: next_of_def hd_conv_nth)
    have neq: "begin_chunk q \<noteq> end_chunk q"
      using Cons.prems(2,4,5) False by auto
    define q1 where "q1 = q\<lparr>begin_chunk := Some (hd ds), mem := (mem q)(b := None)\<rparr>"
    have next1: "next_of q1 c = next_of q c" if "c \<noteq> b" for c
      using that by (simp add: next_of_def q1_def)
    have "\<exists>q'. yq_free_chunks q1 = Some q' \<and> mem q' = mem q1 |` (- set ds) \<and>
        spare_chunk q' = spare_chunk q1"
    proof (rule Cons.IH)
      show "\<forall>i. Suc i < length ds \<longrightarrow> next_of q1 (ds ! i) = Some (ds ! Suc i)"
      proof (intro allI impI)
        fix i assume "Suc i < length ds"
        then show "next_of q1 (ds ! i) = Some (ds ! Suc i)"
          using Cons.prems(6)[rule_format, of "Suc i"] Cons.prems(2) next1[of "ds ! i"]
          by (metis Suc_less_eq distinct.simps(2) length_Cons nth_Cons_Suc nth_mem Suc_lessD)
      qed
    qed (use Cons.prems False in \<open>auto simp: q1_def\<close>)
    moreover have "yq_free_chunks q = yq_free_chunks q1"
      using neq Cons.prems(4) bc nx
      by (subst yq_free_chunks.simps) (simp add: yq_free_def q1_def)
    ultimately show ?thesis
      by (force simp: q1_def restrict_map_def fun_eq_iff)
  qed
qed simp

lemma yqueue_delete_Some:
  assumes "yq_inv q cs"
  shows "\<exists>q'. yqueue_delete q = Some q' \<and> mem q' = (\<lambda>_. None)"
proof -
  note I = yq_invD[OF assms]
  obtain q1 where q1: "yq_free_chunks q = Some q1" "mem q1 = mem q |` (- set cs)"
      "spare_chunk q1 = spare_chunk q"
    using yq_free_chunks_Some[of cs q] I by (auto simp: linked_def)
  have "mem q1 a = (if spare_chunk q = Some a then mem q a else None)" for a
    using q1(2) I(4,5) by (cases "mem q a") (auto simp: restrict_map_def dom_def set_eq_iff)
  then show ?thesis
    using q1 I(4) by (cases "spare_chunk q")
      (auto simp: yqueue_delete_def yq_free_def dom_def set_eq_iff fun_eq_iff split: option.splits)
qed

section \<open>The interface of the queue\<close>

text \<open>The values of the first \<open>n\<close> elements.\<close>

definition slot_values :: "('s \<Rightarrow> 'v option) \<Rightarrow> (nat \<Rightarrow> 's) \<Rightarrow> nat \<Rightarrow> 'v option list" where
  "slot_values get slot n = map (\<lambda>i. get (slot i)) [0..<n]"

lemma length_slot_values [simp]: "length (slot_values get slot n) = n"
  by (simp add: slot_values_def)

locale slot_queue =
  fixes inv :: "'q \<Rightarrow> 'g \<Rightarrow> bool"
    and sizeq :: "'q \<Rightarrow> 'g \<Rightarrow> nat"
    and slot :: "'q \<Rightarrow> 'g \<Rightarrow> nat \<Rightarrow> 's"
    and front_of :: "'q \<Rightarrow> 's option"
    and back_of :: "'q \<Rightarrow> 's option"
    and get :: "'q \<Rightarrow> 's \<Rightarrow> 'v option"
    and put :: "'s \<Rightarrow> 'v \<Rightarrow> 'q \<Rightarrow> 'q option"
    and push :: "'q \<Rightarrow> 'q option"
    and pop :: "'q \<Rightarrow> 'q option"
    and unpush :: "'q \<Rightarrow> 'q option"
  assumes front_law: "inv q g \<Longrightarrow> front_of q = Some (slot q g 0)"
    and back_law: "inv q g \<Longrightarrow> 0 < sizeq q g \<Longrightarrow> back_of q = Some (slot q g (sizeq q g - 1))"
    and inj_law: "inv q g \<Longrightarrow> i \<le> sizeq q g \<Longrightarrow> j \<le> sizeq q g \<Longrightarrow>
      slot q g i = slot q g j \<longleftrightarrow> i = j"
    and put_law: "inv q g \<Longrightarrow> i \<le> sizeq q g \<Longrightarrow>
      \<exists>q'. put (slot q g i) v q = Some q' \<and> inv q' g \<and> sizeq q' g = sizeq q g \<and>
        slot q' g = slot q g \<and>
        (\<forall>s. get q' s = (if s = slot q g i then Some v else get q s))"
    and push_law: "inv q g \<Longrightarrow>
      \<exists>q' g'. push q = Some q' \<and> inv q' g' \<and> sizeq q' g' = Suc (sizeq q g) \<and>
        (\<forall>i \<le> sizeq q g. slot q' g' i = slot q g i) \<and> get q' = get q"
    and unpush_law: "inv q g \<Longrightarrow> 2 \<le> sizeq q g \<Longrightarrow>
      \<exists>q' g'. unpush q = Some q' \<and> inv q' g' \<and> sizeq q' g' = sizeq q g - 1 \<and>
        (\<forall>i < sizeq q g. slot q' g' i = slot q g i) \<and>
        (\<forall>i < sizeq q g. get q' (slot q g i) = get q (slot q g i))"
    and pop_law: "inv q g \<Longrightarrow> 0 < sizeq q g \<Longrightarrow>
      \<exists>q' g'. pop q = Some q' \<and> inv q' g' \<and> sizeq q' g' = sizeq q g - 1 \<and>
        (\<forall>i < sizeq q g. slot q' g' i = slot q g (Suc i)) \<and>
        (\<forall>i < sizeq q g. get q' (slot q g (Suc i)) = get q (slot q g (Suc i)))"
begin

lemma values_push:
  assumes "inv q g"
  shows "\<exists>q' g'. push q = Some q' \<and> inv q' g' \<and> sizeq q' g' = Suc (sizeq q g) \<and>
    (\<forall>i \<le> sizeq q g. slot q' g' i = slot q g i) \<and>
    slot_values (get q') (slot q' g') (sizeq q g) = slot_values (get q) (slot q g) (sizeq q g)"
proof -
  obtain q' g' where q': "push q = Some q'" "inv q' g'" "sizeq q' g' = Suc (sizeq q g)"
      "\<forall>i \<le> sizeq q g. slot q' g' i = slot q g i" "get q' = get q"
    using push_law[OF assms] by blast
  have "slot_values (get q') (slot q' g') (sizeq q g) = slot_values (get q) (slot q g) (sizeq q g)"
    using q'(4,5) by (simp add: slot_values_def)
  then show ?thesis using q' by blast
qed

lemma values_put:
  assumes "inv q g" "i < sizeq q g"
  shows "\<exists>q'. put (slot q g i) v q = Some q' \<and> inv q' g \<and> sizeq q' g = sizeq q g \<and>
    slot q' g = slot q g \<and>
    slot_values (get q') (slot q' g) (sizeq q g) =
      (slot_values (get q) (slot q g) (sizeq q g))[i := Some v]"
proof -
  obtain q' where q': "put (slot q g i) v q = Some q'" "inv q' g" "sizeq q' g = sizeq q g"
      "slot q' g = slot q g" "\<And>s. get q' s = (if s = slot q g i then Some v else get q s)"
    using put_law[OF assms(1), of i v] assms(2) by auto
  have "slot_values (get q') (slot q' g) (sizeq q g) =
      (slot_values (get q) (slot q g) (sizeq q g))[i := Some v]"
    using assms(2) inj_law[OF assms(1), of _ i]
    by (intro nth_equalityI) (auto simp: slot_values_def q'(4,5) nth_list_update)
  then show ?thesis using q' by blast
qed

lemma values_unpush:
  assumes "inv q g" "2 \<le> sizeq q g"
  shows "\<exists>q' g'. unpush q = Some q' \<and> inv q' g' \<and> sizeq q' g' = sizeq q g - 1 \<and>
    (\<forall>i < sizeq q g. slot q' g' i = slot q g i) \<and>
    slot_values (get q') (slot q' g') (sizeq q g) = slot_values (get q) (slot q g) (sizeq q g)"
proof -
  obtain q' g' where q': "unpush q = Some q'" "inv q' g'" "sizeq q' g' = sizeq q g - 1"
      "\<forall>i < sizeq q g. slot q' g' i = slot q g i"
      "\<forall>i < sizeq q g. get q' (slot q g i) = get q (slot q g i)"
    using unpush_law[OF assms] by blast
  have "slot_values (get q') (slot q' g') (sizeq q g) = slot_values (get q) (slot q g) (sizeq q g)"
    using q'(4,5) by (simp add: slot_values_def)
  then show ?thesis using q' by blast
qed

lemma values_pop:
  assumes "inv q g" "0 < sizeq q g"
  shows "\<exists>q' g'. pop q = Some q' \<and> inv q' g' \<and> sizeq q' g' = sizeq q g - 1 \<and>
    (\<forall>i < sizeq q g. slot q' g' i = slot q g (Suc i)) \<and>
    slot_values (get q') (slot q' g') (sizeq q g - 1) =
      tl (slot_values (get q) (slot q g) (sizeq q g))"
proof -
  obtain q' g' where q': "pop q = Some q'" "inv q' g'" "sizeq q' g' = sizeq q g - 1"
      "\<forall>i < sizeq q g. slot q' g' i = slot q g (Suc i)"
      "\<forall>i < sizeq q g. get q' (slot q g (Suc i)) = get q (slot q g (Suc i))"
    using pop_law[OF assms] by blast
  have "slot_values (get q') (slot q' g') (sizeq q g - 1) =
      tl (slot_values (get q) (slot q g) (sizeq q g))"
    using q'(4,5) assms(2) by (intro nth_equalityI) (auto simp: slot_values_def nth_tl)
  then show ?thesis using q' by blast
qed

end

interpretation yq: slot_queue yq_inv yq_size slot_at yqueue_front yqueue_back yq_get yq_set
  yqueue_push yqueue_pop yqueue_unpush
proof (unfold_locales, goal_cases)
  case (4 q g i v)
  then show ?case by (metis yq_set_Some)
next
  case (5 q g)
  then show ?case
    by (cases "Suc (end_pos q) = granularity q")
      (metis yqueue_push_grow, metis yqueue_push_stay)
next
  case (6 q g)
  then show ?case by (rule yqueue_unpush_Some)
next
  case (7 q g)
  then show ?case by (rule yqueue_pop_Some)
qed (simp_all add: yqueue_front_slot yq_invD(13) slot_at_inj)

lemma yqueue_new_inv: "0 < N \<Longrightarrow> yq_inv (yqueue_new N) [0] \<and> yq_size (yqueue_new N) [0] = 0"
  by (auto simp: yq_inv_def yqueue_new_def yq_size_def linked_def split: if_splits)

end
