(* ===== verification/Ypipe.thy ===== *)
theory Ypipe
  imports Yqueue Atomics
begin

text \<open>
  \<^verbatim>\<open>src/ypipe.hpp\<close>: the lock-free pipe between one writer and one reader thread. The queue
  always ends with a terminator element; \<open>yp_w\<close>, \<open>yp_f\<close> and the back of the queue belong to the
  writer, \<open>yp_r\<close> and the front to the reader, and \<open>yp_c\<close> is the only cell both access, with a
  compare-and-swap. \<open>yp_c = None\<close> (NULL) means that the reader sleeps.

  The abstract view of a pipe is the sequence of its items in four segments: already prefetched by
  the reader, flushed and visible to it, complete but not yet flushed, and belonging to an
  incomplete message. \<open>yp_rel\<close> relates the pointers to the segments; every operation refines the
  corresponding operation on the view. The interface of the pipe to its users is the locale
  \<open>spsc_pipe\<close>.
\<close>

record 'a ypipe_t =
  queue :: "'a yqueue_t"
  yp_w :: "slot option"
  yp_r :: "slot option"
  yp_f :: "slot option"
  yp_c :: "slot option"

definition ypipe_new :: "nat \<Rightarrow> 'a ypipe_t option" where
  "ypipe_new N = do {
     q \<leftarrow> yqueue_push (yqueue_new N);
     let b = yqueue_back q;
     Some \<lparr>queue = q, yp_w = b, yp_r = b, yp_f = b, yp_c = b\<rparr>
   }"

definition ypipe_write :: "'a \<Rightarrow> bool \<Rightarrow> 'a ypipe_t \<Rightarrow> 'a ypipe_t option" where
  "ypipe_write val incomplete p = do {
     b \<leftarrow> yqueue_back (queue p);
     q1 \<leftarrow> yq_set b val (queue p);
     q2 \<leftarrow> yqueue_push q1;
     let p1 = p\<lparr>queue := q2\<rparr>;
     Some (if \<not> incomplete then p1\<lparr>yp_f := yqueue_back q2\<rparr> else p1)
   }"

definition ypipe_unwrite :: "'a ypipe_t \<Rightarrow> ('a option \<times> 'a ypipe_t) option" where
  "ypipe_unwrite p =
     (if yp_f p = yqueue_back (queue p) then Some (None, p)
      else do {
        q \<leftarrow> yqueue_unpush (queue p);
        b \<leftarrow> yqueue_back q;
        v \<leftarrow> yq_get q b;
        Some (Some v, p\<lparr>queue := q\<rparr>)
      })"

definition ypipe_flush :: "'a ypipe_t \<Rightarrow> bool \<times> 'a ypipe_t" where
  "ypipe_flush p =
     (if yp_w p = yp_f p then (True, p)
      else let (old, c') = atomic_ptr_cas (yp_c p) (yp_w p) (yp_f p)
           in if old \<noteq> yp_w p then (False, p\<lparr>yp_c := yp_f p, yp_w := yp_f p\<rparr>)
              else (True, p\<lparr>yp_c := c', yp_w := yp_f p\<rparr>))"

definition ypipe_check_read :: "'a ypipe_t \<Rightarrow> bool \<times> 'a ypipe_t" where
  "ypipe_check_read p =
     (let fr = yqueue_front (queue p)
      in if fr \<noteq> yp_r p \<and> yp_r p \<noteq> None then (True, p)
         else let (old, c') = atomic_ptr_cas (yp_c p) fr None;
                  p' = p\<lparr>yp_r := old, yp_c := c'\<rparr>
              in if fr = old \<or> old = None then (False, p') else (True, p'))"

definition ypipe_read :: "'a ypipe_t \<Rightarrow> ('a option \<times> 'a ypipe_t) option" where
  "ypipe_read p =
     (let (ok, p') = ypipe_check_read p
      in if \<not> ok then Some (None, p')
         else do {
           fr \<leftarrow> yqueue_front (queue p');
           v \<leftarrow> yq_get (queue p') fr;
           q \<leftarrow> yqueue_pop (queue p');
           Some (Some v, p'\<lparr>queue := q\<rparr>)
         })"

definition ypipe_probe :: "('a \<Rightarrow> bool) \<Rightarrow> 'a ypipe_t \<Rightarrow> (bool \<times> 'a ypipe_t) option" where
  "ypipe_probe fn p =
     (let (rc, p') = ypipe_check_read p
      in do {
        zmq_assert rc;
        fr \<leftarrow> yqueue_front (queue p');
        v \<leftarrow> yq_get (queue p') fr;
        Some (fn v, p')
      })"

section \<open>The abstract view\<close>

record 'a pipe_view =
  prefetched :: "'a list"
  visible :: "'a list"
  flushable :: "'a list"
  partial :: "'a list"
  asleep :: bool

definition view_items :: "'a pipe_view \<Rightarrow> 'a list" where
  "view_items A = prefetched A @ visible A @ flushable A @ partial A"

definition view_new :: "'a pipe_view" where
  "view_new = \<lparr>prefetched = [], visible = [], flushable = [], partial = [], asleep = False\<rparr>"

definition view_write :: "'a \<Rightarrow> bool \<Rightarrow> 'a pipe_view \<Rightarrow> 'a pipe_view" where
  "view_write v incomplete A =
     (if incomplete then A\<lparr>partial := partial A @ [v]\<rparr>
      else A\<lparr>flushable := flushable A @ partial A @ [v], partial := []\<rparr>)"

definition view_unwrite :: "'a pipe_view \<Rightarrow> 'a option \<times> 'a pipe_view" where
  "view_unwrite A =
     (if partial A = [] then (None, A)
      else (Some (last (partial A)), A\<lparr>partial := butlast (partial A)\<rparr>))"

definition view_flush :: "'a pipe_view \<Rightarrow> bool \<times> 'a pipe_view" where
  "view_flush A =
     (if flushable A = [] then (True, A)
      else (\<not> asleep A,
            A\<lparr>visible := visible A @ flushable A, flushable := [], asleep := False\<rparr>))"

definition view_check_read :: "'a pipe_view \<Rightarrow> bool \<times> 'a pipe_view" where
  "view_check_read A =
     (if prefetched A \<noteq> [] then (True, A)
      else if visible A \<noteq> [] then (True, A\<lparr>prefetched := visible A, visible := []\<rparr>)
      else (False, A\<lparr>asleep := True\<rparr>))"

definition view_read :: "'a pipe_view \<Rightarrow> 'a option \<times> 'a pipe_view" where
  "view_read A =
     (let (ok, A') = view_check_read A
      in if ok then (Some (hd (prefetched A')), A'\<lparr>prefetched := tl (prefetched A')\<rparr>)
         else (None, A'))"

text \<open>What both threads rely on: a sleeping reader has nothing left to read.\<close>

definition view_ok :: "'a pipe_view \<Rightarrow> bool" where
  "view_ok A \<longleftrightarrow> (asleep A \<longrightarrow> prefetched A = [] \<and> visible A = [])"

definition yp_rel :: "'a ypipe_t \<Rightarrow> nat list \<Rightarrow> 'a pipe_view \<Rightarrow> bool" where
  "yp_rel p cs A \<longleftrightarrow>
     (let q = queue p; n = length (view_items A); sl = slot_at q cs;
          np = length (prefetched A); nv = np + length (visible A);
          nf = nv + length (flushable A)
      in yq_inv q cs \<and> yq_size q cs = Suc n \<and>
         slot_values (yq_get q) sl n = map Some (view_items A) \<and>
         (yp_r p = Some (sl np) \<or> yp_r p = None \<and> np = 0) \<and>
         yp_w p = Some (sl nv) \<and> yp_f p = Some (sl nf) \<and>
         yp_c p = (if asleep A then None else yp_w p) \<and> view_ok A)"

lemma view_ok_ops [simp]:
  "view_ok view_new"
  "view_ok A \<Longrightarrow> view_ok (view_write v i A)"
  "view_ok A \<Longrightarrow> view_ok (snd (view_unwrite A))"
  "view_ok A \<Longrightarrow> view_ok (snd (view_flush A))"
  "view_ok A \<Longrightarrow> view_ok (snd (view_check_read A))"
  "view_ok A \<Longrightarrow> view_ok (snd (view_read A))"
  by (auto simp: view_ok_def view_new_def view_write_def view_unwrite_def view_flush_def
      view_check_read_def view_read_def)

section \<open>Refinement\<close>

lemma ypipe_new_rel:
  assumes "0 < N"
  shows "\<exists>(p :: 'a ypipe_t) cs. ypipe_new N = Some p \<and> yp_rel p cs view_new"
proof -
  obtain q :: "'a yqueue_t" and g where q: "yqueue_push (yqueue_new N) = Some q" "yq_inv q g" "yq_size q g = Suc 0"
    using yq.push_law[OF conjunct1[OF yqueue_new_inv[OF assms]]] yqueue_new_inv[OF assms] by metis
  moreover have "yqueue_back q = Some (slot_at q g 0)"
    using yq.back_law[OF q(2)] q(3) by simp
  ultimately have "yp_rel \<lparr>queue = q, yp_w = yqueue_back q, yp_r = yqueue_back q,
      yp_f = yqueue_back q, yp_c = yqueue_back q\<rparr> g view_new"
    by (simp add: yp_rel_def Let_def view_items_def view_new_def view_ok_def slot_values_def)
  then show ?thesis using q(1) by (auto simp: ypipe_new_def Let_def)
qed

lemma slot_values_Suc: "slot_values get sl (Suc n) = slot_values get sl n @ [get (sl n)]"
  by (simp add: slot_values_def)

lemma nth_slot_values [simp]: "i < n \<Longrightarrow> slot_values get sl n ! i = get (sl i)"
  by (simp add: slot_values_def)

lemma yp_relD:
  assumes "yp_rel p cs A"
  shows "yq_inv (queue p) cs" "yq_size (queue p) cs = Suc (length (view_items A))"
    "slot_values (yq_get (queue p)) (slot_at (queue p) cs) (length (view_items A)) =
       map Some (view_items A)"
    "yp_r p = Some (slot_at (queue p) cs (length (prefetched A))) \<or> yp_r p = None \<and> prefetched A = []"
    "yp_w p = Some (slot_at (queue p) cs (length (prefetched A) + length (visible A)))"
    "yp_f p = Some (slot_at (queue p) cs
       (length (prefetched A) + length (visible A) + length (flushable A)))"
    "yp_c p = (if asleep A then None else yp_w p)" "view_ok A"
    "yqueue_front (queue p) = Some (slot_at (queue p) cs 0)"
    "yqueue_back (queue p) = Some (slot_at (queue p) cs (length (view_items A)))"
proof -
  show inv: "yq_inv (queue p) cs" "yq_size (queue p) cs = Suc (length (view_items A))"
    using assms by (simp_all add: yp_rel_def Let_def)
  show "yqueue_front (queue p) = Some (slot_at (queue p) cs 0)"
    using yq.front_law[OF inv(1)] .
  show "yqueue_back (queue p) = Some (slot_at (queue p) cs (length (view_items A)))"
    using yq.back_law[OF inv(1)] inv(2) by simp
qed (use assms in \<open>simp_all add: yp_rel_def Let_def\<close>)

lemma yp_slot_eq:
  assumes "yp_rel p cs A" "i \<le> length (view_items A)" "j \<le> length (view_items A)"
  shows "slot_at (queue p) cs i = slot_at (queue p) cs j \<longleftrightarrow> i = j"
  using yq.inj_law[OF yp_relD(1)[OF assms(1)]] yp_relD(2)[OF assms(1)] assms(2,3) by simp

lemma yp_get:
  assumes "yp_rel p cs A" "i < length (view_items A)"
  shows "yq_get (queue p) (slot_at (queue p) cs i) = Some (view_items A ! i)"
  using arg_cong[OF yp_relD(3)[OF assms(1)], of "\<lambda>xs. xs ! i"] assms(2)
  by (simp add: slot_values_def)

lemma ypipe_write_rel:
  assumes rel: "yp_rel p cs A"
  shows "\<exists>p' cs'. ypipe_write v i p = Some p' \<and> yp_rel p' cs' (view_write v i A)"
proof -
  note R = yp_relD[OF rel]
  let ?n = "length (view_items A)" and ?q = "queue p"
  obtain q1 where q1: "yq_set (slot_at ?q cs ?n) v ?q = Some q1" "yq_inv q1 cs"
      "yq_size q1 cs = Suc ?n" "slot_at q1 cs = slot_at ?q cs"
      "slot_values (yq_get q1) (slot_at q1 cs) (Suc ?n) =
         (slot_values (yq_get ?q) (slot_at ?q cs) (Suc ?n))[?n := Some v]"
    using yq.values_put[OF R(1), of ?n v] R(2) by auto
  obtain q2 g where q2: "yqueue_push q1 = Some q2" "yq_inv q2 g" "yq_size q2 g = Suc (Suc ?n)"
      "\<And>k. k \<le> Suc ?n \<Longrightarrow> slot_at q2 g k = slot_at q1 cs k"
      "slot_values (yq_get q2) (slot_at q2 g) (Suc ?n) = slot_values (yq_get q1) (slot_at q1 cs) (Suc ?n)"
    using yq.values_push[OF q1(2)] q1(3) by auto
  let ?p = "if \<not> i then p\<lparr>queue := q2, yp_f := yqueue_back q2\<rparr> else p\<lparr>queue := q2\<rparr>"
  have items: "view_items (view_write v i A) = view_items A @ [v]"
    by (simp add: view_write_def view_items_def)
  have "slot_values (yq_get ?q) (slot_at ?q cs) (Suc ?n) =
      map Some (view_items A) @ [yq_get ?q (slot_at ?q cs ?n)]"
    using R(3) by (simp add: slot_values_def)
  then have vals: "slot_values (yq_get q2) (slot_at q2 g) (Suc ?n) = map Some (view_items A @ [v])"
    using q1(5) q2(5) by (simp add: list_update_append)
  have back2: "yqueue_back q2 = Some (slot_at q2 g (Suc ?n))"
    using yq.back_law[OF q2(2)] q2(3) by simp
  have len: "length (prefetched A) + length (visible A) + length (flushable A) + length (partial A) = ?n"
    by (simp add: view_items_def)
  have "yp_rel ?p g (view_write v i A)"
    unfolding yp_rel_def Let_def items
    using q2(2,3) vals R(4-8) back2 len q1(4) q2(4)
    by (auto simp: view_write_def view_ok_def add.assoc split: if_splits)
  moreover have "ypipe_write v i p = Some ?p"
    using R(10) q1(1) q2(1) by (simp add: ypipe_write_def Let_def)
  ultimately show ?thesis by blast
qed

lemma ypipe_unwrite_rel:
  assumes rel: "yp_rel p cs A"
  shows "\<exists>p' cs'. ypipe_unwrite p = Some (fst (view_unwrite A), p') \<and>
    yp_rel p' cs' (snd (view_unwrite A))"
proof -
  note R = yp_relD[OF rel]
  let ?n = "length (view_items A)" and ?q = "queue p"
  let ?nf = "length (prefetched A) + length (visible A) + length (flushable A)"
  have len: "?nf + length (partial A) = ?n" by (simp add: view_items_def)
  have eq: "yp_f p = yqueue_back ?q \<longleftrightarrow> partial A = []"
    using R(6,10) yp_slot_eq[OF rel, of ?nf ?n] len by auto
  show ?thesis
  proof (cases "partial A = []")
    case True
    then show ?thesis using rel eq by (auto simp: ypipe_unwrite_def view_unwrite_def)
  next
    case False
    then have n: "?n = Suc (?n - 1)" "view_items A \<noteq> []" by (auto simp: view_items_def)
    obtain q g where q: "yqueue_unpush ?q = Some q" "yq_inv q g" "yq_size q g = ?n"
        "\<And>k. k \<le> ?n \<Longrightarrow> slot_at q g k = slot_at ?q cs k"
        "slot_values (yq_get q) (slot_at q g) (Suc ?n) =
           slot_values (yq_get ?q) (slot_at ?q cs) (Suc ?n)"
      using yq.values_unpush[OF R(1)] R(2) n by (auto simp: less_Suc_eq_le)
    have bk: "yqueue_back q = Some (slot_at q g (?n - 1))"
      using yq.back_law[OF q(2)] q(3) n by simp
    have vals: "slot_values (yq_get q) (slot_at q g) ?n = map Some (view_items A)"
      using q(5) R(3) by (simp add: slot_values_Suc)
    have "yq_get q (slot_at q g (?n - 1)) = slot_values (yq_get q) (slot_at q g) ?n ! (?n - 1)"
      using n(1) by simp
    also have "\<dots> = Some (last (view_items A))"
      unfolding vals using n by (simp add: last_conv_nth)
    finally have "yq_get q (slot_at q g (?n - 1)) = Some (last (view_items A))" .
    then have un: "ypipe_unwrite p = Some (Some (last (partial A)), p\<lparr>queue := q\<rparr>)"
      using q(1) bk eq False by (simp add: ypipe_unwrite_def view_items_def)
    have items: "view_items (A\<lparr>partial := butlast (partial A)\<rparr>) = butlast (view_items A)"
      using False by (simp add: view_items_def butlast_append)
    have "slot_values (yq_get q) (slot_at q g) (?n - 1) = butlast (slot_values (yq_get q) (slot_at q g) ?n)"
      using n(1) by (metis butlast_snoc slot_values_Suc)
    then have vals': "slot_values (yq_get q) (slot_at q g) (?n - 1) = map Some (butlast (view_items A))"
      using vals by (simp add: map_butlast)
    have "yp_rel (p\<lparr>queue := q\<rparr>) g (A\<lparr>partial := butlast (partial A)\<rparr>)"
      unfolding yp_rel_def Let_def items
      using q(2,3) vals' R(4-8) n(1) len q(4) by (auto simp: view_ok_def)
    then show ?thesis using un False by (auto simp: view_unwrite_def)
  qed
qed

text \<open>Operations that only move the pointers.\<close>

lemma yp_rel_ptrs:
  assumes "yp_rel p cs A" "queue p' = queue p" "view_items A' = view_items A" "view_ok A'"
    and "yp_r p' = Some (slot_at (queue p) cs (length (prefetched A'))) \<or>
         yp_r p' = None \<and> prefetched A' = []"
    and "yp_w p' = Some (slot_at (queue p) cs (length (prefetched A') + length (visible A')))"
    and "yp_f p' = Some (slot_at (queue p) cs
       (length (prefetched A') + length (visible A') + length (flushable A')))"
    and "yp_c p' = (if asleep A' then None else yp_w p')"
  shows "yp_rel p' cs A'"
  using assms yp_relD(1-3)[OF assms(1)] by (simp add: yp_rel_def Let_def)

lemma ypipe_flush_rel:
  assumes rel: "yp_rel p cs A"
  shows "fst (ypipe_flush p) = fst (view_flush A) \<and>
    yp_rel (snd (ypipe_flush p)) cs (snd (view_flush A))"
proof -
  note R = yp_relD[OF rel]
  let ?nv = "length (prefetched A) + length (visible A)"
  have eq: "yp_w p = yp_f p \<longleftrightarrow> flushable A = []"
    using R(5,6) yp_slot_eq[OF rel, of ?nv "?nv + length (flushable A)"]
    by (simp add: view_items_def)
  show ?thesis
  proof (cases "flushable A = []")
    case True
    then show ?thesis using rel eq by (simp add: ypipe_flush_def view_flush_def)
  next
    case False
    let ?p = "p\<lparr>yp_c := yp_f p, yp_w := yp_f p\<rparr>"
    let ?A = "A\<lparr>visible := visible A @ flushable A, flushable := [], asleep := False\<rparr>"
    have "ypipe_flush p = (\<not> asleep A, ?p)"
      using False eq R(5,7) by (simp add: ypipe_flush_def atomic_ptr_cas_def)
    moreover have "yp_rel ?p cs ?A"
      using R(4,6,8) by (intro yp_rel_ptrs[OF rel]) (simp_all add: view_items_def view_ok_def add.assoc)
    ultimately show ?thesis using False by (simp add: view_flush_def)
  qed
qed

lemma ypipe_check_read_rel:
  assumes rel: "yp_rel p cs A"
  shows "fst (ypipe_check_read p) = fst (view_check_read A) \<and>
    yp_rel (snd (ypipe_check_read p)) cs (snd (view_check_read A))"
proof -
  note R = yp_relD[OF rel]
  let ?np = "length (prefetched A)" and ?fr = "yqueue_front (queue p)"
  have le: "?np + length (visible A) \<le> length (view_items A)" by (simp add: view_items_def)
  have "?fr = Some (slot_at (queue p) cs k) \<longleftrightarrow> k = 0" if "k \<le> length (view_items A)" for k
    using R(9) yp_slot_eq[OF rel, of 0 k] that by simp
  note fr = this[of ?np] this[of "?np + length (visible A)"]
  have r: "?fr \<noteq> yp_r p \<and> yp_r p \<noteq> None \<longleftrightarrow> prefetched A \<noteq> []"
    using R(4) fr(1) le by (metis add_leE length_0_conv option.distinct(1))
  have w: "?fr = yp_w p \<longleftrightarrow> prefetched A = [] \<and> visible A = []"
    using R(5) fr(2) le by simp
  consider (pre) "prefetched A \<noteq> []" | (vis) "prefetched A = []" "visible A \<noteq> []"
    | (empty) "prefetched A = []" "visible A = []" by blast
  then show ?thesis
  proof cases
    case pre
    then show ?thesis using rel r by (simp add: ypipe_check_read_def view_check_read_def)
  next
    case vis
    then have "\<not> asleep A" using R(8) by (auto simp: view_ok_def)
    then have "ypipe_check_read p = (True, p\<lparr>yp_r := yp_w p\<rparr>)"
      using vis r w R(5,7) by (auto simp: ypipe_check_read_def atomic_ptr_cas_def Let_def)
    moreover have "yp_rel (p\<lparr>yp_r := yp_w p\<rparr>) cs (A\<lparr>prefetched := visible A, visible := []\<rparr>)"
      using vis R(5-8) by (intro yp_rel_ptrs[OF rel]) (simp_all add: view_items_def view_ok_def)
    ultimately show ?thesis using vis by (simp add: view_check_read_def)
  next
    case empty
    have "ypipe_check_read p = (False, p\<lparr>yp_r := yp_c p, yp_c := None\<rparr>)"
      using empty r w R(7) by (auto simp: ypipe_check_read_def atomic_ptr_cas_def Let_def)
    moreover have "yp_rel (p\<lparr>yp_r := yp_c p, yp_c := None\<rparr>) cs (A\<lparr>asleep := True\<rparr>)"
      using empty R(5-8) by (intro yp_rel_ptrs[OF rel]) (simp_all add: view_items_def view_ok_def)
    ultimately show ?thesis using empty by (simp add: view_check_read_def)
  qed
qed

lemma view_check_read_True:
  "fst (view_check_read A) \<longleftrightarrow> prefetched (snd (view_check_read A)) \<noteq> []"
  by (simp add: view_check_read_def)

lemma ypipe_read_rel:
  assumes rel: "yp_rel p cs A"
  shows "\<exists>p' cs'. ypipe_read p = Some (fst (view_read A), p') \<and> yp_rel p' cs' (snd (view_read A))"
proof -
  obtain ok p1 where p1: "ypipe_check_read p = (ok, p1)" by fastforce
  obtain A1 where A1: "view_check_read A = (ok, A1)" and rel1: "yp_rel p1 cs A1"
    using ypipe_check_read_rel[OF rel] p1 by (cases "view_check_read A") auto
  show ?thesis
  proof (cases ok)
    case False
    then show ?thesis using p1 A1 rel1 by (auto simp: ypipe_read_def view_read_def)
  next
    case True
    note R = yp_relD[OF rel1]
    let ?n = "length (view_items A1)"
    obtain x xs where pre: "prefetched A1 = x # xs"
      using view_check_read_True[of A] A1 True by (cases "prefetched A1") auto
    then have n: "?n = Suc (?n - 1)" "view_items A1 \<noteq> []" "hd (view_items A1) = x"
      by (auto simp: view_items_def)
    obtain q g where q: "yqueue_pop (queue p1) = Some q" "yq_inv q g" "yq_size q g = ?n"
        "\<And>k. k \<le> ?n \<Longrightarrow> slot_at q g k = slot_at (queue p1) cs (Suc k)"
        "slot_values (yq_get q) (slot_at q g) ?n =
           tl (slot_values (yq_get (queue p1)) (slot_at (queue p1) cs) (Suc ?n))"
      using yq.values_pop[OF R(1)] R(2) by (auto simp: less_Suc_eq_le)
    let ?A = "A1\<lparr>prefetched := xs\<rparr>"
    have items: "view_items ?A = tl (view_items A1)" using pre by (simp add: view_items_def)
    have get: "yq_get (queue p1) (slot_at (queue p1) cs 0) = Some x"
      using yp_get[OF rel1, of 0] n by (simp add: hd_conv_nth)
    have read: "ypipe_read p = Some (Some x, p1\<lparr>queue := q\<rparr>)"
      using p1 True R(9) get q(1) by (simp add: ypipe_read_def)
    have "tl (slot_values (yq_get (queue p1)) (slot_at (queue p1) cs) (Suc ?n)) =
        map Some (tl (view_items A1)) @ [yq_get (queue p1) (slot_at (queue p1) cs ?n)]"
      using R(3) n(2) by (simp add: slot_values_Suc map_tl)
    then have "slot_values (yq_get q) (slot_at q g) (?n - 1) = map Some (tl (view_items A1))"
      using q(5) n(1) by (metis append_same_eq append1_eq_conv slot_values_Suc)
    then have "yp_rel (p1\<lparr>queue := q\<rparr>) g ?A"
      unfolding yp_rel_def Let_def items
      using q(2,3) R(4-8) n(1) q(4) pre by (auto simp: view_ok_def view_items_def)
    then show ?thesis using read A1 True pre by (auto simp: view_read_def)
  qed
qed

lemma ypipe_probe_rel:
  assumes rel: "yp_rel p cs A" and ok: "fst (view_check_read A)"
  shows "\<exists>p'. ypipe_probe fn p = Some (fn (hd (prefetched (snd (view_check_read A)))), p') \<and>
    yp_rel p' cs (snd (view_check_read A))"
proof -
  obtain A1 p1 where p1: "ypipe_check_read p = (True, p1)" "snd (view_check_read A) = A1"
      "yp_rel p1 cs A1"
    using ypipe_check_read_rel[OF rel] ok by (cases "ypipe_check_read p") auto
  obtain x xs where pre: "prefetched A1 = x # xs"
    using view_check_read_True[of A] p1 ok by (cases "prefetched A1") auto
  have "yq_get (queue p1) (slot_at (queue p1) cs 0) = Some x"
    using yp_get[OF p1(3), of 0] pre by (simp add: view_items_def)
  then show ?thesis
    using p1 pre yp_relD(9)[OF p1(3)] by (simp add: ypipe_probe_def)
qed

section \<open>The interface of the pipe\<close>

text \<open>
  A schedule of calls by the two threads. The state of a run is the pipe, the items written and
  not taken back, how many of them belong to complete messages, and the items received.
\<close>

datatype 'a pipe_op = PWrite 'a bool | PUnwrite | PFlush | PCheck | PRead

type_synonym ('p, 'a) pipe_run = "'p \<times> 'a list \<times> nat \<times> 'a list"

fun pipe_exec ::
  "('a \<Rightarrow> bool \<Rightarrow> 'p \<Rightarrow> 'p option) \<Rightarrow> ('p \<Rightarrow> ('a option \<times> 'p) option) \<Rightarrow>
   ('p \<Rightarrow> bool \<times> 'p) \<Rightarrow> ('p \<Rightarrow> bool \<times> 'p) \<Rightarrow> ('p \<Rightarrow> ('a option \<times> 'p) option) \<Rightarrow>
   'a pipe_op list \<Rightarrow> ('p, 'a) pipe_run \<Rightarrow> ('p, 'a) pipe_run option" where
  "pipe_exec wr un fl ck rd [] st = Some st"
| "pipe_exec wr un fl ck rd (PWrite v i # ops) (p, wrt, n, rcv) =
     Option.bind (wr v i p) (\<lambda>p'.
       pipe_exec wr un fl ck rd ops
         (p', wrt @ [v], if i then n else Suc (length wrt), rcv))"
| "pipe_exec wr un fl ck rd (PUnwrite # ops) (p, wrt, n, rcv) =
     Option.bind (un p) (\<lambda>(r, p').
       pipe_exec wr un fl ck rd ops
         (p', case r of None \<Rightarrow> wrt | Some _ \<Rightarrow> butlast wrt, n, rcv))"
| "pipe_exec wr un fl ck rd (PFlush # ops) (p, wrt, n, rcv) =
     pipe_exec wr un fl ck rd ops (snd (fl p), wrt, n, rcv)"
| "pipe_exec wr un fl ck rd (PCheck # ops) (p, wrt, n, rcv) =
     pipe_exec wr un fl ck rd ops (snd (ck p), wrt, n, rcv)"
| "pipe_exec wr un fl ck rd (PRead # ops) (p, wrt, n, rcv) =
     Option.bind (rd p) (\<lambda>(r, p').
       pipe_exec wr un fl ck rd ops
         (p', wrt, n, case r of None \<Rightarrow> rcv | Some v \<Rightarrow> rcv @ [v]))"

definition run_ok :: "'a pipe_view \<Rightarrow> 'a list \<Rightarrow> nat \<Rightarrow> 'a list \<Rightarrow> bool" where
  "run_ok A wrt n rcv \<longleftrightarrow> view_ok A \<and> wrt = rcv @ view_items A \<and> n + length (partial A) = length wrt"

lemma run_ok_steps:
  assumes "run_ok A wrt n rcv"
  shows "run_ok (view_write v i A) (wrt @ [v]) (if i then n else Suc (length wrt)) rcv"
    and "run_ok (snd (view_unwrite A))
           (case fst (view_unwrite A) of None \<Rightarrow> wrt | Some _ \<Rightarrow> butlast wrt) n rcv"
    and "run_ok (snd (view_flush A)) wrt n rcv"
    and "run_ok (snd (view_check_read A)) wrt n rcv"
    and "run_ok (snd (view_read A)) wrt n
           (case fst (view_read A) of None \<Rightarrow> rcv | Some v \<Rightarrow> rcv @ [v])"
proof -
  show "run_ok (snd (view_unwrite A))
           (case fst (view_unwrite A) of None \<Rightarrow> wrt | Some _ \<Rightarrow> butlast wrt) n rcv"
    using assms by (cases "partial A" rule: rev_cases)
      (auto simp: run_ok_def view_unwrite_def view_items_def butlast_append view_ok_def)
  show "run_ok (snd (view_read A)) wrt n
           (case fst (view_read A) of None \<Rightarrow> rcv | Some v \<Rightarrow> rcv @ [v])"
    using assms by (cases "prefetched A"; cases "visible A")
      (auto simp: run_ok_def view_read_def view_check_read_def view_items_def view_ok_def)
qed (use assms in \<open>auto simp: run_ok_def view_write_def view_flush_def view_check_read_def
       view_items_def view_ok_def\<close>)

locale spsc_pipe =
  fixes rel :: "'p \<Rightarrow> 'a pipe_view \<Rightarrow> bool"
    and wr :: "'a \<Rightarrow> bool \<Rightarrow> 'p \<Rightarrow> 'p option"
    and un :: "'p \<Rightarrow> ('a option \<times> 'p) option"
    and fl :: "'p \<Rightarrow> bool \<times> 'p"
    and ck :: "'p \<Rightarrow> bool \<times> 'p"
    and rd :: "'p \<Rightarrow> ('a option \<times> 'p) option"
  assumes rel_ok: "rel p A \<Longrightarrow> view_ok A"
    and write_law: "rel p A \<Longrightarrow> \<exists>p'. wr v i p = Some p' \<and> rel p' (view_write v i A)"
    and unwrite_law: "rel p A \<Longrightarrow>
      \<exists>p'. un p = Some (fst (view_unwrite A), p') \<and> rel p' (snd (view_unwrite A))"
    and flush_law: "rel p A \<Longrightarrow>
      fst (fl p) = fst (view_flush A) \<and> rel (snd (fl p)) (snd (view_flush A))"
    and check_law: "rel p A \<Longrightarrow>
      fst (ck p) = fst (view_check_read A) \<and>
      rel (snd (ck p)) (snd (view_check_read A))"
    and read_law: "rel p A \<Longrightarrow>
      \<exists>p'. rd p = Some (fst (view_read A), p') \<and> rel p' (snd (view_read A))"
begin

lemma exec_rel:
  "rel p A \<Longrightarrow> run_ok A wrt n rcv \<Longrightarrow>
   \<exists>p' wrt' n' rcv' A'. pipe_exec wr un fl ck rd ops (p, wrt, n, rcv) =
       Some (p', wrt', n', rcv') \<and> rel p' A' \<and> run_ok A' wrt' n' rcv'"
proof (induction ops arbitrary: p A wrt n rcv)
  case Nil
  then show ?case by auto
next
  case (Cons op ops)
  note steps = run_ok_steps[OF Cons.prems(2)]
  show ?case
  proof (cases op)
    case (PWrite v i)
    then show ?thesis using write_law[OF Cons.prems(1), of v i] Cons.IH steps(1) by fastforce
  next
    case PUnwrite
    then show ?thesis using unwrite_law[OF Cons.prems(1)] Cons.IH steps(2) by fastforce
  next
    case PFlush
    then show ?thesis using flush_law[OF Cons.prems(1)] Cons.IH steps(3) by fastforce
  next
    case PCheck
    then show ?thesis using check_law[OF Cons.prems(1)] Cons.IH steps(4) by fastforce
  next
    case PRead
    then show ?thesis using read_law[OF Cons.prems(1)] Cons.IH steps(5) by fastforce
  qed
qed

lemma flush_readable:
  assumes "rel p A" "run_ok A wrt n rcv"
  shows "fst (ck (snd (fl p))) \<longleftrightarrow> length rcv < n"
    and "\<not> fst (fl p) \<Longrightarrow> length rcv < n"
proof -
  have ok: "view_ok A" "wrt = rcv @ view_items A" "n + length (partial A) = length wrt"
    using assms(2) by (simp_all add: run_ok_def)
  have "fst (view_check_read (snd (view_flush A))) \<longleftrightarrow> length rcv < n"
    using ok by (auto simp: view_flush_def view_check_read_def view_items_def)
  then show "fst (ck (snd (fl p))) \<longleftrightarrow> length rcv < n"
    using check_law flush_law[OF assms(1)] by blast
  have "\<not> fst (view_flush A) \<Longrightarrow> length rcv < n"
    using ok by (auto simp: view_flush_def view_items_def split: if_splits)
  then show "\<not> fst (fl p) \<Longrightarrow> length rcv < n"
    using flush_law[OF assms(1)] by simp
qed

text \<open>Reading often enough after a fl empties the pipe of its complete items.\<close>

lemma drain:
  "rel p A \<Longrightarrow> run_ok A wrt n rcv \<Longrightarrow> flushable A = [] \<Longrightarrow> k = n - length rcv \<Longrightarrow>
   \<exists>p'. pipe_exec wr un fl ck rd (replicate k PRead) (p, wrt, n, rcv) =
     Some (p', wrt, n, take n wrt)"
proof (induction k arbitrary: p A rcv)
  case 0
  then show ?case by (auto simp: run_ok_def view_items_def)
next
  case (Suc k)
  obtain p' where p': "rd p = Some (fst (view_read A), p')" "rel p' (snd (view_read A))"
    using read_law[OF Suc.prems(1)] by blast
  have "prefetched A \<noteq> [] \<or> visible A \<noteq> []"
    using Suc.prems(2-4) by (auto simp: run_ok_def view_items_def)
  then have "fst (view_read A) \<noteq> None" "flushable (snd (view_read A)) = []"
    using Suc.prems(3) by (auto simp: view_read_def view_check_read_def)
  then obtain v where v: "fst (view_read A) = Some v" "flushable (snd (view_read A)) = []"
    by blast
  have ok: "run_ok (snd (view_read A)) wrt n (rcv @ [v])"
    using run_ok_steps(5)[OF Suc.prems(2)] v by simp
  have "k = n - length (rcv @ [v])" using Suc.prems(4) by simp
  then show ?case
    using Suc.IH[OF p'(2) ok v(2)] p'(1) v(1) by simp
qed

end

interpretation yp: spsc_pipe "\<lambda>p A. \<exists>cs. yp_rel p cs A" ypipe_write ypipe_unwrite ypipe_flush
  ypipe_check_read ypipe_read
proof (unfold_locales, goal_cases)
  case (2 p A v i)
  then show ?case using ypipe_write_rel[of p _ A v i] by blast
next
  case (3 p A)
  then show ?case using ypipe_unwrite_rel[of p _ A] by blast
next
  case (4 p A)
  then show ?case using ypipe_flush_rel[of p _ A] by blast
next
  case (5 p A)
  then show ?case using ypipe_check_read_rel[of p _ A] by blast
next
  case (6 p A)
  then show ?case using ypipe_read_rel[of p _ A] by blast
qed (auto dest: yp_relD(8))

definition ypipe_exec ::
  "'a pipe_op list \<Rightarrow> ('a ypipe_t, 'a) pipe_run \<Rightarrow> ('a ypipe_t, 'a) pipe_run option" where
  "ypipe_exec = pipe_exec ypipe_write ypipe_unwrite ypipe_flush ypipe_check_read ypipe_read"

lemma ypipe_exec_new:
  "\<exists>(p :: 'a ypipe_t) p' wrt n rcv A cs. ypipe_new (Suc N) = Some p \<and>
     ypipe_exec ops (p, [], 0, []) = Some (p', wrt, n, rcv) \<and> yp_rel p' cs A \<and> run_ok A wrt n rcv"
proof -
  obtain p :: "'a ypipe_t" and cs where p: "ypipe_new (Suc N) = Some p" "yp_rel p cs view_new"
    using ypipe_new_rel by blast
  have "run_ok view_new [] 0 ([] :: 'a list)"
    by (simp add: run_ok_def view_new_def view_items_def view_ok_def)
  then show ?thesis
    using p yp.exec_rel[of p view_new "[]" 0 "[]" ops] unfolding ypipe_exec_def by blast
qed

section \<open>Properties\<close>

text \<open>C1: The pipe delivers its items in order, under every schedule of calls by the writer and the
  reader. From a fresh pipe, with chunks of any positive size, no schedule makes an access through a
  bad pointer; what the reader has received is a prefix of what the writer wrote (and did not
  take back); and it never contains an item of an incomplete message: of the \<open>n\<close> items
  that belong to complete messages, the reader has received a prefix.\<close>

theorem ypipe_fifo:
  "\<exists>p p' wrt n rcv. ypipe_new (Suc N) = Some p \<and>
     ypipe_exec ops (p, [], 0, []) = Some (p', wrt, n, rcv) \<and>
     rcv = take (length rcv) wrt \<and> length rcv \<le> n \<and> n \<le> length wrt"
proof -
  obtain p p' wrt n rcv A cs where "ypipe_new (Suc N) = Some p"
      "ypipe_exec ops (p, [], 0, []) = Some (p', wrt, n, rcv)" "run_ok A wrt n rcv"
    using ypipe_exec_new[of N ops] by blast
  moreover from this(3) have "rcv = take (length rcv) wrt \<and> length rcv \<le> n \<and> n \<le> length wrt"
    by (auto simp: run_ok_def view_items_def)
  ultimately show ?thesis by blast
qed

lemma pipe_exec_append:
  "pipe_exec wr un fl ck rd (xs @ ys) st =
     Option.bind (pipe_exec wr un fl ck rd xs st) (pipe_exec wr un fl ck rd ys)"
proof (induction xs arbitrary: st)
  case (Cons op xs)
  then show ?case
    by (cases st; cases op) (auto simp: split: option.splits prod.splits bind_splits)
qed simp

lemma view_asleep_writer:
  assumes "asleep A" "op \<in> {PUnwrite} \<union> range (\<lambda>(v, i). PWrite v i)"
  shows "asleep (view_write v i A)" "asleep (snd (view_unwrite A))"
  using assms by (simp_all add: view_write_def view_unwrite_def)

fun writer_op :: "'a pipe_op \<Rightarrow> bool" where
  "writer_op (PWrite v i) = True"
| "writer_op PUnwrite = True"
| "writer_op op = False"

lemma ypipe_exec_asleep:
  assumes "list_all writer_op ops" "yp_rel p cs A" "run_ok A wrt n rcv" "asleep A"
  shows "\<exists>p' wrt' n' A' cs'. ypipe_exec ops (p, wrt, n, rcv) = Some (p', wrt', n', rcv) \<and>
    yp_rel p' cs' A' \<and> run_ok A' wrt' n' rcv \<and> asleep A'"
  using assms
proof (induction ops arbitrary: p cs A wrt n)
  case Nil
  then show ?case by (auto simp: ypipe_exec_def)
next
  case (Cons op ops)
  note steps = run_ok_steps[OF Cons.prems(3)]
  show ?case
  proof (cases op)
    case (PWrite v i)
    obtain p' cs' where p': "ypipe_write v i p = Some p'" "yp_rel p' cs' (view_write v i A)"
      using ypipe_write_rel[OF Cons.prems(2)] by blast
    show ?thesis
      using Cons.IH[OF _ p'(2) steps(1)] Cons.prems(1,4) PWrite p'(1)
      by (simp add: ypipe_exec_def view_write_def)
  next
    case PUnwrite
    obtain p' cs' where p': "ypipe_unwrite p = Some (fst (view_unwrite A), p')"
        "yp_rel p' cs' (snd (view_unwrite A))"
      using ypipe_unwrite_rel[OF Cons.prems(2)] by blast
    have "asleep (snd (view_unwrite A))" using Cons.prems(4) by (simp add: view_unwrite_def)
    then show ?thesis
      using Cons.IH[OF _ p'(2) steps(2)] Cons.prems(1) PUnwrite p'(1)
      by (simp add: ypipe_exec_def)
  qed (use Cons.prems(1) in auto)
qed

text \<open>C2: No wake-up is lost. Let the reader find the pipe empty (\<open>check_read\<close> fails) in any
  reachable state, and let the writer then write and take back items without flushing. The next
  flush reports failure, which is what makes the writer wake the reader up, exactly when there is
  a complete item that the reader has not received; and afterwards a read does find it.\<close>

theorem ypipe_no_lost_wakeup:
  assumes "ypipe_new (Suc N) = Some p0"
    and "ypipe_exec ops (p0, [], 0, []) = Some (p, wrt, n, rcv)"
    and "\<not> fst (ypipe_check_read p)"
    and "list_all writer_op wops"
  shows "\<exists>p' wrt' n'. ypipe_exec wops (snd (ypipe_check_read p), wrt, n, rcv) =
      Some (p', wrt', n', rcv) \<and>
    (fst (ypipe_flush p') \<longleftrightarrow> \<not> length rcv < n') \<and>
    (fst (ypipe_check_read (snd (ypipe_flush p'))) \<longleftrightarrow> length rcv < n')"
proof -
  obtain A cs where rel: "yp_rel p cs A" and ok: "run_ok A wrt n rcv"
    using ypipe_exec_new[of N ops] assms(1,2) by auto
  note ck = ypipe_check_read_rel[OF rel]
  let ?A = "snd (view_check_read A)"
  have "asleep ?A" using ck assms(3) by (simp add: view_check_read_def split: if_splits)
  then obtain p' wrt' n' A' cs' where p': "ypipe_exec wops (snd (ypipe_check_read p), wrt, n, rcv) =
      Some (p', wrt', n', rcv)" "yp_rel p' cs' A'" "run_ok A' wrt' n' rcv" "asleep A'"
    using ypipe_exec_asleep[OF assms(4) conjunct2[OF ck] run_ok_steps(4)[OF ok]] by blast
  have "fst (ypipe_flush p') \<longleftrightarrow> \<not> length rcv < n'"
    using ypipe_flush_rel[OF p'(2)] p'(3,4)
    by (auto simp: view_flush_def run_ok_def view_items_def view_ok_def)
  moreover have "fst (ypipe_check_read (snd (ypipe_flush p'))) \<longleftrightarrow> length rcv < n'"
    using yp.flush_readable(1)[OF _ p'(3)] p'(2) by blast
  ultimately show ?thesis using p'(1) by blast
qed

theorem ypipe_no_lost_wakeup_witness:
  "\<exists>p0 p wrt n rcv p' wrt' n'. ypipe_new (Suc 1) = Some p0 \<and>
     ypipe_exec [PWrite (7 :: nat) False, PFlush, PRead] (p0, [], 0, []) = Some (p, wrt, n, rcv) \<and>
     rcv = [7] \<and>
     ypipe_exec [PWrite 8 True, PWrite 9 False] (snd (ypipe_check_read p), wrt, n, rcv) =
       Some (p', wrt', n', rcv) \<and> n' = 3 \<and> \<not> fst (ypipe_flush p')"
proof -
  let ?fresh = "the (ypipe_new (Suc 1)) :: nat ypipe_t"
  let ?st = "ypipe_exec [PWrite (7 :: nat) False, PFlush, PRead] (?fresh, [], 0, [])"
  let ?p = "fst (the ?st)" and ?wops = "[PWrite (8 :: nat) True, PWrite 9 False]"
  let ?st' = "ypipe_exec ?wops (snd (ypipe_check_read ?p), [7], 1, [7])"
  have p0: "ypipe_new (Suc 1) = Some ?fresh"
    using ypipe_new_rel[of "Suc 1", where 'a = nat] by auto
  have "?st \<noteq> None \<and> snd (the ?st) = ([7], 1, [7])" by code_simp
  then have st: "?st = Some (?p, [7], 1, [7])" by auto
  have ck: "\<not> fst (ypipe_check_read ?p)" by code_simp
  have "?st' \<noteq> None \<and> snd (the ?st') = ([7, 8, 9], 3, [7])" by code_simp
  then obtain p' where st': "?st' = Some (p', [7, 8, 9], 3, [7])" by auto
  have "\<not> fst (ypipe_flush p')"
    using ypipe_no_lost_wakeup[OF p0 st ck, of ?wops] st' by simp
  then show ?thesis using p0 st st' by blast
qed

text \<open>C3: Every complete item is delivered. After any schedule, a flush by the writer followed
  by as many reads as items are outstanding gives the reader exactly the items of the complete
  messages, in the order in which they were written.\<close>

theorem ypipe_delivery:
  "\<exists>p p1 wrt n rcv p'. ypipe_new (Suc N) = Some p \<and>
     ypipe_exec ops (p, [], 0, []) = Some (p1, wrt, n, rcv) \<and>
     ypipe_exec (ops @ PFlush # replicate (n - length rcv) PRead) (p, [], 0, []) =
       Some (p', wrt, n, take n wrt)"
proof -
  obtain p p1 wrt n rcv A cs where p: "ypipe_new (Suc N) = Some p"
      "ypipe_exec ops (p, [], 0, []) = Some (p1, wrt, n, rcv)" "yp_rel p1 cs A" "run_ok A wrt n rcv"
    using ypipe_exec_new[of N ops] by blast
  have "flushable (snd (view_flush A)) = []" by (simp add: view_flush_def)
  then obtain p' where "ypipe_exec (replicate (n - length rcv) PRead) (snd (ypipe_flush p1), wrt, n, rcv)
      = Some (p', wrt, n, take n wrt)"
    using yp.drain[of _ "snd (view_flush A)", OF _ run_ok_steps(3)[OF p(4)]] ypipe_flush_rel[OF p(3)]
    unfolding ypipe_exec_def by blast
  then show ?thesis
    using p(1,2) by (auto simp: ypipe_exec_def pipe_exec_append)
qed

text \<open>C4: The queue under the pipe frees everything. After any schedule, the destructor of the
  queue finishes, frees no chunk twice and leaves no chunk allocated, the spare one included.\<close>

theorem ypipe_no_leak:
  "\<exists>p p' wrt n rcv q'. ypipe_new (Suc N) = Some p \<and>
     ypipe_exec ops (p, [], 0, []) = Some (p', wrt, n, rcv) \<and>
     yqueue_delete (queue p') = Some q' \<and> (\<forall>a. mem q' a = None)"
proof -
  obtain p p' wrt n rcv A cs where p: "ypipe_new (Suc N) = Some p"
      "ypipe_exec ops (p, [], 0, []) = Some (p', wrt, n, rcv)" "yp_rel p' cs A"
    using ypipe_exec_new[of N ops] by blast
  then show ?thesis using yqueue_delete_Some[OF yp_relD(1)[OF p(3)]] by auto
qed

end
