(* ===== verification/Mailbox.thy ===== *)
theory Mailbox
  imports Ypipe
begin

text \<open>
  \<^verbatim>\<open>src/mailbox.hpp\<close>, \<^verbatim>\<open>src/mailbox.cpp\<close> and the counting part of \<^verbatim>\<open>src/signaler.cpp\<close>: the mailbox of a
  thread. Any number of threads put commands into a lock-free pipe, one at a time because of a lock, and one thread
  receives. The signaler is a pair of connected descriptors; what matters of it is the number of bytes that are in it.
  A sender releases the lock before it signals, so other steps happen in between; a receiver is interrupted between the
  read that fails, the byte it takes out of the signaler and the wait.
\<close>

definition command_pipe_granularity :: nat where
  "command_pipe_granularity = 16"

record 'c mailbox_t =
  cpipe :: "'c ypipe_t"
  signals :: nat
  mb_active :: bool

definition mailbox_new :: "'c mailbox_t option" where
  "mailbox_new = do {
     p \<leftarrow> ypipe_new command_pipe_granularity;
     (r, p') \<leftarrow> ypipe_read p;
     zmq_assert (r = None);
     Some \<lparr>cpipe = p', signals = 0, mb_active = False\<rparr>
   }"

section \<open>The signaler\<close>

definition signaler_send :: "'c mailbox_t \<Rightarrow> 'c mailbox_t" where
  "signaler_send mb = mb\<lparr>signals := signals mb + 1\<rparr>"

text \<open>The descriptor does not block: the assertion on the number of bytes fails when there is none.\<close>

definition signaler_recv :: "'c mailbox_t \<Rightarrow> 'c mailbox_t option" where
  "signaler_recv mb = do { zmq_assert (signals mb > 0); Some (mb\<lparr>signals := signals mb - 1\<rparr>) }"

datatype waited = WReady | WTimeout | WIntr

text \<open>\<open>intr\<close> tells whether the system call is interrupted; with an infinite timeout \<open>WTimeout\<close> is no result but a wait
  that goes on.\<close>

definition signaler_wait :: "bool \<Rightarrow> 'c mailbox_t \<Rightarrow> waited" where
  "signaler_wait intr mb = (if intr then WIntr else if signals mb > 0 then WReady else WTimeout)"

section \<open>The mailbox\<close>

text \<open>Sending, up to the release of the lock, and in one piece.\<close>

definition mailbox_post :: "'c \<Rightarrow> 'c mailbox_t \<Rightarrow> (bool \<times> 'c mailbox_t) option" where
  "mailbox_post c mb = do {
     p \<leftarrow> ypipe_write c False (cpipe mb);
     let (ok, p') = ypipe_flush p;
     Some (ok, mb\<lparr>cpipe := p'\<rparr>)
   }"

definition mailbox_send :: "'c \<Rightarrow> 'c mailbox_t \<Rightarrow> 'c mailbox_t option" where
  "mailbox_send c mb = do {
     (ok, mb') \<leftarrow> mailbox_post c mb;
     Some (if ok then mb' else signaler_send mb')
   }"

text \<open>Receiving: where the receiver is, the three pieces, and all of it.\<close>

datatype phase = Idle | Consume | Wait

definition recv_start :: "'c mailbox_t \<Rightarrow> ('c option \<times> phase \<times> 'c mailbox_t) option" where
  "recv_start mb =
     (if mb_active mb then do {
        (r, p) \<leftarrow> ypipe_read (cpipe mb);
        Some (case r of
            Some c \<Rightarrow> (Some c, Idle, mb\<lparr>cpipe := p\<rparr>)
          | None \<Rightarrow> (None, Consume, mb\<lparr>cpipe := p, mb_active := False\<rparr>))
      }
      else Some (None, Wait, mb))"

definition recv_wait :: "bool \<Rightarrow> 'c mailbox_t \<Rightarrow> ('c option \<times> 'c mailbox_t) option" where
  "recv_wait intr mb =
     (case signaler_wait intr mb of
        WReady \<Rightarrow> do {
          let mb' = mb\<lparr>mb_active := True\<rparr>;
          (r, p) \<leftarrow> ypipe_read (cpipe mb');
          zmq_assert (r \<noteq> None);
          Some (r, mb'\<lparr>cpipe := p\<rparr>)
        }
      | _ \<Rightarrow> Some (None, mb))"

definition mailbox_recv :: "bool \<Rightarrow> 'c mailbox_t \<Rightarrow> ('c option \<times> 'c mailbox_t) option" where
  "mailbox_recv intr mb = do {
     (r, ph, mb1) \<leftarrow> recv_start mb;
     (case ph of
        Idle \<Rightarrow> Some (r, mb1)
      | Consume \<Rightarrow> do { mb2 \<leftarrow> signaler_recv mb1; recv_wait intr mb2 }
      | Wait \<Rightarrow> recv_wait intr mb1)
   }"

section \<open>Interleavings\<close>

text \<open>\<open>owed\<close> is the number of senders between the release of the lock and the signal.\<close>

record 'c mb_sys =
  box :: "'c mailbox_t"
  owed :: nat
  mb_phase :: phase
  posted :: "'c list"
  received :: "'c list"

datatype 'c mb_ev = MPost 'c | MSignal | MStart | MConsume | MWait bool

definition mb_sys_new :: "'c mb_sys option" where
  "mb_sys_new = do {
     mb \<leftarrow> mailbox_new;
     Some \<lparr>box = mb, owed = 0, mb_phase = Idle, posted = [], received = []\<rparr>
   }"

definition gain :: "'c option \<Rightarrow> 'c list" where
  "gain r = (case r of Some c \<Rightarrow> [c] | None \<Rightarrow> [])"

text \<open>A step that its thread is not at changes nothing.\<close>

fun mb_exec :: "'c mb_ev \<Rightarrow> 'c mb_sys \<Rightarrow> 'c mb_sys option" where
  "mb_exec (MPost c) s = do {
     (ok, mb) \<leftarrow> mailbox_post c (box s);
     Some (s\<lparr>box := mb, owed := (if ok then owed s else owed s + 1), posted := posted s @ [c]\<rparr>)
   }"
| "mb_exec MSignal s =
     (if owed s > 0 then Some (s\<lparr>box := signaler_send (box s), owed := owed s - 1\<rparr>) else Some s)"
| "mb_exec MStart s =
     (if mb_phase s = Idle then do {
        (r, ph, mb) \<leftarrow> recv_start (box s);
        Some (s\<lparr>box := mb, mb_phase := ph, received := received s @ gain r\<rparr>)
      }
      else Some s)"
| "mb_exec MConsume s =
     (if mb_phase s = Consume then do {
        mb \<leftarrow> signaler_recv (box s);
        Some (s\<lparr>box := mb, mb_phase := Wait\<rparr>)
      }
      else Some s)"
| "mb_exec (MWait intr) s =
     (if mb_phase s = Wait then do {
        (r, mb) \<leftarrow> recv_wait intr (box s);
        Some (s\<lparr>box := mb, mb_phase := Idle, received := received s @ gain r\<rparr>)
      }
      else Some s)"

fun mb_run :: "'c mb_ev list \<Rightarrow> 'c mb_sys \<Rightarrow> 'c mb_sys option" where
  "mb_run [] s = Some s"
| "mb_run (e # es) s = do { s' \<leftarrow> mb_exec e s; mb_run es s' }"

text \<open>
  The bytes in the signaler and the ones still to come: one if the receiver is active or there are commands that it was
  not told about, and one more while the receiver is about to take its byte out.
\<close>

definition mb_inv :: "'c mb_sys \<Rightarrow> 'c pipe_view \<Rightarrow> bool" where
  "mb_inv s A \<longleftrightarrow>
     (\<exists>cs. yp_rel (cpipe (box s)) cs A) \<and> run_ok A (posted s) (length (posted s)) (received s) \<and> flushable A = [] \<and>
     signals (box s) + owed s = (if mb_active (box s) \<or> \<not> asleep A then 1 else 0) + (if mb_phase s = Consume then 1 else 0) \<and>
     (mb_active (box s) \<longrightarrow> \<not> asleep A \<and> mb_phase s = Idle) \<and>
     (mb_active (box s) \<or> mb_phase s = Consume \<longrightarrow> signals (box s) > 0) \<and>
     (\<not> mb_active (box s) \<and> \<not> asleep A \<longrightarrow> prefetched A @ visible A \<noteq> [])"

lemma mb_invD:
  assumes "mb_inv s A"
  shows "\<exists>cs. yp_rel (cpipe (box s)) cs A" "run_ok A (posted s) (length (posted s)) (received s)" "flushable A = []"
    "signals (box s) + owed s = (if mb_active (box s) \<or> \<not> asleep A then 1 else 0) + (if mb_phase s = Consume then 1 else 0)"
    "mb_active (box s) \<Longrightarrow> \<not> asleep A" "mb_active (box s) \<Longrightarrow> mb_phase s = Idle"
    "mb_active (box s) \<or> mb_phase s = Consume \<Longrightarrow> signals (box s) > 0"
    "\<not> mb_active (box s) \<Longrightarrow> \<not> asleep A \<Longrightarrow> prefetched A @ visible A \<noteq> []"
  using assms unfolding mb_inv_def by auto

lemma mailbox_new_inv: "\<exists>(s :: 'c mb_sys) A. mb_sys_new = Some s \<and> mb_inv s A \<and> posted s = [] \<and> received s = [] \<and> mb_phase s = Idle"
proof -
  obtain p :: "'c ypipe_t" and cs where p: "ypipe_new command_pipe_granularity = Some p" "yp_rel p cs view_new"
    using ypipe_new_rel[of command_pipe_granularity] by (auto simp: command_pipe_granularity_def)
  obtain p' where p': "ypipe_read p = Some (fst (view_read view_new), p')" "\<exists>cs. yp_rel p' cs (snd (view_read view_new))"
    using yp.read_law[of p view_new] p(2) by blast
  have v: "fst (view_read view_new) = (None :: 'c option)" "snd (view_read (view_new :: 'c pipe_view)) = view_new\<lparr>asleep := True\<rparr>"
    by (simp_all add: view_read_def view_check_read_def view_new_def)
  let ?s = "\<lparr>box = \<lparr>cpipe = p', signals = 0, mb_active = False\<rparr>, owed = 0, mb_phase = Idle, posted = [], received = []\<rparr>"
  have "mb_sys_new = Some ?s"
    using p(1) p'(1) v(1) by (simp add: mb_sys_new_def mailbox_new_def)
  moreover have "mb_inv ?s (view_new\<lparr>asleep := True\<rparr>)"
    using p'(2)[unfolded v(2)] by (simp add: mb_inv_def run_ok_def view_new_def view_ok_def view_items_def)
  ultimately show ?thesis by (intro exI[of _ ?s] exI[of _ "view_new\<lparr>asleep := True\<rparr>"]) simp
qed

lemma post_law:
  assumes "\<exists>cs. yp_rel (cpipe mb) cs A" "flushable A = []" "partial A = []"
  shows "\<exists>p. mailbox_post c mb = Some (\<not> asleep A, mb\<lparr>cpipe := p\<rparr>) \<and>
    (\<exists>cs. yp_rel p cs (A\<lparr>visible := visible A @ [c], asleep := False\<rparr>))"
proof -
  obtain p1 where p1: "ypipe_write c False (cpipe mb) = Some p1" "\<exists>cs. yp_rel p1 cs (view_write c False A)"
    using yp.write_law[OF assms(1)] by blast
  have w: "view_flush (view_write c False A) = (\<not> asleep A, A\<lparr>visible := visible A @ [c], asleep := False\<rparr>)"
    using assms(2,3) by (cases A) (simp add: view_flush_def view_write_def)
  have "fst (ypipe_flush p1) = (\<not> asleep A)" "\<exists>cs. yp_rel (snd (ypipe_flush p1)) cs (A\<lparr>visible := visible A @ [c], asleep := False\<rparr>)"
    using yp.flush_law[OF p1(2)] unfolding w by simp_all
  moreover from this(1) have "mailbox_post c mb = Some (\<not> asleep A, mb\<lparr>cpipe := snd (ypipe_flush p1)\<rparr>)"
    using p1(1) by (cases "ypipe_flush p1") (simp add: mailbox_post_def)
  ultimately show ?thesis by blast
qed

lemma run_ok_partial: "run_ok A wrt (length wrt) rcv \<Longrightarrow> partial A = []"
  by (simp add: run_ok_def)

lemma read_law':
  assumes "\<exists>cs. yp_rel p cs A" "run_ok A wrt n rcv" "flushable A = []"
  obtains p' A' where "ypipe_read p = Some (fst (view_read A), p')" "\<exists>cs. yp_rel p' cs A'"
    "run_ok A' wrt n (rcv @ gain (fst (view_read A)))" "flushable A' = []"
    "asleep A' \<longleftrightarrow> asleep A \<or> fst (view_read A) = None"
    "fst (view_read A) = None \<longleftrightarrow> prefetched A @ visible A = []"
    "prefetched A @ visible A = gain (fst (view_read A)) @ prefetched A' @ visible A'"
proof -
  obtain p' where p': "ypipe_read p = Some (fst (view_read A), p')" "\<exists>cs. yp_rel p' cs (snd (view_read A))"
    using yp.read_law[OF assms(1)] by blast
  have "rcv @ gain (fst (view_read A)) = (case fst (view_read A) of None \<Rightarrow> rcv | Some v \<Rightarrow> rcv @ [v])"
    by (simp add: gain_def split: option.splits)
  then have ok: "run_ok (snd (view_read A)) wrt n (rcv @ gain (fst (view_read A)))"
    using run_ok_steps(5)[OF assms(2)] by simp
  have v: "flushable (snd (view_read A)) = []" "asleep (snd (view_read A)) \<longleftrightarrow> asleep A \<or> fst (view_read A) = None"
      "fst (view_read A) = None \<longleftrightarrow> prefetched A @ visible A = []"
      "prefetched A @ visible A = gain (fst (view_read A)) @ prefetched (snd (view_read A)) @ visible (snd (view_read A))"
    using assms(3) by (cases "prefetched A"; cases "visible A"; simp add: view_read_def view_check_read_def gain_def)+
  show ?thesis by (rule that[OF p' ok v])
qed

lemma mb_exec_inv:
  assumes "mb_inv s A"
  shows "\<exists>s' A'. mb_exec e s = Some s' \<and> mb_inv s' A'"
proof -
  note I = mb_invD[OF assms]
  show ?thesis
  proof (cases e)
    case (MPost c)
    obtain p where p: "mailbox_post c (box s) = Some (\<not> asleep A, (box s)\<lparr>cpipe := p\<rparr>)"
        "\<exists>cs. yp_rel p cs (A\<lparr>visible := visible A @ [c], asleep := False\<rparr>)"
      using post_law[OF I(1,3) run_ok_partial[OF I(2)], of c] by blast
    let ?s = "s\<lparr>box := (box s)\<lparr>cpipe := p\<rparr>, owed := (if asleep A then owed s + 1 else owed s), posted := posted s @ [c]\<rparr>"
      and ?A = "A\<lparr>visible := visible A @ [c], asleep := False\<rparr>"
    have "mb_exec e s = Some ?s" using p(1) MPost by simp
    moreover have "run_ok ?A (posted ?s) (length (posted ?s)) (received ?s)"
      using I(2,3) run_ok_partial[OF I(2)] by (auto simp: run_ok_def view_items_def view_ok_def)
    then have "mb_inv ?s ?A"
      using I p(2) by (auto simp: mb_inv_def)
    ultimately show ?thesis by blast
  next
    case MSignal
    show ?thesis
    proof (cases "owed s > 0")
      case True
      let ?s = "s\<lparr>box := signaler_send (box s), owed := owed s - 1\<rparr>"
      have "mb_inv ?s A" using I True by (simp add: mb_inv_def signaler_send_def)
      then show ?thesis using MSignal True by auto
    qed (use assms MSignal in auto)
  next
    case MStart
    show ?thesis
    proof (cases "mb_phase s = Idle \<and> mb_active (box s)")
      case True
      obtain p' A' where r: "ypipe_read (cpipe (box s)) = Some (fst (view_read A), p')" "\<exists>cs. yp_rel p' cs A'"
          "run_ok A' (posted s) (length (posted s)) (received s @ gain (fst (view_read A)))" "flushable A' = []"
          "asleep A' \<longleftrightarrow> asleep A \<or> fst (view_read A) = None"
            "fst (view_read A) = None \<longleftrightarrow> prefetched A @ visible A = []"
            "prefetched A @ visible A = gain (fst (view_read A)) @ prefetched A' @ visible A'"
          by (rule read_law'[OF I(1-3)])
      show ?thesis
      proof (cases "fst (view_read A)")
        case None
        let ?s = "s\<lparr>box := (box s)\<lparr>cpipe := p', mb_active := False\<rparr>, mb_phase := Consume, received := received s @ gain None\<rparr>"
        have "mb_exec e s = Some ?s" using MStart True r(1) None by (simp add: recv_start_def)
        moreover have "mb_inv ?s A'" using r I True None by (simp add: mb_inv_def)
        ultimately show ?thesis by blast
      next
        case (Some c)
        let ?s = "s\<lparr>box := (box s)\<lparr>cpipe := p'\<rparr>, mb_phase := Idle, received := received s @ gain (Some c)\<rparr>"
        have "mb_exec e s = Some ?s" using MStart True r(1) Some by (simp add: recv_start_def)
        moreover have "mb_inv ?s A'" using r I True Some by (simp add: mb_inv_def)
        ultimately show ?thesis by blast
      qed
    next
      case False
      show ?thesis
      proof (cases "mb_phase s = Idle")
        case True
        let ?s = "s\<lparr>box := box s, mb_phase := Wait, received := received s @ gain None\<rparr>"
        have "mb_exec e s = Some ?s" using MStart True False by (simp add: recv_start_def)
        moreover have "mb_inv ?s A" using I True False by (simp add: mb_inv_def gain_def)
        ultimately show ?thesis by blast
      qed (use assms MStart in auto)
    qed
  next
    case MConsume
    show ?thesis
    proof (cases "mb_phase s = Consume")
      case True
      let ?s = "s\<lparr>box := (box s)\<lparr>signals := signals (box s) - 1\<rparr>, mb_phase := Wait\<rparr>"
      have "mb_exec e s = Some ?s" using MConsume True I(7) by (simp add: signaler_recv_def)
      moreover have "mb_inv ?s A" using I True by (auto simp: mb_inv_def)
      ultimately show ?thesis by blast
    qed (use assms MConsume in auto)
  next
    case (MWait intr)
    show ?thesis
    proof (cases "mb_phase s = Wait")
      case True
      then have na: "\<not> mb_active (box s)" using I(6) by auto
      show ?thesis
      proof (cases "signaler_wait intr (box s) = WReady")
        case rdy: True
        then have "signals (box s) > 0" by (auto simp: signaler_wait_def split: if_splits)
        then have aw: "\<not> asleep A" "signals (box s) = 1" "owed s = 0"
          using I(4) True na by (auto split: if_splits)
        obtain p' A' where r: "ypipe_read (cpipe (box s)) = Some (fst (view_read A), p')" "\<exists>cs. yp_rel p' cs A'"
            "run_ok A' (posted s) (length (posted s)) (received s @ gain (fst (view_read A)))" "flushable A' = []"
            "asleep A' \<longleftrightarrow> asleep A \<or> fst (view_read A) = None"
            "fst (view_read A) = None \<longleftrightarrow> prefetched A @ visible A = []"
            "prefetched A @ visible A = gain (fst (view_read A)) @ prefetched A' @ visible A'"
          by (rule read_law'[OF I(1-3)])
        then have some: "fst (view_read A) \<noteq> None" using I(8)[OF na aw(1)] by simp
        let ?s = "s\<lparr>box := (box s)\<lparr>mb_active := True, cpipe := p'\<rparr>, mb_phase := Idle, received := received s @ gain (fst (view_read A))\<rparr>"
        have "mb_exec e s = Some ?s" using MWait True rdy r(1) some by (simp add: recv_wait_def)
        moreover have "mb_inv ?s A'" using r aw some by (auto simp: mb_inv_def)
        ultimately show ?thesis by blast
      next
        case False
        let ?s = "s\<lparr>box := box s, mb_phase := Idle, received := received s @ gain None\<rparr>"
        have "mb_exec e s = Some ?s" using MWait True False by (cases "signaler_wait intr (box s)") (simp_all add: recv_wait_def)
        moreover have "mb_inv ?s A" using I True by (auto simp: mb_inv_def gain_def)
        ultimately show ?thesis by blast
      qed
    qed (use assms MWait in auto)
  qed
qed

lemma mb_run_inv: "mb_inv s A \<Longrightarrow> \<exists>s' A'. mb_run es s = Some s' \<and> mb_inv s' A'"
proof (induction es arbitrary: s A)
  case (Cons e es)
  obtain s1 A1 where s1: "mb_exec e s = Some s1" "mb_inv s1 A1" using mb_exec_inv[OF Cons.prems] by blast
  then show ?case using Cons.IH[OF s1(2)] by simp
qed auto

lemma mb_run_append: "mb_run (xs @ ys) s = Option.bind (mb_run xs s) (mb_run ys)"
  by (induction xs arbitrary: s) (auto split: bind_splits)

section \<open>Properties\<close>

text \<open>C10: the mailbox is safe and keeps the order of the commands. Under every interleaving of any number of senders
  and the receiver, with the lock, the signal, the byte taken out of the signaler and the interrupted or timed-out waits as
  separate steps, no assertion of the mailbox or of the signaler fails, and what was received is a prefix of what was put
  into the mailbox.\<close>
theorem mailbox_fifo:
  "\<exists>s s' rest. mb_sys_new = Some s \<and> mb_run es s = Some s' \<and> posted s' = received s' @ rest"
proof -
  obtain s :: "'a mb_sys" and A where s: "mb_sys_new = Some s" "mb_inv s A" using mailbox_new_inv by blast
  obtain s' A' where s': "mb_run es s = Some s'" "mb_inv s' A'" using mb_run_inv[OF s(2)] by blast
  then show ?thesis using s(1) mb_invD(2)[OF s'(2)] by (auto simp: run_ok_def)
qed

text \<open>C11: the mailbox loses no command and no wake-up. In every reachable state in which no sender is between the
  release of the lock and the signal and the receiver is not in the middle of a call, a call that is not interrupted
  returns the next command that was not received yet, whether the receiver was asleep or not, and times out only if
  everything was received.\<close>
theorem mailbox_complete:
  assumes "mb_sys_new = Some (s0 :: 'c mb_sys)" "mb_run es s0 = Some s" "owed s = 0" "mb_phase s = Idle"
  shows "\<exists>mb. mailbox_recv False (box s) =
    Some (if received s = posted s then None else Some (posted s ! length (received s)), mb)"
proof -
  obtain s1 :: "'c mb_sys" and A0 where s1: "mb_sys_new = Some s1" "mb_inv s1 A0" using mailbox_new_inv by blast
  have "s1 = s0" using trans[OF s1(1)[symmetric] assms(1)] by simp
  then have "mb_inv s0 A0" using s1(2) by simp
  then obtain s2 A where "mb_run es s0 = Some s2" "mb_inv s2 A" using mb_run_inv by blast
  then have I: "mb_inv s A" using assms(2) by simp
  note I' = mb_invD[OF I]
  have pend: "posted s = received s @ prefetched A @ visible A"
    using I'(2,3) run_ok_partial[OF I'(2)] by (simp add: run_ok_def view_items_def)
  obtain p' A' where r: "ypipe_read (cpipe (box s)) = Some (fst (view_read A), p')"
      "\<exists>cs. yp_rel p' cs A'" "run_ok A' (posted s) (length (posted s)) (received s @ gain (fst (view_read A)))"
      "flushable A' = []" "asleep A' \<longleftrightarrow> asleep A \<or> fst (view_read A) = None"
      "fst (view_read A) = None \<longleftrightarrow> prefetched A @ visible A = []"
      "prefetched A @ visible A = gain (fst (view_read A)) @ prefetched A' @ visible A'"
    by (rule read_law'[OF I'(1-3)])
  have res: "fst (view_read A) = (if received s = posted s then None else Some (posted s ! length (received s)))"
    using r(6,7) pend by (cases "fst (view_read A)") (auto simp: gain_def)
  show ?thesis
  proof (cases "mb_active (box s)")
    case True
    show ?thesis
    proof (cases "fst (view_read A)")
      case None
      have "signals (box s) = 1" using I'(4) assms(3,4) True by simp
      then have "mailbox_recv False (box s) =
          Some (None, (box s)\<lparr>cpipe := p', mb_active := False, signals := 0\<rparr>)"
        using True r(1) None
        by (simp add: mailbox_recv_def recv_start_def signaler_recv_def recv_wait_def signaler_wait_def)
      then show ?thesis using res None by auto
    next
      case (Some c)
      then show ?thesis using True r(1) res by (simp add: mailbox_recv_def recv_start_def)
    qed
  next
    case False
    show ?thesis
    proof (cases "asleep A")
      case True
      then have "signals (box s) = 0" using I'(4) assms(3,4) False by simp
      moreover have "prefetched A @ visible A = []"
        using I'(2) True by (simp add: run_ok_def view_ok_def)
      ultimately show ?thesis
        using False pend by (simp add: mailbox_recv_def recv_start_def recv_wait_def signaler_wait_def)
    next
      case aw: False
      then have "signals (box s) = 1" using I'(4) assms(3,4) False by simp
      moreover have "fst (view_read A) \<noteq> None" using I'(8)[OF False aw] r(6) by simp
      ultimately show ?thesis
        using False r(1) res by (simp add: mailbox_recv_def recv_start_def recv_wait_def signaler_wait_def)
    qed
  qed
qed

theorem mailbox_complete_witness:
  "\<exists>s0 s mb. mb_sys_new = Some s0 \<and>
     mb_run [MStart, MPost (7::nat), MWait False, MPost 8, MSignal, MStart, MWait False, MStart, MStart, MPost 9, MConsume] s0 = Some s \<and>
     mailbox_recv False (box (the (mb_run [MSignal, MWait True] s))) = Some (Some 9, mb)"
proof -
  let ?es = "[MStart, MPost (7::nat), MWait False, MPost 8, MSignal, MStart, MWait False, MStart, MStart, MPost 9, MConsume]"
  obtain s0 :: "nat mb_sys" where s0: "mb_sys_new = Some s0" using mailbox_new_inv by blast
  have v: "(case mb_sys_new of Some s \<Rightarrow> (case mb_run (?es @ [MSignal, MWait True]) s of
      Some s' \<Rightarrow> owed s' = 0 \<and> mb_phase s' = Idle \<and> posted s' = [7, 8, 9] \<and> received s' = [7, 8] | None \<Rightarrow> False) | None \<Rightarrow> False)"
    by code_simp
  then obtain s' where s': "mb_run (?es @ [MSignal, MWait True]) s0 = Some s'" "owed s' = 0" "mb_phase s' = Idle"
      "posted s' = [7, 8, 9]" "received s' = [7, 8]"
  proof (cases "mb_run (?es @ [MSignal, MWait True]) s0")
    case None
    show ?thesis using v[unfolded s0 option.case None] ..
  next
    case (Some s')
    show ?thesis by (rule that[OF Some]) (insert v[unfolded s0 option.case Some], simp_all)
  qed
  obtain s where s: "mb_run ?es s0 = Some s" "mb_run [MSignal, MWait True] s = Some s'"
    using s'(1) unfolding mb_run_append Option.bind_eq_Some_conv by blast
  obtain mb where mb: "mailbox_recv False (box s') = Some (Some 9, mb)"
    using mailbox_complete[OF s0 s'(1-3)] unfolding s'(4,5) by auto
  have "mailbox_recv False (box (the (mb_run [MSignal, MWait True] s))) = Some (Some 9, mb)"
    unfolding s(2) option.sel by (rule mb)
  with s0 s(1) show ?thesis by blast
qed

end
