(* ===== verification/ArrayT.thy ===== *)
theory ArrayT
  imports Prelude
begin

text \<open>
  \<^verbatim>\<open>src/array.hpp\<close>: an array of pointers whose objects store their own position, so that
  removal takes constant time. An object is its address; \<open>array_index\<close> is the field of every
  object (-1 until it is stored). The arrays of the code never hold null pointers. \<open>None\<close> is an access
  outside the array.
\<close>

record array_t =
  items :: "nat list"
  array_index :: "nat \<Rightarrow> int"

definition arr_new :: array_t where
  "arr_new = \<lparr>items = [], array_index = (\<lambda>_. -1)\<rparr>"

definition arr_size :: "array_t \<Rightarrow> nat" where
  "arr_size a = length (items a)"

definition arr_at :: "array_t \<Rightarrow> nat \<Rightarrow> nat option" where
  "arr_at a i = (if i < length (items a) then Some (items a ! i) else None)"

definition arr_push_back :: "nat \<Rightarrow> array_t \<Rightarrow> array_t" where
  "arr_push_back x a =
     \<lparr>items = items a @ [x], array_index = (array_index a)(x := int (length (items a)))\<rparr>"

definition arr_erase_at :: "nat \<Rightarrow> array_t \<Rightarrow> array_t option" where
  "arr_erase_at i a =
     (if i < length (items a)
      then Some \<lparr>items = butlast ((items a)[i := last (items a)]),
                 array_index = (array_index a)(last (items a) := int i)\<rparr>
      else None)"

definition arr_index :: "nat \<Rightarrow> array_t \<Rightarrow> nat option" where
  "arr_index x a = (if array_index a x < 0 then None else Some (nat (array_index a x)))"

definition arr_erase :: "nat \<Rightarrow> array_t \<Rightarrow> array_t option" where
  "arr_erase x a = do { i \<leftarrow> arr_index x a; arr_erase_at i a }"

definition arr_swap :: "nat \<Rightarrow> nat \<Rightarrow> array_t \<Rightarrow> array_t option" where
  "arr_swap i j a =
     (if i < length (items a) \<and> j < length (items a)
      then Some \<lparr>items = (items a)[i := items a ! j, j := items a ! i],
                 array_index = (array_index a)(items a ! i := int j, items a ! j := int i)\<rparr>
      else None)"

definition arr_clear :: "array_t \<Rightarrow> array_t" where
  "arr_clear a = a\<lparr>items := []\<rparr>"

section \<open>The invariant\<close>

definition arr_ok :: "array_t \<Rightarrow> bool" where
  "arr_ok a \<longleftrightarrow> distinct (items a) \<and> (\<forall>i < length (items a). array_index a (items a ! i) = int i)"

lemma arr_okD: "arr_ok a \<Longrightarrow> distinct (items a)"
  "arr_ok a \<Longrightarrow> i < length (items a) \<Longrightarrow> array_index a (items a ! i) = int i"
  by (simp_all add: arr_ok_def)

lemma arr_new_ok [simp]: "arr_ok arr_new"
  by (simp add: arr_ok_def arr_new_def)

lemma arr_push_back_ok: "arr_ok a \<Longrightarrow> x \<notin> set (items a) \<Longrightarrow> arr_ok (arr_push_back x a)"
  by (auto simp: arr_ok_def arr_push_back_def nth_append less_Suc_eq)

lemma items_push_back [simp]: "items (arr_push_back x a) = items a @ [x]"
  by (simp add: arr_push_back_def)

lemma arr_index_nth: "arr_ok a \<Longrightarrow> i < length (items a) \<Longrightarrow> arr_index (items a ! i) a = Some i"
  by (simp add: arr_index_def arr_ok_def)

lemma arr_index_Some:
  assumes "arr_ok a" "x \<in> set (items a)"
  obtains i where "arr_index x a = Some i" "i < length (items a)" "items a ! i = x"
  using assms arr_index_nth by (metis in_set_conv_nth)

lemma arr_swap_ok:
  assumes "arr_ok a" "i < length (items a)" "j < length (items a)"
  shows "\<exists>a'. arr_swap i j a = Some a' \<and> arr_ok a' \<and> items a' = (items a)[i := items a ! j, j := items a ! i]"
proof -
  let ?a = "\<lparr>items = (items a)[i := items a ! j, j := items a ! i],
    array_index = (array_index a)(items a ! i := int j, items a ! j := int i)\<rparr>"
  have d: "distinct (items a)" using assms(1) by (rule arr_okD)
  have "distinct (items ?a)" using d assms(2,3) by (simp add: distinct_swap)
  moreover have "array_index ?a (items ?a ! k) = int k" if "k < length (items ?a)" for k
    using that assms d arr_okD(2)[OF assms(1)]
    by (auto simp: nth_list_update nth_eq_iff_index_eq)
  ultimately show ?thesis using assms(2,3) by (auto simp: arr_swap_def arr_ok_def)
qed

lemma arr_erase_ok:
  assumes "arr_ok a" "i < length (items a)"
  shows "\<exists>a'. arr_erase (items a ! i) a = Some a' \<and> arr_ok a' \<and>
    items a' = butlast ((items a)[i := last (items a)]) \<and> set (items a') = set (items a) - {items a ! i}"
proof -
  let ?n = "length (items a) - 1"
  let ?a = "\<lparr>items = butlast ((items a)[i := last (items a)]),
    array_index = (array_index a)(last (items a) := int i)\<rparr>"
  have d: "distinct (items a)" using assms(1) by (rule arr_okD)
  have ne: "items a \<noteq> []" using assms(2) by auto
  have last: "last (items a) = items a ! ?n" using ne by (rule last_conv_nth)
  have nth: "items ?a ! k = (if k = i then items a ! ?n else items a ! k)" if "k < ?n" for k
    using that assms(2) last by (simp add: nth_butlast nth_list_update)
  have "distinct (items ?a)"
    using d assms(2) nth by (auto simp: distinct_conv_nth nth_eq_iff_index_eq)
  moreover have "array_index ?a (items ?a ! k) = int k" if "k < length (items ?a)" for k
    using that nth[of k] last d assms arr_okD(2)[OF assms(1)]
    by (auto simp: nth_eq_iff_index_eq)
  ultimately have ok: "arr_ok ?a" by (simp add: arr_ok_def)
  have "set (items ?a) = set (items a) - {items a ! i}"
  proof (intro set_eqI iffI)
    fix x assume "x \<in> set (items ?a)"
    then obtain k where "k < ?n" "x = items ?a ! k" by (auto simp: in_set_conv_nth)
    then show "x \<in> set (items a) - {items a ! i}"
      using nth[of k] d assms(2) by (auto simp: nth_eq_iff_index_eq)
  next
    fix x assume "x \<in> set (items a) - {items a ! i}"
    then obtain k where k: "k < length (items a)" "x = items a ! k" "k \<noteq> i" by (auto simp: in_set_conv_nth)
    show "x \<in> set (items ?a)"
    proof (cases "k = ?n")
      case True
      then have "x = items ?a ! i" "i < ?n" using nth[of i] k assms(2) by auto
      then show ?thesis by (auto simp: in_set_conv_nth)
    next
      case False
      then have "x = items ?a ! k" "k < ?n" using nth[of k] k by auto
      then show ?thesis by (auto simp: in_set_conv_nth)
    qed
  qed
  then show ?thesis
    using ok assms(2) arr_index_nth[OF assms] by (simp add: arr_erase_def arr_erase_at_def)
qed

end
