(* ===== verification/Message.thy ===== *)
theory Message
  imports Msg
begin

text \<open>
  A message as the pipes, queues and sockets handle it: a \<^verbatim>\<open>zmq_msg_t\<close> together with the bytes
  it refers to. How the bytes are kept and released is the subject of theory \<open>Msg\<close>; here a
  function that closes a message reports it in its result.
\<close>

record msg =
  is_delim :: bool
  mflags :: byte
  body :: "byte list"

definition has_more :: "msg \<Rightarrow> bool" where
  "has_more m \<longleftrightarrow> mflags m AND ZMQ_MSG_MORE \<noteq> 0"

text \<open>A freshly initialised message and the delimiter, which the last writer leaves in a pipe.\<close>

definition empty_msg :: msg where
  "empty_msg = \<lparr>is_delim = False, mflags = NOT ZMQ_MSG_MASK, body = []\<rparr>"

definition delimiter_msg :: msg where
  "delimiter_msg = \<lparr>is_delim = True, mflags = 0, body = []\<rparr>"

lemma more_simps [simp]:
  "\<not> has_more empty_msg" "\<not> has_more delimiter_msg" "is_delim delimiter_msg" "\<not> is_delim empty_msg"
  by (simp_all add: has_more_def empty_msg_def delimiter_msg_def ZMQ_MSG_MORE_def)

end
