(* ===== verification/Lb.thy ===== *)
theory Lb
  imports ArrayT Message
begin

text \<open>
  \<^verbatim>\<open>src/lb.hpp\<close>, \<^verbatim>\<open>src/lb.cpp\<close>: the load balancer of PUSH, REQ, XREQ. The pipes are an array
  whose first \<open>active\<close> entries are those believed to be writable; \<open>current\<close> is the next to be
  used. The operations of the pipes are arguments: a \<open>writer_ops\<close> on a world \<open>'w\<close> that holds the
  writers. What the pipes promise is the locale \<open>writer_pipes\<close>; it is interpreted on the writers of
  theory \<open>Pipe\<close> in theory \<open>PipeEnds\<close>.
\<close>

record 'w writer_ops =
  op_write :: "nat \<Rightarrow> msg \<Rightarrow> 'w \<Rightarrow> (bool \<times> 'w) option"
  op_check_write :: "nat \<Rightarrow> msg \<Rightarrow> 'w \<Rightarrow> (bool \<times> 'w) option"
  op_flush :: "nat \<Rightarrow> 'w \<Rightarrow> 'w option"
  op_terminate :: "nat \<Rightarrow> 'w \<Rightarrow> 'w option"
  op_set_sink :: "nat \<Rightarrow> 'w \<Rightarrow> 'w option"

text \<open>The calls of the owner of the pipes.\<close>

datatype sink_act = RegisterTermAcks nat | UnregisterTermAck

record lb_t =
  lb_pipes :: array_t
  lb_active :: nat
  lb_current :: nat
  lb_more :: bool
  lb_dropping :: bool
  lb_terminating :: bool

definition lb_new :: lb_t where
  "lb_new = \<lparr>lb_pipes = arr_new, lb_active = 0, lb_current = 0, lb_more = False, lb_dropping = False,
     lb_terminating = False\<rparr>"

definition lb_delete :: "lb_t \<Rightarrow> unit option" where
  "lb_delete lb = zmq_assert (items (lb_pipes lb) = [])"

definition lb_attach ::
  "'w writer_ops \<Rightarrow> nat \<Rightarrow> lb_t \<Rightarrow> 'w \<Rightarrow> (lb_t \<times> 'w \<times> sink_act list) option" where
  "lb_attach ops p lb w = do {
     w1 \<leftarrow> op_set_sink ops p w;
     let a = arr_push_back p (lb_pipes lb);
     a' \<leftarrow> arr_swap (lb_active lb) (arr_size a - 1) a;
     let lb' = lb\<lparr>lb_pipes := a', lb_active := lb_active lb + 1\<rparr>;
     (if lb_terminating lb
      then do { w2 \<leftarrow> op_terminate ops p w1; Some (lb', w2, [RegisterTermAcks 1]) }
      else Some (lb', w1, []))
   }"

fun terminate_all :: "(nat \<Rightarrow> 'w \<Rightarrow> 'w option) \<Rightarrow> nat list \<Rightarrow> 'w \<Rightarrow> 'w option" where
  "terminate_all term [] w = Some w"
| "terminate_all term (p # ps) w = do { w' \<leftarrow> term p w; terminate_all term ps w' }"

definition lb_terminate :: "'w writer_ops \<Rightarrow> lb_t \<Rightarrow> 'w \<Rightarrow> (lb_t \<times> 'w \<times> sink_act list) option" where
  "lb_terminate ops lb w = do {
     zmq_assert (\<not> lb_terminating lb);
     w' \<leftarrow> terminate_all (op_terminate ops) (items (lb_pipes lb)) w;
     Some (lb\<lparr>lb_terminating := True\<rparr>, w', [RegisterTermAcks (arr_size (lb_pipes lb))])
   }"

definition lb_terminated :: "nat \<Rightarrow> lb_t \<Rightarrow> (lb_t \<times> sink_act list) option" where
  "lb_terminated p lb = do {
     index \<leftarrow> arr_index p (lb_pipes lb);
     let lb1 = (if index = lb_current lb \<and> lb_more lb then lb\<lparr>lb_dropping := True\<rparr> else lb);
     let lb2 = (if index < lb_active lb1 then
                  let lb' = lb1\<lparr>lb_active := lb_active lb1 - 1\<rparr>
                  in if lb_current lb' = lb_active lb' then lb'\<lparr>lb_current := 0\<rparr> else lb'
                else lb1);
     a' \<leftarrow> arr_erase p (lb_pipes lb2);
     Some (lb2\<lparr>lb_pipes := a'\<rparr>, if lb_terminating lb2 then [UnregisterTermAck] else [])
   }"

definition lb_activated :: "nat \<Rightarrow> lb_t \<Rightarrow> lb_t option" where
  "lb_activated p lb = do {
     index \<leftarrow> arr_index p (lb_pipes lb);
     a' \<leftarrow> arr_swap index (lb_active lb) (lb_pipes lb);
     Some (lb\<lparr>lb_pipes := a', lb_active := lb_active lb + 1\<rparr>)
   }"

text \<open>The loop of \<open>send\<close> over the active pipes. The destination is returned as well.\<close>

function lb_pick :: "'w writer_ops \<Rightarrow> msg \<Rightarrow> lb_t \<Rightarrow> 'w \<Rightarrow> (nat option \<times> lb_t \<times> 'w) option" where
  "lb_pick ops m lb w =
     (if lb_active lb = 0 then Some (None, lb, w)
      else Option.bind (arr_at (lb_pipes lb) (lb_current lb)) (\<lambda>p.
        Option.bind (op_write ops p m w) (\<lambda>(ok, w1).
          if ok then Some (Some p, lb\<lparr>lb_more := has_more m\<rparr>, w1)
          else Option.bind (zmq_assert (\<not> lb_more lb)) (\<lambda>_.
            let act = lb_active lb - 1
            in Option.bind (if lb_current lb < act then arr_swap (lb_current lb) act (lb_pipes lb)
                            else Some (lb_pipes lb)) (\<lambda>a.
                 lb_pick ops m
                   (lb\<lparr>lb_pipes := a, lb_active := act,
                      lb_current := if lb_current lb < act then lb_current lb else 0\<rparr>) w1)))))"
  by pat_completeness auto
termination
  by (relation "measure (\<lambda>(ops, m, lb, w). lb_active lb)") auto

declare lb_pick.simps [simp del]

definition lb_send ::
  "'w writer_ops \<Rightarrow> msg \<Rightarrow> lb_t \<Rightarrow> 'w \<Rightarrow> (rc \<times> nat option \<times> lb_t \<times> 'w) option" where
  "lb_send ops m lb w =
     (if lb_dropping lb
      then Some (OK, None, lb\<lparr>lb_more := has_more m, lb_dropping := has_more m\<rparr>, w)
      else do {
        (dest, lb1, w1) \<leftarrow> lb_pick ops m lb w;
        (if lb_active lb1 = 0 then Some (Err EAGAIN, None, lb1, w1)
         else if \<not> lb_more lb1 then do {
           p \<leftarrow> arr_at (lb_pipes lb1) (lb_current lb1);
           w2 \<leftarrow> op_flush ops p w1;
           Some (OK, dest, lb1\<lparr>lb_current := (lb_current lb1 + 1) mod lb_active lb1\<rparr>, w2)
         }
         else Some (OK, dest, lb1, w1))
      })"

function lb_probe :: "'w writer_ops \<Rightarrow> lb_t \<Rightarrow> 'w \<Rightarrow> (bool \<times> lb_t \<times> 'w) option" where
  "lb_probe ops lb w =
     (if lb_active lb = 0 then Some (False, lb, w)
      else Option.bind (arr_at (lb_pipes lb) (lb_current lb)) (\<lambda>p.
        Option.bind (op_check_write ops p empty_msg w) (\<lambda>(ok, w1).
          if ok then Some (True, lb, w1)
          else let act = lb_active lb - 1
               in Option.bind (arr_swap (lb_current lb) act (lb_pipes lb)) (\<lambda>a.
                    lb_probe ops
                      (lb\<lparr>lb_pipes := a, lb_active := act,
                         lb_current := if lb_current lb = act then 0 else lb_current lb\<rparr>) w1))))"
  by pat_completeness auto
termination
  by (relation "measure (\<lambda>(ops, lb, w). lb_active lb)") auto

declare lb_probe.simps [simp del]

definition lb_has_out :: "'w writer_ops \<Rightarrow> lb_t \<Rightarrow> 'w \<Rightarrow> (bool \<times> lb_t \<times> 'w) option" where
  "lb_has_out ops lb w = (if lb_more lb then Some (True, lb, w) else lb_probe ops lb w)"

text \<open>Sending the parts of a message one after the other.\<close>

fun lb_send_all ::
  "'w writer_ops \<Rightarrow> msg list \<Rightarrow> lb_t \<Rightarrow> 'w \<Rightarrow> ((rc \<times> nat option) list \<times> lb_t \<times> 'w) option" where
  "lb_send_all ops [] lb w = Some ([], lb, w)"
| "lb_send_all ops (m # ms) lb w = do {
     (rc, dest, lb1, w1) \<leftarrow> lb_send ops m lb w;
     (rs, lb2, w2) \<leftarrow> lb_send_all ops ms lb1 w1;
     Some ((rc, dest) # rs, lb2, w2)
   }"

section \<open>The zones of the array\<close>

definition lb_ok :: "lb_t \<Rightarrow> bool" where
  "lb_ok lb \<longleftrightarrow> arr_ok (lb_pipes lb) \<and> lb_active lb \<le> length (items (lb_pipes lb)) \<and>
     (lb_current lb < lb_active lb \<or> lb_active lb = 0 \<and> lb_current lb = 0)"

abbreviation lb_items :: "lb_t \<Rightarrow> nat list" where
  "lb_items lb \<equiv> items (lb_pipes lb)"

lemma lb_new_ok: "lb_ok lb_new"
  by (simp add: lb_ok_def lb_new_def)

lemma lb_terminated_ok:
  assumes "lb_ok lb" "p \<in> set (lb_items lb)"
  shows "\<exists>lb' acts. lb_terminated p lb = Some (lb', acts) \<and> lb_ok lb' \<and>
    set (lb_items lb') = set (lb_items lb) - {p}"
proof -
  have ok: "arr_ok (lb_pipes lb)" using assms(1) by (simp add: lb_ok_def)
  obtain i where i: "arr_index p (lb_pipes lb) = Some i" "i < length (lb_items lb)" "lb_items lb ! i = p"
    using arr_index_Some[OF ok assms(2)] .
  obtain a' where a': "arr_erase p (lb_pipes lb) = Some a'" "arr_ok a'"
      "items a' = butlast ((lb_items lb)[i := last (lb_items lb)])" "set (items a') = set (lb_items lb) - {p}"
    using arr_erase_ok[OF ok i(2)] i(3) by auto
  have len: "length (items a') = length (lb_items lb) - 1" using a'(3) by simp
  have arr: "Option.bind (arr_index p (lb_pipes lb)) f = f i" for f :: "nat \<Rightarrow> 'z option"
    using i(1) by simp
  show ?thesis
    using assms(1) i(2) a'(1,2,4) len unfolding lb_terminated_def arr lb_ok_def
    by (cases "i < lb_active lb"; cases "i = lb_current lb \<and> lb_more lb"; cases "lb_current lb = lb_active lb - 1")
      (simp_all add: Let_def, linarith+)
qed

section \<open>What the pipes promise\<close>

text \<open>
  \<open>fresh w p\<close>: the writer \<open>p\<close> was just created; \<open>valid w p\<close>: it exists; \<open>ready w p\<close>: it accepts a message. A refusal is stable, a
  writer that accepted a part that is not the last accepts the next one, and an operation on one
  writer does not affect the others.
\<close>

locale writer_pipes =
  fixes ops :: "'w writer_ops" and valid :: "'w \<Rightarrow> nat \<Rightarrow> bool" and ready :: "'w \<Rightarrow> nat \<Rightarrow> bool"
    and fresh :: "'w \<Rightarrow> nat \<Rightarrow> bool"
  assumes write_law: "valid w p \<Longrightarrow> \<exists>w'. op_write ops p m w = Some (ready w p, w') \<and>
      (\<forall>q. valid w' q = valid w q) \<and> (\<forall>q. q \<noteq> p \<longrightarrow> ready w' q = ready w q) \<and>
      (\<not> ready w p \<longrightarrow> \<not> ready w' p) \<and> (ready w p \<and> has_more m \<longrightarrow> ready w' p)"
    and check_law: "valid w p \<Longrightarrow> \<exists>w'. op_check_write ops p m w = Some (ready w p, w') \<and>
      (\<forall>q. valid w' q = valid w q) \<and> (\<forall>q. ready w' q = ready w q)"
    and flush_law: "valid w p \<Longrightarrow> \<exists>w'. op_flush ops p w = Some w' \<and>
      (\<forall>q. valid w' q = valid w q) \<and> (\<forall>q. ready w' q = ready w q)"
    and sink_law: "fresh w p \<Longrightarrow> \<exists>w'. op_set_sink ops p w = Some w' \<and> valid w' p \<and> ready w' p \<and>
      (\<forall>q. q \<noteq> p \<longrightarrow> valid w' q = valid w q \<and> ready w' q = ready w q)"

begin

definition lb_inv :: "lb_t \<Rightarrow> 'w \<Rightarrow> bool" where
  "lb_inv lb w \<longleftrightarrow> lb_ok lb \<and> (\<forall>p \<in> set (lb_items lb). valid w p) \<and>
     (\<forall>i. lb_active lb \<le> i \<and> i < length (lb_items lb) \<longrightarrow> \<not> ready w (lb_items lb ! i)) \<and>
     (lb_more lb \<longrightarrow> 0 < lb_active lb \<and> ready w (lb_items lb ! lb_current lb))"

lemma lb_invD:
  assumes "lb_inv lb w"
  shows "lb_ok lb" "arr_ok (lb_pipes lb)" "lb_active lb \<le> length (lb_items lb)"
    "p \<in> set (lb_items lb) \<Longrightarrow> valid w p"
    "lb_active lb \<le> i \<Longrightarrow> i < length (lb_items lb) \<Longrightarrow> \<not> ready w (lb_items lb ! i)"
    "lb_more lb \<Longrightarrow> 0 < lb_active lb" "lb_more lb \<Longrightarrow> ready w (lb_items lb ! lb_current lb)"
    "0 < lb_active lb \<Longrightarrow> lb_current lb < lb_active lb"
  using assms by (auto simp: lb_inv_def lb_ok_def)

text \<open>A refused pipe moves behind the active zone.\<close>

lemma lb_refuse:
  assumes inv: "lb_inv lb w" and act: "0 < lb_active lb" and no: "\<not> ready w' (lb_items lb ! lb_current lb)"
    and frame: "\<forall>q. valid w' q = valid w q"
      "\<forall>q. q \<noteq> lb_items lb ! lb_current lb \<longrightarrow> ready w' q = ready w q"
    and nm: "\<not> lb_more lb"
  shows "\<exists>a. (if lb_current lb < lb_active lb - 1 then arr_swap (lb_current lb) (lb_active lb - 1) (lb_pipes lb)
      else Some (lb_pipes lb)) = Some a \<and> set (items a) = set (lb_items lb) \<and>
    lb_inv (lb\<lparr>lb_pipes := a, lb_active := lb_active lb - 1,
      lb_current := if lb_current lb < lb_active lb - 1 then lb_current lb else 0\<rparr>) w'"
proof -
  note D = lb_invD[OF inv]
  let ?c = "lb_current lb" and ?k = "lb_active lb - 1" and ?xs = "lb_items lb"
  have c: "?c < lb_active lb" "?c < length ?xs" "?k < length ?xs" using D(3,8) act by auto
  have d: "distinct ?xs" using arr_okD(1)[OF D(2)] .
  show ?thesis
  proof (cases "?c < ?k")
    case True
    obtain a where a: "arr_swap ?c ?k (lb_pipes lb) = Some a" "arr_ok a" "items a = ?xs[?c := ?xs ! ?k, ?k := ?xs ! ?c]"
      using arr_swap_ok[OF D(2) c(2,3)] by blast
    have set: "set (items a) = set ?xs" using a(3) c by simp
    have "\<not> ready w' (items a ! i)" if "?k \<le> i" "i < length ?xs" for i
    proof (cases "i = ?k")
      case False
      then have "\<not> ready w (?xs ! i)" "?xs ! i \<noteq> ?xs ! ?c"
        using D(5)[of i] that c d act by (auto simp: nth_eq_iff_index_eq)
      then show ?thesis using False a(3) that frame(2) True by simp
    qed (use a(3) c no in simp)
    then show ?thesis using True a set D frame(1) nm by (auto simp: lb_inv_def lb_ok_def)
  next
    case False
    then have k: "?c = ?k" using c by simp
    have "\<not> ready w' (?xs ! i)" if "?k \<le> i" "i < length ?xs" for i
    proof (cases "i = ?k")
      case False
      then have "\<not> ready w (?xs ! i)" "?xs ! i \<noteq> ?xs ! ?c"
        using D(5)[of i] that c d act k by (auto simp: nth_eq_iff_index_eq)
      then show ?thesis using frame(2) by simp
    qed (use no k in simp)
    then show ?thesis using False D frame(1) nm k by (auto simp: lb_inv_def lb_ok_def)
  qed
qed

lemma lb_pick_spec:
  "lb_inv lb w \<Longrightarrow>
   \<exists>dest lb' w'. lb_pick ops m lb w = Some (dest, lb', w') \<and>
     set (lb_items lb') = set (lb_items lb) \<and> lb_dropping lb' = lb_dropping lb \<and>
     (case dest of
        None \<Rightarrow> lb_active lb' = 0 \<and> lb_inv lb' w' \<and> \<not> lb_more lb \<and> (\<forall>p \<in> set (lb_items lb). \<not> ready w p)
      | Some p \<Rightarrow> 0 < lb_active lb' \<and> lb_inv (lb'\<lparr>lb_more := False\<rparr>) w' \<and> ready w p \<and> lb_more lb' = has_more m \<and>
          (has_more m \<longrightarrow> ready w' p) \<and> lb_items lb' ! lb_current lb' = p \<and> p \<in> set (lb_items lb) \<and>
          (ready w (lb_items lb ! lb_current lb) \<longrightarrow>
             p = lb_items lb ! lb_current lb \<and> lb_pipes lb' = lb_pipes lb \<and>
             lb_current lb' = lb_current lb \<and> lb_active lb' = lb_active lb))"
proof (induction "lb_active lb" arbitrary: lb w)
  case 0
  note D = lb_invD[OF 0(2)]
  have "\<forall>p \<in> set (lb_items lb). \<not> ready w p" using D(5) 0(1) by (auto simp: in_set_conv_nth)
  then show ?case using 0 D(6) by (subst lb_pick.simps) auto
next
  case (Suc k)
  note inv = Suc.prems
  note D = lb_invD[OF inv]
  let ?p = "lb_items lb ! lb_current lb"
  have c: "lb_current lb < lb_active lb" "lb_current lb < length (lb_items lb)"
    using D(3,8) Suc.hyps(2) by auto
  then have p: "arr_at (lb_pipes lb) (lb_current lb) = Some ?p" "?p \<in> set (lb_items lb)"
    by (simp_all add: arr_at_def)
  obtain w1 where w1: "op_write ops ?p m w = Some (ready w ?p, w1)" "\<forall>q. valid w1 q = valid w q"
      "\<forall>q. q \<noteq> ?p \<longrightarrow> ready w1 q = ready w q" "\<not> ready w ?p \<longrightarrow> \<not> ready w1 ?p"
      "ready w ?p \<and> has_more m \<longrightarrow> ready w1 ?p"
    using write_law[OF D(4)[OF p(2)]] by blast
  show ?case
  proof (cases "ready w ?p")
    case True
    have "\<not> ready w1 (lb_items lb ! i)" if "lb_active lb \<le> i" "i < length (lb_items lb)" for i
    proof -
      have "lb_items lb ! i \<noteq> ?p"
        using that c arr_okD(1)[OF D(2)] by (simp add: nth_eq_iff_index_eq)
      then show ?thesis using D(5)[OF that] w1(3) by simp
    qed
    then have "lb_inv (lb\<lparr>lb_more := False\<rparr>) w1"
      using D w1(2) by (auto simp: lb_inv_def lb_ok_def)
    then show ?thesis
      using True Suc.hyps(2) p w1 by (subst lb_pick.simps) auto
  next
    case False
    then have nm: "\<not> lb_more lb" using D(7) by auto
    have act: "0 < lb_active lb" using Suc.hyps(2) by simp
    obtain a where a: "(if lb_current lb < lb_active lb - 1
          then arr_swap (lb_current lb) (lb_active lb - 1) (lb_pipes lb) else Some (lb_pipes lb)) = Some a"
        "set (items a) = set (lb_items lb)"
        "lb_inv (lb\<lparr>lb_pipes := a, lb_active := lb_active lb - 1,
           lb_current := if lb_current lb < lb_active lb - 1 then lb_current lb else 0\<rparr>) w1"
      using lb_refuse[OF inv act _ w1(2,3) nm] w1(4) False by blast
    let ?lb = "lb\<lparr>lb_pipes := a, lb_active := lb_active lb - 1,
           lb_current := if lb_current lb < lb_active lb - 1 then lb_current lb else 0\<rparr>"
    have pick: "lb_pick ops m lb w = lb_pick ops m ?lb w1"
      using False Suc.hyps(2) p w1(1) a(1) nm by (subst lb_pick.simps) (auto simp: Let_def split: if_splits)
    have same: "(\<forall>p \<in> set (lb_items lb). \<not> ready w p) \<longleftrightarrow> (\<forall>p \<in> set (lb_items lb). \<not> ready w1 p)"
      "ready w1 q \<Longrightarrow> ready w q" for q
      using w1(3,4) False by metis+
    obtain dest lb' w' where IH: "lb_pick ops m ?lb w1 = Some (dest, lb', w')"
        "set (lb_items lb') = set (lb_items ?lb)" "lb_dropping lb' = lb_dropping ?lb"
        "case dest of
           None \<Rightarrow> lb_active lb' = 0 \<and> lb_inv lb' w' \<and> \<not> lb_more ?lb \<and> (\<forall>p \<in> set (lb_items ?lb). \<not> ready w1 p)
         | Some p \<Rightarrow> 0 < lb_active lb' \<and> lb_inv (lb'\<lparr>lb_more := False\<rparr>) w' \<and> ready w1 p \<and> lb_more lb' = has_more m \<and>
             (has_more m \<longrightarrow> ready w' p) \<and> lb_items lb' ! lb_current lb' = p \<and> p \<in> set (lb_items ?lb)"
      using Suc.hyps(1)[OF _ a(3)] Suc.hyps(2) by (fastforce split: option.splits)
    show ?thesis
      unfolding pick IH(1)
      using IH(2-4) a(2) same False nm by (auto split: option.splits)
  qed
qed

lemma lb_inv_more: "lb_inv lb w \<Longrightarrow> lb_inv (lb\<lparr>lb_more := False\<rparr>) w"
  by (simp add: lb_inv_def lb_ok_def)

lemma lb_send_spec:
  assumes inv: "lb_inv lb w" and nd: "\<not> lb_dropping lb"
  shows "\<exists>rc dest lb' w'. lb_send ops m lb w = Some (rc, dest, lb', w') \<and> lb_inv lb' w' \<and>
     \<not> lb_dropping lb' \<and> set (lb_items lb') = set (lb_items lb) \<and>
     (case dest of
        None \<Rightarrow> rc = Err EAGAIN \<and> \<not> lb_more lb' \<and> (\<forall>p \<in> set (lb_items lb). \<not> ready w p)
      | Some p \<Rightarrow> rc = OK \<and> ready w p \<and> p \<in> set (lb_items lb) \<and> lb_more lb' = has_more m \<and>
          (has_more m \<longrightarrow> lb_items lb' ! lb_current lb' = p) \<and>
          (ready w (lb_items lb ! lb_current lb) \<longrightarrow>
             p = lb_items lb ! lb_current lb \<and> lb_pipes lb' = lb_pipes lb \<and> lb_active lb' = lb_active lb \<and>
             lb_current lb' = (if has_more m then lb_current lb else (lb_current lb + 1) mod lb_active lb)))"
proof -
  obtain dest lb1 w1 where pick: "lb_pick ops m lb w = Some (dest, lb1, w1)"
     "set (lb_items lb1) = set (lb_items lb)" "lb_dropping lb1 = lb_dropping lb"
     "case dest of
        None \<Rightarrow> lb_active lb1 = 0 \<and> lb_inv lb1 w1 \<and> \<not> lb_more lb \<and> (\<forall>p \<in> set (lb_items lb). \<not> ready w p)
      | Some p \<Rightarrow> 0 < lb_active lb1 \<and> lb_inv (lb1\<lparr>lb_more := False\<rparr>) w1 \<and> ready w p \<and> lb_more lb1 = has_more m \<and>
          (has_more m \<longrightarrow> ready w1 p) \<and> lb_items lb1 ! lb_current lb1 = p \<and> p \<in> set (lb_items lb) \<and>
          (ready w (lb_items lb ! lb_current lb) \<longrightarrow>
             p = lb_items lb ! lb_current lb \<and> lb_pipes lb1 = lb_pipes lb \<and>
             lb_current lb1 = lb_current lb \<and> lb_active lb1 = lb_active lb)"
    using lb_pick_spec[OF inv, of m] by (elim exE conjE) (rule that)
  show ?thesis
  proof (cases dest)
    case None
    then have "lb_active lb1 = 0" "lb_inv lb1 w1" "\<forall>p \<in> set (lb_items lb). \<not> ready w p"
      using pick(4) by auto
    moreover from this have "\<not> lb_more lb1" using lb_invD(6)[of lb1 w1] by auto
    moreover have "lb_send ops m lb w = Some (Err EAGAIN, None, lb1, w1)"
      using None pick(1) nd \<open>lb_active lb1 = 0\<close> by (simp add: lb_send_def)
    ultimately show ?thesis using pick(2,3) nd by simp
  next
    case (Some p)
    then have P: "0 < lb_active lb1" "lb_inv (lb1\<lparr>lb_more := False\<rparr>) w1" "ready w p"
        "lb_more lb1 = has_more m" "has_more m \<longrightarrow> ready w1 p" "lb_items lb1 ! lb_current lb1 = p"
        "p \<in> set (lb_items lb)"
        "ready w (lb_items lb ! lb_current lb) \<longrightarrow>
             p = lb_items lb ! lb_current lb \<and> lb_pipes lb1 = lb_pipes lb \<and>
             lb_current lb1 = lb_current lb \<and> lb_active lb1 = lb_active lb"
      using pick(4) by auto
    have cur: "lb_current lb1 < lb_active lb1" "lb_active lb1 \<le> length (lb_items lb1)"
      using lb_invD(3,8)[OF P(2)] P(1) by simp_all
    show ?thesis
    proof (cases "has_more m")
      case True
      have "lb_inv lb1 w1" using P True cur by (auto simp: lb_inv_def lb_ok_def)
      moreover have "lb_send ops m lb w = Some (OK, Some p, lb1, w1)"
        using True P(1,4) pick(1) nd Some by (simp add: lb_send_def)
      ultimately show ?thesis using True P pick(2,3) nd by simp
    next
      case False
      have valid: "valid w1 p" using lb_invD(4)[OF P(2)] P(7) pick(2) by simp
      obtain w2 where w2: "op_flush ops p w1 = Some w2" "\<forall>q. valid w2 q = valid w1 q"
          "\<forall>q. ready w2 q = ready w1 q"
        using flush_law[OF valid] by blast
      let ?lb = "lb1\<lparr>lb_current := (lb_current lb1 + 1) mod lb_active lb1\<rparr>"
      have "lb_inv ?lb w2"
        using P(1,2,4) False w2(2,3) by (auto simp: lb_inv_def lb_ok_def)
      moreover have "lb_send ops m lb w = Some (OK, Some p, ?lb, w2)"
        using False P(1,4,6) pick(1) nd Some w2(1) cur by (auto simp: lb_send_def arr_at_def)
      ultimately show ?thesis using P False pick(2,3) nd by simp
    qed
  qed
qed

text \<open>Once a part went to a pipe, the following ones go to the same pipe, up to the last one.\<close>

lemma lb_send_rest:
  "lb_inv lb w \<Longrightarrow> \<not> lb_dropping lb \<Longrightarrow> lb_more lb \<Longrightarrow> lb_items lb ! lb_current lb = p \<Longrightarrow>
   \<forall>m \<in> set (butlast ms). has_more m \<Longrightarrow>
   \<exists>lb' w'. lb_send_all ops ms lb w = Some (replicate (length ms) (OK, Some p), lb', w') \<and> lb_inv lb' w' \<and>
     \<not> lb_dropping lb' \<and> set (lb_items lb') = set (lb_items lb) \<and>
     lb_more lb' = (if ms = [] then True else has_more (last ms))"
proof (induction ms arbitrary: lb w)
  case (Cons m ms)
  have ready: "ready w (lb_items lb ! lb_current lb)" using lb_invD(7)[OF Cons.prems(1)] Cons.prems(3) by simp
  obtain lb1 w1 where send: "lb_send ops m lb w = Some (OK, Some p, lb1, w1)" "lb_inv lb1 w1" "\<not> lb_dropping lb1"
      "set (lb_items lb1) = set (lb_items lb)" "lb_more lb1 = has_more m"
      "has_more m \<longrightarrow> lb_items lb1 ! lb_current lb1 = p"
    using lb_send_spec[OF Cons.prems(1,2), of m] ready Cons.prems(4) lb_invD(4)[OF Cons.prems(1)]
      lb_invD(3,6,8)[OF Cons.prems(1)] Cons.prems(3)
    by (auto split: option.splits)
  show ?case
  proof (cases "ms = []")
    case True
    then show ?thesis using send by simp
  next
    case False
    then have m: "has_more m" "\<forall>m \<in> set (butlast ms). has_more m" using Cons.prems(5) by auto
    obtain lb' w' where "lb_send_all ops ms lb1 w1 = Some (replicate (length ms) (OK, Some p), lb', w')"
        "lb_inv lb' w'" "\<not> lb_dropping lb'" "set (lb_items lb') = set (lb_items lb1)"
        "lb_more lb' = has_more (last ms)"
      using Cons.IH[OF send(2,3)] send(5,6) m False by auto
    then show ?thesis using send False by simp
  qed
qed simp

lemma lb_send_message:
  assumes inv: "lb_inv lb w" and nd: "\<not> lb_dropping lb" "\<not> lb_more lb"
    and ms: "ms \<noteq> []" "\<forall>m \<in> set (butlast ms). has_more m" "\<not> has_more (last ms)"
    and some_ready: "\<exists>p \<in> set (lb_items lb). ready w p"
  shows "\<exists>p lb' w'. lb_send_all ops ms lb w = Some (replicate (length ms) (OK, Some p), lb', w') \<and>
    p \<in> set (lb_items lb) \<and> ready w p \<and> lb_inv lb' w' \<and> \<not> lb_more lb' \<and> \<not> lb_dropping lb' \<and>
    set (lb_items lb') = set (lb_items lb)"
proof -
  obtain m ms' where m: "ms = m # ms'" using ms(1) by (cases ms) auto
  obtain p lb1 w1 where send: "lb_send ops m lb w = Some (OK, Some p, lb1, w1)" "lb_inv lb1 w1" "\<not> lb_dropping lb1"
      "set (lb_items lb1) = set (lb_items lb)" "lb_more lb1 = has_more m" "ready w p" "p \<in> set (lb_items lb)"
      "has_more m \<longrightarrow> lb_items lb1 ! lb_current lb1 = p"
    using lb_send_spec[OF inv nd(1), of m] some_ready by (auto split: option.splits)
  show ?thesis
  proof (cases "ms' = []")
    case True
    then show ?thesis using send m ms(3) by auto
  next
    case False
    then have "has_more m" "\<forall>m \<in> set (butlast ms'). has_more m" "\<not> has_more (last ms')"
      using ms m by auto
    moreover from this obtain lb' w' where
      "lb_send_all ops ms' lb1 w1 = Some (replicate (length ms') (OK, Some p), lb', w')"
      "lb_inv lb' w'" "\<not> lb_dropping lb'" "set (lb_items lb') = set (lb_items lb1)"
      "lb_more lb' = has_more (last ms')"
      using lb_send_rest[OF send(2,3), of p ms'] send(5,8) False by auto
    ultimately show ?thesis using send m by simp
  qed
qed

lemma lb_attach_inv:
  assumes inv: "lb_inv lb w" and p: "p \<notin> set (lb_items lb)" "fresh w p" and nt: "\<not> lb_terminating lb"
    and nm: "\<not> lb_more lb"
  shows "\<exists>lb' w'. lb_attach ops p lb w = Some (lb', w', []) \<and> lb_inv lb' w' \<and>
    set (lb_items lb') = insert p (set (lb_items lb)) \<and> lb_active lb' = lb_active lb + 1 \<and> ready w' p"
proof -
  note D = lb_invD[OF inv]
  let ?n = "length (lb_items lb)" and ?k = "lb_active lb" and ?xs = "lb_items lb @ [p]"
  obtain w' where w': "op_set_sink ops p w = Some w'" "valid w' p" "ready w' p"
      "\<forall>q. q \<noteq> p \<longrightarrow> valid w' q = valid w q \<and> ready w' q = ready w q"
    using sink_law[OF p(2)] by blast
  have ok: "arr_ok (arr_push_back p (lb_pipes lb))" using arr_push_back_ok[OF D(2) p(1)] .
  obtain a where a: "arr_swap ?k ?n (arr_push_back p (lb_pipes lb)) = Some a" "arr_ok a"
      "items a = ?xs[?k := ?xs ! ?n, ?n := ?xs ! ?k]"
    using arr_swap_ok[OF ok, of ?k ?n] D(3) by auto
  have set: "set (items a) = insert p (set (lb_items lb))"
    using a(3) D(3) set_swap[of ?k ?xs ?n] by simp
  have "\<not> ready w' (items a ! i)" if i: "?k + 1 \<le> i" "i < length (items a)" for i
  proof -
    have "items a ! i = (if i = ?n then ?xs ! ?k else ?xs ! i)"
      using i a(3) by (simp add: nth_list_update)
    then obtain j where j: "items a ! i = lb_items lb ! j" "?k \<le> j" "j < ?n"
      using i a(3) D(3) by (cases "i = ?n") (auto simp: nth_append)
    then show ?thesis using D(5)[OF j(2,3)] w'(4) p(1) nth_mem[OF j(3)] by metis
  qed
  moreover have "valid w' q" if "q \<in> set (items a)" for q
    using that set w'(2,4) D(4)[of q] p(1) by (cases "q = p") auto
  moreover have "length (items a) = ?n + 1" using a(3) by simp
  ultimately have "lb_inv (lb\<lparr>lb_pipes := a, lb_active := ?k + 1\<rparr>) w'"
    using D(1,3) a(2) nm by (auto simp: lb_inv_def lb_ok_def)
  moreover have "lb_attach ops p lb w = Some (lb\<lparr>lb_pipes := a, lb_active := ?k + 1\<rparr>, w', [])"
    using w'(1) a(1) nt by (simp add: lb_attach_def arr_size_def)
  ultimately show ?thesis using set w'(3) by simp
qed

text \<open>A pipe that becomes writable again moves into the active zone.\<close>

lemma lb_activated_inv:
  assumes inv: "lb_inv lb w" and i: "lb_active lb \<le> i" "i < length (lb_items lb)"
    and w': "\<forall>q. valid w' q = valid w q" "\<forall>q. q \<noteq> lb_items lb ! i \<longrightarrow> ready w' q = ready w q"
  shows "\<exists>lb'. lb_activated (lb_items lb ! i) lb = Some lb' \<and> lb_inv lb' w' \<and>
    set (lb_items lb') = set (lb_items lb) \<and> lb_active lb' = lb_active lb + 1"
proof -
  note D = lb_invD[OF inv]
  let ?xs = "lb_items lb" and ?k = "lb_active lb"
  have d: "distinct ?xs" using arr_okD(1)[OF D(2)] .
  have k: "?k < length ?xs" using i by simp
  obtain a where a: "arr_swap i ?k (lb_pipes lb) = Some a" "arr_ok a" "items a = ?xs[i := ?xs ! ?k, ?k := ?xs ! i]"
    using arr_swap_ok[OF D(2) i(2) k] by blast
  have set: "set (items a) = set ?xs" using a(3) i k by simp
  have "\<not> ready w' (items a ! j)" if j: "?k + 1 \<le> j" "j < length (items a)" for j
  proof -
    obtain l where l: "items a ! j = ?xs ! l" "?k \<le> l" "l < length ?xs" "l \<noteq> i"
    proof (cases "j = i")
      case True
      then show thesis using that[of ?k] j a(3) k by (auto simp: nth_list_update)
    next
      case False
      then show thesis using that[of j] j a(3) by (auto simp: nth_list_update)
    qed
    then have "?xs ! l \<noteq> ?xs ! i" using d i(2) by (simp add: nth_eq_iff_index_eq)
    then show ?thesis using l D(5)[OF l(2,3)] w'(2) by simp
  qed
  moreover have "items a ! lb_current lb = ?xs ! lb_current lb" "?xs ! lb_current lb \<noteq> ?xs ! i"
    if "0 < ?k"
    using that D(8) a(3) i d k by (auto simp: nth_list_update nth_eq_iff_index_eq)
  ultimately have "lb_inv (lb\<lparr>lb_pipes := a, lb_active := ?k + 1\<rparr>) w'"
    using D a set w' k by (auto simp: lb_inv_def lb_ok_def)
  then show ?thesis
    using a set arr_index_nth[OF D(2) i(2)] by (simp add: lb_activated_def)
qed

lemma lb_probe_spec:
  "lb_inv lb w \<Longrightarrow> \<not> lb_more lb \<Longrightarrow>
   \<exists>lb' w'. lb_probe ops lb w = Some (\<exists>p \<in> set (lb_items lb). ready w p, lb', w') \<and> lb_inv lb' w' \<and>
     set (lb_items lb') = set (lb_items lb)"
proof (induction "lb_active lb" arbitrary: lb w)
  case 0
  note D = lb_invD[OF 0(2)]
  have "\<forall>p \<in> set (lb_items lb). \<not> ready w p" using D(5) 0(1) by (auto simp: in_set_conv_nth)
  then show ?case using 0 by (subst lb_probe.simps) auto
next
  case (Suc k)
  note inv = Suc.prems(1)
  note D = lb_invD[OF inv]
  let ?p = "lb_items lb ! lb_current lb"
  have c: "lb_current lb < lb_active lb" "lb_current lb < length (lb_items lb)"
    "lb_active lb - 1 < length (lb_items lb)"
    using D(3,8) Suc.hyps(2) by auto
  then have p: "arr_at (lb_pipes lb) (lb_current lb) = Some ?p" "?p \<in> set (lb_items lb)"
    by (simp_all add: arr_at_def)
  obtain w1 where w1: "op_check_write ops ?p empty_msg w = Some (ready w ?p, w1)"
      "\<forall>q. valid w1 q = valid w q" "\<forall>q. ready w1 q = ready w q"
    using check_law[OF D(4)[OF p(2)]] by blast
  show ?case
  proof (cases "ready w ?p")
    case True
    have "lb_inv lb w1" using D w1 Suc.prems(2) by (auto simp: lb_inv_def)
    then show ?thesis using True Suc.hyps(2) p w1(1) by (subst lb_probe.simps) auto
  next
    case False
    have act: "0 < lb_active lb" using Suc.hyps(2) by simp
    have same: "arr_swap (lb_current lb) (lb_active lb - 1) (lb_pipes lb) = Some (lb_pipes lb)"
      if "lb_current lb = lb_active lb - 1"
      using that c arr_okD(2)[OF D(2)] by (simp add: arr_swap_def fun_upd_idem)
    obtain a where a: "(if lb_current lb < lb_active lb - 1
          then arr_swap (lb_current lb) (lb_active lb - 1) (lb_pipes lb) else Some (lb_pipes lb)) = Some a"
        "set (items a) = set (lb_items lb)"
        "lb_inv (lb\<lparr>lb_pipes := a, lb_active := lb_active lb - 1,
           lb_current := if lb_current lb < lb_active lb - 1 then lb_current lb else 0\<rparr>) w1"
      using lb_refuse[OF inv act _ w1(2) _ Suc.prems(2)] w1(3) False by blast
    let ?lb = "lb\<lparr>lb_pipes := a, lb_active := lb_active lb - 1,
           lb_current := if lb_current lb = lb_active lb - 1 then 0 else lb_current lb\<rparr>"
    have eq: "(lb_current lb < lb_active lb - 1) = (lb_current lb \<noteq> lb_active lb - 1)" using c(1) by auto
    have inv': "lb_inv ?lb w1" using a(3) unfolding eq by (simp split: if_splits)
    have "arr_swap (lb_current lb) (lb_active lb - 1) (lb_pipes lb) = Some a"
      using a(1) same unfolding eq by (auto split: if_splits)
    then have "lb_probe ops lb w = lb_probe ops ?lb w1"
      using False Suc.hyps(2) p w1(1) by (subst lb_probe.simps) (simp add: Let_def)
    then show ?thesis
      using Suc.hyps(1)[of ?lb w1] Suc.hyps(2) inv' a(2) w1(3) Suc.prems(2) by auto
  qed
qed

end

end
