(* ===== verification/Fq.thy ===== *)
theory Fq
  imports Lb
begin

text \<open>
  \<^verbatim>\<open>src/fq.hpp\<close>, \<^verbatim>\<open>src/fq.cpp\<close>: the fair queue of PULL, REP, XREP, SUB. As in the load balancer,
  the first \<open>active\<close> pipes of the array are those believed to hold messages. The operations of the pipes
  are a \<open>reader_ops\<close>; the locale \<open>reader_pipes\<close> is what they promise.
\<close>

record 'w reader_ops =
  op_read :: "nat \<Rightarrow> 'w \<Rightarrow> (msg option \<times> 'w) option"
  op_check_read :: "nat \<Rightarrow> 'w \<Rightarrow> (bool \<times> 'w) option"
  op_rterminate :: "nat \<Rightarrow> 'w \<Rightarrow> 'w option"
  op_rset_sink :: "nat \<Rightarrow> 'w \<Rightarrow> 'w option"

record fq_t =
  fq_pipes :: array_t
  fq_active :: nat
  fq_current :: nat
  fq_more :: bool
  fq_terminating :: bool

definition fq_new :: fq_t where
  "fq_new = \<lparr>fq_pipes = arr_new, fq_active = 0, fq_current = 0, fq_more = False, fq_terminating = False\<rparr>"

definition fq_delete :: "fq_t \<Rightarrow> unit option" where
  "fq_delete fq = zmq_assert (items (fq_pipes fq) = [])"

definition fq_attach ::
  "'w reader_ops \<Rightarrow> nat \<Rightarrow> fq_t \<Rightarrow> 'w \<Rightarrow> (fq_t \<times> 'w \<times> sink_act list) option" where
  "fq_attach ops p fq w = do {
     w1 \<leftarrow> op_rset_sink ops p w;
     let a = arr_push_back p (fq_pipes fq);
     a' \<leftarrow> arr_swap (fq_active fq) (arr_size a - 1) a;
     let fq' = fq\<lparr>fq_pipes := a', fq_active := fq_active fq + 1\<rparr>;
     (if fq_terminating fq
      then do { w2 \<leftarrow> op_rterminate ops p w1; Some (fq', w2, [RegisterTermAcks 1]) }
      else Some (fq', w1, []))
   }"

definition fq_terminated :: "nat \<Rightarrow> fq_t \<Rightarrow> (fq_t \<times> sink_act list) option" where
  "fq_terminated p fq = do {
     zmq_assert (fq_terminating fq \<or> (\<not> fq_more fq \<or> arr_at (fq_pipes fq) (fq_current fq) \<noteq> Some p));
     index \<leftarrow> arr_index p (fq_pipes fq);
     let fq1 = (if index < fq_active fq then
                  let fq' = fq\<lparr>fq_active := fq_active fq - 1\<rparr>
                  in if fq_current fq' = fq_active fq' then fq'\<lparr>fq_current := 0\<rparr> else fq'
                else fq);
     a' \<leftarrow> arr_erase p (fq_pipes fq1);
     Some (fq1\<lparr>fq_pipes := a'\<rparr>, if fq_terminating fq1 then [UnregisterTermAck] else [])
   }"

definition fq_delimited :: "nat \<Rightarrow> fq_t \<Rightarrow> fq_t" where
  "fq_delimited p fq = fq"

definition fq_terminate :: "'w reader_ops \<Rightarrow> fq_t \<Rightarrow> 'w \<Rightarrow> (fq_t \<times> 'w \<times> sink_act list) option" where
  "fq_terminate ops fq w = do {
     zmq_assert (\<not> fq_terminating fq);
     w' \<leftarrow> terminate_all (op_rterminate ops) (items (fq_pipes fq)) w;
     Some (fq\<lparr>fq_terminating := True\<rparr>, w', [RegisterTermAcks (arr_size (fq_pipes fq))])
   }"

definition fq_activated :: "nat \<Rightarrow> fq_t \<Rightarrow> fq_t option" where
  "fq_activated p fq = do {
     index \<leftarrow> arr_index p (fq_pipes fq);
     a' \<leftarrow> arr_swap index (fq_active fq) (fq_pipes fq);
     Some (fq\<lparr>fq_pipes := a', fq_active := fq_active fq + 1\<rparr>)
   }"

text \<open>The current pipe has nothing to read: it leaves the active zone.\<close>

definition fq_deactivate :: "fq_t \<Rightarrow> fq_t option" where
  "fq_deactivate fq = do {
     let act = fq_active fq - 1;
     a \<leftarrow> arr_swap (fq_current fq) act (fq_pipes fq);
     Some (fq\<lparr>fq_pipes := a, fq_active := act,
              fq_current := if fq_current fq = act then 0 else fq_current fq\<rparr>)
   }"

text \<open>The loop of \<open>recv\<close>; the pipe the message came from is returned as well.\<close>

fun fq_loop :: "'w reader_ops \<Rightarrow> nat \<Rightarrow> fq_t \<Rightarrow> 'w \<Rightarrow> ((nat \<times> msg) option \<times> fq_t \<times> 'w) option" where
  "fq_loop ops 0 fq w = Some (None, fq, w)"
| "fq_loop ops (Suc count) fq w = do {
     p \<leftarrow> arr_at (fq_pipes fq) (fq_current fq);
     (v, w1) \<leftarrow> op_read ops p w;
     zmq_assert (\<not> (fq_more fq \<and> v = None));
     (case v of
        Some m \<Rightarrow>
          Some (Some (p, m),
                fq\<lparr>fq_more := has_more m,
                   fq_current := if has_more m then fq_current fq
                     else if fq_current fq + 1 \<ge> fq_active fq then 0 else fq_current fq + 1\<rparr>, w1)
      | None \<Rightarrow> do { fq' \<leftarrow> fq_deactivate fq; fq_loop ops count fq' w1 })
   }"

definition fq_recv ::
  "'w reader_ops \<Rightarrow> fq_t \<Rightarrow> 'w \<Rightarrow> (rc \<times> (nat \<times> msg) option \<times> fq_t \<times> 'w) option" where
  "fq_recv ops fq w = do {
     (v, fq', w') \<leftarrow> fq_loop ops (fq_active fq) fq w;
     Some (case v of None \<Rightarrow> Err EAGAIN | Some _ \<Rightarrow> OK, v, fq', w')
   }"

fun fq_probe :: "'w reader_ops \<Rightarrow> nat \<Rightarrow> fq_t \<Rightarrow> 'w \<Rightarrow> (bool \<times> fq_t \<times> 'w) option" where
  "fq_probe ops 0 fq w = Some (False, fq, w)"
| "fq_probe ops (Suc count) fq w = do {
     p \<leftarrow> arr_at (fq_pipes fq) (fq_current fq);
     (ok, w1) \<leftarrow> op_check_read ops p w;
     (if ok then Some (True, fq, w1)
      else do { fq' \<leftarrow> fq_deactivate fq; fq_probe ops count fq' w1 })
   }"

definition fq_has_in :: "'w reader_ops \<Rightarrow> fq_t \<Rightarrow> 'w \<Rightarrow> (bool \<times> fq_t \<times> 'w) option" where
  "fq_has_in ops fq w = (if fq_more fq then Some (True, fq, w) else fq_probe ops (fq_active fq) fq w)"

section \<open>What the pipes promise\<close>

abbreviation fq_items :: "fq_t \<Rightarrow> nat list" where
  "fq_items fq \<equiv> items (fq_pipes fq)"

definition fq_ok :: "fq_t \<Rightarrow> bool" where
  "fq_ok fq \<longleftrightarrow> arr_ok (fq_pipes fq) \<and> fq_active fq \<le> length (fq_items fq) \<and>
     (fq_current fq < fq_active fq \<or> fq_active fq = 0 \<and> fq_current fq = 0)"

text \<open>
  \<open>avail w p\<close>: a part can be read from the reader \<open>p\<close>. A reader that gave a part with more to follow
  has the next one, and reading one pipe does not affect the others.
\<close>

locale reader_pipes =
  fixes ops :: "'w reader_ops" and valid :: "'w \<Rightarrow> nat \<Rightarrow> bool" and avail :: "'w \<Rightarrow> nat \<Rightarrow> bool"
  assumes read_law: "valid w p \<Longrightarrow> \<exists>v w'. op_read ops p w = Some (v, w') \<and> (v \<noteq> None \<longleftrightarrow> avail w p) \<and>
      (\<forall>q. valid w' q = valid w q) \<and> (\<forall>q. q \<noteq> p \<longrightarrow> avail w' q = avail w q) \<and>
      (v = None \<longrightarrow> \<not> avail w' p) \<and> (\<forall>m. v = Some m \<and> has_more m \<longrightarrow> avail w' p)"
    and check_law: "valid w p \<Longrightarrow> \<exists>w'. op_check_read ops p w = Some (avail w p, w') \<and>
      (\<forall>q. valid w' q = valid w q) \<and> (\<forall>q. avail w' q = avail w q)"
begin

definition fq_inv :: "fq_t \<Rightarrow> 'w \<Rightarrow> bool" where
  "fq_inv fq w \<longleftrightarrow> fq_ok fq \<and> (\<forall>p \<in> set (fq_items fq). valid w p) \<and>
     (\<forall>i. fq_active fq \<le> i \<and> i < length (fq_items fq) \<longrightarrow> \<not> avail w (fq_items fq ! i)) \<and>
     (fq_more fq \<longrightarrow> 0 < fq_active fq \<and> avail w (fq_items fq ! fq_current fq))"

lemma fq_invD:
  assumes "fq_inv fq w"
  shows "fq_ok fq" "arr_ok (fq_pipes fq)" "fq_active fq \<le> length (fq_items fq)"
    "p \<in> set (fq_items fq) \<Longrightarrow> valid w p"
    "fq_active fq \<le> i \<Longrightarrow> i < length (fq_items fq) \<Longrightarrow> \<not> avail w (fq_items fq ! i)"
    "fq_more fq \<Longrightarrow> 0 < fq_active fq" "fq_more fq \<Longrightarrow> avail w (fq_items fq ! fq_current fq)"
    "0 < fq_active fq \<Longrightarrow> fq_current fq < fq_active fq"
  using assms by (auto simp: fq_inv_def fq_ok_def)

lemma fq_deactivate_inv:
  assumes inv: "fq_inv fq w" and act: "0 < fq_active fq" and nm: "\<not> fq_more fq"
    and no: "\<not> avail w' (fq_items fq ! fq_current fq)"
    and frame: "\<forall>q. valid w' q = valid w q"
      "\<forall>q. q \<noteq> fq_items fq ! fq_current fq \<longrightarrow> avail w' q = avail w q"
  shows "\<exists>fq'. fq_deactivate fq = Some fq' \<and> fq_inv fq' w' \<and> set (fq_items fq') = set (fq_items fq) \<and>
    fq_active fq' = fq_active fq - 1 \<and> \<not> fq_more fq' \<and> fq_terminating fq' = fq_terminating fq"
proof -
  note D = fq_invD[OF inv]
  let ?c = "fq_current fq" and ?k = "fq_active fq - 1" and ?xs = "fq_items fq"
  have c: "?c < fq_active fq" "?c < length ?xs" "?k < length ?xs" using D(3,8) act by auto
  have d: "distinct ?xs" using arr_okD(1)[OF D(2)] .
  obtain a where a: "arr_swap ?c ?k (fq_pipes fq) = Some a" "arr_ok a" "items a = ?xs[?c := ?xs ! ?k, ?k := ?xs ! ?c]"
    using arr_swap_ok[OF D(2) c(2,3)] by blast
  have set: "set (items a) = set ?xs" using a(3) c by simp
  have "\<not> avail w' (items a ! i)" if i: "?k \<le> i" "i < length ?xs" for i
  proof (cases "i = ?k")
    case True
    then show ?thesis using a(3) c no by simp
  next
    case False
    then have "\<not> avail w (?xs ! i)" "?xs ! i \<noteq> ?xs ! ?c" "i \<noteq> ?c"
      using D(5)[of i] i c d act by (auto simp: nth_eq_iff_index_eq)
    then show ?thesis using False a(3) i frame(2) by simp
  qed
  then have "fq_inv (fq\<lparr>fq_pipes := a, fq_active := ?k, fq_current := if ?c = ?k then 0 else ?c\<rparr>) w'"
    using D(3,4) a set frame(1) nm c by (auto simp: fq_inv_def fq_ok_def)
  then show ?thesis using a(1) set nm by (simp add: fq_deactivate_def Let_def)
qed

lemma fq_loop_spec:
  "fq_inv fq w \<Longrightarrow> count = fq_active fq \<Longrightarrow>
   \<exists>v fq' w'. fq_loop ops count fq w = Some (v, fq', w') \<and> fq_inv fq' w' \<and>
     set (fq_items fq') = set (fq_items fq) \<and>
     (case v of
        None \<Rightarrow> (\<forall>p \<in> set (fq_items fq). \<not> avail w p) \<and> fq_active fq' = 0
      | Some (p, m) \<Rightarrow> p \<in> set (fq_items fq) \<and> avail w p \<and> fq_more fq' = has_more m \<and>
          (has_more m \<longrightarrow> fq_items fq' ! fq_current fq' = p) \<and>
          (avail w (fq_items fq ! fq_current fq) \<longrightarrow> p = fq_items fq ! fq_current fq))"
proof (induction count arbitrary: fq w)
  case 0
  note D = fq_invD[OF 0(1)]
  have "\<forall>p \<in> set (fq_items fq). \<not> avail w p" using D(5) 0(2) by (auto simp: in_set_conv_nth)
  then show ?case using 0 by simp
next
  case (Suc count)
  note inv = Suc.prems(1)
  note D = fq_invD[OF inv]
  let ?p = "fq_items fq ! fq_current fq"
  have act: "0 < fq_active fq" using Suc.prems(2) by simp
  have c: "fq_current fq < fq_active fq" "fq_current fq < length (fq_items fq)"
    using D(3,8) act by auto
  then have p: "arr_at (fq_pipes fq) (fq_current fq) = Some ?p" "?p \<in> set (fq_items fq)"
    by (simp_all add: arr_at_def)
  obtain v w1 where w1: "op_read ops ?p w = Some (v, w1)" "v \<noteq> None \<longleftrightarrow> avail w ?p"
      "\<forall>q. valid w1 q = valid w q" "\<forall>q. q \<noteq> ?p \<longrightarrow> avail w1 q = avail w q"
      "v = None \<longrightarrow> \<not> avail w1 ?p" "\<forall>m. v = Some m \<and> has_more m \<longrightarrow> avail w1 ?p"
    using read_law[OF D(4)[OF p(2)]] by blast
  show ?case
  proof (cases v)
    case (Some m)
    let ?fq = "fq\<lparr>fq_more := has_more m,
        fq_current := if has_more m then fq_current fq
          else if fq_current fq + 1 \<ge> fq_active fq then 0 else fq_current fq + 1\<rparr>"
    have "\<not> avail w1 (fq_items fq ! i)" if "fq_active fq \<le> i" "i < length (fq_items fq)" for i
    proof -
      have "fq_items fq ! i \<noteq> ?p" using that c arr_okD(1)[OF D(2)] by (simp add: nth_eq_iff_index_eq)
      then show ?thesis using D(5)[OF that] w1(4) by simp
    qed
    then have "fq_inv ?fq w1"
      using D(2-4) c w1(3,6) Some act by (auto simp: fq_inv_def fq_ok_def)
    then show ?thesis using Some p w1(1,2) by simp
  next
    case None
    then have na: "\<not> avail w ?p" using w1(2) by simp
    then have nm: "\<not> fq_more fq" using D(7) by auto
    have no: "\<not> avail w1 ?p" using w1(5) None by simp
    obtain fq1 where fq1: "fq_deactivate fq = Some fq1" "fq_inv fq1 w1" "set (fq_items fq1) = set (fq_items fq)"
        "fq_active fq1 = fq_active fq - 1" "\<not> fq_more fq1"
      using fq_deactivate_inv[OF inv act nm no w1(3,4)] by blast
    have same: "avail w1 q \<Longrightarrow> avail w q" "(\<forall>p \<in> set (fq_items fq). \<not> avail w1 p) \<longleftrightarrow> (\<forall>p \<in> set (fq_items fq). \<not> avail w p)" for q
      using w1(4) no na by metis+
    have loop: "fq_loop ops (Suc count) fq w = fq_loop ops count fq1 w1"
      using p(1) w1(1) None nm fq1(1) by simp
    have "count = fq_active fq1" using fq1(4) Suc.prems(2) by simp
    from Suc.IH[OF fq1(2) this] obtain v' fq' w' where "fq_loop ops count fq1 w1 = Some (v', fq', w')"
        "fq_inv fq' w'" "set (fq_items fq') = set (fq_items fq)"
        "case v' of
           None \<Rightarrow> (\<forall>p \<in> set (fq_items fq). \<not> avail w1 p) \<and> fq_active fq' = 0
         | Some (p, m) \<Rightarrow> p \<in> set (fq_items fq) \<and> avail w1 p \<and> fq_more fq' = has_more m \<and>
             (has_more m \<longrightarrow> fq_items fq' ! fq_current fq' = p)"
      unfolding fq1(3) by (elim exE conjE) (auto split: option.splits)
    then show ?thesis
      unfolding loop using na same by (auto split: option.splits)
  qed
qed

end

end
