(* ===== verification/Swap.thy ===== *)
theory Swap
  imports Message
begin

text \<open>
  \<^verbatim>\<open>src/swap.hpp\<close>, \<^verbatim>\<open>src/swap.cpp\<close>: the file that holds the messages a full pipe cannot take, as a
  ring of \<open>filesize\<close> bytes with one cached block for reading and one for writing. The two caches are
  \<open>buf1\<close> and \<open>buf2\<close>, and \<open>read_buf\<close>, \<open>write_buf\<close> say which of them each side uses (\<open>True\<close> is
  \<open>buf1\<close>). The backing file is the list of the bytes written to it so far; reading past its end makes
  \<^verbatim>\<open>read\<close> return 0, which fails \<^verbatim>\<open>errno_assert (rc > 0)\<close> and is \<open>None\<close> here. The operating
  system transfers all the bytes asked for (the loops around \<^verbatim>\<open>read\<close> and \<^verbatim>\<open>write\<close> make
  partial transfers invisible). \<open>commit_pos\<close> is not initialised by the constructor, so it is an argument.
\<close>

record swap_t =
  filesize :: nat
  file_pos :: nat
  write_pos :: nat
  read_pos :: nat
  commit_pos :: nat
  block_size :: nat
  buf1 :: "byte list"
  buf2 :: "byte list"
  read_buf :: bool
  write_buf :: bool
  write_buf_start_addr :: nat
  swap_file :: "byte list"

definition swap_new :: "nat \<Rightarrow> nat \<Rightarrow> byte list \<Rightarrow> byte list \<Rightarrow> nat \<Rightarrow> swap_t option" where
  "swap_new fsize bsize raw1 raw2 garbage = do {
     zmq_assert (fsize > 0);
     zmq_assert (bsize > 0);
     Some \<lparr>filesize = fsize, file_pos = 0, write_pos = 0, read_pos = 0, commit_pos = garbage,
           block_size = bsize, buf1 = take bsize (raw1 @ replicate bsize 0),
           buf2 = take bsize (raw2 @ replicate bsize 0), read_buf = True, write_buf = True,
           write_buf_start_addr = 0, swap_file = []\<rparr>
   }"

definition get_buf :: "bool \<Rightarrow> swap_t \<Rightarrow> byte list" where
  "get_buf b s = (if b then buf1 s else buf2 s)"

definition set_buf :: "bool \<Rightarrow> byte list \<Rightarrow> swap_t \<Rightarrow> swap_t" where
  "set_buf b bs s = (if b then s\<lparr>buf1 := bs\<rparr> else s\<lparr>buf2 := bs\<rparr>)"

text \<open>Replacing the bytes of a list from a position on; a hole in a file reads as zeros.\<close>

definition overwrite :: "nat \<Rightarrow> byte list \<Rightarrow> byte list \<Rightarrow> byte list" where
  "overwrite pos new old =
     take pos (old @ replicate (pos - length old) 0) @ new @ drop (pos + length new) old"

definition buffer_space :: "swap_t \<Rightarrow> nat" where
  "buffer_space s =
     (if write_pos s < read_pos s then read_pos s - write_pos s
      else filesize s - (write_pos s - read_pos s))"

definition fill_buf :: "bool \<Rightarrow> nat \<Rightarrow> swap_t \<Rightarrow> swap_t option" where
  "fill_buf b pos s0 =
     (let s = (if file_pos s0 \<noteq> pos then s0\<lparr>file_pos := pos\<rparr> else s0);
          total = min (block_size s) (filesize s - file_pos s)
      in do {
        zmq_assert (file_pos s + total \<le> length (swap_file s));
        let octets = take total (drop (file_pos s) (swap_file s));
        Some (set_buf b (overwrite 0 octets (get_buf b s)) (s\<lparr>file_pos := file_pos s + total\<rparr>))
      })"

definition save_write_buf :: "swap_t \<Rightarrow> swap_t" where
  "save_write_buf s0 =
     (let s = (if file_pos s0 \<noteq> write_buf_start_addr s0 then s0\<lparr>file_pos := write_buf_start_addr s0\<rparr> else s0);
          total = min (block_size s) (filesize s - file_pos s);
          octets = take total (get_buf (write_buf s) s)
      in s\<lparr>swap_file := overwrite (file_pos s) octets (swap_file s), file_pos := file_pos s + total\<rparr>)"

text \<open>The loops move a chunk at a time; the argument \<open>n\<close> counts the bytes left, and a chunk of size
  zero, with which the loop would not end, is \<open>None\<close>.\<close>

definition read_chunk :: "nat \<Rightarrow> swap_t \<Rightarrow> (nat \<times> byte list \<times> swap_t) option" where
  "read_chunk n s =
     (let chunk = min n (min (filesize s - read_pos s) (block_size s - read_pos s mod block_size s));
          bytes = take chunk (drop (read_pos s mod block_size s) (get_buf (read_buf s) s));
          s1 = s\<lparr>read_pos := (read_pos s + chunk) mod filesize s\<rparr>
      in do {
        s2 \<leftarrow> (if read_pos s1 mod block_size s1 = 0 then
                if read_pos s1 div block_size s1 = write_pos s1 div block_size s1
                then Some (s1\<lparr>read_buf := write_buf s1\<rparr>)
                else fill_buf (read_buf s1) (read_pos s1) s1
              else Some s1);
        Some (chunk, bytes, s2)
      })"

function copy_from_file :: "nat \<Rightarrow> swap_t \<Rightarrow> (byte list \<times> swap_t) option" where
  "copy_from_file n s =
     (if n = 0 then Some ([], s)
      else case read_chunk n s of
        None \<Rightarrow> None
      | Some (k, bytes, s') \<Rightarrow>
          if k = 0 then None else map_option (apfst ((@) bytes)) (copy_from_file (n - k) s'))"
  by pat_completeness auto
termination
  by (relation "measure fst") auto

definition write_chunk :: "byte list \<Rightarrow> swap_t \<Rightarrow> nat \<times> swap_t" where
  "write_chunk src s =
     (let chunk = min (length src)
            (min (filesize s - write_pos s) (block_size s - write_pos s mod block_size s));
          s1 = set_buf (write_buf s)
                 (overwrite (write_pos s mod block_size s) (take chunk src) (get_buf (write_buf s) s)) s;
          s2 = s1\<lparr>write_pos := (write_pos s + chunk) mod filesize s\<rparr>
      in (chunk,
          if write_pos s2 mod block_size s2 = 0 then
            let s' = (save_write_buf s2)\<lparr>write_buf_start_addr := write_pos s2\<rparr>
            in if write_buf s' = read_buf s' then s'\<lparr>write_buf := \<not> read_buf s'\<rparr> else s'
          else s2))"

function copy_to_file :: "byte list \<Rightarrow> swap_t \<Rightarrow> swap_t option" where
  "copy_to_file src s =
     (if src = [] then Some s
      else case write_chunk src s of (k, s') \<Rightarrow>
        if k = 0 then None else copy_to_file (drop k src) s')"
  by pat_completeness auto
termination
  by (relation "measure (length \<circ> fst)") auto

declare copy_from_file.simps [simp del] copy_to_file.simps [simp del]

text \<open>The length field is a \<^verbatim>\<open>size_t\<close> in the byte order of the machine (little-endian).\<close>

definition size_bytes :: "nat \<Rightarrow> byte list" where
  "size_bytes n = map (\<lambda>i. of_nat (n div 256 ^ i)) [0..<8]"

definition bytes_size :: "byte list \<Rightarrow> nat" where
  "bytes_size bs = (\<Sum>i = 0..<length bs. unat (bs ! i) * 256 ^ i)"

definition swap_fits :: "msg \<Rightarrow> swap_t \<Rightarrow> bool" where
  "swap_fits m s \<longleftrightarrow> \<not> buffer_space s \<le> 8 + 1 + length (body m)"

definition swap_store :: "msg \<Rightarrow> swap_t \<Rightarrow> (bool \<times> swap_t) option" where
  "swap_store m s =
     (if buffer_space s \<le> 8 + 1 + length (body m) then Some (False, s)
      else do {
        s1 \<leftarrow> copy_to_file (size_bytes (length (body m))) s;
        s2 \<leftarrow> copy_to_file [mflags m AND NOT ZMQ_MSG_SHARED] s1;
        s3 \<leftarrow> copy_to_file (body m) s2;
        Some (True, s3)
      })"

definition swap_fetch :: "swap_t \<Rightarrow> (msg \<times> swap_t) option" where
  "swap_fetch s = do {
     zmq_assert (read_pos s \<noteq> write_pos s);
     (sz, s1) \<leftarrow> copy_from_file 8 s;
     (fl, s2) \<leftarrow> copy_from_file 1 s1;
     (bs, s3) \<leftarrow> copy_from_file (bytes_size sz) s2;
     Some (\<lparr>is_delim = False, mflags = hd fl, body = bs\<rparr>, s3)
   }"

definition swap_commit :: "swap_t \<Rightarrow> swap_t" where
  "swap_commit s = s\<lparr>commit_pos := write_pos s\<rparr>"

definition swap_rollback :: "swap_t \<Rightarrow> swap_t option" where
  "swap_rollback s =
     (if commit_pos s = write_pos s \<or> read_pos s = write_pos s then Some s
      else do {
        zmq_assert (if write_pos s > read_pos s
                    then read_pos s \<le> commit_pos s \<and> commit_pos s \<le> write_pos s
                    else read_pos s \<le> commit_pos s \<or> commit_pos s \<le> write_pos s);
        let cb = commit_pos s div block_size s;
        s1 \<leftarrow> (if cb = read_pos s div block_size s
              then Some (s\<lparr>write_buf_start_addr := commit_pos s mod block_size s, write_buf := read_buf s\<rparr>)
              else if cb \<noteq> write_pos s div block_size s
              then fill_buf (write_buf s) (commit_pos s mod block_size s)
                     (s\<lparr>write_buf_start_addr := commit_pos s mod block_size s\<rparr>)
              else Some s);
        Some (s1\<lparr>write_pos := commit_pos s\<rparr>)
      })"

definition swap_empty :: "swap_t \<Rightarrow> bool" where
  "swap_empty s \<longleftrightarrow> read_pos s = write_pos s"

end
