(* ===== verification/Pipe.thy ===== *)
theory Pipe
  imports Ypipe Swap
begin

text \<open>
  \<^verbatim>\<open>src/pipe.hpp\<close>, \<^verbatim>\<open>src/pipe.cpp\<close>: the message pipe, that is the lock-free pipe with its
  reader and its writer, which live in two threads and talk by commands. A \<open>conn\<close> holds the three
  objects; \<open>None\<close> means deallocated. Every operation returns its result, the new state and,
  in the order of the code, what it does to the outside: the commands it sends to the other
  end, the calls of its event sink and the messages it closes. It is \<open>None\<close> when an assertion fails
  or a deallocated object is used.
\<close>

datatype pipe_cmd = ActivateReader | ActivateWriter u64 | PipeTerm | PipeTermAck

datatype pipe_act =
  Send pipe_cmd | Delimited | RActivated | RTerminated | WActivated | WTerminated | CloseMsg msg

record reader_t =
  r_active :: bool
  r_writer :: bool
  r_lwm :: u64
  r_msgs_read :: u64
  r_sink :: bool
  r_terminating :: bool

record writer_t =
  w_active :: bool
  w_reader :: bool
  w_hwm :: u64
  w_msgs_read :: u64
  w_msgs_written :: u64
  w_swap :: "swap_t option"
  w_sink :: bool
  w_swapping :: bool
  w_pending_delimiter :: bool
  w_terminating :: bool

record conn =
  cpipe :: "msg ypipe_t option"
  creader :: "reader_t option"
  cwriter :: "writer_t option"

definition message_pipe_granularity :: nat where "message_pipe_granularity = 256"
definition max_wm_delta :: u64 where "max_wm_delta = 1024"
definition swap_block_size :: nat where "swap_block_size = 8192"

section \<open>The reader\<close>

definition reader_new :: "u64 \<Rightarrow> reader_t" where
  "reader_new lwm =
     \<lparr>r_active = True, r_writer = False, r_lwm = lwm, r_msgs_read = 0, r_sink = False,
      r_terminating = False\<rparr>"

definition reader_set_writer :: "reader_t \<Rightarrow> reader_t option" where
  "reader_set_writer r = do { zmq_assert (\<not> r_writer r); Some (r\<lparr>r_writer := True\<rparr>) }"

definition reader_set_event_sink :: "conn \<Rightarrow> conn option" where
  "reader_set_event_sink c = do {
     r \<leftarrow> creader c;
     zmq_assert (\<not> r_sink r);
     Some (c\<lparr>creader := Some (r\<lparr>r_sink := True\<rparr>)\<rparr>)
   }"

definition reader_terminate :: "conn \<Rightarrow> (conn \<times> pipe_act list) option" where
  "reader_terminate c = do {
     r \<leftarrow> creader c;
     (if r_terminating r then Some (c, [])
      else do {
        zmq_assert (r_writer r);
        Some (c\<lparr>creader := Some (r\<lparr>r_active := False, r_terminating := True\<rparr>)\<rparr>, [Send PipeTerm])
      })
   }"

definition reader_check_read :: "conn \<Rightarrow> (bool \<times> conn \<times> pipe_act list) option" where
  "reader_check_read c = do {
     r \<leftarrow> creader c;
     (if \<not> r_active r then Some (False, c, [])
      else do {
        p \<leftarrow> cpipe c;
        let (ok, p1) = ypipe_check_read p;
        (if \<not> ok then
           Some (False, c\<lparr>cpipe := Some p1, creader := Some (r\<lparr>r_active := False\<rparr>)\<rparr>, [])
         else do {
           (delim, p2) \<leftarrow> ypipe_probe is_delim p1;
           (if \<not> delim then Some (True, c\<lparr>cpipe := Some p2\<rparr>, [])
            else do {
              (v, p3) \<leftarrow> ypipe_read p2;
              zmq_assert (v \<noteq> None);
              (c', acts) \<leftarrow> reader_terminate (c\<lparr>cpipe := Some p3\<rparr>);
              Some (False, c', (if r_sink r then [Delimited] else []) @ acts)
            })
         })
      })
   }"

definition reader_read :: "conn \<Rightarrow> (msg option \<times> conn \<times> pipe_act list) option" where
  "reader_read c = do {
     r \<leftarrow> creader c;
     (if \<not> r_active r then Some (None, c, [])
      else do {
        p \<leftarrow> cpipe c;
        (v, p1) \<leftarrow> ypipe_read p;
        (case v of
           None \<Rightarrow> Some (None, c\<lparr>cpipe := Some p1, creader := Some (r\<lparr>r_active := False\<rparr>)\<rparr>, [])
         | Some m \<Rightarrow>
             if is_delim m then do {
               (c', acts) \<leftarrow> reader_terminate (c\<lparr>cpipe := Some p1\<rparr>);
               Some (None, c', (if r_sink r then [Delimited] else []) @ acts)
             }
             else
               let n = (if has_more m then r_msgs_read r else r_msgs_read r + 1);
                   c' = c\<lparr>cpipe := Some p1, creader := Some (r\<lparr>r_msgs_read := n\<rparr>)\<rparr>
               in if r_lwm r > 0 \<and> n mod r_lwm r = 0
                  then do { zmq_assert (r_writer r); Some (Some m, c', [Send (ActivateWriter n)]) }
                  else Some (Some m, c', []))
      })
   }"

definition process_activate_reader :: "conn \<Rightarrow> (conn \<times> pipe_act list) option" where
  "process_activate_reader c = do {
     r \<leftarrow> creader c;
     zmq_assert (r_sink r);
     Some (c\<lparr>creader := Some (r\<lparr>r_active := True\<rparr>)\<rparr>, [RActivated])
   }"

text \<open>The destructor closes the unread messages of the pipe.\<close>

partial_function (option) drain_pipe :: "msg ypipe_t \<Rightarrow> (msg list \<times> msg ypipe_t) option" where
  "drain_pipe p =
     Option.bind (ypipe_read p) (\<lambda>(v, p1).
       case v of
         None \<Rightarrow> Some ([], p1)
       | Some m \<Rightarrow> Option.bind (drain_pipe p1) (\<lambda>(ms, p2). Some (m # ms, p2)))"

definition reader_delete :: "conn \<Rightarrow> (conn \<times> pipe_act list) option" where
  "reader_delete c = do {
     p \<leftarrow> cpipe c;
     (ms, p1) \<leftarrow> drain_pipe p;
     q \<leftarrow> yqueue_delete (queue p1);
     Some (c\<lparr>creader := None, cpipe := None\<rparr>, map CloseMsg ms)
   }"

definition process_pipe_term_ack :: "conn \<Rightarrow> (conn \<times> pipe_act list) option" where
  "process_pipe_term_ack c = do {
     r \<leftarrow> creader c;
     zmq_assert (r_sink r);
     (c', acts) \<leftarrow> reader_delete (c\<lparr>creader := Some (r\<lparr>r_writer := False\<rparr>)\<rparr>);
     Some (c', RTerminated # acts)
   }"

section \<open>The writer\<close>

definition pipe_full :: "writer_t \<Rightarrow> bool" where
  "pipe_full w \<longleftrightarrow> w_hwm w > 0 \<and> w_msgs_written w - w_msgs_read w = w_hwm w"

text \<open>The raw memory arguments are the uninitialised buffers and field of the swap.\<close>

definition writer_new ::
  "u64 \<Rightarrow> int \<Rightarrow> byte list \<Rightarrow> byte list \<Rightarrow> nat \<Rightarrow> writer_t option" where
  "writer_new hwm swap_size raw1 raw2 garbage = do {
     sw \<leftarrow> (if swap_size > 0
           then map_option Some (swap_new (nat swap_size) swap_block_size raw1 raw2 garbage)
           else Some None);
     Some \<lparr>w_active = True, w_reader = True, w_hwm = hwm, w_msgs_read = 0, w_msgs_written = 0,
           w_swap = sw, w_sink = False, w_swapping = False, w_pending_delimiter = False,
           w_terminating = False\<rparr>
   }"

definition writer_set_event_sink :: "conn \<Rightarrow> conn option" where
  "writer_set_event_sink c = do {
     w \<leftarrow> cwriter c;
     zmq_assert (\<not> w_sink w);
     Some (c\<lparr>cwriter := Some (w\<lparr>w_sink := True\<rparr>)\<rparr>)
   }"

definition writer_check_write :: "msg \<Rightarrow> conn \<Rightarrow> (bool \<times> conn) option" where
  "writer_check_write m c = do {
     w \<leftarrow> cwriter c;
     (if \<not> w_active w then Some (False, c)
      else if w_swapping w then do {
        s \<leftarrow> w_swap w;
        Some (if \<not> swap_fits m s then (False, c\<lparr>cwriter := Some (w\<lparr>w_active := False\<rparr>)\<rparr>) else (True, c))
      }
      else Some (
        if pipe_full w then
          if w_swap w \<noteq> None then (True, c\<lparr>cwriter := Some (w\<lparr>w_swapping := True\<rparr>)\<rparr>)
          else (False, c\<lparr>cwriter := Some (w\<lparr>w_active := False\<rparr>)\<rparr>)
        else (True, c)))
   }"

definition writer_write :: "msg \<Rightarrow> conn \<Rightarrow> (bool \<times> conn) option" where
  "writer_write m c0 = do {
     (ok, c) \<leftarrow> writer_check_write m c0;
     (if \<not> ok then Some (False, c)
      else do {
        w \<leftarrow> cwriter c;
        (if w_swapping w then do {
           s \<leftarrow> w_swap w;
           (stored, s1) \<leftarrow> swap_store m s;
           zmq_assert stored;
           let s2 = (if \<not> has_more m then swap_commit s1 else s1);
           Some (True, c\<lparr>cwriter := Some (w\<lparr>w_swap := Some s2\<rparr>)\<rparr>)
         }
         else do {
           p \<leftarrow> cpipe c;
           p1 \<leftarrow> ypipe_write m (has_more m) p;
           let w1 = (if \<not> has_more m then w\<lparr>w_msgs_written := w_msgs_written w + 1\<rparr> else w);
           Some (True, c\<lparr>cpipe := Some p1, cwriter := Some w1\<rparr>)
         })
      })
   }"

partial_function (option) unwrite_all :: "msg ypipe_t \<Rightarrow> (msg list \<times> msg ypipe_t) option" where
  "unwrite_all p =
     Option.bind (ypipe_unwrite p) (\<lambda>(v, p1).
       case v of
         None \<Rightarrow> Some ([], p1)
       | Some m \<Rightarrow>
           Option.bind (zmq_assert (has_more m)) (\<lambda>_.
             Option.bind (unwrite_all p1) (\<lambda>(ms, p2). Some (m # ms, p2))))"

definition writer_rollback :: "conn \<Rightarrow> (conn \<times> pipe_act list) option" where
  "writer_rollback c = do {
     w \<leftarrow> cwriter c;
     (if w_swapping w then do {
        s \<leftarrow> w_swap w;
        s1 \<leftarrow> swap_rollback s;
        Some (c\<lparr>cwriter := Some (w\<lparr>w_swap := Some s1\<rparr>)\<rparr>, [])
      }
      else do {
        p \<leftarrow> cpipe c;
        (ms, p1) \<leftarrow> unwrite_all p;
        Some (c\<lparr>cpipe := Some p1\<rparr>, map CloseMsg ms)
      })
   }"

definition writer_flush :: "conn \<Rightarrow> (conn \<times> pipe_act list) option" where
  "writer_flush c = do {
     w \<leftarrow> cwriter c;
     (if w_swapping w then Some (c, [])
      else do {
        p \<leftarrow> cpipe c;
        let (ok, p1) = ypipe_flush p;
        Some (c\<lparr>cpipe := Some p1\<rparr>, if \<not> ok then [Send ActivateReader] else [])
      })
   }"

text \<open>The delimiter goes into the pipe whatever the watermarks are.\<close>

definition push_delimiter :: "conn \<Rightarrow> (conn \<times> pipe_act list) option" where
  "push_delimiter c = do {
     p \<leftarrow> cpipe c;
     p1 \<leftarrow> ypipe_write delimiter_msg False p;
     writer_flush (c\<lparr>cpipe := Some p1\<rparr>)
   }"

definition writer_terminate :: "conn \<Rightarrow> (conn \<times> pipe_act list) option" where
  "writer_terminate c0 = do {
     w0 \<leftarrow> cwriter c0;
     (if w_terminating w0 then Some (c0, [])
      else do {
        (c, acts) \<leftarrow> writer_rollback
           (c0\<lparr>cwriter := Some (w0\<lparr>w_terminating := True, w_active := False\<rparr>)\<rparr>);
        w \<leftarrow> cwriter c;
        (if w_swapping w
         then Some (c\<lparr>cwriter := Some (w\<lparr>w_pending_delimiter := True\<rparr>)\<rparr>, acts)
         else do { (c', acts') \<leftarrow> push_delimiter c; Some (c', acts @ acts') })
      })
   }"

text \<open>The loop that moves messages from the swap to the pipe.\<close>

partial_function (option) unswap ::
  "writer_t \<Rightarrow> swap_t \<Rightarrow> msg ypipe_t \<Rightarrow> (writer_t \<times> swap_t \<times> msg ypipe_t) option" where
  "unswap w s p =
     (if pipe_full w \<or> swap_empty s then Some (w, s, p)
      else Option.bind (swap_fetch s) (\<lambda>(m, s1).
             Option.bind (ypipe_write m (has_more m) p) (\<lambda>p1.
               unswap (if \<not> has_more m then w\<lparr>w_msgs_written := w_msgs_written w + 1\<rparr> else w) s1 p1)))"

definition writer_unswap :: "conn \<Rightarrow> (conn \<times> pipe_act list \<times> bool) option" where
  "writer_unswap c = do {
     w0 \<leftarrow> cwriter c;
     p0 \<leftarrow> cpipe c;
     s0 \<leftarrow> w_swap w0;
     (w, s, p) \<leftarrow> unswap w0 s0 p0;
     let (ok, p1) = ypipe_flush p;
     let acts = (if \<not> ok then [Send ActivateReader] else []);
     let w1 = w\<lparr>w_swap := Some s\<rparr>;
     (if swap_empty s then do {
        let c1 = c\<lparr>cpipe := Some p1, cwriter := Some (w1\<lparr>w_swapping := False\<rparr>)\<rparr>;
        (if w_pending_delimiter w1
         then do { (c2, acts') \<leftarrow> push_delimiter c1; Some (c2, acts @ acts', True) }
         else Some (c1, acts, False))
      }
      else Some (c\<lparr>cpipe := Some p1, cwriter := Some w1\<rparr>, acts, False))
   }"

definition process_activate_writer :: "u64 \<Rightarrow> conn \<Rightarrow> (conn \<times> pipe_act list) option" where
  "process_activate_writer n c0 = do {
     w0 \<leftarrow> cwriter c0;
     let c1 = c0\<lparr>cwriter := Some (w0\<lparr>w_msgs_read := n\<rparr>)\<rparr>;
     (c, acts, finished) \<leftarrow> (if w_swapping w0 then writer_unswap c1 else Some (c1, [], False));
     (if finished then Some (c, acts)
      else do {
        w \<leftarrow> cwriter c;
        (if \<not> w_active w \<and> \<not> w_terminating w then do {
           zmq_assert (w_sink w);
           Some (c\<lparr>cwriter := Some (w\<lparr>w_active := True\<rparr>)\<rparr>, acts @ [WActivated])
         }
         else Some (c, acts))
      })
   }"

definition process_pipe_term :: "conn \<Rightarrow> (conn \<times> pipe_act list) option" where
  "process_pipe_term c = do {
     w \<leftarrow> cwriter c;
     zmq_assert (w_reader w);
     zmq_assert (w_sink w);
     Some (c\<lparr>cwriter := None\<rparr>, [Send PipeTermAck, WTerminated])
   }"

section \<open>Creation\<close>

definition compute_lwm :: "u64 \<Rightarrow> u64" where
  "compute_lwm hwm = (if hwm > max_wm_delta * 2 then hwm - max_wm_delta else (hwm + 1) div 2)"

definition create_pipe ::
  "u64 \<Rightarrow> int \<Rightarrow> byte list \<Rightarrow> byte list \<Rightarrow> nat \<Rightarrow> conn option" where
  "create_pipe hwm swap_size raw1 raw2 garbage = do {
     p \<leftarrow> ypipe_new message_pipe_granularity;
     r \<leftarrow> reader_set_writer (reader_new (compute_lwm hwm));
     w \<leftarrow> writer_new hwm swap_size raw1 raw2 garbage;
     Some \<lparr>cpipe = Some p, creader = Some r, cwriter = Some w\<rparr>
   }"

declare drain_pipe.simps [code] unwrite_all.simps [code] unswap.simps [code]

end
