(* ===== verification/PipeProto.thy ===== *)
theory PipeProto
  imports Pipe
begin

text \<open>
  The protocol between the two ends of a pipe. A system is a \<open>conn\<close> with the two command queues in
  flight between its threads, and, as a history, the message parts written and not taken back, and
  those received. A call is an operation by the owner of an end that still exists, or the processing of
  the oldest command in flight to one; calls of the two threads interleave in any order.
  Owners never write a delimiter. \<open>enabled True\<close> is the discipline that an owner who has
  terminated its reader does not read from it any more; the code does not enforce it, and
  without it the protocol is not safe (\<open>reader_use_after_free\<close>).
\<close>

record psys =
  pconn :: conn
  to_reader :: "pipe_cmd list"
  to_writer :: "pipe_cmd list"
  g_written :: "msg list"
  g_received :: "msg list"

datatype pcall =
  WWrite msg | WFlush | WRollback | WTerminate | RRead | RCheck | RTerminate | DeliverR | DeliverW

definition post :: "pipe_act list \<Rightarrow> psys \<Rightarrow> psys" where
  "post acts s = s\<lparr>
     to_reader := to_reader s @ [c. Send c \<leftarrow> acts, c = ActivateReader \<or> c = PipeTermAck],
     to_writer := to_writer s @ [c. Send c \<leftarrow> acts, c \<noteq> ActivateReader \<and> c \<noteq> PipeTermAck]\<rparr>"

definition closed_msgs :: "pipe_act list \<Rightarrow> msg list" where
  "closed_msgs acts = [m. CloseMsg m \<leftarrow> acts]"

definition take_back :: "pipe_act list \<Rightarrow> msg list \<Rightarrow> msg list" where
  "take_back acts ms = take (length ms - length (closed_msgs acts)) ms"

fun enabled :: "bool \<Rightarrow> pcall \<Rightarrow> psys \<Rightarrow> bool" where
  "enabled strict (WWrite m) s \<longleftrightarrow> cwriter (pconn s) \<noteq> None \<and> \<not> is_delim m"
| "enabled strict WFlush s \<longleftrightarrow> cwriter (pconn s) \<noteq> None"
| "enabled strict WRollback s \<longleftrightarrow> cwriter (pconn s) \<noteq> None"
| "enabled strict WTerminate s \<longleftrightarrow> cwriter (pconn s) \<noteq> None"
| "enabled strict RRead s \<longleftrightarrow>
     (\<exists>r. creader (pconn s) = Some r \<and> (strict \<longrightarrow> \<not> r_terminating r))"
| "enabled strict RCheck s \<longleftrightarrow>
     (\<exists>r. creader (pconn s) = Some r \<and> (strict \<longrightarrow> \<not> r_terminating r))"
| "enabled strict RTerminate s \<longleftrightarrow> creader (pconn s) \<noteq> None"
| "enabled strict DeliverR s \<longleftrightarrow> to_reader s \<noteq> []"
| "enabled strict DeliverW s \<longleftrightarrow> to_writer s \<noteq> []"

fun deliver :: "pipe_cmd \<Rightarrow> conn \<Rightarrow> (conn \<times> pipe_act list) option" where
  "deliver ActivateReader c = process_activate_reader c"
| "deliver PipeTermAck c = process_pipe_term_ack c"
| "deliver (ActivateWriter n) c = process_activate_writer n c"
| "deliver PipeTerm c = process_pipe_term c"

fun pexec :: "pcall \<Rightarrow> psys \<Rightarrow> psys option" where
  "pexec (WWrite m) s = do {
     (ok, c) \<leftarrow> writer_write m (pconn s);
     Some (s\<lparr>pconn := c, g_written := g_written s @ (if ok then [m] else [])\<rparr>)
   }"
| "pexec WFlush s = do { (c, acts) \<leftarrow> writer_flush (pconn s); Some (post acts (s\<lparr>pconn := c\<rparr>)) }"
| "pexec WRollback s = do {
     (c, acts) \<leftarrow> writer_rollback (pconn s);
     Some (post acts (s\<lparr>pconn := c, g_written := take_back acts (g_written s)\<rparr>))
   }"
| "pexec WTerminate s = do {
     (c, acts) \<leftarrow> writer_terminate (pconn s);
     Some (post acts (s\<lparr>pconn := c, g_written := take_back acts (g_written s)\<rparr>))
   }"
| "pexec RRead s = do {
     (v, c, acts) \<leftarrow> reader_read (pconn s);
     Some (post acts (s\<lparr>pconn := c, g_received := g_received s @ (case v of None \<Rightarrow> [] | Some m \<Rightarrow> [m])\<rparr>))
   }"
| "pexec RCheck s = do {
     (ok, c, acts) \<leftarrow> reader_check_read (pconn s);
     Some (post acts (s\<lparr>pconn := c\<rparr>))
   }"
| "pexec RTerminate s = do { (c, acts) \<leftarrow> reader_terminate (pconn s); Some (post acts (s\<lparr>pconn := c\<rparr>)) }"
| "pexec DeliverR s = do {
     (c, acts) \<leftarrow> deliver (hd (to_reader s)) (pconn s);
     Some (post acts (s\<lparr>pconn := c, to_reader := tl (to_reader s)\<rparr>))
   }"
| "pexec DeliverW s = do {
     (c, acts) \<leftarrow> deliver (hd (to_writer s)) (pconn s);
     Some (post acts (s\<lparr>pconn := c, to_writer := tl (to_writer s)\<rparr>))
   }"

text \<open>A fresh pipe without swap, both ends attached to their sinks.\<close>

definition psys_new :: "u64 \<Rightarrow> psys option" where
  "psys_new hwm = do {
     c \<leftarrow> create_pipe hwm 0 [] [] 0;
     c1 \<leftarrow> reader_set_event_sink c;
     c2 \<leftarrow> writer_set_event_sink c1;
     Some \<lparr>pconn = c2, to_reader = [], to_writer = [], g_written = [], g_received = []\<rparr>
   }"

inductive preach :: "bool \<Rightarrow> u64 \<Rightarrow> psys \<Rightarrow> bool" for strict hwm where
  start: "psys_new hwm = Some s \<Longrightarrow> preach strict hwm s"
| step: "preach strict hwm s \<Longrightarrow> enabled strict call s \<Longrightarrow> pexec call s = Some s' \<Longrightarrow>
    preach strict hwm s'"

section \<open>Loops over the pipe\<close>

lemma unwrite_all_rel:
  "yp_rel p cs A \<Longrightarrow> \<forall>m \<in> set (partial A). has_more m \<Longrightarrow>
   \<exists>p' cs'. unwrite_all p = Some (rev (partial A), p') \<and> yp_rel p' cs' (A\<lparr>partial := []\<rparr>)"
proof (induction "partial A" arbitrary: p cs A rule: rev_induct)
  case Nil
  then have eq: "A\<lparr>partial := []\<rparr> = A" by (cases A) simp
  show ?case using Nil ypipe_unwrite_rel[OF Nil.prems(1)] unfolding eq
    by (subst unwrite_all.simps) (auto simp: view_unwrite_def)
next
  case (snoc m ms)
  let ?A = "A\<lparr>partial := ms\<rparr>"
  have A: "partial A = ms @ [m]" using snoc.hyps(2) by simp
  obtain p1 cs1 where p1: "ypipe_unwrite p = Some (Some m, p1)" "yp_rel p1 cs1 ?A"
    using ypipe_unwrite_rel[OF snoc.prems(1)] A by (auto simp: view_unwrite_def)
  obtain p2 cs2 where p2: "unwrite_all p1 = Some (rev ms, p2)" "yp_rel p2 cs2 (A\<lparr>partial := []\<rparr>)"
    using snoc.hyps(1)[of ?A, OF _ p1(2)] snoc.prems(2) A by auto
  have "unwrite_all p = Some (rev (partial A), p2)"
    using p1(1) p2(1) snoc.prems(2) A by (subst unwrite_all.simps) simp
  then show ?case using p2(2) by blast
qed

lemma drain_pipe_rel:
  "yp_rel p cs A \<Longrightarrow>
   \<exists>p' cs'. drain_pipe p = Some (prefetched A @ visible A, p') \<and>
     yp_rel p' cs' (A\<lparr>prefetched := [], visible := [], asleep := True\<rparr>)"
proof (induction "length (prefetched A @ visible A)" arbitrary: p cs A)
  case 0
  then have eq: "A\<lparr>prefetched := [], visible := [], asleep := True\<rparr> = A\<lparr>asleep := True\<rparr>"
    by (cases A) simp
  show ?case using 0 ypipe_read_rel[OF 0(2)] unfolding eq
    by (subst drain_pipe.simps) (auto simp: view_read_def view_check_read_def)
next
  case (Suc n)
  obtain p1 cs1 where p1: "ypipe_read p = Some (fst (view_read A), p1)" "yp_rel p1 cs1 (snd (view_read A))"
    using ypipe_read_rel[OF Suc.prems] by blast
  let ?A = "snd (view_read A)"
  have r: "fst (view_read A) = Some (hd (prefetched A @ visible A))"
    "prefetched ?A @ visible ?A = tl (prefetched A @ visible A)"
    "?A\<lparr>prefetched := [], visible := [], asleep := True\<rparr> = A\<lparr>prefetched := [], visible := [], asleep := True\<rparr>"
    using Suc.hyps(2) by (cases "prefetched A"; cases "visible A"; simp add: view_read_def view_check_read_def)+
  have "n = length (prefetched ?A @ visible ?A)" using r(2) Suc.hyps(2) by simp
  then obtain p2 cs2 where "drain_pipe p1 = Some (prefetched ?A @ visible ?A, p2)"
      "yp_rel p2 cs2 (A\<lparr>prefetched := [], visible := [], asleep := True\<rparr>)"
    using Suc.hyps(1)[OF _ p1(2)] r(3) by auto
  moreover have "hd (prefetched A @ visible A) # tl (prefetched A @ visible A) = prefetched A @ visible A"
    using Suc.hyps(2) by (cases "prefetched A @ visible A") auto
  ultimately have "drain_pipe p = Some (prefetched A @ visible A, p2)"
    using p1(1) r(1,2) by (subst drain_pipe.simps) simp
  then show ?case using \<open>yp_rel p2 cs2 _\<close> by blast
qed

section \<open>The invariant\<close>

text \<open>The complete messages among the parts.\<close>

definition count_msgs :: "msg list \<Rightarrow> nat" where
  "count_msgs ms = length (filter (\<lambda>m. \<not> has_more m) ms)"

definition user_msgs :: "msg list \<Rightarrow> msg list" where
  "user_msgs ms = filter (\<lambda>m. \<not> is_delim m) ms"

lemma count_simps [simp]:
  "count_msgs [] = 0" "count_msgs (m # ms) = (if has_more m then 0 else 1) + count_msgs ms"
  "count_msgs (xs @ ys) = count_msgs xs + count_msgs ys"
  by (simp_all add: count_msgs_def)

lemma user_simps [simp]:
  "user_msgs [] = []" "user_msgs (m # ms) = (if is_delim m then [] else [m]) @ user_msgs ms"
  "user_msgs (xs @ ys) = user_msgs xs @ user_msgs ys"
  by (simp_all add: user_msgs_def)

definition data_inv :: "conn \<Rightarrow> msg pipe_view \<Rightarrow> msg list \<Rightarrow> msg list \<Rightarrow> bool" where
  "data_inv c A wrt rcv \<longleftrightarrow>
     (\<exists>p cs. cpipe c = Some p \<and> yp_rel p cs A) \<and> wrt = rcv @ user_msgs (view_items A) \<and>
     (\<forall>m \<in> set (partial A). has_more m \<and> \<not> is_delim m)"

definition reader_inv :: "u64 \<Rightarrow> reader_t \<Rightarrow> nat \<Rightarrow> bool" where
  "reader_inv hwm r R \<longleftrightarrow> r_sink r \<and> r_writer r \<and> r_lwm r = compute_lwm hwm \<and> r_msgs_read r = of_nat R"

definition writer_inv :: "u64 \<Rightarrow> writer_t \<Rightarrow> nat \<Rightarrow> nat \<Rightarrow> bool" where
  "writer_inv hwm w W K \<longleftrightarrow>
     w_sink w \<and> w_reader w \<and> w_hwm w = hwm \<and> w_swap w = None \<and> \<not> w_swapping w \<and>
     w_msgs_written w = of_nat W \<and> w_msgs_read w = of_nat K \<and> K \<le> W \<and>
     (0 < hwm \<longrightarrow> W - K \<le> unat hwm) \<and>
     (\<not> w_active w \<and> \<not> w_terminating w \<longrightarrow> 0 < hwm \<and> W - K = unat hwm) \<and>
     (w_terminating w \<longrightarrow> \<not> w_active w)"

text \<open>\<open>K\<close> is the number of messages the writer knows to be read, \<open>ks\<close> the numbers under way to it.\<close>

definition credit_inv :: "u64 \<Rightarrow> nat \<Rightarrow> nat list \<Rightarrow> nat \<Rightarrow> bool" where
  "credit_inv lwm K ks R \<longleftrightarrow>
     sorted (K # ks @ [R]) \<and>
     (0 < lwm \<and> R < 2 ^ 64 \<longrightarrow> last (K # ks) = unat lwm * (R div unat lwm))"

definition proto_inv :: "u64 \<Rightarrow> psys \<Rightarrow> bool" where
  "proto_inv hwm s \<longleftrightarrow>
     (case creader (pconn s) of
        None \<Rightarrow> cwriter (pconn s) = None \<and> cpipe (pconn s) = None \<and> to_reader s = [] \<and> to_writer s = [] \<and>
          (\<exists>ys. g_written s = g_received s @ ys)
      | Some r \<Rightarrow> \<exists>A j. data_inv (pconn s) A (g_written s) (g_received s) \<and>
          reader_inv hwm r (count_msgs (g_received s)) \<and>
          (case cwriter (pconn s) of
             None \<Rightarrow> r_terminating r \<and> to_writer s = [] \<and>
               to_reader s = replicate j ActivateReader @ [PipeTermAck]
           | Some w \<Rightarrow> \<exists>K ks. writer_inv hwm w (count_msgs (g_written s)) K \<and>
               credit_inv (compute_lwm hwm) K ks (count_msgs (g_received s)) \<and>
               to_writer s = map (\<lambda>k. ActivateWriter (of_nat k)) ks @ (if r_terminating r then [PipeTerm] else []) \<and>
               to_reader s = replicate j ActivateReader))"

lemma post_simps [simp]:
  "pconn (post acts s) = pconn s" "g_written (post acts s) = g_written s"
  "g_received (post acts s) = g_received s" "post [] s = s"
  by (simp_all add: post_def)

lemma view_items_ops [simp]:
  "view_items (snd (view_flush A)) = view_items A" "view_items (snd (view_check_read A)) = view_items A"
  "partial (snd (view_flush A)) = partial A" "partial (snd (view_check_read A)) = partial A"
  "view_items (view_write v i A) = view_items A @ [v]"
  "partial (snd (view_read A)) = partial A"
  by (auto simp: view_flush_def view_check_read_def view_items_def view_write_def view_read_def
      split: if_splits prod.splits)

lemma view_read_items:
  "view_items A = (case fst (view_read A) of None \<Rightarrow> [] | Some m \<Rightarrow> [m]) @ view_items (snd (view_read A))"
  by (cases "prefetched A"; cases "visible A")
     (auto simp: view_read_def view_check_read_def view_items_def)

lemma data_inv_flush:
  assumes "data_inv c A wrt rcv" "cpipe c = Some p"
  shows "data_inv (c\<lparr>cpipe := Some (snd (ypipe_flush p)), cwriter := w\<rparr>) (snd (view_flush A)) wrt rcv"
    "data_inv (c\<lparr>cpipe := Some (snd (ypipe_check_read p)), creader := r\<rparr>) (snd (view_check_read A)) wrt rcv"
  using assms ypipe_flush_rel[of p _ A] ypipe_check_read_rel[of p _ A] by (auto simp: data_inv_def)

lemma data_inv_cong:
  "cpipe c = cpipe c' \<Longrightarrow> data_inv c A wrt rcv \<longleftrightarrow> data_inv c' A wrt rcv"
  by (simp add: data_inv_def)

lemma lwm_bounds:
  "0 < hwm \<Longrightarrow> 0 < compute_lwm hwm" "compute_lwm hwm \<le> hwm" "compute_lwm 0 = 0"
proof -
  have big: "unat (hwm - 1024) = unat hwm - 1024" if "2048 < hwm"
  proof -
    have "1024 \<le> hwm" using that by (simp add: word_le_nat_alt word_less_nat_alt)
    then show ?thesis by (simp add: unat_sub)
  qed
  have small: "unat ((hwm + 1) div 2) = (unat hwm + 1) div 2" if "\<not> 2048 < hwm"
  proof -
    have "unat hwm \<le> 2048" using that by (simp add: word_less_nat_alt)
    then have "unat (hwm + 1) = unat hwm + 1" by (simp add: unat_word_ariths)
    then show ?thesis by (simp add: unat_div)
  qed
  show "0 < compute_lwm hwm" if "0 < hwm"
    using big small that by (auto simp: compute_lwm_def max_wm_delta_def word_less_nat_alt)
  show "compute_lwm hwm \<le> hwm"
    using big small by (auto simp: compute_lwm_def max_wm_delta_def word_le_nat_alt)
  show "compute_lwm 0 = 0"
    by (simp add: compute_lwm_def max_wm_delta_def)
qed

section \<open>The calls keep the invariant\<close>

lemma proto_invE:
  assumes "proto_inv hwm s" "creader (pconn s) = Some r"
  obtains A j where "data_inv (pconn s) A (g_written s) (g_received s)"
    "reader_inv hwm r (count_msgs (g_received s))"
    "case cwriter (pconn s) of
       None \<Rightarrow> r_terminating r \<and> to_writer s = [] \<and> to_reader s = replicate j ActivateReader @ [PipeTermAck]
     | Some w \<Rightarrow> \<exists>K ks. writer_inv hwm w (count_msgs (g_written s)) K \<and>
         credit_inv (compute_lwm hwm) K ks (count_msgs (g_received s)) \<and>
         to_writer s = map (\<lambda>k. ActivateWriter (of_nat k)) ks @ (if r_terminating r then [PipeTerm] else []) \<and>
         to_reader s = replicate j ActivateReader"
  using assms by (auto simp: proto_inv_def)

lemma proto_inv_writerE:
  assumes "proto_inv hwm s" "cwriter (pconn s) = Some w"
  obtains r A j K ks where "creader (pconn s) = Some r" "data_inv (pconn s) A (g_written s) (g_received s)"
    "reader_inv hwm r (count_msgs (g_received s))" "writer_inv hwm w (count_msgs (g_written s)) K"
    "credit_inv (compute_lwm hwm) K ks (count_msgs (g_received s))"
    "to_writer s = map (\<lambda>k. ActivateWriter (of_nat k)) ks @ (if r_terminating r then [PipeTerm] else [])"
    "to_reader s = replicate j ActivateReader"
  using assms by (cases "creader (pconn s)") (auto simp: proto_inv_def)

lemma proto_invI:
  assumes "creader (pconn s) = Some r" "cwriter (pconn s) = Some w"
    "data_inv (pconn s) A (g_written s) (g_received s)" "reader_inv hwm r (count_msgs (g_received s))"
    "writer_inv hwm w (count_msgs (g_written s)) K"
    "credit_inv (compute_lwm hwm) K ks (count_msgs (g_received s))"
    "to_writer s = map (\<lambda>k. ActivateWriter (of_nat k)) ks @ (if r_terminating r then [PipeTerm] else [])"
    "to_reader s = replicate j ActivateReader"
  shows "proto_inv hwm s"
  using assms by (auto simp: proto_inv_def)

lemma pipe_full_iff:
  assumes "writer_inv hwm w W K"
  shows "pipe_full w \<longleftrightarrow> 0 < hwm \<and> W - K = unat hwm"
proof (cases "0 < hwm")
  case True
  have K: "K \<le> W" "W - K \<le> unat hwm" using assms True by (auto simp: writer_inv_def)
  have "(of_nat W :: u64) - of_nat K = of_nat (W - K)" using K(1) by simp
  moreover have "(of_nat (W - K) :: u64) = hwm \<longleftrightarrow> W - K = unat hwm"
  proof
    assume eq: "(of_nat (W - K) :: u64) = hwm"
    have "unat hwm < 2 ^ 64" using unsigned_less[of hwm, where ?'a = nat] by simp
    then have "W - K < 2 ^ 64" using K(2) by simp
    then have "unat (of_nat (W - K) :: u64) = W - K" by (simp only: unat_of_nat) simp
    then show "W - K = unat hwm" using eq by simp
  qed simp
  ultimately show ?thesis using assms True by (simp add: pipe_full_def writer_inv_def)
qed (use assms in \<open>simp add: pipe_full_def writer_inv_def\<close>)

lemma write_inv:
  assumes inv: "proto_inv hwm s" and w: "cwriter (pconn s) = Some w" and m: "\<not> is_delim m"
  shows "\<exists>s'. pexec (WWrite m) s = Some s' \<and> proto_inv hwm s'"
proof -
  obtain r A j K ks where I: "creader (pconn s) = Some r" "data_inv (pconn s) A (g_written s) (g_received s)"
    "reader_inv hwm r (count_msgs (g_received s))" "writer_inv hwm w (count_msgs (g_written s)) K"
    "credit_inv (compute_lwm hwm) K ks (count_msgs (g_received s))"
    "to_writer s = map (\<lambda>k. ActivateWriter (of_nat k)) ks @ (if r_terminating r then [PipeTerm] else [])"
    "to_reader s = replicate j ActivateReader"
    using proto_inv_writerE[OF inv w] .
  have W: "w_swap w = None" "\<not> w_swapping w" using I(4) by (simp_all add: writer_inv_def)
  consider (no) "\<not> w_active w" | (full) "w_active w" "pipe_full w" | (ok) "w_active w" "\<not> pipe_full w" by blast
  then show ?thesis
  proof cases
    case no
    then show ?thesis
      using inv w W by (auto simp: writer_write_def writer_check_write_def)
  next
    case full
    let ?s = "s\<lparr>pconn := (pconn s)\<lparr>cwriter := Some (w\<lparr>w_active := False\<rparr>)\<rparr>\<rparr>"
    have "writer_inv hwm (w\<lparr>w_active := False\<rparr>) (count_msgs (g_written s)) K"
      using I(4) full(2) unfolding pipe_full_iff[OF I(4)] by (auto simp: writer_inv_def)
    then have "proto_inv hwm ?s"
      using I by (intro proto_invI[of ?s r "w\<lparr>w_active := False\<rparr>" A hwm K ks j])
        (auto simp: data_inv_def)
    then show ?thesis
      using full w W by (auto simp: writer_write_def writer_check_write_def)
  next
    case ok
    obtain p cs where p: "cpipe (pconn s) = Some p" "yp_rel p cs A" using I(2) by (auto simp: data_inv_def)
    obtain p' cs' where p': "ypipe_write m (has_more m) p = Some p'" "yp_rel p' cs' (view_write m (has_more m) A)"
      using ypipe_write_rel[OF p(2)] by blast
    let ?w = "if \<not> has_more m then w\<lparr>w_msgs_written := w_msgs_written w + 1\<rparr> else w"
    let ?s = "s\<lparr>pconn := (pconn s)\<lparr>cpipe := Some p', cwriter := Some ?w\<rparr>, g_written := g_written s @ [m]\<rparr>"
    have "data_inv (pconn ?s) (view_write m (has_more m) A) (g_written ?s) (g_received ?s)"
      using I(2) p'(2) m by (auto simp: data_inv_def view_write_def view_items_def split: if_splits)
    moreover have "writer_inv hwm ?w (count_msgs (g_written ?s)) K"
      using I(4) ok unfolding pipe_full_iff[OF I(4)] by (auto simp: writer_inv_def)
    ultimately have "proto_inv hwm ?s"
      using I by (intro proto_invI[of ?s r ?w "view_write m (has_more m) A" hwm K ks j]) auto
    moreover have "pexec (WWrite m) s = Some ?s"
      using ok w W p(1) p'(1) by (simp add: writer_write_def writer_check_write_def)
    ultimately show ?thesis by blast
  qed
qed

lemma flush_conn:
  assumes "cwriter c = Some w" "\<not> w_swapping w" "data_inv c A wrt rcv"
  shows "\<exists>c' n. writer_flush c = Some (c', replicate n (Send ActivateReader)) \<and>
    data_inv c' (snd (view_flush A)) wrt rcv \<and> creader c' = creader c \<and> cwriter c' = cwriter c"
proof -
  obtain p cs where p: "cpipe c = Some p" "yp_rel p cs A" using assms(3) by (auto simp: data_inv_def)
  have "data_inv (c\<lparr>cpipe := Some (snd (ypipe_flush p))\<rparr>) (snd (view_flush A)) wrt rcv"
    using assms(3) p ypipe_flush_rel[OF p(2)] by (auto simp: data_inv_def)
  then show ?thesis
    using assms(1,2) p(1)
    by (intro exI[of _ "c\<lparr>cpipe := Some (snd (ypipe_flush p))\<rparr>"] exI[of _ "if fst (ypipe_flush p) then 0 else 1"])
      (auto simp: writer_flush_def split: prod.splits)
qed

lemma post_activates:
  "to_reader (post (replicate n (Send ActivateReader)) s) = to_reader s @ replicate n ActivateReader"
  "to_writer (post (replicate n (Send ActivateReader)) s) = to_writer s"
  by (induction n) (simp_all add: post_def)

lemma flush_inv:
  assumes inv: "proto_inv hwm s" and w: "cwriter (pconn s) = Some w"
  shows "\<exists>s'. pexec WFlush s = Some s' \<and> proto_inv hwm s'"
proof -
  obtain r A j K ks where I: "creader (pconn s) = Some r" "data_inv (pconn s) A (g_written s) (g_received s)"
    "reader_inv hwm r (count_msgs (g_received s))" "writer_inv hwm w (count_msgs (g_written s)) K"
    "credit_inv (compute_lwm hwm) K ks (count_msgs (g_received s))"
    "to_writer s = map (\<lambda>k. ActivateWriter (of_nat k)) ks @ (if r_terminating r then [PipeTerm] else [])"
    "to_reader s = replicate j ActivateReader"
    using proto_inv_writerE[OF inv w] .
  obtain c' n where c': "writer_flush (pconn s) = Some (c', replicate n (Send ActivateReader))"
      "data_inv c' (snd (view_flush A)) (g_written s) (g_received s)" "creader c' = creader (pconn s)"
      "cwriter c' = cwriter (pconn s)"
    using flush_conn[OF w _ I(2)] I(4) by (auto simp: writer_inv_def)
  let ?s = "post (replicate n (Send ActivateReader)) (s\<lparr>pconn := c'\<rparr>)"
  have "proto_inv hwm ?s"
    using I c' w by (intro proto_invI[of ?s r w "snd (view_flush A)" hwm K ks "j + n"])
      (auto simp: post_activates replicate_add)
  then show ?thesis using c'(1) by simp
qed

lemma rollback_conn:
  assumes "cwriter c = Some w" "\<not> w_swapping w" "data_inv c A wrt rcv"
  shows "\<exists>c'. writer_rollback c = Some (c', map CloseMsg (rev (partial A))) \<and>
    data_inv c' (A\<lparr>partial := []\<rparr>) (take_back (map CloseMsg (rev (partial A))) wrt) rcv \<and>
    creader c' = creader c \<and> cwriter c' = cwriter c \<and>
    count_msgs (take_back (map CloseMsg (rev (partial A))) wrt) = count_msgs wrt"
proof -
  obtain p cs where p: "cpipe c = Some p" "yp_rel p cs A" using assms(3) by (auto simp: data_inv_def)
  have pa: "\<forall>m \<in> set (partial A). has_more m \<and> \<not> is_delim m" using assms(3) by (simp add: data_inv_def)
  obtain p' cs' where p': "unwrite_all p = Some (rev (partial A), p')" "yp_rel p' cs' (A\<lparr>partial := []\<rparr>)"
    using unwrite_all_rel[OF p(2)] pa by auto
  have "closed_msgs (map CloseMsg ms) = ms" for ms by (induction ms) (simp_all add: closed_msgs_def)
  then have len: "length (closed_msgs (map CloseMsg (rev (partial A)))) = length (partial A)" by simp
  have user: "user_msgs (partial A) = partial A" using pa by (auto simp: user_msgs_def)
  then have wrt: "wrt = (rcv @ user_msgs (prefetched A @ visible A @ flushable A)) @ partial A"
    using assms(3) by (simp add: data_inv_def view_items_def)
  then have tb: "take_back (map CloseMsg (rev (partial A))) wrt = rcv @ user_msgs (prefetched A @ visible A @ flushable A)"
    unfolding take_back_def len by simp
  have "count_msgs (partial A) = 0" using pa by (auto simp: count_msgs_def)
  then have "count_msgs wrt = count_msgs (rcv @ user_msgs (prefetched A @ visible A @ flushable A))"
    by (subst wrt) simp
  then show ?thesis
    using assms(1,2) p(1) p' tb
    by (intro exI[of _ "c\<lparr>cpipe := Some p'\<rparr>"])
      (auto simp: writer_rollback_def data_inv_def view_items_def)
qed

lemma post_closes:
  "to_reader (post (map CloseMsg ms @ acts) s) = to_reader (post acts s)"
  "to_writer (post (map CloseMsg ms @ acts) s) = to_writer (post acts s)"
  "to_reader (post (map CloseMsg ms) s) = to_reader s"
  "to_writer (post (map CloseMsg ms) s) = to_writer s"
  by (induction ms) (simp_all add: post_def)

lemma rollback_inv:
  assumes inv: "proto_inv hwm s" and w: "cwriter (pconn s) = Some w"
  shows "\<exists>s'. pexec WRollback s = Some s' \<and> proto_inv hwm s'"
proof -
  obtain r A j K ks where I: "creader (pconn s) = Some r" "data_inv (pconn s) A (g_written s) (g_received s)"
    "reader_inv hwm r (count_msgs (g_received s))" "writer_inv hwm w (count_msgs (g_written s)) K"
    "credit_inv (compute_lwm hwm) K ks (count_msgs (g_received s))"
    "to_writer s = map (\<lambda>k. ActivateWriter (of_nat k)) ks @ (if r_terminating r then [PipeTerm] else [])"
    "to_reader s = replicate j ActivateReader"
    using proto_inv_writerE[OF inv w] .
  let ?acts = "map CloseMsg (rev (partial A))"
  obtain c' where c': "writer_rollback (pconn s) = Some (c', ?acts)"
      "data_inv c' (A\<lparr>partial := []\<rparr>) (take_back ?acts (g_written s)) (g_received s)"
      "creader c' = creader (pconn s)" "cwriter c' = cwriter (pconn s)"
      "count_msgs (take_back ?acts (g_written s)) = count_msgs (g_written s)"
    using rollback_conn[OF w _ I(2)] I(4) by (auto simp: writer_inv_def)
  let ?s = "post ?acts (s\<lparr>pconn := c', g_written := take_back ?acts (g_written s)\<rparr>)"
  have "proto_inv hwm ?s"
    using I c' w by (intro proto_invI[of ?s r w "A\<lparr>partial := []\<rparr>" hwm K ks j]) (simp_all add: post_closes)
  then show ?thesis using c'(1) by simp
qed

lemma push_delimiter_conn:
  assumes "cwriter c = Some w" "\<not> w_swapping w" "data_inv c A wrt rcv" "partial A = []"
  shows "\<exists>c' A' n. push_delimiter c = Some (c', replicate n (Send ActivateReader)) \<and>
    data_inv c' A' wrt rcv \<and> creader c' = creader c \<and> cwriter c' = cwriter c"
proof -
  obtain p cs where p: "cpipe c = Some p" "yp_rel p cs A" using assms(3) by (auto simp: data_inv_def)
  let ?A = "view_write delimiter_msg False A"
  obtain p' cs' where p': "ypipe_write delimiter_msg False p = Some p'" "yp_rel p' cs' ?A"
    using ypipe_write_rel[OF p(2)] by blast
  have "data_inv (c\<lparr>cpipe := Some p'\<rparr>) ?A wrt rcv"
    using assms(3,4) p'(2) by (auto simp: data_inv_def view_write_def view_items_def)
  from flush_conn[OF _ assms(2) this] obtain c' n where
    "writer_flush (c\<lparr>cpipe := Some p'\<rparr>) = Some (c', replicate n (Send ActivateReader))"
    "data_inv c' (snd (view_flush ?A)) wrt rcv" "creader c' = creader c" "cwriter c' = cwriter c"
    using assms(1) by auto
  then show ?thesis using p(1) p'(1) by (auto simp: push_delimiter_def)
qed

lemma terminate_inv:
  assumes inv: "proto_inv hwm s" and w: "cwriter (pconn s) = Some w"
  shows "\<exists>s'. pexec WTerminate s = Some s' \<and> proto_inv hwm s'"
proof (cases "w_terminating w")
  case True
  then show ?thesis using w inv by (simp add: writer_terminate_def take_back_def closed_msgs_def)
next
  case False
  obtain r A j K ks where I: "creader (pconn s) = Some r" "data_inv (pconn s) A (g_written s) (g_received s)"
    "reader_inv hwm r (count_msgs (g_received s))" "writer_inv hwm w (count_msgs (g_written s)) K"
    "credit_inv (compute_lwm hwm) K ks (count_msgs (g_received s))"
    "to_writer s = map (\<lambda>k. ActivateWriter (of_nat k)) ks @ (if r_terminating r then [PipeTerm] else [])"
    "to_reader s = replicate j ActivateReader"
    using proto_inv_writerE[OF inv w] .
  let ?w = "w\<lparr>w_terminating := True, w_active := False\<rparr>" and ?acts = "map CloseMsg (rev (partial A))"
  let ?c = "(pconn s)\<lparr>cwriter := Some ?w\<rparr>"
  have sw: "\<not> w_swapping ?w" using I(4) by (simp add: writer_inv_def)
  have "data_inv ?c A (g_written s) (g_received s)" using I(2) by (simp add: data_inv_def)
  from rollback_conn[OF _ sw this] obtain c1 where c1: "writer_rollback ?c = Some (c1, ?acts)"
      "data_inv c1 (A\<lparr>partial := []\<rparr>) (take_back ?acts (g_written s)) (g_received s)"
      "creader c1 = Some r" "cwriter c1 = Some ?w"
      "count_msgs (take_back ?acts (g_written s)) = count_msgs (g_written s)"
    using I(1) by auto
  obtain c2 A' n where c2: "push_delimiter c1 = Some (c2, replicate n (Send ActivateReader))"
      "data_inv c2 A' (take_back ?acts (g_written s)) (g_received s)" "creader c2 = Some r" "cwriter c2 = Some ?w"
    using push_delimiter_conn[OF c1(4) sw c1(2)] c1(3,4) by auto
  let ?acts' = "?acts @ replicate n (Send ActivateReader)"
  have "closed_msgs (replicate n (Send ActivateReader)) = []" by (induction n) (simp_all add: closed_msgs_def)
  then have tb: "take_back ?acts' ms = take_back ?acts ms" for ms
    by (simp add: take_back_def) (simp add: closed_msgs_def)
  let ?s = "post ?acts' (s\<lparr>pconn := c2, g_written := take_back ?acts' (g_written s)\<rparr>)"
  have "writer_inv hwm ?w (count_msgs (g_written s)) K" using I(4) by (simp add: writer_inv_def)
  then have "proto_inv hwm ?s"
    using I c1(5) c2
    by (intro proto_invI[of ?s r ?w A' hwm K ks "j + n"])
      (simp_all add: tb post_closes post_activates replicate_add)
  moreover have "pexec WTerminate s = Some ?s"
    using w False c1(1,4) c2(1) sw by (simp add: writer_terminate_def)
  ultimately show ?thesis by blast
qed

lemma proto_inv_readerE:
  assumes "proto_inv hwm s" "creader (pconn s) = Some r" "\<not> r_terminating r"
  obtains w A j K ks where "cwriter (pconn s) = Some w" "data_inv (pconn s) A (g_written s) (g_received s)"
    "reader_inv hwm r (count_msgs (g_received s))" "writer_inv hwm w (count_msgs (g_written s)) K"
    "credit_inv (compute_lwm hwm) K ks (count_msgs (g_received s))"
    "to_writer s = map (\<lambda>k. ActivateWriter (of_nat k)) ks"
    "to_reader s = replicate j ActivateReader"
  using assms by (cases "cwriter (pconn s)") (auto simp: proto_inv_def)

lemma post_term [simp]:
  "to_reader (post [Send PipeTerm] s) = to_reader s"
  "to_writer (post [Send PipeTerm] s) = to_writer s @ [PipeTerm]"
  "to_reader (post (Delimited # acts) s) = to_reader (post acts s)"
  "to_writer (post (Delimited # acts) s) = to_writer (post acts s)"
  "to_reader (post [Send (ActivateWriter n)] s) = to_reader s"
  "to_writer (post [Send (ActivateWriter n)] s) = to_writer s @ [ActivateWriter n]"
  "to_reader (post [RActivated] s) = to_reader s" "to_writer (post [RActivated] s) = to_writer s"
  "to_reader (post [WActivated] s) = to_reader s" "to_writer (post [WActivated] s) = to_writer s"
  "to_reader (post [Send PipeTermAck, WTerminated] s) = to_reader s @ [PipeTermAck]"
  "to_writer (post [Send PipeTermAck, WTerminated] s) = to_writer s"
  by (simp_all add: post_def)

lemma rterminate_inv:
  assumes inv: "proto_inv hwm s" and r: "creader (pconn s) = Some r"
  shows "\<exists>s'. pexec RTerminate s = Some s' \<and> proto_inv hwm s'"
proof (cases "r_terminating r")
  case True
  then show ?thesis using r inv by (simp add: reader_terminate_def)
next
  case False
  obtain w A j K ks where I: "cwriter (pconn s) = Some w"
    "data_inv (pconn s) A (g_written s) (g_received s)"
    "reader_inv hwm r (count_msgs (g_received s))" "writer_inv hwm w (count_msgs (g_written s)) K"
    "credit_inv (compute_lwm hwm) K ks (count_msgs (g_received s))"
    "to_writer s = map (\<lambda>k. ActivateWriter (of_nat k)) ks" "to_reader s = replicate j ActivateReader"
    using proto_inv_readerE[OF inv r False] .
  let ?r = "r\<lparr>r_active := False, r_terminating := True\<rparr>"
  let ?s = "post [Send PipeTerm] (s\<lparr>pconn := (pconn s)\<lparr>creader := Some ?r\<rparr>\<rparr>)"
  have "proto_inv hwm ?s"
    using I by (intro proto_invI[of ?s ?r w A hwm K ks j]) (auto simp: data_inv_def reader_inv_def)
  moreover have "pexec RTerminate s = Some ?s"
    using r False I(3) by (simp add: reader_terminate_def reader_inv_def)
  ultimately show ?thesis by blast
qed

lemma credit_read:
  assumes c: "credit_inv lwm K ks R" and R': "R' = (if b then R else R + 1)"
  shows "0 < lwm \<Longrightarrow> (of_nat R' :: u64) mod lwm = 0 \<Longrightarrow> credit_inv lwm K (ks @ [R']) R'"
    and "\<not> (0 < lwm \<and> (of_nat R' :: u64) mod lwm = 0) \<Longrightarrow> credit_inv lwm K ks R'"
proof -
  have sorted: "sorted (K # ks @ [R'])" "sorted (K # (ks @ [R']) @ [R'])"
    using c R' by (auto simp: credit_inv_def sorted_append)
  have mod: "(of_nat R' :: u64) mod lwm = 0 \<longleftrightarrow> R' mod unat lwm = 0" if "R' < 2 ^ 64"
  proof -
    have "unat ((of_nat R' :: u64) mod lwm) = R' mod unat lwm"
      using that by (simp add: unat_mod_distrib unat_of_nat)
    then show ?thesis by (metis unat_eq_zero)
  qed
  show "credit_inv lwm K (ks @ [R']) R'" if "0 < lwm" "(of_nat R' :: u64) mod lwm = 0"
    using sorted mod that by (auto simp: credit_inv_def)
  show "credit_inv lwm K ks R'" if no: "\<not> (0 < lwm \<and> (of_nat R' :: u64) mod lwm = 0)"
  proof -
    have "last (K # ks) = unat lwm * (R' div unat lwm)" if "0 < lwm" "R' < 2 ^ 64"
    proof -
      have "R' mod unat lwm \<noteq> 0" using mod no that by auto
      then have "R' div unat lwm = R div unat lwm"
        using R' div_Suc[of R "unat lwm"] by (cases b) (simp_all split: if_splits)
      moreover have "R < 2 ^ 64" using R' that(2) by (auto split: if_splits)
      ultimately show ?thesis using c that(1) by (simp add: credit_inv_def)
    qed
    then show ?thesis using sorted(1) by (auto simp: credit_inv_def)
  qed
qed

lemma read_conn:
  assumes r: "creader c = Some r" "r_active r" "r_sink r" "r_writer r" "\<not> r_terminating r"
    and d: "data_inv c A wrt rcv"
  obtains (empty) c' A' where "reader_read c = Some (None, c', [])" "data_inv c' A' wrt rcv"
      "creader c' = Some (r\<lparr>r_active := False\<rparr>)" "cwriter c' = cwriter c"
  | (delim) c' A' where "reader_read c = Some (None, c', [Delimited, Send PipeTerm])"
      "data_inv c' A' wrt rcv" "creader c' = Some (r\<lparr>r_active := False, r_terminating := True\<rparr>)"
      "cwriter c' = cwriter c"
  | (got) m c' A' n where "n = (if has_more m then r_msgs_read r else r_msgs_read r + 1)"
      "reader_read c = Some (Some m, c',
         if r_lwm r > 0 \<and> n mod r_lwm r = 0 then [Send (ActivateWriter n)] else [])"
      "data_inv c' A' wrt (rcv @ [m])" "\<not> is_delim m" "cwriter c' = cwriter c"
      "creader c' = Some (r\<lparr>r_msgs_read := n\<rparr>)"
proof -
  obtain p cs where p: "cpipe c = Some p" "yp_rel p cs A" using d by (auto simp: data_inv_def)
  obtain p' cs' where p': "ypipe_read p = Some (fst (view_read A), p')" "yp_rel p' cs' (snd (view_read A))"
    using ypipe_read_rel[OF p(2)] by blast
  let ?A = "snd (view_read A)"
  have items: "view_items A = (case fst (view_read A) of None \<Rightarrow> [] | Some m \<Rightarrow> [m]) @ view_items ?A"
    by (rule view_read_items)
  show thesis
  proof (cases "fst (view_read A)")
    case None
    then show thesis
      using empty[of "c\<lparr>cpipe := Some p', creader := Some (r\<lparr>r_active := False\<rparr>)\<rparr>" ?A] p(1) p' r d items
      by (simp add: reader_read_def data_inv_def) blast
  next
    case (Some m)
    show thesis
    proof (cases "is_delim m")
      case True
      then show thesis
        using delim[of "c\<lparr>cpipe := Some p', creader := Some (r\<lparr>r_active := False, r_terminating := True\<rparr>)\<rparr>" ?A]
          Some p(1) p' r d items
        by (simp add: reader_read_def data_inv_def reader_terminate_def) blast
    next
      case False
      define n where "n = (if has_more m then r_msgs_read r else r_msgs_read r + 1)"
      let ?c = "c\<lparr>cpipe := Some p', creader := Some (r\<lparr>r_msgs_read := n\<rparr>)\<rparr>"
      have "reader_read c = Some (Some m, ?c,
          if r_lwm r > 0 \<and> n mod r_lwm r = 0 then [Send (ActivateWriter n)] else [])"
        using False Some p(1) p' r by (simp add: reader_read_def Let_def flip: n_def)
      moreover have "data_inv ?c ?A wrt (rcv @ [m])"
        using False Some p' d items by (auto simp: data_inv_def)
      ultimately show thesis using got[OF n_def] False by simp
    qed
  qed
qed

lemma read_inv:
  assumes inv: "proto_inv hwm s" and r: "creader (pconn s) = Some r" "\<not> r_terminating r"
  shows "\<exists>s'. pexec RRead s = Some s' \<and> proto_inv hwm s'"
proof (cases "r_active r")
  case False
  then show ?thesis using r inv by (simp add: reader_read_def)
next
  case True
  obtain w A j K ks where I: "cwriter (pconn s) = Some w"
    "data_inv (pconn s) A (g_written s) (g_received s)"
    "reader_inv hwm r (count_msgs (g_received s))" "writer_inv hwm w (count_msgs (g_written s)) K"
    "credit_inv (compute_lwm hwm) K ks (count_msgs (g_received s))"
    "to_writer s = map (\<lambda>k. ActivateWriter (of_nat k)) ks" "to_reader s = replicate j ActivateReader"
    using proto_inv_readerE[OF inv r] .
  let ?R = "count_msgs (g_received s)"
  have R: "r_sink r" "r_writer r" "r_lwm r = compute_lwm hwm" "r_msgs_read r = of_nat ?R"
    using I(3) by (simp_all add: reader_inv_def)
  show ?thesis
    using r(1) True R(1,2) r(2) I(2)
  proof (cases rule: read_conn)
    case (empty c' A')
    let ?s = "s\<lparr>pconn := c'\<rparr>"
    have "proto_inv hwm ?s"
      using I empty r(2) by (intro proto_invI[of ?s "r\<lparr>r_active := False\<rparr>" w A' hwm K ks j]) (auto simp: reader_inv_def)
    then show ?thesis using empty(1) by simp
  next
    case (delim c' A')
    let ?r = "r\<lparr>r_active := False, r_terminating := True\<rparr>"
    let ?s = "post [Delimited, Send PipeTerm] (s\<lparr>pconn := c'\<rparr>)"
    have "proto_inv hwm ?s"
      using I delim by (intro proto_invI[of ?s ?r w A' hwm K ks j]) (auto simp: reader_inv_def)
    then show ?thesis using delim(1) by simp
  next
    case (got m c' A' n)
    define R' where "R' = (if has_more m then ?R else ?R + 1)"
    have n: "n = of_nat R'" using got(1) R(4) by (simp add: R'_def)
    have cnt: "count_msgs (g_received s @ [m]) = R'" by (simp add: R'_def)
    define send where "send \<longleftrightarrow> 0 < compute_lwm hwm \<and> (of_nat R' :: u64) mod compute_lwm hwm = 0"
    define ks' where "ks' = (if send then ks @ [R'] else ks)"
    have cr: "credit_inv (compute_lwm hwm) K ks' R'"
    proof (cases send)
      case True
      then show ?thesis using credit_read(1)[OF I(5) R'_def] by (simp add: ks'_def send_def)
    next
      case False
      then have "\<not> (0 < compute_lwm hwm \<and> (of_nat R' :: u64) mod compute_lwm hwm = 0)"
        unfolding send_def .
      then show ?thesis using credit_read(2)[OF I(5) R'_def] False by (simp add: ks'_def)
    qed
    let ?s = "post (if send then [Send (ActivateWriter n)] else [])
        (s\<lparr>pconn := c', g_received := g_received s @ [m]\<rparr>)"
    have "proto_inv hwm ?s"
      using I got(3,5,6) cr n r(2) cnt
      by (intro proto_invI[of ?s "r\<lparr>r_msgs_read := n\<rparr>" w A' hwm K ks' j])
        (simp_all add: reader_inv_def ks'_def del: count_simps)
    moreover have "pexec RRead s = Some ?s"
      using got(2) R(3) n by (simp add: send_def)
    ultimately show ?thesis by blast
  qed
qed

lemma check_inv:
  assumes inv: "proto_inv hwm s" and r: "creader (pconn s) = Some r" "\<not> r_terminating r"
  shows "\<exists>s'. pexec RCheck s = Some s' \<and> proto_inv hwm s'"
proof (cases "r_active r")
  case False
  then show ?thesis using r inv by (simp add: reader_check_read_def)
next
  case True
  obtain w A j K ks where I: "cwriter (pconn s) = Some w"
    "data_inv (pconn s) A (g_written s) (g_received s)"
    "reader_inv hwm r (count_msgs (g_received s))" "writer_inv hwm w (count_msgs (g_written s)) K"
    "credit_inv (compute_lwm hwm) K ks (count_msgs (g_received s))"
    "to_writer s = map (\<lambda>k. ActivateWriter (of_nat k)) ks" "to_reader s = replicate j ActivateReader"
    using proto_inv_readerE[OF inv r] .
  obtain p cs where p: "cpipe (pconn s) = Some p" "yp_rel p cs A" using I(2) by (auto simp: data_inv_def)
  let ?c = "view_check_read A"
  have R: "r_sink r" "r_writer r" using I(3) by (simp_all add: reader_inv_def)
  note ck = ypipe_check_read_rel[OF p(2)]
  show ?thesis
  proof (cases "fst ?c")
    case no: False
    let ?r = "r\<lparr>r_active := False\<rparr>"
    let ?s = "s\<lparr>pconn := (pconn s)\<lparr>cpipe := Some (snd (ypipe_check_read p)), creader := Some ?r\<rparr>\<rparr>"
    have "proto_inv hwm ?s"
      using I ck p r(2) by (intro proto_invI[of ?s ?r w "snd ?c" hwm K ks j]) (auto simp: reader_inv_def data_inv_def)
    then show ?thesis using no ck p(1) r(1) True by (auto simp: reader_check_read_def split: prod.splits)
  next
    case yes: True
    obtain p1 where p1: "ypipe_check_read p = (True, p1)" "yp_rel p1 cs (snd ?c)"
      using ck yes by (cases "ypipe_check_read p") auto
    have yes1: "fst (view_check_read (snd ?c))" "snd (view_check_read (snd ?c)) = snd ?c"
      using yes by (auto simp: view_check_read_def split: if_splits)
    let ?m = "hd (prefetched (snd ?c))"
    obtain p2 where p2: "ypipe_probe is_delim p1 = Some (is_delim ?m, p2)" "yp_rel p2 cs (snd ?c)"
      using ypipe_probe_rel[OF p1(2) yes1(1), of is_delim] yes1(2) by auto
    show ?thesis
    proof (cases "is_delim ?m")
      case False
      let ?s = "s\<lparr>pconn := (pconn s)\<lparr>cpipe := Some p2\<rparr>\<rparr>"
      have "proto_inv hwm ?s"
        using I p p2(2) r by (intro proto_invI[of ?s r w "snd ?c" hwm K ks j]) (auto simp: data_inv_def)
      then show ?thesis
        using False p1(1) p2(1) p(1) r(1) True by (auto simp: reader_check_read_def)
    next
      case delim: True
      have v: "fst (view_read (snd ?c)) = Some ?m"
        using yes1 by (auto simp: view_read_def split: prod.splits)
      obtain p3 cs3 where p3: "ypipe_read p2 = Some (Some ?m, p3)" "yp_rel p3 cs3 (snd (view_read (snd ?c)))"
        using ypipe_read_rel[OF p2(2)] v by auto
      let ?r = "r\<lparr>r_active := False, r_terminating := True\<rparr>" and ?A = "snd (view_read (snd ?c))"
      let ?s = "post [Delimited, Send PipeTerm] (s\<lparr>pconn := (pconn s)\<lparr>cpipe := Some p3, creader := Some ?r\<rparr>\<rparr>)"
      have "view_items A = ?m # view_items ?A"
        using view_read_items[of "snd ?c"] v by simp
      then have "data_inv (pconn ?s) ?A (g_written s) (g_received s)"
        using I(2) p3(2) delim by (auto simp: data_inv_def)
      then have "proto_inv hwm ?s"
        using I r by (intro proto_invI[of ?s ?r w ?A hwm K ks j]) (auto simp: reader_inv_def)
      then show ?thesis
        using delim p1(1) p2(1) p3(1) p(1) r True R
        by (auto simp: reader_check_read_def reader_terminate_def)
    qed
  qed
qed

lemma data_inv_reader [simp]:
  "data_inv (c\<lparr>creader := r\<rparr>) A wrt rcv = data_inv c A wrt rcv"
  "data_inv (c\<lparr>cwriter := w\<rparr>) A wrt rcv = data_inv c A wrt rcv"
  by (simp_all add: data_inv_def)

lemma reader_gone_inv:
  assumes d: "data_inv c A wrt rcv" and r: "creader c = Some r" "r_sink r"
  shows "\<exists>ms. process_pipe_term_ack c = Some (c\<lparr>creader := None, cpipe := None\<rparr>, RTerminated # map CloseMsg ms) \<and>
    ms = prefetched A @ visible A"
proof -
  obtain p cs where p: "cpipe c = Some p" "yp_rel p cs A" using d by (auto simp: data_inv_def)
  obtain p' cs' where p': "drain_pipe p = Some (prefetched A @ visible A, p')"
      "yp_rel p' cs' (A\<lparr>prefetched := [], visible := [], asleep := True\<rparr>)"
    using drain_pipe_rel[OF p(2)] by blast
  obtain q where "yqueue_delete (queue p') = Some q"
    using yqueue_delete_Some[OF yp_relD(1)[OF p'(2)]] by blast
  then show ?thesis using p p' r by (simp add: process_pipe_term_ack_def reader_delete_def)
qed

lemma deliver_reader_inv:
  assumes inv: "proto_inv hwm s" and box: "to_reader s \<noteq> []"
  shows "\<exists>s'. pexec DeliverR s = Some s' \<and> proto_inv hwm s' \<and> to_writer s' = to_writer s \<and>
    to_reader s' = tl (to_reader s) \<and>
    map_option r_terminating (creader (pconn s')) \<in> {None, map_option r_terminating (creader (pconn s))}"
proof -
  obtain r where r: "creader (pconn s) = Some r"
    using inv box by (cases "creader (pconn s)") (auto simp: proto_inv_def)
  obtain A j where I: "data_inv (pconn s) A (g_written s) (g_received s)"
    "reader_inv hwm r (count_msgs (g_received s))"
    "case cwriter (pconn s) of
       None \<Rightarrow> r_terminating r \<and> to_writer s = [] \<and> to_reader s = replicate j ActivateReader @ [PipeTermAck]
     | Some w \<Rightarrow> \<exists>K ks. writer_inv hwm w (count_msgs (g_written s)) K \<and>
         credit_inv (compute_lwm hwm) K ks (count_msgs (g_received s)) \<and>
         to_writer s = map (\<lambda>k. ActivateWriter (of_nat k)) ks @ (if r_terminating r then [PipeTerm] else []) \<and>
         to_reader s = replicate j ActivateReader"
    using proto_invE[OF inv r] .
  have R: "r_sink r" using I(2) by (simp add: reader_inv_def)
  show ?thesis
  proof (cases j)
    case 0
    then have dead: "cwriter (pconn s) = None" "to_reader s = [PipeTermAck]" "to_writer s = []"
      using I(3) box by (auto split: option.splits)
    obtain ms where ms: "process_pipe_term_ack (pconn s) =
        Some ((pconn s)\<lparr>creader := None, cpipe := None\<rparr>, RTerminated # map CloseMsg ms)"
      using reader_gone_inv[OF I(1) r R] by blast
    have box': "to_reader (post (RTerminated # map CloseMsg ms) s') = to_reader s'"
      "to_writer (post (RTerminated # map CloseMsg ms) s') = to_writer s'" for s'
      using post_closes(3,4)[of ms s'] by (simp_all add: post_def)
    show ?thesis
      using I(1) dead ms by (simp add: proto_inv_def box') (simp add: data_inv_def)
  next
    case (Suc j')
    let ?r = "r\<lparr>r_active := True\<rparr>"
    let ?s = "post [RActivated] (s\<lparr>pconn := (pconn s)\<lparr>creader := Some ?r\<rparr>, to_reader := tl (to_reader s)\<rparr>)"
    have hd: "hd (to_reader s) = ActivateReader" using I(3) Suc by (auto split: option.splits)
    have "reader_inv hwm ?r (count_msgs (g_received s))" using I(2) by (simp add: reader_inv_def)
    then have "proto_inv hwm ?s"
    proof (cases "cwriter (pconn s)")
      case None
      then show ?thesis using I(1,3) Suc \<open>reader_inv hwm ?r _\<close>
        by (simp add: proto_inv_def) (intro exI[of _ A] exI[of _ j'], simp)
    next
      case (Some w)
      then obtain K ks where "writer_inv hwm w (count_msgs (g_written s)) K"
        "credit_inv (compute_lwm hwm) K ks (count_msgs (g_received s))"
        "to_writer s = map (\<lambda>k. ActivateWriter (of_nat k)) ks @ (if r_terminating r then [PipeTerm] else [])"
        "to_reader s = replicate j ActivateReader"
        using I(3) by auto
      then show ?thesis using Some I(1) Suc \<open>reader_inv hwm ?r _\<close>
        by (intro proto_invI[of ?s ?r w A hwm K ks j']) simp_all
    qed
    then show ?thesis using r R hd by (simp add: process_activate_reader_def)
  qed
qed

lemma deliver_writer_inv:
  assumes inv: "proto_inv hwm s" and box: "to_writer s \<noteq> []"
  shows "\<exists>s'. pexec DeliverW s = Some s' \<and> proto_inv hwm s' \<and> to_writer s' = tl (to_writer s) \<and>
    creader (pconn s') = creader (pconn s)"
proof -
  obtain w where w: "cwriter (pconn s) = Some w"
    using inv box by (cases "creader (pconn s)"; cases "cwriter (pconn s)") (auto simp: proto_inv_def)
  obtain r A j K ks where I: "creader (pconn s) = Some r" "data_inv (pconn s) A (g_written s) (g_received s)"
    "reader_inv hwm r (count_msgs (g_received s))" "writer_inv hwm w (count_msgs (g_written s)) K"
    "credit_inv (compute_lwm hwm) K ks (count_msgs (g_received s))"
    "to_writer s = map (\<lambda>k. ActivateWriter (of_nat k)) ks @ (if r_terminating r then [PipeTerm] else [])"
    "to_reader s = replicate j ActivateReader"
    using proto_inv_writerE[OF inv w] .
  show ?thesis
  proof (cases ks)
    case Nil
    then have rt: "to_writer s = [PipeTerm]" "r_terminating r"
      using I(6) box by (auto split: if_splits)
    let ?s = "post [Send PipeTermAck, WTerminated]
      (s\<lparr>pconn := (pconn s)\<lparr>cwriter := None\<rparr>, to_writer := []\<rparr>)"
    have "proto_inv hwm ?s"
      using I rt by (auto simp: proto_inv_def)
    moreover have "pexec DeliverW s = Some ?s"
      using rt w I(4) by (simp add: process_pipe_term_def writer_inv_def)
    moreover have "to_writer ?s = tl (to_writer s)" "creader (pconn ?s) = creader (pconn s)"
      using rt by simp_all
    ultimately show ?thesis by blast
  next
    case (Cons k ks')
    have le: "K \<le> k" "k \<le> count_msgs (g_received s)" using I(5) Cons by (auto simp: credit_inv_def)
    have RW: "count_msgs (g_received s) \<le> count_msgs (g_written s)"
      using I(2) by (simp add: data_inv_def)
    let ?w = "w\<lparr>w_msgs_read := of_nat k\<rparr>"
    let ?w' = "if \<not> w_active w \<and> \<not> w_terminating w then ?w\<lparr>w_active := True\<rparr> else ?w"
    let ?acts = "if \<not> w_active w \<and> \<not> w_terminating w then [WActivated] else []"
    let ?s = "post ?acts (s\<lparr>pconn := (pconn s)\<lparr>cwriter := Some ?w'\<rparr>, to_writer := tl (to_writer s)\<rparr>)"
    have "writer_inv hwm ?w' (count_msgs (g_written s)) k"
      using I(4) le RW by (auto simp: writer_inv_def)
    moreover have "credit_inv (compute_lwm hwm) k ks' (count_msgs (g_received s))"
      using I(5) Cons by (auto simp: credit_inv_def)
    ultimately have "proto_inv hwm ?s"
      using I Cons by (intro proto_invI[of ?s r ?w' A hwm k ks' j]) (simp_all split: if_splits)
    moreover have "pexec DeliverW s = Some ?s"
      using I(4,6) Cons w by (simp add: process_activate_writer_def writer_inv_def)
    moreover have "to_writer ?s = tl (to_writer s)" "creader (pconn ?s) = creader (pconn s)"
      by simp_all
    ultimately show ?thesis by blast
  qed
qed

lemma pexec_inv:
  assumes "proto_inv hwm s" "enabled True call s"
  shows "\<exists>s'. pexec call s = Some s' \<and> proto_inv hwm s'"
proof (cases call)
  case (WWrite m)
  then show ?thesis using assms write_inv by auto
next
  case RRead
  then show ?thesis using assms read_inv by auto
next
  case RCheck
  then show ?thesis using assms check_inv by auto
next
  case DeliverR
  then show ?thesis using assms(2) deliver_reader_inv[OF assms(1)] by (metis enabled.simps(8))
next
  case DeliverW
  then show ?thesis using assms(2) deliver_writer_inv[OF assms(1)] by (metis enabled.simps(9))
qed (use assms flush_inv rollback_inv terminate_inv rterminate_inv in auto)

lemma psys_new_inv: "\<exists>s. psys_new hwm = Some s \<and> proto_inv hwm s"
proof -
  obtain p :: "msg ypipe_t" and cs where p: "ypipe_new message_pipe_granularity = Some p" "yp_rel p cs view_new"
    using ypipe_new_rel[of message_pipe_granularity] by (auto simp: message_pipe_granularity_def)
  let ?r = "(reader_new (compute_lwm hwm))\<lparr>r_writer := True, r_sink := True\<rparr>"
  obtain w where w: "writer_new hwm 0 [] [] 0 = Some w" "writer_inv hwm (w\<lparr>w_sink := True\<rparr>) 0 0"
    by (auto simp: writer_new_def writer_inv_def)
  let ?s = "\<lparr>pconn = \<lparr>cpipe = Some p, creader = Some ?r, cwriter = Some (w\<lparr>w_sink := True\<rparr>)\<rparr>,
    to_reader = [], to_writer = [], g_written = [], g_received = []\<rparr>"
  have "w_sink w = False" using w(1) by (auto simp: writer_new_def)
  then have "psys_new hwm = Some ?s"
    using p(1) w(1)
    by (simp add: psys_new_def create_pipe_def reader_set_writer_def reader_new_def
        reader_set_event_sink_def writer_set_event_sink_def)
  moreover have "proto_inv hwm ?s"
    using p(2) w(2)
    by (intro proto_invI[of ?s ?r "w\<lparr>w_sink := True\<rparr>" view_new hwm 0 "[]" 0])
      (auto simp: data_inv_def reader_inv_def reader_new_def credit_inv_def view_items_def view_new_def)
  ultimately show ?thesis by blast
qed

lemma preach_inv: "preach True hwm s \<Longrightarrow> proto_inv hwm s"
proof (induction rule: preach.induct)
  case (start s)
  then show ?case using psys_new_inv[of hwm] by auto
next
  case (step s call s')
  then show ?case using pexec_inv[OF step.IH step.hyps(2)] by auto
qed

section \<open>Properties\<close>


lemma preach_new: "preach strict hwm (the (psys_new hwm))"
  using psys_new_inv[of hwm] by (auto intro: preach.start)

lemma new_ends:
  "\<exists>w r. cwriter (pconn (the (psys_new hwm))) = Some w \<and> creader (pconn (the (psys_new hwm))) = Some r \<and>
     \<not> r_terminating r \<and> to_writer (the (psys_new hwm)) = [] \<and> to_reader (the (psys_new hwm)) = []"
proof -
  obtain p :: "msg ypipe_t" where "ypipe_new message_pipe_granularity = Some p"
    using ypipe_new_rel[of message_pipe_granularity] by (auto simp: message_pipe_granularity_def)
  then show ?thesis
    by (simp add: psys_new_def create_pipe_def reader_set_writer_def reader_new_def writer_new_def
        reader_set_event_sink_def writer_set_event_sink_def)
qed



text \<open>A concrete blocked writer: with a high watermark of one, a second message is refused.\<close>

fun pruns :: "pcall list \<Rightarrow> psys \<Rightarrow> psys option" where
  "pruns [] s = Some s"
| "pruns (call # calls) s = Option.bind (pexec call s) (pruns calls)"

fun all_enabled :: "bool \<Rightarrow> pcall list \<Rightarrow> psys \<Rightarrow> bool" where
  "all_enabled strict [] s = True"
| "all_enabled strict (call # calls) s \<longleftrightarrow>
     enabled strict call s \<and> (\<forall>s'. pexec call s = Some s' \<longrightarrow> all_enabled strict calls s')"

lemma preach_pruns:
  "preach strict hwm s \<Longrightarrow> all_enabled strict calls s \<Longrightarrow> pruns calls s = Some s' \<Longrightarrow> preach strict hwm s'"
proof (induction calls arbitrary: s)
  case (Cons call calls)
  obtain s1 where s1: "pexec call s = Some s1" "pruns calls s1 = Some s'"
    using Cons.prems(3) by (cases "pexec call s") simp_all
  have "enabled strict call s" "all_enabled strict calls s1"
    using Cons.prems(2) s1(1) by simp_all
  then show ?case
    using Cons.IH[OF preach.step[OF Cons.prems(1)] _ s1(2)] s1(1) by blast
qed simp

definition demo_msg :: msg where
  "demo_msg = \<lparr>is_delim = False, mflags = 0, body = [1, 2]\<rparr>"

lemma enabled_code [code]:
  "enabled strict RRead s \<longleftrightarrow>
     (case creader (pconn s) of None \<Rightarrow> False | Some r \<Rightarrow> strict \<longrightarrow> \<not> r_terminating r)"
  "enabled strict RCheck s \<longleftrightarrow>
     (case creader (pconn s) of None \<Rightarrow> False | Some r \<Rightarrow> strict \<longrightarrow> \<not> r_terminating r)"
  "enabled strict (WWrite m) s \<longleftrightarrow> cwriter (pconn s) \<noteq> None \<and> \<not> is_delim m"
  "enabled strict WFlush s \<longleftrightarrow> cwriter (pconn s) \<noteq> None"
  "enabled strict WRollback s \<longleftrightarrow> cwriter (pconn s) \<noteq> None"
  "enabled strict WTerminate s \<longleftrightarrow> cwriter (pconn s) \<noteq> None"
  "enabled strict RTerminate s \<longleftrightarrow> creader (pconn s) \<noteq> None"
  "enabled strict DeliverR s \<longleftrightarrow> to_reader s \<noteq> []"
  "enabled strict DeliverW s \<longleftrightarrow> to_writer s \<noteq> []"
  by (simp_all split: option.splits)

lemma all_enabled_code [code]:
  "all_enabled strict [] s = True"
  "all_enabled strict (call # calls) s \<longleftrightarrow>
     enabled strict call s \<and> (case pexec call s of None \<Rightarrow> True | Some s' \<Rightarrow> all_enabled strict calls s')"
  by (simp_all split: option.splits)



inductive delivers :: "psys \<Rightarrow> psys \<Rightarrow> bool" where
  delivered: "delivers s s"
| to_r: "to_reader s \<noteq> [] \<Longrightarrow> pexec DeliverR s = Some s' \<Longrightarrow> delivers s' t \<Longrightarrow> delivers s t"
| to_w: "to_writer s \<noteq> [] \<Longrightarrow> pexec DeliverW s = Some s' \<Longrightarrow> delivers s' t \<Longrightarrow> delivers s t"

lemma delivers_reader_gone:
  "proto_inv hwm s \<Longrightarrow> creader (pconn s) = Some r \<Longrightarrow> r_terminating r \<Longrightarrow> to_writer s = [] \<Longrightarrow>
   \<exists>t. delivers s t \<and> creader (pconn t) = None \<and> cwriter (pconn t) = None \<and> cpipe (pconn t) = None \<and>
     to_reader t = [] \<and> to_writer t = []"
proof (induction "length (to_reader s)" arbitrary: s r)
  case 0
  then show ?case by (auto simp: proto_inv_def split: option.splits)
next
  case (Suc n)
  have box: "to_reader s \<noteq> []" using Suc.hyps(2) by auto
  obtain s' where s': "pexec DeliverR s = Some s'" "proto_inv hwm s'" "to_writer s' = []"
      "to_reader s' = tl (to_reader s)"
      "map_option r_terminating (creader (pconn s')) \<in> {None, map_option r_terminating (creader (pconn s))}"
    using deliver_reader_inv[OF Suc.prems(1) box] Suc.prems(4) by auto
  show ?case
  proof (cases "creader (pconn s')")
    case None
    then show ?thesis
      using s' delivers.to_r[OF box s'(1) delivers.delivered] by (auto simp: proto_inv_def)
  next
    case (Some r')
    then have "r_terminating r'" using s'(5) Suc.prems(2,3) by auto
    moreover have "n = length (to_reader s')" using s'(4) Suc.hyps(2) by simp
    ultimately show ?thesis
      using Suc.hyps(1)[of s' r'] s'(2,3) Some delivers.to_r[OF box s'(1)] by blast
  qed
qed


lemma terminating_demo:
  "\<exists>s r. preach True 1 s \<and> creader (pconn s) = Some r \<and> r_terminating r"
proof -
  let ?calls = "[WWrite demo_msg, WFlush, RRead, RTerminate]" and ?new = "the (psys_new 1)"
  have e: "all_enabled True ?calls ?new" by code_simp
  have "case pruns ?calls ?new of None \<Rightarrow> False
    | Some s \<Rightarrow> (case creader (pconn s) of None \<Rightarrow> False | Some r \<Rightarrow> r_terminating r)"
    by code_simp
  then obtain s r where "pruns ?calls ?new = Some s" "creader (pconn s) = Some r" "r_terminating r"
    by (auto split: option.splits)
  then show ?thesis using preach_pruns[OF preach_new e] by blast
qed


section \<open>What goes wrong without the discipline\<close>

text \<open>\<^verbatim>\<open>process_activate_reader\<close> makes the reader active again even when it is terminating. If its owner
  then reads on, the reader sends \<^verbatim>\<open>activate_writer\<close> to the writer it has asked to terminate,
  which may be deallocated: the command then goes to freed memory.\<close>

theorem reader_use_after_free:
  "\<exists>s. preach False 1 s \<and> cwriter (pconn s) = None \<and> to_writer s = [ActivateWriter 1] \<and>
     enabled False DeliverW s \<and> pexec DeliverW s = None"
proof -
  let ?calls = "[RRead, WWrite demo_msg, WFlush, RTerminate, DeliverR, DeliverW, RRead]"
  let ?new = "the (psys_new 1)"
  have e: "all_enabled False ?calls ?new" by code_simp
  have "case pruns ?calls ?new of None \<Rightarrow> False
    | Some s \<Rightarrow> (case cwriter (pconn s) of None \<Rightarrow> True | Some _ \<Rightarrow> False) \<and> to_writer s = [ActivateWriter 1]"
    by code_simp
  then obtain s where s: "pruns ?calls ?new = Some s" "cwriter (pconn s) = None"
      "to_writer s = [ActivateWriter 1]"
    by (auto split: option.splits)
  then have "pexec DeliverW s = None" by (simp add: process_activate_writer_def)
  then show ?thesis using s preach_pruns[OF preach_new e s(1)] by auto
qed

text \<open>The reader's destructor closes the messages it can read, but a message the writer has not
  flushed when \<^verbatim>\<open>pipe_term\<close> arrives is in none of these: it is never closed, and its content leaks.\<close>

theorem unflushed_message_leaks:
  "\<exists>s c acts. preach True 1 s \<and> to_reader s = [PipeTermAck] \<and> g_written s = [demo_msg] \<and>
     g_received s = [] \<and> process_pipe_term_ack (pconn s) = Some (c, acts) \<and> closed_msgs acts = [] \<and>
     cpipe c = None"
proof -
  let ?calls = "[WWrite demo_msg, RTerminate, DeliverW]" and ?new = "the (psys_new 1)"
  have e: "all_enabled True ?calls ?new" by code_simp
  have "case pruns ?calls ?new of None \<Rightarrow> False
    | Some s \<Rightarrow> to_reader s = [PipeTermAck] \<and> g_written s = [demo_msg] \<and> g_received s = [] \<and>
        (case process_pipe_term_ack (pconn s) of None \<Rightarrow> False
         | Some (c, acts) \<Rightarrow> closed_msgs acts = [] \<and> (case cpipe c of None \<Rightarrow> True | Some _ \<Rightarrow> False))"
    by code_simp
  then show ?thesis
    using preach_pruns[OF preach_new e] by (auto split: option.splits prod.splits)
qed

end
