(* ===== verification/PipeEnds.thy ===== *)
theory PipeEnds
  imports PipeProto Lb
begin

text \<open>
  The pipes a socket holds, as the provider of the interfaces of the load balancer, the fair queue
  and the distributor: a world of \<open>conn\<close>s by identity, with the log of what each operation sent,
  reported or closed. The writers considered here have no swap (the default, \<^verbatim>\<open>ZMQ_SWAP\<close> = 0).
\<close>

record pipe_world =
  conns :: "nat \<Rightarrow> conn"
  pipe_log :: "(nat \<times> pipe_act) list"

definition set_conn :: "nat \<Rightarrow> conn \<Rightarrow> pipe_act list \<Rightarrow> pipe_world \<Rightarrow> pipe_world" where
  "set_conn p c acts w =
     w\<lparr>conns := (conns w)(p := c), pipe_log := pipe_log w @ map (Pair p) acts\<rparr>"

definition pipe_writer_ops :: "pipe_world writer_ops" where
  "pipe_writer_ops = \<lparr>
     op_write = (\<lambda>p m w. do { (ok, c) \<leftarrow> writer_write m (conns w p); Some (ok, set_conn p c [] w) }),
     op_check_write = (\<lambda>p m w. do { (ok, c) \<leftarrow> writer_check_write m (conns w p); Some (ok, set_conn p c [] w) }),
     op_flush = (\<lambda>p w. do { (c, acts) \<leftarrow> writer_flush (conns w p); Some (set_conn p c acts w) }),
     op_terminate = (\<lambda>p w. do { (c, acts) \<leftarrow> writer_terminate (conns w p); Some (set_conn p c acts w) }),
     op_set_sink = (\<lambda>p w. do { c \<leftarrow> writer_set_event_sink (conns w p); Some (set_conn p c [] w) })\<rparr>"

definition writer_valid :: "conn \<Rightarrow> bool" where
  "writer_valid c \<longleftrightarrow> (\<exists>w p cs A. cwriter c = Some w \<and> cpipe c = Some p \<and> yp_rel p cs A \<and>
     w_swap w = None \<and> \<not> w_swapping w)"

definition writer_ready :: "conn \<Rightarrow> bool" where
  "writer_ready c \<longleftrightarrow> (\<exists>w. cwriter c = Some w \<and> w_active w \<and> \<not> pipe_full w)"

definition writer_fresh :: "conn \<Rightarrow> bool" where
  "writer_fresh c \<longleftrightarrow> writer_valid c \<and> writer_ready c \<and> (\<exists>w. cwriter c = Some w \<and> \<not> w_sink w)"

lemma conns_set_conn [simp]: "conns (set_conn p c acts w) = (conns w)(p := c)"
  by (simp add: set_conn_def)

lemma writer_check_valid:
  assumes "writer_valid c"
  shows "\<exists>c'. writer_check_write m c = Some (writer_ready c, c') \<and> writer_valid c' \<and>
    writer_ready c' = writer_ready c \<and> (writer_ready c \<longrightarrow> c' = c)"
proof -
  obtain w p cs A where W: "cwriter c = Some w" "cpipe c = Some p" "yp_rel p cs A" "w_swap w = None"
      "\<not> w_swapping w"
    using assms by (auto simp: writer_valid_def)
  show ?thesis
    using W by (cases "w_active w"; cases "pipe_full w")
      (auto simp: writer_check_write_def writer_ready_def writer_valid_def pipe_full_def)
qed

lemma writer_write_valid:
  assumes "writer_valid c"
  shows "\<exists>c'. writer_write m c = Some (writer_ready c, c') \<and> writer_valid c' \<and>
    (\<not> writer_ready c \<longrightarrow> \<not> writer_ready c') \<and> (writer_ready c \<and> has_more m \<longrightarrow> writer_ready c')"
proof -
  obtain w p cs A where W: "cwriter c = Some w" "cpipe c = Some p" "yp_rel p cs A" "w_swap w = None"
      "\<not> w_swapping w"
    using assms by (auto simp: writer_valid_def)
  obtain p' cs' where p': "ypipe_write m (has_more m) p = Some p'" "yp_rel p' cs' (view_write m (has_more m) A)"
    using ypipe_write_rel[OF W(3)] by blast
  obtain c1 where c1: "writer_check_write m c = Some (writer_ready c, c1)" "writer_valid c1"
      "writer_ready c1 = writer_ready c" "writer_ready c \<longrightarrow> c1 = c"
    using writer_check_valid[OF assms] by blast
  show ?thesis
  proof (cases "writer_ready c")
    case True
    let ?w = "if \<not> has_more m then w\<lparr>w_msgs_written := w_msgs_written w + 1\<rparr> else w"
    let ?c = "c\<lparr>cpipe := Some p', cwriter := Some ?w\<rparr>"
    have "writer_valid ?c" using W p'(2) by (auto simp: writer_valid_def)
    moreover have "has_more m \<Longrightarrow> writer_ready ?c" using True W(1) by (simp add: writer_ready_def)
    moreover have "writer_write m c = Some (True, ?c)"
      using c1 True W p'(1) by (simp add: writer_write_def)
    ultimately show ?thesis using True by auto
  next
    case False
    then show ?thesis using c1 by (simp add: writer_write_def)
  qed
qed

lemma writer_flush_valid:
  assumes "writer_valid c"
  shows "\<exists>c' acts. writer_flush c = Some (c', acts) \<and> writer_valid c' \<and> writer_ready c' = writer_ready c"
proof -
  obtain w p cs A where W: "cwriter c = Some w" "cpipe c = Some p" "yp_rel p cs A" "w_swap w = None"
      "\<not> w_swapping w"
    using assms by (auto simp: writer_valid_def)
  obtain ok p' where fl: "ypipe_flush p = (ok, p')" "yp_rel p' cs (snd (view_flush A))"
    using ypipe_flush_rel[OF W(3)] by (cases "ypipe_flush p") auto
  have "writer_valid (c\<lparr>cpipe := Some p'\<rparr>)" "writer_ready (c\<lparr>cpipe := Some p'\<rparr>) = writer_ready c"
    using W fl(2) by (auto simp: writer_valid_def writer_ready_def)
  then show ?thesis using W(1,2,5) fl(1) by (simp add: writer_flush_def)
qed

interpretation pw: writer_pipes pipe_writer_ops "\<lambda>w p. writer_valid (conns w p)"
  "\<lambda>w p. writer_ready (conns w p)" "\<lambda>w p. writer_fresh (conns w p)"
proof (unfold_locales, goal_cases)
  case (1 w p m)
  then show ?case
    using writer_write_valid[of "conns w p" m] by (auto simp: pipe_writer_ops_def split: if_splits)
next
  case (2 w p m)
  then show ?case
    using writer_check_valid[of "conns w p" m] by (auto simp: pipe_writer_ops_def split: if_splits)
next
  case (3 w p)
  then show ?case
    using writer_flush_valid[of "conns w p"] by (auto simp: pipe_writer_ops_def split: if_splits)
next
  case (4 w p)
  then obtain wr where "cwriter (conns w p) = Some wr" "\<not> w_sink wr" "writer_valid (conns w p)"
      "writer_ready (conns w p)"
    by (auto simp: writer_fresh_def)
  then show ?case
    by (auto simp: pipe_writer_ops_def writer_set_event_sink_def writer_valid_def writer_ready_def pipe_full_def)
qed

section \<open>The load balancer over pipes\<close>

definition lb_good :: "lb_t \<Rightarrow> pipe_world \<Rightarrow> bool" where
  "lb_good lb w \<longleftrightarrow> lb_ok lb \<and> (\<forall>p \<in> set (lb_items lb). writer_valid (conns w p)) \<and>
     (\<forall>i. lb_active lb \<le> i \<and> i < length (lb_items lb) \<longrightarrow> \<not> writer_ready (conns w (lb_items lb ! i))) \<and>
     (lb_more lb \<longrightarrow> 0 < lb_active lb \<and> writer_ready (conns w (lb_items lb ! lb_current lb)))"

lemma lb_good_inv: "lb_good lb w \<longleftrightarrow> pw.lb_inv lb w"
  by (simp add: lb_good_def pw.lb_inv_def)

text \<open>Two pipes with a high watermark of two, attached to a load balancer.\<close>

definition demo_conn :: "u64 \<Rightarrow> conn" where
  "demo_conn hwm = the (create_pipe hwm 0 [] [] 0)"

definition demo_lb :: "lb_t \<times> pipe_world" where
  "demo_lb =
     (case lb_attach pipe_writer_ops 0 lb_new \<lparr>conns = (\<lambda>_. demo_conn 2), pipe_log = []\<rparr> of
        Some (lb, w, _) \<Rightarrow> (case lb_attach pipe_writer_ops 1 lb w of Some (lb', w', _) \<Rightarrow> (lb', w')))"

lemma demo_conn_fresh: "writer_fresh (demo_conn 2)"
proof -
  obtain p :: "msg ypipe_t" and cs where "ypipe_new message_pipe_granularity = Some p" "yp_rel p cs view_new"
    using ypipe_new_rel[of message_pipe_granularity] by (auto simp: message_pipe_granularity_def)
  then show ?thesis
    by (auto simp: demo_conn_def create_pipe_def reader_set_writer_def reader_new_def writer_new_def
        writer_fresh_def writer_valid_def writer_ready_def pipe_full_def)
qed

lemma demo_lb_good:
  "lb_good (fst demo_lb) (snd demo_lb) \<and> set (lb_items (fst demo_lb)) = {0, 1} \<and>
   \<not> lb_more (fst demo_lb) \<and> \<not> lb_dropping (fst demo_lb) \<and> writer_ready (conns (snd demo_lb) 1)"
proof -
  let ?w = "\<lparr>conns = (\<lambda>_. demo_conn 2), pipe_log = []\<rparr>"
  have inv0: "pw.lb_inv lb_new ?w"
    using lb_new_ok by (simp add: pw.lb_inv_def) (simp add: lb_new_def arr_new_def)
  have fresh: "writer_fresh (conns ?w p)" for p using demo_conn_fresh by simp
  obtain lb1 w1 where 1: "lb_attach pipe_writer_ops 0 lb_new ?w = Some (lb1, w1, [])"
      "pw.lb_inv lb1 w1" "set (lb_items lb1) = {0}"
    using pw.lb_attach_inv[OF inv0 _ fresh, of 0] by (auto simp: lb_new_def arr_new_def)
  have "conns w1 1 = demo_conn 2" "\<not> lb_terminating lb1" "\<not> lb_more lb1" "\<not> lb_dropping lb1"
    using 1(1) by (auto simp: lb_attach_def pipe_writer_ops_def lb_new_def arr_new_def arr_swap_def
        arr_push_back_def arr_size_def split: bind_splits)
  then obtain lb2 w2 where 2: "lb_attach pipe_writer_ops 1 lb1 w1 = Some (lb2, w2, [])"
      "pw.lb_inv lb2 w2" "set (lb_items lb2) = {0, 1}" "writer_ready (conns w2 1)"
    using pw.lb_attach_inv[OF 1(2), of 1] demo_conn_fresh 1(3) by auto
  have "\<not> lb_more lb2" "\<not> lb_dropping lb2"
    using 2(1) \<open>\<not> lb_more lb1\<close> \<open>\<not> lb_dropping lb1\<close> \<open>\<not> lb_terminating lb1\<close>
    by (auto simp: lb_attach_def Let_def split: bind_splits)
  moreover have "fst demo_lb = lb2" "snd demo_lb = w2" using 1(1) 2(1) by (simp_all add: demo_lb_def)
  ultimately show ?thesis using 2 by (simp add: lb_good_inv)
qed





section \<open>A pipe that terminates\<close>

text \<open>
  \<open>terminated\<close> erases the pipe by moving the last pipe of the array into its place. When there is a
  passive pipe, that one lands in the active zone, and the last active pipe is left outside although it
  is writable: no \<open>activated\<close> event will ever bring it back, since its writer was never inactive.
\<close>

definition demo_ops :: "nat set writer_ops" where
  "demo_ops = \<lparr>op_write = (\<lambda>p m w. Some (p \<in> w, w)), op_check_write = (\<lambda>p m w. Some (p \<in> w, w)),
     op_flush = (\<lambda>p w. Some w), op_terminate = (\<lambda>p w. Some w), op_set_sink = (\<lambda>p w. Some w)\<rparr>"

definition lb_of :: "nat list \<Rightarrow> nat \<Rightarrow> nat \<Rightarrow> bool \<Rightarrow> lb_t" where
  "lb_of ps act cur b =
     \<lparr>lb_pipes = fold arr_push_back ps arr_new, lb_active = act, lb_current = cur, lb_more = b,
      lb_dropping = False, lb_terminating = False\<rparr>"

theorem lb_strands_writable_pipe:
  "\<exists>lb lb' acts w. lb = lb_of [10, 11, 12] 2 0 False \<and> w = {10, 11} \<and>
     lb_terminated 10 lb = Some (lb', acts) \<and> lb_items lb' = [12, 11] \<and>
     (\<exists>lb2. lb_send demo_ops m lb' w = Some (Err EAGAIN, None, lb2, w) \<and>
        lb_send demo_ops m lb2 w = Some (Err EAGAIN, None, lb2, w)) \<and> 11 \<in> w"
  by (simp add: lb_of_def lb_terminated_def arr_push_back_def arr_new_def arr_index_def arr_erase_def
      arr_erase_at_def Let_def lb_send_def lb_pick.simps demo_ops_def arr_at_def)

text \<open>The test for the current pipe uses the position before the erasure. With three active pipes, of which the
  last is in the middle of a message, terminating the second one sends the rest of the message to the first.\<close>

theorem lb_splits_message:
  "\<exists>lb lb' acts p lb2. lb = lb_of [10, 11, 12] 3 2 True \<and> lb_items lb ! lb_current lb = 12 \<and>
     lb_terminated 11 lb = Some (lb', acts) \<and> lb_more lb' \<and> \<not> lb_dropping lb' \<and>
     lb_send demo_ops m lb' {10, 11, 12} = Some (OK, Some p, lb2, {10, 11, 12}) \<and> p = 10"
  by (simp add: lb_of_def lb_terminated_def arr_push_back_def arr_new_def arr_index_def arr_erase_def
      arr_erase_at_def Let_def lb_send_def lb_pick.simps demo_ops_def arr_at_def)

end
