(* ===== verification/Dist.thy ===== *)
theory Dist
  imports PipeEnds
begin

text \<open>
  \<^verbatim>\<open>src/dist.hpp\<close>, \<^verbatim>\<open>src/dist.cpp\<close>: the distributor of PUB, which sends every message to all
  pipes. The array of pipes has three zones: the pipes below \<open>active\<close> take the message being sent,
  those below \<open>eligible\<close> take the next one, the others are full. The operations of the
  pipes are the \<open>writer_ops\<close> of theory \<open>Lb\<close>.

  A message either carries its bytes (\<open>None\<close>) or refers to a content block, of which the
  reference counter is an argument and a result (\<open>Some n\<close>).
\<close>

record dist_t =
  d_pipes :: array_t
  d_active :: nat
  d_eligible :: nat
  d_more :: bool
  d_terminating :: bool

definition dist_new :: dist_t where
  "dist_new = \<lparr>d_pipes = arr_new, d_active = 0, d_eligible = 0, d_more = False, d_terminating = False\<rparr>"

definition dist_delete :: "dist_t \<Rightarrow> unit option" where
  "dist_delete d = zmq_assert (items (d_pipes d) = [])"

definition dist_attach ::
  "'w writer_ops \<Rightarrow> nat \<Rightarrow> dist_t \<Rightarrow> 'w \<Rightarrow> (dist_t \<times> 'w \<times> sink_act list) option" where
  "dist_attach ops p d w = do {
     w1 \<leftarrow> op_set_sink ops p w;
     let a = arr_push_back p (d_pipes d);
     d' \<leftarrow> (if d_more d
           then do { a' \<leftarrow> arr_swap (d_eligible d) (arr_size a - 1) a;
                     Some (d\<lparr>d_pipes := a', d_eligible := d_eligible d + 1\<rparr>) }
           else do { a' \<leftarrow> arr_swap (d_active d) (arr_size a - 1) a;
                     Some (d\<lparr>d_pipes := a', d_active := d_active d + 1, d_eligible := d_eligible d + 1\<rparr>) });
     (if d_terminating d
      then do { w2 \<leftarrow> op_terminate ops p w1; Some (d', w2, [RegisterTermAcks 1]) }
      else Some (d', w1, []))
   }"

definition dist_terminate :: "'w writer_ops \<Rightarrow> dist_t \<Rightarrow> 'w \<Rightarrow> (dist_t \<times> 'w \<times> sink_act list) option" where
  "dist_terminate ops d w = do {
     zmq_assert (\<not> d_terminating d);
     w' \<leftarrow> terminate_all (op_terminate ops) (items (d_pipes d)) w;
     Some (d\<lparr>d_terminating := True\<rparr>, w', [RegisterTermAcks (arr_size (d_pipes d))])
   }"

definition dist_terminated :: "nat \<Rightarrow> dist_t \<Rightarrow> (dist_t \<times> sink_act list) option" where
  "dist_terminated p d = do {
     index \<leftarrow> arr_index p (d_pipes d);
     let d1 = (if index < d_active d then d\<lparr>d_active := d_active d - 1\<rparr> else d);
     let d2 = (if index < d_eligible d1 then d1\<lparr>d_eligible := d_eligible d1 - 1\<rparr> else d1);
     a' \<leftarrow> arr_erase p (d_pipes d2);
     Some (d2\<lparr>d_pipes := a'\<rparr>, if d_terminating d2 then [UnregisterTermAck] else [])
   }"

definition dist_activated :: "nat \<Rightarrow> dist_t \<Rightarrow> dist_t option" where
  "dist_activated p d = do {
     index \<leftarrow> arr_index p (d_pipes d);
     a1 \<leftarrow> arr_swap index (d_eligible d) (d_pipes d);
     let d1 = d\<lparr>d_pipes := a1, d_eligible := d_eligible d + 1\<rparr>;
     (if \<not> d_more d1
      then do {
        a2 \<leftarrow> arr_swap (d_eligible d1 - 1) (d_active d1) a1;
        Some (d1\<lparr>d_pipes := a2, d_active := d_active d1 + 1\<rparr>)
      }
      else Some d1)
   }"

text \<open>A pipe that refuses the message becomes passive.\<close>

definition dist_refuse :: "nat \<Rightarrow> dist_t \<Rightarrow> dist_t option" where
  "dist_refuse p d = do {
     index \<leftarrow> arr_index p (d_pipes d);
     a1 \<leftarrow> arr_swap index (d_active d - 1) (d_pipes d);
     a2 \<leftarrow> arr_swap (d_active d - 1) (d_eligible d - 1) a1;
     Some (d\<lparr>d_pipes := a2, d_active := d_active d - 1, d_eligible := d_eligible d - 1\<rparr>)
   }"

definition dist_write :: "'w writer_ops \<Rightarrow> nat \<Rightarrow> msg \<Rightarrow> dist_t \<Rightarrow> 'w \<Rightarrow> (bool \<times> dist_t \<times> 'w) option" where
  "dist_write ops p m d w = do {
     (ok, w1) \<leftarrow> op_write ops p m w;
     (if \<not> ok then do { d' \<leftarrow> dist_refuse p d; Some (False, d', w1) }
      else if \<not> has_more m then do { w2 \<leftarrow> op_flush ops p w1; Some (True, d, w2) }
      else Some (True, d, w1))
   }"

text \<open>The loop over the active pipes from position \<open>i\<close> on; a refusal puts another pipe at the position.
  The results are the pipes that took the message and the number of refusals. The argument \<open>n\<close>
  is \<open>active - i\<close>, which every round decreases.\<close>

fun dist_push ::
  "'w writer_ops \<Rightarrow> msg \<Rightarrow> nat \<Rightarrow> nat \<Rightarrow> dist_t \<Rightarrow> 'w \<Rightarrow> (nat list \<times> nat \<times> dist_t \<times> 'w) option" where
  "dist_push ops m 0 i d w = Some ([], 0, d, w)"
| "dist_push ops m (Suc n) i d w = do {
     p \<leftarrow> arr_at (d_pipes d) i;
     (ok, d', w') \<leftarrow> dist_write ops p m d w;
     (if ok then do { (ps, r, d2, w2) \<leftarrow> dist_push ops m n (i + 1) d' w'; Some (p # ps, r, d2, w2) }
      else do { (ps, r, d2, w2) \<leftarrow> dist_push ops m n i d' w'; Some (ps, r + 1, d2, w2) })
   }"

text \<open>Dropping \<open>k\<close> references, whose result the code does not look at.\<close>

fun drop_refs :: "nat \<Rightarrow> u32 \<Rightarrow> u32" where
  "drop_refs 0 n = n"
| "drop_refs (Suc k) n = drop_refs k (snd (atomic_counter_sub n 1))"

lemma drop_refs_eq: "drop_refs k n = n - of_nat k"
  by (induction k arbitrary: n) (simp_all add: atomic_counter_sub_def Let_def algebra_simps)

lemma has_more_shared [simp]: "has_more (m\<lparr>mflags := mflags m OR ZMQ_MSG_SHARED\<rparr>) = has_more m"
proof -
  have "(x OR 128) AND 1 = x AND 1" for x :: byte
    by (rule bit_word_eqI) (auto simp: bit_simps bit_numeral_rec(1) numeral_eq_Suc)
  then show ?thesis by (simp add: has_more_def ZMQ_MSG_MORE_def ZMQ_MSG_SHARED_def)
qed

text \<open>The results of \<open>distribute\<close>: the pipes that took the message, whether the caller's
  message was closed, and the counter of the content block.\<close>

definition dist_distribute ::
  "'w writer_ops \<Rightarrow> msg \<Rightarrow> u32 option \<Rightarrow> dist_t \<Rightarrow> 'w \<Rightarrow>
   (nat list \<times> bool \<times> u32 option \<times> dist_t \<times> 'w) option" where
  "dist_distribute ops m blk d w =
     (if d_active d = 0 then Some ([], True, blk, d, w)
      else case blk of
        None \<Rightarrow> do {
          (ps, _, d', w') \<leftarrow> dist_push ops m (d_active d) 0 d w;
          Some (ps, False, blk, d', w')
        }
      | Some n \<Rightarrow>
          if d_active d = 1 then do {
            p \<leftarrow> arr_at (d_pipes d) 0;
            (ok, d', w') \<leftarrow> dist_write ops p m d w;
            Some (if ok then [p] else [], \<not> ok, blk, d', w')
          }
          else do {
            let n1 = (if mflags m AND ZMQ_MSG_SHARED \<noteq> 0
                      then snd (atomic_counter_add n (of_nat (d_active d - 1)))
                      else atomic_counter_set n (of_nat (d_active d)));
            let m1 = m\<lparr>mflags := mflags m OR ZMQ_MSG_SHARED\<rparr>;
            (ps, refused, d', w') \<leftarrow> dist_push ops m1 (d_active d) 0 d w;
            Some (ps, False, Some (drop_refs refused n1), d', w')
          })"

definition dist_send ::
  "'w writer_ops \<Rightarrow> msg \<Rightarrow> u32 option \<Rightarrow> dist_t \<Rightarrow> 'w \<Rightarrow>
   (nat list \<times> bool \<times> u32 option \<times> dist_t \<times> 'w) option" where
  "dist_send ops m blk d w = do {
     let msg_more = has_more m;
     (ps, closed, blk', d', w') \<leftarrow> dist_distribute ops m blk d w;
     let d2 = (if \<not> msg_more then d'\<lparr>d_active := d_eligible d'\<rparr> else d');
     Some (ps, closed, blk', d2\<lparr>d_more := msg_more\<rparr>, w')
   }"

text \<open>Sending the parts of a message one after the other; the results are the pipes of each part.\<close>

fun dist_send_all ::
  "'w writer_ops \<Rightarrow> (msg \<times> u32 option) list \<Rightarrow> dist_t \<Rightarrow> 'w \<Rightarrow> (nat list list \<times> dist_t \<times> 'w) option" where
  "dist_send_all ops [] d w = Some ([], d, w)"
| "dist_send_all ops ((m, blk) # ms) d w = do {
     (ps, _, _, d1, w1) \<leftarrow> dist_send ops m blk d w;
     (rs, d2, w2) \<leftarrow> dist_send_all ops ms d1 w1;
     Some (ps # rs, d2, w2)
   }"

definition dist_has_out :: "dist_t \<Rightarrow> bool" where
  "dist_has_out d = True"

section \<open>The zones\<close>

abbreviation d_items :: "dist_t \<Rightarrow> nat list" where
  "d_items d \<equiv> items (d_pipes d)"

definition dist_ok :: "dist_t \<Rightarrow> bool" where
  "dist_ok d \<longleftrightarrow> arr_ok (d_pipes d) \<and> d_active d \<le> d_eligible d \<and> d_eligible d \<le> length (d_items d)"

lemma set_take_Suc: "distinct xs \<Longrightarrow> k < length xs \<Longrightarrow> set (take k xs) = set (take (Suc k) xs) - {xs ! k}"
  by (auto simp: take_Suc_conv_app_nth distinct_conv_nth in_set_conv_nth)

lemma set_take_swap:
  assumes "i < k" "j < k" "k \<le> length xs"
  shows "set (take k (xs[i := xs ! j, j := xs ! i])) = set (take k xs)"
proof -
  have "take k (xs[i := xs ! j, j := xs ! i]) = (take k xs)[i := take k xs ! j, j := take k xs ! i]"
    using assms by (simp add: take_update_swap)
  then show ?thesis using assms set_swap[of i "take k xs" j] by simp
qed

lemma dist_refuse_ok:
  assumes ok: "dist_ok d" and i: "i < d_active d"
  shows "\<exists>d'. dist_refuse (d_items d ! i) d = Some d' \<and> dist_ok d' \<and>
    d_active d' = d_active d - 1 \<and> d_eligible d' = d_eligible d - 1 \<and> d_more d' = d_more d \<and>
    take i (d_items d') = take i (d_items d) \<and> set (d_items d') = set (d_items d) \<and>
    set (take (d_active d') (d_items d')) = set (take (d_active d) (d_items d)) - {d_items d ! i} \<and>
    set (take (d_eligible d') (d_items d')) = set (take (d_eligible d) (d_items d)) - {d_items d ! i}"
proof -
  let ?xs = "d_items d" and ?n = "d_active d - 1" and ?e = "d_eligible d - 1"
  have arr: "arr_ok (d_pipes d)" and le: "d_active d \<le> d_eligible d" "d_eligible d \<le> length ?xs"
    using ok by (simp_all add: dist_ok_def)
  have lt: "i \<le> ?n" "?n \<le> ?e" "?e < length ?xs" "?n < length ?xs" "i < length ?xs"
    using i le by auto
  obtain a1 where a1: "arr_swap i ?n (d_pipes d) = Some a1" "arr_ok a1" "items a1 = ?xs[i := ?xs ! ?n, ?n := ?xs ! i]"
    using arr_swap_ok[OF arr lt(5,4)] by blast
  have len1: "length (items a1) = length ?xs" using a1(3) by simp
  obtain a2 where a2: "arr_swap ?n ?e a1 = Some a2" "arr_ok a2"
      "items a2 = (items a1)[?n := items a1 ! ?e, ?e := items a1 ! ?n]"
    using arr_swap_ok[OF a1(2), of ?n ?e] lt len1 by auto
  have x: "items a1 ! ?n = ?xs ! i" "items a2 ! ?e = ?xs ! i"
    using a1(3) a2(3) lt len1 by simp_all
  have d1: "distinct (items a1)" "distinct (items a2)" using a1(2) a2(2) by (auto dest: arr_okD)
  have n_take: "take ?n (items a2) = take ?n (items a1)" using a2(3) lt by simp
  have act: "set (take ?n (items a2)) = set (take (d_active d) ?xs) - {?xs ! i}"
    using set_take_Suc[OF d1(1), of ?n] set_take_swap[of i "Suc ?n" ?n ?xs] lt i len1 a1(3) x(1)
    unfolding n_take by simp
  have elig: "set (take ?e (items a2)) = set (take (d_eligible d) ?xs) - {?xs ! i}"
  proof -
    have "set (take (Suc ?e) (items a2)) = set (take (Suc ?e) ?xs)"
      using set_take_swap[of ?n "Suc ?e" ?e "items a1"] set_take_swap[of i "Suc ?e" ?n ?xs] lt len1 a1(3) a2(3)
      by simp
    then show ?thesis using set_take_Suc[OF d1(2), of ?e] lt len1 a2(3) x(2) i le by simp
  qed
  have "take i (items a2) = take i ?xs" using a1(3) a2(3) lt by simp
  moreover have "set (items a2) = set ?xs"
    using a1(3) a2(3) lt len1 set_swap[of ?n "items a1" ?e] set_swap[of i ?xs ?n] by simp
  ultimately show ?thesis
    using arr_index_nth[OF arr lt(5)] a1(1) a2 act elig le i len1
    by (auto simp: dist_refuse_def dist_ok_def)
qed

context writer_pipes
begin

lemma dist_write_spec:
  assumes "valid w p"
  shows "\<exists>w'. (\<forall>q. valid w' q = valid w q) \<and> (\<forall>q. q \<noteq> p \<longrightarrow> ready w' q = ready w q) \<and>
    (\<not> ready w p \<longrightarrow> \<not> ready w' p) \<and> (ready w p \<and> has_more m \<longrightarrow> ready w' p) \<and>
    dist_write ops p m d w =
      (if ready w p then Some (True, d, w') else map_option (\<lambda>d'. (False, d', w')) (dist_refuse p d))"
proof -
  obtain w1 where w1: "op_write ops p m w = Some (ready w p, w1)" "\<forall>q. valid w1 q = valid w q"
      "\<forall>q. q \<noteq> p \<longrightarrow> ready w1 q = ready w q" "\<not> ready w p \<longrightarrow> \<not> ready w1 p"
      "ready w p \<and> has_more m \<longrightarrow> ready w1 p"
    using write_law[OF assms] by blast
  show ?thesis
  proof (cases "ready w p \<and> \<not> has_more m")
    case True
    obtain w2 where "op_flush ops p w1 = Some w2" "\<forall>q. valid w2 q = valid w1 q" "\<forall>q. ready w2 q = ready w1 q"
      using flush_law[of w1 p] w1(2) assms by blast
    then show ?thesis using True w1 by (intro exI[of _ w2]) (simp add: dist_write_def)
  next
    case False
    then show ?thesis
      using w1 by (intro exI[of _ w1]) (cases "dist_refuse p d"; auto simp: dist_write_def)
  qed
qed

text \<open>The pipes from position \<open>i\<close> on get the message if they are writable and become passive otherwise.\<close>

lemma dist_push_spec:
  "dist_ok d \<Longrightarrow> i + n = d_active d \<Longrightarrow> \<forall>p \<in> set (d_items d). valid w p \<Longrightarrow>
   \<exists>ps r d' w'. dist_push ops m n i d w = Some (ps, r, d', w') \<and> dist_ok d' \<and> length ps + r = n \<and>
     distinct ps \<and> set ps = {p \<in> set (drop i (take (d_active d) (d_items d))). ready w p} \<and>
     set (d_items d') = set (d_items d) \<and> d_more d' = d_more d \<and>
     take i (d_items d') = take i (d_items d) \<and>
     set (take (d_active d') (d_items d')) = set (take i (d_items d)) \<union> set ps \<and>
     set (take (d_eligible d') (d_items d')) =
       set (take (d_eligible d) (d_items d)) - {p \<in> set (drop i (take (d_active d) (d_items d))). \<not> ready w p} \<and>
     (\<forall>q. valid w' q = valid w q) \<and>
     (\<forall>q. q \<notin> set (drop i (take (d_active d) (d_items d))) \<longrightarrow> ready w' q = ready w q) \<and>
     (\<forall>q. \<not> ready w q \<longrightarrow> \<not> ready w' q) \<and> (has_more m \<longrightarrow> (\<forall>q. ready w' q = ready w q))"
proof (induction n arbitrary: i d w)
  case 0
  then show ?case by (intro exI[of _ "[]"] exI[of _ 0] exI[of _ d] exI[of _ w]) auto
next
  case (Suc n)
  note ok = Suc.prems(1)
  let ?xs = "d_items d" and ?p = "d_items d ! i"
  have i: "i < d_active d" "i < length ?xs" "d_active d \<le> length ?xs"
    using Suc.prems(2) ok by (auto simp: dist_ok_def)
  have d: "distinct ?xs" using ok by (auto simp: dist_ok_def dest: arr_okD)
  have at: "arr_at (d_pipes d) i = Some ?p" using i by (simp add: arr_at_def)
  have rest: "drop i (take (d_active d) ?xs) = ?p # drop (Suc i) (take (d_active d) ?xs)"
    using i by (metis Cons_nth_drop_Suc length_take min.absorb2 nth_take)
  have notin: "?p \<notin> set (drop (Suc i) (take (d_active d) ?xs))"
    using d rest by (metis distinct.simps(2) distinct_drop distinct_take)
  obtain w1 where w1: "\<forall>q. valid w1 q = valid w q" "\<forall>q. q \<noteq> ?p \<longrightarrow> ready w1 q = ready w q"
      "\<not> ready w ?p \<longrightarrow> \<not> ready w1 ?p" "ready w ?p \<and> has_more m \<longrightarrow> ready w1 ?p"
      "dist_write ops ?p m d w =
        (if ready w ?p then Some (True, d, w1) else map_option (\<lambda>d'. (False, d', w1)) (dist_refuse ?p d))"
    using dist_write_spec[of w ?p m d] Suc.prems(3) i(2) by auto
  show ?case
  proof (cases "ready w ?p")
    case True
    have "\<forall>p \<in> set ?xs. valid w1 p" using Suc.prems(3) w1(1) by simp
    from Suc.IH[OF ok _ this, of "Suc i"] Suc.prems(2) obtain ps r d' w' where IH:
      "dist_push ops m n (Suc i) d w1 = Some (ps, r, d', w')" "dist_ok d'" "length ps + r = n" "distinct ps"
      "set ps = {p \<in> set (drop (Suc i) (take (d_active d) ?xs)). ready w1 p}"
      "set (d_items d') = set ?xs" "d_more d' = d_more d" "take (Suc i) (d_items d') = take (Suc i) ?xs"
      "set (take (d_active d') (d_items d')) = set (take (Suc i) ?xs) \<union> set ps"
      "set (take (d_eligible d') (d_items d')) =
         set (take (d_eligible d) ?xs) - {p \<in> set (drop (Suc i) (take (d_active d) ?xs)). \<not> ready w1 p}"
      "\<forall>q. valid w' q = valid w1 q"
      "\<forall>q. q \<notin> set (drop (Suc i) (take (d_active d) ?xs)) \<longrightarrow> ready w' q = ready w1 q"
      "\<forall>q. \<not> ready w1 q \<longrightarrow> \<not> ready w' q" "has_more m \<longrightarrow> (\<forall>q. ready w' q = ready w1 q)"
      by auto
    have eq: "p \<in> set (drop (Suc i) (take (d_active d) ?xs)) \<Longrightarrow> ready w1 p = ready w p" for p
      using w1(2) notin by metis
    have run: "dist_push ops m (Suc n) i d w = Some (?p # ps, r, d', w')"
      using at w1(5) True IH(1) by simp
    have tk: "set (take (Suc i) ?xs) = insert ?p (set (take i ?xs))"
      using i(2) by (simp add: take_Suc_conv_app_nth)
    have tki: "take i (d_items d') = take i ?xs"
      using IH(8) by (metis le_Suc_eq min_absorb2 order_refl take_take min.commute)
    have sr: "set (drop i (take (d_active d) ?xs)) = insert ?p (set (drop (Suc i) (take (d_active d) ?xs)))"
      unfolding rest by simp
    have ps: "set ps = {p \<in> set (drop (Suc i) (take (d_active d) ?xs)). ready w p}"
      using IH(5) eq by auto
    have "set (?p # ps) = {p \<in> set (drop i (take (d_active d) ?xs)). ready w p}"
      unfolding sr using ps True by auto
    moreover have "distinct (?p # ps)" using IH(4) ps notin by simp
    moreover have "set (take (d_active d') (d_items d')) = set (take i ?xs) \<union> set (?p # ps)"
      using IH(9) tk by simp
    moreover have "set (take (d_eligible d') (d_items d')) =
        set (take (d_eligible d) ?xs) - {p \<in> set (drop i (take (d_active d) ?xs)). \<not> ready w p}"
      unfolding IH(10) sr using True eq by auto
    moreover have "\<forall>q. q \<notin> set (drop i (take (d_active d) ?xs)) \<longrightarrow> ready w' q = ready w q"
      unfolding sr using IH(12) w1(2) by simp
    moreover have "\<forall>q. \<not> ready w q \<longrightarrow> \<not> ready w' q" using IH(13) w1(2) True by metis
    moreover have "has_more m \<longrightarrow> (\<forall>q. ready w' q = ready w q)" using IH(14) w1(2,4) True by metis
    moreover have "\<forall>q. valid w' q = valid w q" using IH(11) w1(1) by simp
    moreover have "length (?p # ps) + r = Suc n" using IH(3) by simp
    ultimately show ?thesis using run IH(2,6,7) tki by blast
  next
    case False
    obtain d1 where d1: "dist_refuse ?p d = Some d1" "dist_ok d1" "d_active d1 = d_active d - 1"
        "d_eligible d1 = d_eligible d - 1" "d_more d1 = d_more d" "take i (d_items d1) = take i ?xs"
        "set (d_items d1) = set ?xs"
        "set (take (d_active d1) (d_items d1)) = set (take (d_active d) ?xs) - {?p}"
        "set (take (d_eligible d1) (d_items d1)) = set (take (d_eligible d) ?xs) - {?p}"
      using dist_refuse_ok[OF ok i(1)] by blast
    have dr: "set (drop i (take k ys)) = set (take k ys) - set (take i ys)" if "distinct ys" "i \<le> k" for k ys
    proof -
      have "take k ys = take i ys @ drop i (take k ys)"
        using that(2) by (metis append_take_drop_id min.absorb1 take_take)
      moreover have "distinct (take k ys)" using that(1) by simp
      ultimately show ?thesis by (metis Diff_cancel Int_commute Un_Diff Un_Diff_Int distinct_append set_append sup_bot.left_neutral Diff_triv)
    qed
    have d1': "distinct (d_items d1)" using d1(2) by (auto simp: dist_ok_def dest: arr_okD)
    have rest1: "set (drop i (take (d_active d1) (d_items d1))) = set (drop (Suc i) (take (d_active d) ?xs))"
    proof -
      have "set (drop i (take (d_active d1) (d_items d1))) = set (take (d_active d) ?xs) - {?p} - set (take i ?xs)"
        using dr[OF d1', of "d_active d1"] i(1) d1(3,6,8) by simp
      also have "\<dots> = set (drop i (take (d_active d) ?xs)) - {?p}"
        using dr[OF d, of "d_active d"] i(1) by auto
      also have "\<dots> = set (drop (Suc i) (take (d_active d) ?xs))"
        unfolding rest using notin by simp
      finally show ?thesis .
    qed
    have "\<forall>p \<in> set (d_items d1). valid w1 p" using Suc.prems(3) w1(1) d1(7) by simp
    moreover have "i + n = d_active d1" using Suc.prems(2) d1(3) by simp
    ultimately obtain ps r d' w' where IH:
      "dist_push ops m n i d1 w1 = Some (ps, r, d', w')" "dist_ok d'" "length ps + r = n" "distinct ps"
      "set ps = {p \<in> set (drop (Suc i) (take (d_active d) ?xs)). ready w1 p}"
      "set (d_items d') = set (d_items d1)" "d_more d' = d_more d1" "take i (d_items d') = take i (d_items d1)"
      "set (take (d_active d') (d_items d')) = set (take i (d_items d1)) \<union> set ps"
      "set (take (d_eligible d') (d_items d')) =
         set (take (d_eligible d1) (d_items d1)) - {p \<in> set (drop (Suc i) (take (d_active d) ?xs)). \<not> ready w1 p}"
      "\<forall>q. valid w' q = valid w1 q"
      "\<forall>q. q \<notin> set (drop (Suc i) (take (d_active d) ?xs)) \<longrightarrow> ready w' q = ready w1 q"
      "\<forall>q. \<not> ready w1 q \<longrightarrow> \<not> ready w' q" "has_more m \<longrightarrow> (\<forall>q. ready w' q = ready w1 q)"
      using Suc.IH[OF d1(2), of i w1] unfolding rest1 by blast
    have eq: "ready w1 q = ready w q" for q using w1(2,3) False by metis
    have run: "dist_push ops m (Suc n) i d w = Some (ps, r + 1, d', w')"
      using at w1(5) False d1(1) IH(1) by simp
    have sr: "set (drop i (take (d_active d) ?xs)) = insert ?p (set (drop (Suc i) (take (d_active d) ?xs)))"
      unfolding rest by simp
    have "set ps = {p \<in> set (drop i (take (d_active d) ?xs)). ready w p}"
      unfolding sr using IH(5) eq False by auto
    moreover have "set (take (d_active d') (d_items d')) = set (take i ?xs) \<union> set ps"
      using IH(9) d1(6) by simp
    moreover have "set (take (d_eligible d') (d_items d')) =
        set (take (d_eligible d) ?xs) - {p \<in> set (drop i (take (d_active d) ?xs)). \<not> ready w p}"
      unfolding IH(10) d1(9) sr using eq False by auto
    moreover have "\<forall>q. q \<notin> set (drop i (take (d_active d) ?xs)) \<longrightarrow> ready w' q = ready w q"
      unfolding sr using IH(12) eq by simp
    moreover have "\<forall>q. \<not> ready w q \<longrightarrow> \<not> ready w' q" using IH(13) eq by metis
    moreover have "has_more m \<longrightarrow> (\<forall>q. ready w' q = ready w q)" using IH(14) eq by metis
    moreover have "\<forall>q. valid w' q = valid w q" using IH(11) w1(1) by simp
    moreover have "length ps + (r + 1) = Suc n" using IH(3) by simp
    moreover have "set (d_items d') = set ?xs" "d_more d' = d_more d" "take i (d_items d') = take i ?xs"
      using IH(6-8) d1(5-7) by simp_all
    ultimately show ?thesis using run IH(2,4) by blast
  qed
qed

text \<open>
  The invariant: every writable pipe is eligible; in the middle of a message the active pipes are
  writable, between messages all eligible pipes are active.
\<close>

definition dist_inv :: "dist_t \<Rightarrow> 'w \<Rightarrow> bool" where
  "dist_inv d w \<longleftrightarrow> dist_ok d \<and> (\<forall>p \<in> set (d_items d). valid w p) \<and>
     (\<forall>p \<in> set (d_items d). ready w p \<longrightarrow> p \<in> set (take (d_eligible d) (d_items d))) \<and>
     (if d_more d then \<forall>p \<in> set (take (d_active d) (d_items d)). ready w p else d_active d = d_eligible d)"

definition dist_refs :: "msg \<Rightarrow> u32 \<Rightarrow> u32" where
  "dist_refs m n = (if mflags m AND ZMQ_MSG_SHARED \<noteq> 0 then n else 1)"

lemma dist_distribute_spec:
  assumes ok: "dist_ok d" and v: "\<forall>p \<in> set (d_items d). valid w p"
  shows "\<exists>ps closed blk' d' w'. dist_distribute ops m blk d w = Some (ps, closed, blk', d', w') \<and> dist_ok d' \<and>
     distinct ps \<and> set ps = {p \<in> set (take (d_active d) (d_items d)). ready w p} \<and>
     set (d_items d') = set (d_items d) \<and> d_more d' = d_more d \<and>
     set (take (d_active d') (d_items d')) = set ps \<and>
     set (take (d_eligible d') (d_items d')) =
       set (take (d_eligible d) (d_items d)) - {p \<in> set (take (d_active d) (d_items d)). \<not> ready w p} \<and>
     (\<forall>q. valid w' q = valid w q) \<and>
     (\<forall>q. \<not> ready w q \<longrightarrow> \<not> ready w' q) \<and> (has_more m \<longrightarrow> (\<forall>q. ready w' q = ready w q)) \<and>
     (case blk of None \<Rightarrow> blk' = None
      | Some n \<Rightarrow> blk' = Some (if d_active d \<le> 1 then n else dist_refs m n - 1 + of_nat (length ps)) \<and>
          closed = (d_active d \<le> 1 \<and> ps = []))"
proof (cases "d_active d = 0")
  case True
  then show ?thesis by (auto simp: dist_distribute_def ok split: option.splits)
next
  case act: False
  have push: "\<exists>ps r d' w'. dist_push ops m' (d_active d) 0 d w = Some (ps, r, d', w') \<and> dist_ok d' \<and>
      length ps + r = d_active d \<and>
      distinct ps \<and> set ps = {p \<in> set (take (d_active d) (d_items d)). ready w p} \<and>
      set (d_items d') = set (d_items d) \<and> d_more d' = d_more d \<and>
      set (take (d_active d') (d_items d')) = set ps \<and>
      set (take (d_eligible d') (d_items d')) =
        set (take (d_eligible d) (d_items d)) - {p \<in> set (take (d_active d) (d_items d)). \<not> ready w p} \<and>
      (\<forall>q. valid w' q = valid w q) \<and> (\<forall>q. \<not> ready w q \<longrightarrow> \<not> ready w' q) \<and>
      (has_more m \<longrightarrow> (\<forall>q. ready w' q = ready w q))" if "has_more m' = has_more m" for m'
    using dist_push_spec[OF ok _ v, of 0 "d_active d" m'] that by fastforce
  show ?thesis
  proof (cases blk)
    case None
    then show ?thesis using push[of m] act by (force simp: dist_distribute_def)
  next
    case (Some n)
    show ?thesis
    proof (cases "d_active d = 1")
      case True
      obtain ps r d' w' where p: "dist_push ops m (d_active d) 0 d w = Some (ps, r, d', w')"
        and rest: "dist_ok d' \<and> length ps + r = d_active d \<and>
          distinct ps \<and> set ps = {p \<in> set (take (d_active d) (d_items d)). ready w p} \<and>
          set (d_items d') = set (d_items d) \<and> d_more d' = d_more d \<and>
          set (take (d_active d') (d_items d')) = set ps \<and>
          set (take (d_eligible d') (d_items d')) =
            set (take (d_eligible d) (d_items d)) - {p \<in> set (take (d_active d) (d_items d)). \<not> ready w p} \<and>
          (\<forall>q. valid w' q = valid w q) \<and> (\<forall>q. \<not> ready w q \<longrightarrow> \<not> ready w' q) \<and>
          (has_more m \<longrightarrow> (\<forall>q. ready w' q = ready w q))"
        using push[of m] by blast
      have "dist_distribute ops m blk d w = Some (ps, ps = [], blk, d', w')"
        using p True Some by (auto simp: dist_distribute_def numeral_eq_Suc split: bind_splits if_splits)
      then show ?thesis using rest True Some by auto
    next
      case False
      let ?m = "m\<lparr>mflags := mflags m OR ZMQ_MSG_SHARED\<rparr>"
      obtain ps r d' w' where p: "dist_push ops ?m (d_active d) 0 d w = Some (ps, r, d', w')"
        and len: "length ps + r = d_active d"
        and rest: "dist_ok d' \<and>
          distinct ps \<and> set ps = {p \<in> set (take (d_active d) (d_items d)). ready w p} \<and>
          set (d_items d') = set (d_items d) \<and> d_more d' = d_more d \<and>
          set (take (d_active d') (d_items d')) = set ps \<and>
          set (take (d_eligible d') (d_items d')) =
            set (take (d_eligible d) (d_items d)) - {p \<in> set (take (d_active d) (d_items d)). \<not> ready w p} \<and>
          (\<forall>q. valid w' q = valid w q) \<and> (\<forall>q. \<not> ready w q \<longrightarrow> \<not> ready w' q) \<and>
          (has_more m \<longrightarrow> (\<forall>q. ready w' q = ready w q))"
        using push[of ?m] by auto
      have lw: "of_nat (d_active d) = (of_nat (length ps) + of_nat r :: u32)"
        using len by (metis of_nat_add)
      have "dist_distribute ops m blk d w =
          Some (ps, False, Some (dist_refs m n - 1 + of_nat (length ps)), d', w')"
        using p act False Some lw
        by (auto simp: dist_distribute_def dist_refs_def drop_refs_eq atomic_counter_add_def
            atomic_counter_set_def of_nat_diff algebra_simps)
      then show ?thesis using rest False act Some by auto
    qed
  qed
qed

lemma dist_inv_parts:
  assumes "dist_ok d" "\<forall>p \<in> set (d_items d). valid w p"
    "\<forall>p \<in> set (d_items d). ready w p \<longrightarrow> p \<in> set (take (d_eligible d) (d_items d))"
  shows "\<forall>p \<in> set (take (d_active d) (d_items d)). ready w p \<Longrightarrow> dist_inv (d\<lparr>d_more := True\<rparr>) w"
    "dist_inv (d\<lparr>d_active := d_eligible d, d_more := False\<rparr>) w"
  using assms by (simp_all add: dist_inv_def dist_ok_def)

lemma dist_send_spec:
  assumes inv: "dist_inv d w"
  shows "\<exists>ps closed blk' d' w'. dist_send ops m blk d w = Some (ps, closed, blk', d', w') \<and> dist_inv d' w' \<and>
     distinct ps \<and> set ps = {p \<in> set (take (d_active d) (d_items d)). ready w p} \<and>
     set (d_items d') = set (d_items d) \<and> d_more d' = has_more m \<and>
     (has_more m \<longrightarrow> set (take (d_active d') (d_items d')) = set ps) \<and>
     (case blk of None \<Rightarrow> blk' = None
      | Some n \<Rightarrow> blk' = Some (if d_active d \<le> 1 then n else dist_refs m n - 1 + of_nat (length ps)) \<and>
          closed = (d_active d \<le> 1 \<and> ps = []))"
proof -
  have ok: "dist_ok d" and v: "\<forall>p \<in> set (d_items d). valid w p"
    and el: "\<forall>p \<in> set (d_items d). ready w p \<longrightarrow> p \<in> set (take (d_eligible d) (d_items d))"
    using inv by (simp_all add: dist_inv_def)
  obtain ps closed blk' d' w' where run: "dist_distribute ops m blk d w = Some (ps, closed, blk', d', w')"
    and D: "dist_ok d'" "distinct ps" "set ps = {p \<in> set (take (d_active d) (d_items d)). ready w p}"
      "set (d_items d') = set (d_items d)" "d_more d' = d_more d"
      "set (take (d_active d') (d_items d')) = set ps"
      "set (take (d_eligible d') (d_items d')) =
         set (take (d_eligible d) (d_items d)) - {p \<in> set (take (d_active d) (d_items d)). \<not> ready w p}"
      "\<forall>q. valid w' q = valid w q"
      "\<forall>q. \<not> ready w q \<longrightarrow> \<not> ready w' q" "has_more m \<longrightarrow> (\<forall>q. ready w' q = ready w q)"
      "case blk of None \<Rightarrow> blk' = None
       | Some n \<Rightarrow> blk' = Some (if d_active d \<le> 1 then n else dist_refs m n - 1 + of_nat (length ps)) \<and>
           closed = (d_active d \<le> 1 \<and> ps = [])"
    using dist_distribute_spec[OF ok v, of m blk] by (elim exE conjE) (rule that)
  have v': "\<forall>p \<in> set (d_items d'). valid w' p" using v D(4,8) by simp
  have el': "\<forall>p \<in> set (d_items d'). ready w' p \<longrightarrow> p \<in> set (take (d_eligible d') (d_items d'))"
    using el D(4,7,9) by auto
  note inv' = dist_inv_parts[OF D(1) v' el']
  show ?thesis
  proof (cases "has_more m")
    case True
    have "\<forall>p \<in> set (take (d_active d') (d_items d')). ready w' p" using True D(3,6,10) by auto
    then have "dist_inv (d'\<lparr>d_more := True\<rparr>) w'" by (rule inv'(1))
    moreover have "dist_send ops m blk d w = Some (ps, closed, blk', d'\<lparr>d_more := True\<rparr>, w')"
      using run True by (simp add: dist_send_def)
    ultimately show ?thesis using True D(2,3,4,6,11) by fastforce
  next
    case False
    have "dist_send ops m blk d w =
        Some (ps, closed, blk', d'\<lparr>d_active := d_eligible d', d_more := False\<rparr>, w')"
      using run False by (simp add: dist_send_def)
    then show ?thesis using False D(2,3,4,11) inv'(2) by fastforce
  qed
qed

lemma dist_send_message:
  "dist_inv d w \<Longrightarrow> ms \<noteq> [] \<Longrightarrow> \<forall>x \<in> set (butlast ms). has_more (fst x) \<Longrightarrow> \<not> has_more (fst (last ms)) \<Longrightarrow>
   \<exists>rs d' w'. dist_send_all ops ms d w = Some (rs, d', w') \<and> length rs = length ms \<and>
     (\<forall>ps \<in> set rs. distinct ps \<and> set ps = {p \<in> set (take (d_active d) (d_items d)). ready w p}) \<and>
     dist_inv d' w' \<and> \<not> d_more d' \<and> set (d_items d') = set (d_items d)"
proof (induction ms arbitrary: d w)
  case (Cons x ms)
  obtain m blk where x: "x = (m, blk)" by (cases x)
  let ?S = "{p \<in> set (take (d_active d) (d_items d)). ready w p}"
  obtain ps closed blk' d1 w1 where 1: "dist_send ops m blk d w = Some (ps, closed, blk', d1, w1)"
      "dist_inv d1 w1" "distinct ps" "set ps = ?S" "set (d_items d1) = set (d_items d)"
      "d_more d1 = has_more m" "has_more m \<longrightarrow> set (take (d_active d1) (d_items d1)) = set ps"
    using dist_send_spec[OF Cons.prems(1), of m blk] by (elim exE conjE) (rule that)
  show ?case
  proof (cases "ms = []")
    case True
    then show ?thesis using 1 Cons.prems(4) x by auto
  next
    case False
    have hm: "has_more m" "\<forall>x \<in> set (butlast ms). has_more (fst x)" "\<not> has_more (fst (last ms))"
      using Cons.prems(3,4) False x by auto
    have "\<forall>p \<in> set (take (d_active d1) (d_items d1)). ready w1 p"
      using 1(2,6) hm(1) by (simp add: dist_inv_def)
    then have S: "{p \<in> set (take (d_active d1) (d_items d1)). ready w1 p} = ?S"
      using 1(4,7) hm(1) by auto
    obtain rs d' w' where "dist_send_all ops ms d1 w1 = Some (rs, d', w')" "length rs = length ms"
        "\<forall>ps \<in> set rs. distinct ps \<and> set ps = ?S" "dist_inv d' w'" "\<not> d_more d'" "set (d_items d') = set (d_items d1)"
      using Cons.IH[OF 1(2) False hm(2,3)] unfolding S by blast
    then show ?thesis using 1 x by simp
  qed
qed simp

end

section \<open>The distributor over pipes\<close>

definition dist_good :: "dist_t \<Rightarrow> pipe_world \<Rightarrow> bool" where
  "dist_good d w \<longleftrightarrow> dist_ok d \<and> (\<forall>p \<in> set (d_items d). writer_valid (conns w p)) \<and>
     (\<forall>p \<in> set (d_items d). writer_ready (conns w p) \<longrightarrow> p \<in> set (take (d_eligible d) (d_items d))) \<and>
     (if d_more d then \<forall>p \<in> set (take (d_active d) (d_items d)). writer_ready (conns w p)
      else d_active d = d_eligible d)"

lemma dist_good_inv: "dist_good d w \<longleftrightarrow> pw.dist_inv d w"
  by (simp add: dist_good_def pw.dist_inv_def)

lemma dist_good_reach:
  assumes "dist_good d w" "\<not> d_more d"
  shows "{p \<in> set (take (d_active d) (d_items d)). writer_ready (conns w p)} =
    {p \<in> set (d_items d). writer_ready (conns w p)}"
  using assms by (auto simp: dist_good_def dest: in_set_takeD)

text \<open>Two pipes attached to a distributor.\<close>

definition demo_dist :: "dist_t \<times> pipe_world" where
  "demo_dist = (\<lparr>d_pipes = \<lparr>items = [0, 1], array_index = (\<lambda>p. int p)\<rparr>, d_active = 2, d_eligible = 2,
      d_more = False, d_terminating = False\<rparr>, \<lparr>conns = (\<lambda>_. demo_conn 2), pipe_log = []\<rparr>)"

lemma demo_dist_good:
  "dist_good (fst demo_dist) (snd demo_dist) \<and> \<not> d_more (fst demo_dist) \<and>
   set (d_items (fst demo_dist)) = {0, 1} \<and> (\<forall>p. writer_ready (conns (snd demo_dist) p)) \<and>
   d_active (fst demo_dist) = 2"
  using demo_conn_fresh
  by (auto simp: demo_dist_def dist_good_def dist_ok_def arr_ok_def writer_fresh_def less_Suc_eq numeral_2_eq_2)





text \<open>When two or more pipes are active and all of them refuse, the counter goes down to zero, but nobody frees
  the block: the caller's message is detached by \<^verbatim>\<open>zmq_msg_init\<close> without a close.\<close>

theorem dist_leaks_refused_block:
  assumes "dist_good d w" "2 \<le> d_active d" "mflags m AND ZMQ_MSG_SHARED = 0"
    and "\<forall>p \<in> set (take (d_active d) (d_items d)). \<not> writer_ready (conns w p)"
  shows "\<exists>d' w'. dist_send pipe_writer_ops m (Some n) d w = Some ([], False, Some 0, d', w')"
proof -
  have inv: "pw.dist_inv d w" using assms(1) by (simp add: dist_good_inv)
  have none: "{p \<in> set (take (d_active d) (d_items d)). writer_ready (conns w p)} = {}" using assms(4) by blast
  show ?thesis
    using pw.dist_send_spec[OF inv, of m "Some n"] assms(2,3) unfolding none by (auto simp: pw.dist_refs_def)
qed

end
