(* ===== verification/Options.thy ===== *)
theory Options
  imports Wire
begin

text \<open>
  \<^verbatim>\<open>src/options.hpp\<close>, \<^verbatim>\<open>src/options.cpp\<close>: the socket options. The value of an option is the
  memory the caller passes, as bytes in the order of a little-endian machine; its length is \<open>optvallen\<close>.
  A C \<^verbatim>\<open>int\<close> is a 32-bit word, read with \<open>sint\<close> where its sign matters. Whether the directory for the swap
  is writable (\<^verbatim>\<open>stat\<close>) is an argument.
\<close>

datatype sockopt = HWM | SWAP | AFFINITY | IDENTITY | RATE | RECOVERY_IVL | RECOVERY_IVL_MSEC | MCAST_LOOP
  | SNDBUF | RCVBUF | SOCKTYPE | LINGER | RECONNECT_IVL | RECONNECT_IVL_MAX | BACKLOG | RCVTIMEO | SNDTIMEO
  | SUBSCRIBE | UNSUBSCRIBE | RCVMORE | FD | EVENTS | OtherOpt int

definition sockopt_of :: "int \<Rightarrow> sockopt" where
  "sockopt_of n =
     (if n = 1 then HWM else if n = 3 then SWAP else if n = 4 then AFFINITY else if n = 5 then IDENTITY
      else if n = 6 then SUBSCRIBE else if n = 7 then UNSUBSCRIBE else if n = 8 then RATE
      else if n = 9 then RECOVERY_IVL else if n = 10 then MCAST_LOOP else if n = 11 then SNDBUF
      else if n = 12 then RCVBUF else if n = 13 then RCVMORE else if n = 14 then FD else if n = 15 then EVENTS
      else if n = 16 then SOCKTYPE else if n = 17 then LINGER else if n = 18 then RECONNECT_IVL
      else if n = 19 then BACKLOG else if n = 20 then RECOVERY_IVL_MSEC else if n = 21 then RECONNECT_IVL_MAX
      else if n = 27 then RCVTIMEO else if n = 28 then SNDTIMEO else OtherOpt n)"

record options_t =
  hwm :: u64
  swap :: u64
  affinity :: u64
  identity :: blob
  rate :: u32
  recovery_ivl :: u32
  recovery_ivl_msec :: u32
  use_multicast_loop :: bool
  sndbuf :: u64
  rcvbuf :: u64
  socket_type :: u32
  linger :: u32
  reconnect_ivl :: u32
  reconnect_ivl_max :: u32
  backlog :: u32
  requires_in :: bool
  requires_out :: bool
  immediate_connect :: bool
  rcvtimeo :: u32
  sndtimeo :: u32

definition options_new :: options_t where
  "options_new = \<lparr>hwm = 0, swap = 0, affinity = 0, identity = [], rate = 40 * 1000, recovery_ivl = 10,
     recovery_ivl_msec = -1, use_multicast_loop = True, sndbuf = 0, rcvbuf = 0, socket_type = -1, linger = -1,
     reconnect_ivl = 100, reconnect_ivl_max = 0, backlog = 100, requires_in = False, requires_out = False,
     immediate_connect = True, rcvtimeo = -1, sndtimeo = -1\<rparr>"

text \<open>Integers in the memory of the caller.\<close>

definition mem64 :: "u64 \<Rightarrow> byte list" where "mem64 v = rev (put_uint64 v)"
definition read64 :: "byte list \<Rightarrow> u64" where "read64 bs = get_uint64 (rev bs)"
definition mem32 :: "u32 \<Rightarrow> byte list" where "mem32 v = rev (put_uint32 v)"
definition read32 :: "byte list \<Rightarrow> u32" where "read32 bs = get_uint32 (rev bs)"

abbreviation invalid :: "options_t \<Rightarrow> rc \<times> options_t" where "invalid o' \<equiv> (Err EINVAL, o')"

fun options_setsockopt :: "bool \<Rightarrow> sockopt \<Rightarrow> byte list \<Rightarrow> options_t \<Rightarrow> rc \<times> options_t" where
  "options_setsockopt _ HWM v opts =
     (if length v \<noteq> 8 then invalid opts else (OK, opts\<lparr>hwm := read64 v\<rparr>))"
| "options_setsockopt swap_dir_ok SWAP v opts =
     (if length v \<noteq> 8 \<or> sint (read64 v) < 0 then invalid opts
      else if \<not> swap_dir_ok then (Err EACCES, opts)
      else (OK, opts\<lparr>swap := read64 v\<rparr>))"
| "options_setsockopt _ AFFINITY v opts =
     (if length v \<noteq> 8 then invalid opts else (OK, opts\<lparr>affinity := read64 v\<rparr>))"
| "options_setsockopt _ IDENTITY v opts =
     (if length v < 1 \<or> length v > 255 \<or> v ! 0 = 0 then invalid opts else (OK, opts\<lparr>identity := v\<rparr>))"
| "options_setsockopt _ RATE v opts =
     (if length v \<noteq> 8 \<or> sint (read64 v) < 0 then invalid opts else (OK, opts\<lparr>rate := ucast (read64 v)\<rparr>))"
| "options_setsockopt _ RECOVERY_IVL v opts =
     (if length v \<noteq> 8 \<or> sint (read64 v) < 0 then invalid opts else (OK, opts\<lparr>recovery_ivl := ucast (read64 v)\<rparr>))"
| "options_setsockopt _ RECOVERY_IVL_MSEC v opts =
     (if length v \<noteq> 8 \<or> sint (read64 v) < 0 then invalid opts
      else (OK, opts\<lparr>recovery_ivl_msec := ucast (read64 v)\<rparr>))"
| "options_setsockopt _ MCAST_LOOP v opts =
     (if length v \<noteq> 8 then invalid opts
      else if read64 v = 0 then (OK, opts\<lparr>use_multicast_loop := False\<rparr>)
      else if read64 v = 1 then (OK, opts\<lparr>use_multicast_loop := True\<rparr>)
      else invalid opts)"
| "options_setsockopt _ SNDBUF v opts =
     (if length v \<noteq> 8 then invalid opts else (OK, opts\<lparr>sndbuf := read64 v\<rparr>))"
| "options_setsockopt _ RCVBUF v opts =
     (if length v \<noteq> 8 then invalid opts else (OK, opts\<lparr>rcvbuf := read64 v\<rparr>))"
| "options_setsockopt _ LINGER v opts =
     (if length v \<noteq> 4 then invalid opts else (OK, opts\<lparr>linger := read32 v\<rparr>))"
| "options_setsockopt _ RECONNECT_IVL v opts =
     (if length v \<noteq> 4 then invalid opts
      else if sint (read32 v) < 0 then invalid opts
      else (OK, opts\<lparr>reconnect_ivl := read32 v\<rparr>))"
| "options_setsockopt _ RECONNECT_IVL_MAX v opts =
     (if length v \<noteq> 4 then invalid opts
      else if sint (read32 v) < 0 then invalid opts
      else (OK, opts\<lparr>reconnect_ivl_max := read32 v\<rparr>))"
| "options_setsockopt _ BACKLOG v opts =
     (if length v \<noteq> 4 then invalid opts else (OK, opts\<lparr>backlog := read32 v\<rparr>))"
| "options_setsockopt _ RCVTIMEO v opts =
     (if length v \<noteq> 4 then invalid opts else (OK, opts\<lparr>rcvtimeo := read32 v\<rparr>))"
| "options_setsockopt _ SNDTIMEO v opts =
     (if length v \<noteq> 4 then invalid opts else (OK, opts\<lparr>sndtimeo := read32 v\<rparr>))"
| "options_setsockopt _ _ v opts = invalid opts"

text \<open>The bytes stored for the caller, whose buffer has \<open>cap\<close> bytes.\<close>

definition put_opt :: "nat \<Rightarrow> byte list \<Rightarrow> errno + byte list" where
  "put_opt cap v = (if cap < length v then Inl EINVAL else Inr v)"

fun options_getsockopt :: "sockopt \<Rightarrow> nat \<Rightarrow> options_t \<Rightarrow> errno + byte list" where
  "options_getsockopt HWM cap opts = put_opt cap (mem64 (hwm opts))"
| "options_getsockopt SWAP cap opts = put_opt cap (mem64 (swap opts))"
| "options_getsockopt AFFINITY cap opts = put_opt cap (mem64 (affinity opts))"
| "options_getsockopt IDENTITY cap opts = put_opt cap (identity opts)"
| "options_getsockopt RATE cap opts = put_opt cap (mem64 (ucast (rate opts)))"
| "options_getsockopt RECOVERY_IVL cap opts = put_opt cap (mem64 (ucast (recovery_ivl opts)))"
| "options_getsockopt RECOVERY_IVL_MSEC cap opts = put_opt cap (mem64 (scast (recovery_ivl_msec opts)))"
| "options_getsockopt MCAST_LOOP cap opts = put_opt cap (mem64 (if use_multicast_loop opts then 1 else 0))"
| "options_getsockopt SNDBUF cap opts = put_opt cap (mem64 (sndbuf opts))"
| "options_getsockopt RCVBUF cap opts = put_opt cap (mem64 (rcvbuf opts))"
| "options_getsockopt SOCKTYPE cap opts = put_opt cap (mem32 (socket_type opts))"
| "options_getsockopt LINGER cap opts = put_opt cap (mem32 (linger opts))"
| "options_getsockopt RECONNECT_IVL cap opts = put_opt cap (mem32 (reconnect_ivl opts))"
| "options_getsockopt RECONNECT_IVL_MAX cap opts = put_opt cap (mem32 (reconnect_ivl_max opts))"
| "options_getsockopt BACKLOG cap opts = put_opt cap (mem32 (backlog opts))"
| "options_getsockopt RCVTIMEO cap opts = put_opt cap (mem32 (rcvtimeo opts))"
| "options_getsockopt SNDTIMEO cap opts = put_opt cap (mem32 (sndtimeo opts))"
| "options_getsockopt _ cap opts = Inl EINVAL"

section \<open>Setting and reading back\<close>

text \<open>The options that are stored in 32 bits although they are passed in 64.\<close>

definition keeps_value :: "sockopt \<Rightarrow> byte list \<Rightarrow> bool" where
  "keeps_value opt v \<longleftrightarrow>
     (case opt of
        RATE \<Rightarrow> unat (read64 v) < 2 ^ 32
      | RECOVERY_IVL \<Rightarrow> unat (read64 v) < 2 ^ 32
      | RECOVERY_IVL_MSEC \<Rightarrow> unat (read64 v) < 2 ^ 31
      | _ \<Rightarrow> True)"

lemma put_get_uint32:
  assumes "length buf = 4"
  shows "put_uint32 (get_uint32 buf) = buf"
proof -
  obtain a b c d where buf: "buf = [a, b, c, d]"
    using assms by (auto simp: eval_nat_numeral length_Suc_conv)
  have bit32: "bit (push_bit k (ucast (b :: byte)) :: u32) n \<longleftrightarrow> k \<le> n \<and> n < k + 8 \<and> n < 32 \<and> bit b (n - k)"
    "bit (ucast (b :: byte) :: u32) n \<longleftrightarrow> n < 8 \<and> bit b n" for k b n
    by (auto simp: bit_simps dest: bit_imp_le_length)
  have byte: "(ucast (drop_bit k (get_uint32 buf)) :: byte) = buf ! (3 - k div 8)" if "k \<in> {0, 8, 16, 24}" for k
    using that
    by (elim insertE; simp add: buf get_uint32_def)
       (rule bit_word_eqI, auto simp: bit_drop_bit_eq bit_or_iff bit32 bit_ucast_iff dest: bit_imp_le_length)+
  show ?thesis
    using byte[of 24] byte[of 16] byte[of 8] byte[of 0] by (simp add: put_uint32_def buf)
qed

lemma mem_read [simp]:
  "length v = 8 \<Longrightarrow> mem64 (read64 v) = v" "length v = 4 \<Longrightarrow> mem32 (read32 v) = v"
  by (simp_all add: mem64_def read64_def mem32_def read32_def put_get_uint64 put_get_uint32)

lemma length_mem [simp]: "length (mem64 a) = 8" "length (mem32 b) = 4"
  by (simp_all add: mem64_def mem32_def)

lemma read_mem [simp]: "read64 (mem64 w) = w"
  using get_put_uint64[of w "[]"] by (simp add: mem64_def read64_def)

lemma high_bits:
  fixes v :: u64
  assumes "unat v < 2 ^ k" "bit v n"
  shows "n < k"
proof (rule ccontr)
  assume "\<not> n < k"
  then have "(2 :: nat) ^ k \<le> 2 ^ n" by simp
  with assms(1) have "unat v < 2 ^ n" by (rule less_le_trans)
  then have "unat v div 2 ^ n = 0" by (rule div_less)
  then have "\<not> bit (unat v) n" by (simp add: bit_iff_odd)
  then show False using assms(2) by (simp add: bit_unsigned_iff)
qed

lemma narrow_value:
  "unat v < 2 ^ 32 \<Longrightarrow> ucast (ucast v :: u32) = (v :: u64)"
  "unat v < 2 ^ 31 \<Longrightarrow> scast (ucast v :: u32) = (v :: u64)"
proof -
  assume v: "unat v < 2 ^ 32"
  show "ucast (ucast v :: u32) = (v :: u64)"
    by (rule bit_word_eqI) (use high_bits[OF v] in \<open>auto simp: bit_simps min_def dest: bit_imp_le_length split: if_splits\<close>)
next
  assume v: "unat v < 2 ^ 31"
  show "scast (ucast v :: u32) = (v :: u64)"
    by (rule bit_word_eqI) (auto simp: bit_simps min_def dest: bit_imp_le_length high_bits[OF v] split: if_splits)
qed

lemma mem_flag: "length v = 8 \<Longrightarrow> read64 v = 0 \<Longrightarrow> mem64 0 = v" "length v = 8 \<Longrightarrow> read64 v = 1 \<Longrightarrow> mem64 1 = v"
  by (metis mem_read(1))+

lemma set_keeps_others:
  "options_setsockopt ok opt v opts = (OK, opts') \<Longrightarrow> opt' \<noteq> opt \<Longrightarrow>
   options_getsockopt opt' cap opts' = options_getsockopt opt' cap opts"
  by (cases opt; cases opt'; auto split: if_splits)

text \<open>C34: Options are set and read back. A successful \<open>setsockopt\<close> makes \<open>getsockopt\<close> return the bytes that were passed,
  given enough room for them (for the three options kept in 32 bits, if the value fits), and changes what it returns for no other option; a failing
  one changes nothing.\<close>

theorem options_set_get:
  assumes "options_setsockopt ok opt v opts = (res, opts')"
  shows "(if res = OK
     then (keeps_value opt v \<and> length v \<le> cap \<longrightarrow> options_getsockopt opt cap opts' = Inr v) \<and>
          (\<forall>opt'. opt' \<noteq> opt \<longrightarrow> options_getsockopt opt' cap opts' = options_getsockopt opt' cap opts)
     else (res = Err EINVAL \<or> res = Err EACCES \<and> opt = SWAP \<and> \<not> ok) \<and> opts' = opts)"
proof (cases "res = OK")
  case True
  have "options_getsockopt opt cap opts' = Inr v" if "keeps_value opt v" "length v \<le> cap"
    using assms that unfolding True
    by (cases opt; auto simp: keeps_value_def put_opt_def narrow_value mem_flag split: if_splits)
  then show ?thesis using set_keeps_others[of ok opt v opts opts'] assms True by simp
next
  case False
  then show ?thesis using assms by (cases opt) (auto split: if_splits)
qed

theorem options_set_get_witness:
  "options_getsockopt LINGER 4 (snd (options_setsockopt True LINGER [5, 0, 0, 0] options_new)) = Inr [5, 0, 0, 0]"
  using options_set_get[of True LINGER "[5, 0, 0, 0]" options_new OK "options_new\<lparr>linger := read32 [5, 0, 0, 0]\<rparr>" 4]
  by (simp add: keeps_value_def)

text \<open>A rate above the 32-bit range is accepted and silently truncated.\<close>

theorem rate_truncated:
  "\<exists>opts'. options_setsockopt ok RATE (mem64 (2 ^ 32)) opts = (OK, opts') \<and> rate opts' = 0"
  by simp

end
