(* ===== verification/Patterns.thy ===== *)
theory Patterns
  imports Fq Dist Options
begin

text \<open>
  \<^verbatim>\<open>src/xreq.cpp\<close>, \<^verbatim>\<open>src/push.cpp\<close>, \<^verbatim>\<open>src/pull.cpp\<close>, \<^verbatim>\<open>src/xpub.cpp\<close>, \<^verbatim>\<open>src/pub.cpp\<close>: the socket
  types that hand their messages to a fair queue, a load balancer or a distributor. The part of \<open>process_term\<close> that
  \<^verbatim>\<open>socket_base_t\<close> does is the action \<open>BaseTerm\<close>.
\<close>

datatype sock_act = Sink sink_act | BaseTerm int

text \<open>The socket types, with the numbers of \<^verbatim>\<open>zmq.h\<close>.\<close>

definition ZMQ_PAIR :: u32 where "ZMQ_PAIR = 0"
definition ZMQ_PUB :: u32 where "ZMQ_PUB = 1"
definition ZMQ_SUB :: u32 where "ZMQ_SUB = 2"
definition ZMQ_REQ :: u32 where "ZMQ_REQ = 3"
definition ZMQ_REP :: u32 where "ZMQ_REP = 4"
definition ZMQ_XREQ :: u32 where "ZMQ_XREQ = 5"
definition ZMQ_XREP :: u32 where "ZMQ_XREP = 6"
definition ZMQ_PULL :: u32 where "ZMQ_PULL = 7"
definition ZMQ_PUSH :: u32 where "ZMQ_PUSH = 8"
definition ZMQ_XPUB :: u32 where "ZMQ_XPUB = 9"
definition ZMQ_XSUB :: u32 where "ZMQ_XSUB = 10"

section \<open>XREQ\<close>

record xreq_t =
  xq_fq :: fq_t
  xq_lb :: lb_t

definition xreq_new :: xreq_t where
  "xreq_new = \<lparr>xq_fq = fq_new, xq_lb = lb_new\<rparr>"

definition xreq_options :: "options_t \<Rightarrow> options_t" where
  "xreq_options opts = opts\<lparr>socket_type := ZMQ_XREQ, requires_in := True, requires_out := True\<rparr>"

definition xreq_attach ::
  "'w reader_ops \<Rightarrow> 'w writer_ops \<Rightarrow> nat option \<Rightarrow> nat option \<Rightarrow> xreq_t \<Rightarrow> 'w \<Rightarrow> (xreq_t \<times> 'w \<times> sock_act list) option" where
  "xreq_attach rops wops inpipe outpipe x w = do {
     i \<leftarrow> inpipe;
     out \<leftarrow> outpipe;
     (fq', w1, a1) \<leftarrow> fq_attach rops i (xq_fq x) w;
     (lb', w2, a2) \<leftarrow> lb_attach wops out (xq_lb x) w1;
     Some (\<lparr>xq_fq = fq', xq_lb = lb'\<rparr>, w2, map Sink (a1 @ a2))
   }"

definition xreq_process_term ::
  "'w reader_ops \<Rightarrow> 'w writer_ops \<Rightarrow> int \<Rightarrow> xreq_t \<Rightarrow> 'w \<Rightarrow> (xreq_t \<times> 'w \<times> sock_act list) option" where
  "xreq_process_term rops wops lngr x w = do {
     (fq', w1, a1) \<leftarrow> fq_terminate rops (xq_fq x) w;
     (lb', w2, a2) \<leftarrow> lb_terminate wops (xq_lb x) w1;
     Some (\<lparr>xq_fq = fq', xq_lb = lb'\<rparr>, w2, map Sink (a1 @ a2) @ [BaseTerm lngr])
   }"

definition xreq_xsend :: "'w writer_ops \<Rightarrow> msg \<Rightarrow> xreq_t \<Rightarrow> 'w \<Rightarrow> (rc \<times> xreq_t \<times> 'w) option" where
  "xreq_xsend wops m x w = do { (r, _, lb', w') \<leftarrow> lb_send wops m (xq_lb x) w; Some (r, x\<lparr>xq_lb := lb'\<rparr>, w') }"

definition xreq_xrecv :: "'w reader_ops \<Rightarrow> xreq_t \<Rightarrow> 'w \<Rightarrow> (rc \<times> msg option \<times> xreq_t \<times> 'w) option" where
  "xreq_xrecv rops x w = do {
     (r, v, fq', w') \<leftarrow> fq_recv rops (xq_fq x) w; Some (r, map_option snd v, x\<lparr>xq_fq := fq'\<rparr>, w') }"

definition xreq_xhas_in :: "'w reader_ops \<Rightarrow> xreq_t \<Rightarrow> 'w \<Rightarrow> (bool \<times> xreq_t \<times> 'w) option" where
  "xreq_xhas_in rops x w = do { (ok, fq', w') \<leftarrow> fq_has_in rops (xq_fq x) w; Some (ok, x\<lparr>xq_fq := fq'\<rparr>, w') }"

definition xreq_xhas_out :: "'w writer_ops \<Rightarrow> xreq_t \<Rightarrow> 'w \<Rightarrow> (bool \<times> xreq_t \<times> 'w) option" where
  "xreq_xhas_out wops x w = do { (ok, lb', w') \<leftarrow> lb_has_out wops (xq_lb x) w; Some (ok, x\<lparr>xq_lb := lb'\<rparr>, w') }"

section \<open>PUSH\<close>

definition push_options :: "options_t \<Rightarrow> options_t" where
  "push_options opts = opts\<lparr>socket_type := ZMQ_PUSH, requires_in := False, requires_out := True\<rparr>"

definition push_attach ::
  "'w writer_ops \<Rightarrow> nat option \<Rightarrow> nat option \<Rightarrow> lb_t \<Rightarrow> 'w \<Rightarrow> (lb_t \<times> 'w \<times> sock_act list) option" where
  "push_attach wops inpipe outpipe lb w = do {
     zmq_assert (inpipe = None);
     out \<leftarrow> outpipe;
     (lb', w', a) \<leftarrow> lb_attach wops out lb w;
     Some (lb', w', map Sink a)
   }"

definition push_process_term :: "'w writer_ops \<Rightarrow> int \<Rightarrow> lb_t \<Rightarrow> 'w \<Rightarrow> (lb_t \<times> 'w \<times> sock_act list) option" where
  "push_process_term wops lngr lb w = do {
     (lb', w', a) \<leftarrow> lb_terminate wops lb w; Some (lb', w', map Sink a @ [BaseTerm lngr]) }"

definition push_xsend :: "'w writer_ops \<Rightarrow> msg \<Rightarrow> lb_t \<Rightarrow> 'w \<Rightarrow> (rc \<times> lb_t \<times> 'w) option" where
  "push_xsend wops m lb w = do { (r, _, lb', w') \<leftarrow> lb_send wops m lb w; Some (r, lb', w') }"

definition push_xhas_out :: "'w writer_ops \<Rightarrow> lb_t \<Rightarrow> 'w \<Rightarrow> (bool \<times> lb_t \<times> 'w) option" where
  "push_xhas_out wops lb w = lb_has_out wops lb w"

section \<open>PULL\<close>

definition pull_options :: "options_t \<Rightarrow> options_t" where
  "pull_options opts = opts\<lparr>socket_type := ZMQ_PULL, requires_in := True, requires_out := False\<rparr>"

definition pull_attach ::
  "'w reader_ops \<Rightarrow> nat option \<Rightarrow> nat option \<Rightarrow> fq_t \<Rightarrow> 'w \<Rightarrow> (fq_t \<times> 'w \<times> sock_act list) option" where
  "pull_attach rops inpipe outpipe fq w = do {
     zmq_assert (outpipe = None);
     i \<leftarrow> inpipe;
     (fq', w', a) \<leftarrow> fq_attach rops i fq w;
     Some (fq', w', map Sink a)
   }"

definition pull_process_term :: "'w reader_ops \<Rightarrow> int \<Rightarrow> fq_t \<Rightarrow> 'w \<Rightarrow> (fq_t \<times> 'w \<times> sock_act list) option" where
  "pull_process_term rops lngr fq w = do {
     (fq', w', a) \<leftarrow> fq_terminate rops fq w; Some (fq', w', map Sink a @ [BaseTerm lngr]) }"

definition pull_xrecv :: "'w reader_ops \<Rightarrow> fq_t \<Rightarrow> 'w \<Rightarrow> (rc \<times> msg option \<times> fq_t \<times> 'w) option" where
  "pull_xrecv rops fq w = do { (r, v, fq', w') \<leftarrow> fq_recv rops fq w; Some (r, map_option snd v, fq', w') }"

definition pull_xhas_in :: "'w reader_ops \<Rightarrow> fq_t \<Rightarrow> 'w \<Rightarrow> (bool \<times> fq_t \<times> 'w) option" where
  "pull_xhas_in rops fq w = fq_has_in rops fq w"

section \<open>XPUB and PUB\<close>

definition xpub_options :: "options_t \<Rightarrow> options_t" where
  "xpub_options opts = opts\<lparr>socket_type := ZMQ_XPUB, requires_in := False, requires_out := True\<rparr>"

definition pub_options :: "options_t \<Rightarrow> options_t" where
  "pub_options opts = (xpub_options opts)\<lparr>socket_type := ZMQ_PUB\<rparr>"

definition xpub_attach ::
  "'w writer_ops \<Rightarrow> nat option \<Rightarrow> nat option \<Rightarrow> dist_t \<Rightarrow> 'w \<Rightarrow> (dist_t \<times> 'w \<times> sock_act list) option" where
  "xpub_attach wops inpipe outpipe d w = do {
     zmq_assert (inpipe = None);
     out \<leftarrow> outpipe;
     (d', w', a) \<leftarrow> dist_attach wops out d w;
     Some (d', w', map Sink a)
   }"

definition xpub_process_term :: "'w writer_ops \<Rightarrow> int \<Rightarrow> dist_t \<Rightarrow> 'w \<Rightarrow> (dist_t \<times> 'w \<times> sock_act list) option" where
  "xpub_process_term wops lngr d w = do {
     (d', w', a) \<leftarrow> dist_terminate wops d w; Some (d', w', map Sink a @ [BaseTerm lngr]) }"

definition xpub_xsend :: "'w writer_ops \<Rightarrow> msg \<Rightarrow> u32 option \<Rightarrow> dist_t \<Rightarrow> 'w \<Rightarrow> (rc \<times> dist_t \<times> 'w) option" where
  "xpub_xsend wops m blk d w = do { (_, _, _, d', w') \<leftarrow> dist_send wops m blk d w; Some (OK, d', w') }"

definition xpub_xrecv :: "dist_t \<Rightarrow> rc \<times> msg option \<times> dist_t" where
  "xpub_xrecv d = (Err EAGAIN, None, d)"

definition xpub_xhas_out :: "dist_t \<Rightarrow> bool" where "xpub_xhas_out d = dist_has_out d"
definition xpub_xhas_in :: "dist_t \<Rightarrow> bool" where "xpub_xhas_in d = False"

end
