(* ===== verification/Ctx.thy ===== *)
theory Ctx
  imports ArrayT Patterns
begin

text \<open>
  \<^verbatim>\<open>src/ctx.hpp\<close> and \<^verbatim>\<open>src/ctx.cpp\<close>: the context, with its thread slots, the list of its sockets, its I/O threads and
  the registry of inproc endpoints. Every operation runs under a lock of the context and is one step. A socket is a
  number (its address), a mailbox is named by its owner, and slots that hold a null pointer are \<open>None\<close>. An operation
  returns the commands that it sends, with the slot each is sent to.
\<close>

datatype box_owner = TermBox | ReaperBox | IoBox nat | SockBox nat

datatype life_cmd = LStop | LReap nat | LReaped | LDone

record endpoint_t =
  ep_socket :: nat
  ep_options :: options_t

record ctx_t =
  ctx_terminating :: bool
  ctx_sockets :: array_t
  empty_slots :: "nat list"
  ctx_slots :: "box_owner option list"
  io_threads :: "nat list"
  endpoints :: "string \<rightharpoonup> endpoint_t"
  log_socket :: "nat option"

definition max_sockets :: nat where
  "max_sockets = 512"

definition term_tid :: nat where "term_tid = 0"
definition reaper_tid :: nat where "reaper_tid = 1"

text \<open>\<^verbatim>\<open>send_command\<close>: the mailbox of a slot; an empty slot is a null pointer.\<close>

definition ctx_mailbox :: "nat \<Rightarrow> ctx_t \<Rightarrow> box_owner option" where
  "ctx_mailbox tid c = (if tid < length (ctx_slots c) then ctx_slots c ! tid else None)"

section \<open>Sockets\<close>

text \<open>The socket types that can be created.\<close>

definition socket_type_ok :: "u32 \<Rightarrow> bool" where
  "socket_type_ok t \<longleftrightarrow> t \<in> set [ZMQ_PAIR, ZMQ_PUB, ZMQ_SUB, ZMQ_REQ, ZMQ_REP, ZMQ_XREQ, ZMQ_XREP, ZMQ_PULL, ZMQ_PUSH,
     ZMQ_XPUB, ZMQ_XSUB]"

text \<open>\<open>s\<close> is the address that the new socket gets; the result is its slot.\<close>

definition ctx_create_socket :: "u32 \<Rightarrow> nat \<Rightarrow> ctx_t \<Rightarrow> (errno + nat) \<times> ctx_t" where
  "ctx_create_socket t s c =
     (if ctx_terminating c then (Inl ETERM, c)
      else if empty_slots c = [] then (Inl EMFILE, c)
      else let slot = last (empty_slots c); c1 = c\<lparr>empty_slots := butlast (empty_slots c)\<rparr>
           in if \<not> socket_type_ok t then (Inl EINVAL, c1\<lparr>empty_slots := empty_slots c1 @ [slot]\<rparr>)
              else (Inr slot, c1\<lparr>ctx_sockets := arr_push_back s (ctx_sockets c1),
                                ctx_slots := (ctx_slots c1)[slot := Some (SockBox s)]\<rparr>))"

definition ctx_destroy_socket :: "nat \<Rightarrow> nat \<Rightarrow> ctx_t \<Rightarrow> (ctx_t \<times> (nat \<times> life_cmd) list) option" where
  "ctx_destroy_socket s tid c = do {
     socks \<leftarrow> arr_erase s (ctx_sockets c);
     let c' = c\<lparr>empty_slots := empty_slots c @ [tid], ctx_slots := (ctx_slots c)[tid := None], ctx_sockets := socks\<rparr>;
     Some (c', if ctx_terminating c' \<and> items socks = [] then [(reaper_tid, LStop)] else [])
   }"

text \<open>The constructor, for \<open>n\<close> I/O threads; \<open>l\<close> is the address of the log socket.\<close>

definition ctx_new :: "nat \<Rightarrow> nat \<Rightarrow> ctx_t option" where
  "ctx_new n l = do {
     let slot_count = max_sockets + n + 3;
     let c = \<lparr>ctx_terminating = False, ctx_sockets = arr_new, empty_slots = rev [n + 2..<slot_count],
       ctx_slots = [Some TermBox, Some ReaperBox] @ map (\<lambda>i. Some (IoBox i)) [2..<n + 2] @ replicate (slot_count - (n + 2)) None,
       io_threads = [2..<n + 2], endpoints = Map.empty, log_socket = None\<rparr>;
     let (r, c1) = ctx_create_socket ZMQ_PUB l c;
     zmq_assert (case r of Inr _ \<Rightarrow> True | Inl _ \<Rightarrow> False);
     Some (c1\<lparr>log_socket := Some l, endpoints := (endpoints c1)(''sys://log'' \<mapsto> \<lparr>ep_socket = l, ep_options = pub_options options_new\<rparr>)\<rparr>)
   }"

text \<open>
  \<^verbatim>\<open>terminate\<close> up to the wait: on the first call the log socket is closed and the sockets are stopped. \<open>tid_of\<close> gives
  the slot of a socket.
\<close>

definition ctx_terminate_start :: "(nat \<Rightarrow> nat) \<Rightarrow> ctx_t \<Rightarrow> (ctx_t \<times> (nat \<times> life_cmd) list) option" where
  "ctx_terminate_start tid_of c =
     (if ctx_terminating c then Some (c, [])
      else do {
        l \<leftarrow> log_socket c;
        let c' = c\<lparr>log_socket := None, ctx_terminating := True\<rparr>;
        Some (c', (reaper_tid, LReap l) # map (\<lambda>s. (tid_of s, LStop)) (items (ctx_sockets c')) @
          (if items (ctx_sockets c') = [] then [(reaper_tid, LStop)] else []))
      })"

text \<open>\<^verbatim>\<open>terminate\<close> when a command has arrived.\<close>

definition ctx_terminate_finish :: "life_cmd \<Rightarrow> ctx_t \<Rightarrow> unit option" where
  "ctx_terminate_finish cmd c = do {
     zmq_assert (cmd = LDone);
     zmq_assert (items (ctx_sockets c) = [])
   }"

section \<open>I/O threads\<close>

text \<open>The loop over the I/O threads with their loads, from thread \<open>i\<close> on.\<close>

fun least_loaded :: "u64 \<Rightarrow> nat \<Rightarrow> int list \<Rightarrow> int \<Rightarrow> nat \<Rightarrow> int \<times> nat" where
  "least_loaded aff i [] min_load result = (min_load, result)"
| "least_loaded aff i (l # loads) min_load result =
     (if aff = 0 \<or> aff AND push_bit i 1 \<noteq> 0
      then if min_load = -1 \<or> l < min_load then least_loaded aff (i + 1) loads l i
           else least_loaded aff (i + 1) loads min_load result
      else least_loaded aff (i + 1) loads min_load result)"

text \<open>\<open>None\<close> in the result is the null pointer.\<close>

definition choose_io_thread :: "u64 \<Rightarrow> (nat \<Rightarrow> int) \<Rightarrow> ctx_t \<Rightarrow> nat option option" where
  "choose_io_thread aff load c =
     (if io_threads c = [] then Some None
      else do {
        let (min_load, result) = least_loaded aff 0 (map load (io_threads c)) (-1) 0;
        zmq_assert (min_load \<noteq> -1);
        Some (Some (io_threads c ! result))
      })"

section \<open>Endpoints\<close>

definition register_endpoint :: "string \<Rightarrow> endpoint_t \<Rightarrow> ctx_t \<Rightarrow> rc \<times> ctx_t" where
  "register_endpoint addr ep c =
     (if endpoints c addr \<noteq> None then (Err EADDRINUSE, c)
      else (OK, c\<lparr>endpoints := (endpoints c)(addr \<mapsto> ep)\<rparr>))"

definition unregister_endpoints :: "nat \<Rightarrow> ctx_t \<Rightarrow> ctx_t" where
  "unregister_endpoints s c =
     c\<lparr>endpoints := (\<lambda>a. case endpoints c a of None \<Rightarrow> None | Some ep \<Rightarrow> if ep_socket ep = s then None else Some ep)\<rparr>"

text \<open>The socket whose sequence number the code increments is that of the endpoint.\<close>

definition find_endpoint :: "string \<Rightarrow> ctx_t \<Rightarrow> errno + endpoint_t" where
  "find_endpoint addr c = (case endpoints c addr of None \<Rightarrow> Inl ECONNREFUSED | Some ep \<Rightarrow> Inr ep)"

end
