(* ===== verification/Lifecycle.thy ===== *)
theory Lifecycle
  imports Ctx
begin

text \<open>
  The life of sockets: \<^verbatim>\<open>src/reaper.cpp\<close> and the part of \<^verbatim>\<open>src/socket_base.cpp\<close> that closes, stops and deallocates a
  socket, composed with the context. A socket is created by the user, closed (its thread hands it to the reaper), reaped
  (the reaper starts its termination) and deallocated when the termination is complete, which also frees its slot.
  \<^verbatim>\<open>zmq_term\<close> waits for the command \<open>LDone\<close> of the reaper. What a socket has to wait for while it terminates is the
  subject of the theories on ownership and pipes; here the end of the termination is an event.
\<close>

record sock_life =
  sk_tid :: nat
  sk_stopped :: bool
  sk_polled :: bool
  sk_destroyed :: bool

definition sock_life_new :: "nat \<Rightarrow> sock_life" where
  "sock_life_new tid = \<lparr>sk_tid = tid, sk_stopped = False, sk_polled = False, sk_destroyed = False\<rparr>"

section \<open>The socket\<close>

definition socket_close :: "nat \<Rightarrow> (nat \<times> life_cmd) list" where
  "socket_close s = [(reaper_tid, LReap s)]"

definition socket_process_stop :: "sock_life \<Rightarrow> sock_life" where
  "socket_process_stop sk = sk\<lparr>sk_stopped := True\<rparr>"

definition start_reaping :: "sock_life \<Rightarrow> sock_life" where
  "start_reaping sk = sk\<lparr>sk_polled := True\<rparr>"

definition socket_process_destroy :: "sock_life \<Rightarrow> sock_life" where
  "socket_process_destroy sk = sk\<lparr>sk_destroyed := True\<rparr>"

text \<open>The result \<open>None\<close> for the socket is its deallocation.\<close>

definition check_destroy ::
  "nat \<Rightarrow> sock_life \<Rightarrow> ctx_t \<Rightarrow> (sock_life option \<times> ctx_t \<times> (nat \<times> life_cmd) list) option" where
  "check_destroy s sk c =
     (if sk_destroyed sk then do {
        zmq_assert (sk_polled sk);
        (c', cmds) \<leftarrow> ctx_destroy_socket s (sk_tid sk) c;
        Some (None, c', cmds @ [(reaper_tid, LReaped)])
      }
      else Some (Some sk, c, []))"

section \<open>The reaper\<close>

record reaper_t =
  rp_sockets :: int
  rp_terminating :: bool
  rp_stopped :: bool

definition reaper_new :: reaper_t where
  "reaper_new = \<lparr>rp_sockets = 0, rp_terminating = False, rp_stopped = False\<rparr>"

definition reaper_process_stop :: "reaper_t \<Rightarrow> reaper_t \<times> (nat \<times> life_cmd) list" where
  "reaper_process_stop r =
     (let r' = r\<lparr>rp_terminating := True\<rparr>
      in if rp_sockets r' = 0 then (r'\<lparr>rp_stopped := True\<rparr>, [(term_tid, LDone)]) else (r', []))"

text \<open>\<open>at_once\<close> tells whether the termination of the socket is complete when \<^verbatim>\<open>terminate\<close> returns.\<close>

definition reaper_process_reap ::
  "bool \<Rightarrow> nat \<Rightarrow> sock_life \<Rightarrow> ctx_t \<Rightarrow> reaper_t \<Rightarrow>
   (sock_life option \<times> ctx_t \<times> reaper_t \<times> (nat \<times> life_cmd) list) option" where
  "reaper_process_reap at_once s sk c r = do {
     let sk1 = start_reaping sk;
     let sk2 = (if at_once then socket_process_destroy sk1 else sk1);
     (sk3, c', cmds) \<leftarrow> check_destroy s sk2 c;
     Some (sk3, c', r\<lparr>rp_sockets := rp_sockets r + 1\<rparr>, cmds)
   }"

definition reaper_process_reaped :: "reaper_t \<Rightarrow> reaper_t \<times> (nat \<times> life_cmd) list" where
  "reaper_process_reaped r =
     (let r' = r\<lparr>rp_sockets := rp_sockets r - 1\<rparr>
      in if rp_sockets r' = 0 \<and> rp_terminating r' then (r'\<lparr>rp_stopped := True\<rparr>, [(term_tid, LDone)]) else (r', []))"

section \<open>The library as a whole\<close>

text \<open>\<open>closed\<close> are the sockets that were closed, \<open>finished\<close> that \<^verbatim>\<open>zmq_term\<close> has returned.\<close>

record life_sys =
  cx :: ctx_t
  rp :: reaper_t
  socks :: "nat \<Rightarrow> sock_life option"
  rbox :: "life_cmd list"
  tbox :: "life_cmd list"
  sbox :: "nat \<Rightarrow> life_cmd list"
  closed :: "nat set"
  next_sock :: nat
  finished :: bool

definition life_new :: "nat \<Rightarrow> life_sys option" where
  "life_new n = do {
     c \<leftarrow> ctx_new n 0;
     Some \<lparr>cx = c, rp = reaper_new, socks = [0 \<mapsto> sock_life_new (n + 2)], rbox = [], tbox = [], sbox = (\<lambda>_. []),
       closed = {}, next_sock = 1, finished = False\<rparr>
   }"

definition life_post :: "nat \<times> life_cmd \<Rightarrow> life_sys \<Rightarrow> life_sys option" where
  "life_post x s =
     (case ctx_mailbox (fst x) (cx s) of
        None \<Rightarrow> None
      | Some TermBox \<Rightarrow> Some (s\<lparr>tbox := tbox s @ [snd x]\<rparr>)
      | Some ReaperBox \<Rightarrow> Some (s\<lparr>rbox := rbox s @ [snd x]\<rparr>)
      | Some (SockBox k) \<Rightarrow> Some (s\<lparr>sbox := (sbox s)(k := sbox s k @ [snd x])\<rparr>)
      | Some (IoBox i) \<Rightarrow> Some s)"

fun life_posts :: "(nat \<times> life_cmd) list \<Rightarrow> life_sys \<Rightarrow> life_sys option" where
  "life_posts [] s = Some s"
| "life_posts (x # xs) s = do { s' \<leftarrow> life_post x s; life_posts xs s' }"

datatype life_ev = ECreate u32 | EClose nat | EReaper bool | EDone nat | EStop nat | ETerm | EFinish

fun reaper_command :: "bool \<Rightarrow> life_cmd \<Rightarrow> life_sys \<Rightarrow> life_sys option" where
  "reaper_command at_once LStop s = (let (r, cmds) = reaper_process_stop (rp s) in life_posts cmds (s\<lparr>rp := r\<rparr>))"
| "reaper_command at_once (LReap k) s = do {
     sk \<leftarrow> socks s k;
     (sk', c, r, cmds) \<leftarrow> reaper_process_reap at_once k sk (cx s) (rp s);
     life_posts cmds (s\<lparr>cx := c, rp := r, socks := (socks s)(k := sk')\<rparr>)
   }"
| "reaper_command at_once LReaped s = (let (r, cmds) = reaper_process_reaped (rp s) in life_posts cmds (s\<lparr>rp := r\<rparr>))"
| "reaper_command at_once LDone s = None"

fun life_exec :: "life_ev \<Rightarrow> life_sys \<Rightarrow> life_sys option" where
  "life_exec (ECreate t) s =
     (case ctx_create_socket t (next_sock s) (cx s) of
        (Inl e, c) \<Rightarrow> Some (s\<lparr>cx := c\<rparr>)
      | (Inr slot, c) \<Rightarrow> Some (s\<lparr>cx := c, socks := (socks s)(next_sock s \<mapsto> sock_life_new slot), next_sock := next_sock s + 1\<rparr>))"
| "life_exec (EClose k) s = life_posts (socket_close k) (s\<lparr>closed := insert k (closed s)\<rparr>)"
| "life_exec (EReaper at_once) s =
     (case rbox s of [] \<Rightarrow> Some s | x # xs \<Rightarrow> reaper_command at_once x (s\<lparr>rbox := xs\<rparr>))"
| "life_exec (EDone k) s = do {
     sk \<leftarrow> socks s k;
     (sk', c, cmds) \<leftarrow> check_destroy k (socket_process_destroy sk) (cx s);
     life_posts cmds (s\<lparr>cx := c, socks := (socks s)(k := sk')\<rparr>)
   }"
| "life_exec (EStop k) s = do {
     sk \<leftarrow> socks s k;
     Some (s\<lparr>sbox := (sbox s)(k := tl (sbox s k)), socks := (socks s)(k \<mapsto> socket_process_stop sk)\<rparr>)
   }"
| "life_exec ETerm s = do {
     (c, cmds) \<leftarrow> ctx_terminate_start (\<lambda>k. case socks s k of Some sk \<Rightarrow> sk_tid sk | None \<Rightarrow> 0) (cx s);
     life_posts cmds (s\<lparr>cx := c, closed := (case log_socket (cx s) of Some l \<Rightarrow> insert l (closed s) | None \<Rightarrow> closed s)\<rparr>)
   }"
| "life_exec EFinish s = do {
     _ \<leftarrow> ctx_terminate_finish (hd (tbox s)) (cx s);
     Some (s\<lparr>tbox := tl (tbox s), finished := True\<rparr>)
   }"

text \<open>The user closes a socket once and does not touch the log socket; the reaper handles commands until it stops.\<close>

fun life_enabled :: "life_ev \<Rightarrow> life_sys \<Rightarrow> bool" where
  "life_enabled (ECreate t) s \<longleftrightarrow> \<not> finished s"
| "life_enabled (EClose k) s \<longleftrightarrow> \<not> finished s \<and> socks s k \<noteq> None \<and> k \<notin> closed s \<and> log_socket (cx s) \<noteq> Some k"
| "life_enabled (EReaper at_once) s \<longleftrightarrow> \<not> rp_stopped (rp s) \<and> rbox s \<noteq> []"
| "life_enabled (EDone k) s \<longleftrightarrow> (case socks s k of Some sk \<Rightarrow> sk_polled sk | None \<Rightarrow> False)"
| "life_enabled (EStop k) s \<longleftrightarrow> socks s k \<noteq> None \<and> sbox s k \<noteq> []"
| "life_enabled ETerm s \<longleftrightarrow> \<not> finished s"
| "life_enabled EFinish s \<longleftrightarrow> tbox s \<noteq> []"

inductive life_reach :: "nat \<Rightarrow> life_sys \<Rightarrow> bool" for n where
  life_init: "life_new n = Some s \<Longrightarrow> life_reach n s"
| life_step: "life_reach n s \<Longrightarrow> life_enabled e s \<Longrightarrow> life_exec e s = Some s' \<Longrightarrow> life_reach n s'"

section \<open>The invariant\<close>

definition tids :: "(nat \<Rightarrow> sock_life option) \<Rightarrow> nat set" where
  "tids sk = {t. \<exists>k x. sk k = Some x \<and> t = sk_tid x}"

definition slots_inv :: "nat \<Rightarrow> ctx_t \<Rightarrow> (nat \<Rightarrow> sock_life option) \<Rightarrow> bool" where
  "slots_inv n c sk \<longleftrightarrow>
     arr_ok (ctx_sockets c) \<and> set (items (ctx_sockets c)) = dom sk \<and>
     length (ctx_slots c) = max_sockets + n + 3 \<and> ctx_slots c ! term_tid = Some TermBox \<and>
     ctx_slots c ! reaper_tid = Some ReaperBox \<and>
     (\<forall>k x. sk k = Some x \<longrightarrow> n + 2 \<le> sk_tid x \<and> sk_tid x < max_sockets + n + 3 \<and>
        ctx_slots c ! sk_tid x = Some (SockBox k)) \<and>
     distinct (empty_slots c) \<and>
     set (empty_slots c) = {n + 2..<max_sockets + n + 3} - tids sk"

definition boxes_inv :: "life_sys \<Rightarrow> bool" where
  "boxes_inv s \<longleftrightarrow>
     (\<forall>k \<ge> next_sock s. socks s k = None) \<and>
     (\<forall>k. count_list (rbox s) (LReap k) = of_bool (k \<in> closed s \<and> (\<exists>x. socks s k = Some x \<and> \<not> sk_polled x))) \<and>
     (\<forall>k x. socks s k = Some x \<longrightarrow> \<not> sk_destroyed x \<and> (sk_polled x \<longrightarrow> k \<in> closed s)) \<and>
     closed s \<subseteq> {..<next_sock s} \<and>
     rp_sockets (rp s) = int (card {k. \<exists>x. socks s k = Some x \<and> sk_polled x} + count_list (rbox s) LReaped) \<and>
     count_list (rbox s) LStop + of_bool (rp_terminating (rp s)) = (of_bool (ctx_terminating (cx s) \<and> dom (socks s) = {}) :: nat) \<and>
     LDone \<notin> set (rbox s) \<and>
     (rp_stopped (rp s) \<longleftrightarrow> rp_terminating (rp s) \<and> rp_sockets (rp s) = 0) \<and>
     tbox s = (if rp_stopped (rp s) \<and> \<not> finished s then [LDone] else []) \<and> (finished s \<longrightarrow> rp_stopped (rp s)) \<and>
     (case log_socket (cx s) of
        Some l \<Rightarrow> \<not> ctx_terminating (cx s) \<and> socks s l \<noteq> None \<and> l \<notin> closed s
      | None \<Rightarrow> ctx_terminating (cx s))"

definition life_inv :: "nat \<Rightarrow> life_sys \<Rightarrow> bool" where
  "life_inv n s \<longleftrightarrow> slots_inv n (cx s) (socks s) \<and> boxes_inv s"

lemma slots_invD:
  assumes "slots_inv n c sk"
  shows "arr_ok (ctx_sockets c)" "set (items (ctx_sockets c)) = dom sk" "length (ctx_slots c) = max_sockets + n + 3"
    "ctx_slots c ! term_tid = Some TermBox" "ctx_slots c ! reaper_tid = Some ReaperBox"
    "sk k = Some x \<Longrightarrow> n + 2 \<le> sk_tid x" "sk k = Some x \<Longrightarrow> sk_tid x < max_sockets + n + 3"
    "sk k = Some x \<Longrightarrow> ctx_slots c ! sk_tid x = Some (SockBox k)" "distinct (empty_slots c)"
    "set (empty_slots c) = {n + 2..<max_sockets + n + 3} - tids sk"
  using assms unfolding slots_inv_def by blast+

lemma tidsI: "sk k = Some x \<Longrightarrow> sk_tid x \<in> tids sk"
  by (auto simp: tids_def)

lemma tids_new:
  assumes "sk k = None"
  shows "tids (sk(k \<mapsto> x)) = insert (sk_tid x) (tids sk)"
proof -
  have "t \<in> tids (sk(k \<mapsto> x)) \<longleftrightarrow> t \<in> insert (sk_tid x) (tids sk)" for t
    using assms unfolding tids_def by (auto split: if_splits) (metis option.distinct(1))
  then show ?thesis by blast
qed

lemma tids_same:
  assumes "sk k = Some x" "sk_tid y = sk_tid x"
  shows "tids (sk(k \<mapsto> y)) = tids sk"
proof -
  have "t \<in> tids (sk(k \<mapsto> y)) \<longleftrightarrow> t \<in> tids sk" for t
  proof
    assume "t \<in> tids (sk(k \<mapsto> y))"
    then obtain j z where "(sk(k \<mapsto> y)) j = Some z" "t = sk_tid z" by (auto simp: tids_def)
    then show "t \<in> tids sk" using assms tidsI by (cases "j = k") force+
  next
    assume "t \<in> tids sk"
    then obtain j z where jz: "sk j = Some z" "t = sk_tid z" by (auto simp: tids_def)
    show "t \<in> tids (sk(k \<mapsto> y))"
    proof (cases "j = k")
      case True
      then show ?thesis using tidsI[of "sk(k \<mapsto> y)" k y] assms jz by simp
    next
      case False
      then show ?thesis using tidsI[of "sk(k \<mapsto> y)" j z] jz by simp
    qed
  qed
  then show ?thesis by blast
qed

lemma tid_inj: "slots_inv n c sk \<Longrightarrow> sk k = Some x \<Longrightarrow> sk j = Some y \<Longrightarrow> sk_tid x = sk_tid y \<Longrightarrow> k = j"
  using slots_invD(8) by (metis box_owner.inject(2) option.inject)

lemma tids_del:
  assumes "slots_inv n c sk" "sk k = Some x"
  shows "tids (sk(k := None)) = tids sk - {sk_tid x}"
proof -
  have "t \<in> tids (sk(k := None)) \<longleftrightarrow> t \<in> tids sk - {sk_tid x}" for t
  proof
    assume "t \<in> tids (sk(k := None))"
    then obtain j z where jz: "(sk(k := None)) j = Some z" "t = sk_tid z" by (auto simp: tids_def)
    then have "j \<noteq> k" "sk j = Some z" by (auto split: if_splits)
    then show "t \<in> tids sk - {sk_tid x}" using tid_inj[OF assms(1) _ assms(2)] jz(2) tidsI by fastforce
  next
    assume "t \<in> tids sk - {sk_tid x}"
    then obtain j z where jz: "sk j = Some z" "t = sk_tid z" "t \<noteq> sk_tid x" by (auto simp: tids_def)
    then have "j \<noteq> k" using assms(2) by auto
    then show "t \<in> tids (sk(k := None))" using tidsI[of "sk(k := None)" j z] jz by simp
  qed
  then show ?thesis by blast
qed

lemma boxes_invD:
  assumes "boxes_inv s"
  shows "next_sock s \<le> k \<Longrightarrow> socks s k = None"
    "count_list (rbox s) (LReap k) = of_bool (k \<in> closed s \<and> (\<exists>x. socks s k = Some x \<and> \<not> sk_polled x))"
    "socks s k = Some x \<Longrightarrow> \<not> sk_destroyed x" "socks s k = Some x \<Longrightarrow> sk_polled x \<Longrightarrow> k \<in> closed s"
    "closed s \<subseteq> {..<next_sock s}"
    "rp_sockets (rp s) = int (card {k. \<exists>x. socks s k = Some x \<and> sk_polled x} + count_list (rbox s) LReaped)"
    "count_list (rbox s) LStop + of_bool (rp_terminating (rp s)) = (of_bool (ctx_terminating (cx s) \<and> dom (socks s) = {}) :: nat)"
    "LDone \<notin> set (rbox s)"
    "rp_stopped (rp s) \<longleftrightarrow> rp_terminating (rp s) \<and> rp_sockets (rp s) = 0"
    "tbox s = (if rp_stopped (rp s) \<and> \<not> finished s then [LDone] else [])" "finished s \<Longrightarrow> rp_stopped (rp s)"
    "case log_socket (cx s) of
        Some l \<Rightarrow> \<not> ctx_terminating (cx s) \<and> socks s l \<noteq> None \<and> l \<notin> closed s
      | None \<Rightarrow> ctx_terminating (cx s)"
  using assms unfolding boxes_inv_def by blast+

lemma life_invD: "life_inv n s \<Longrightarrow> slots_inv n (cx s) (socks s)" "life_inv n s \<Longrightarrow> boxes_inv s"
  by (simp_all add: life_inv_def)

lemma polled_finite:
  assumes "boxes_inv s"
  shows "finite {k. \<exists>x. socks s k = Some x \<and> sk_polled x}"
proof (rule finite_subset)
  show "{k. \<exists>x. socks s k = Some x \<and> sk_polled x} \<subseteq> {..<next_sock s}"
    using boxes_invD(4,5)[OF assms] by blast
qed simp

lemma reaper_post:
  "slots_inv n (cx s) sk \<Longrightarrow> life_post (reaper_tid, c) s = Some (s\<lparr>rbox := rbox s @ [c]\<rparr>)"
  using slots_invD(3,5) by (simp add: life_post_def ctx_mailbox_def reaper_tid_def max_sockets_def)

lemma term_post:
  "slots_inv n (cx s) sk \<Longrightarrow> life_post (term_tid, c) s = Some (s\<lparr>tbox := tbox s @ [c]\<rparr>)"
  using slots_invD(3,4) by (simp add: life_post_def ctx_mailbox_def term_tid_def max_sockets_def)

end
