(* ===== verification/LifeSafety.thy ===== *)
theory LifeSafety
  imports Lifecycle
begin

text \<open>The invariant of the life of sockets is kept by every event, and no event fails.\<close>

section \<open>Slots\<close>

lemma slots_new:
  "\<exists>c. ctx_new n 0 = Some c \<and> slots_inv n c [0 \<mapsto> sock_life_new (n + 2)] \<and> \<not> ctx_terminating c \<and> log_socket c = Some 0"
proof -
  let ?m = "max_sockets + n + 3"
  have m: "n + 2 < ?m" by (simp add: max_sockets_def)
  have e: "rev [n + 2..<?m] = rev [n + 3..<?m] @ [n + 2]"
    using m by (simp add: upt_conv_Cons eval_nat_numeral)
  have pub: "socket_type_ok ZMQ_PUB" by (simp add: socket_type_ok_def)
  define c0 where "c0 = \<lparr>ctx_terminating = False, ctx_sockets = arr_new, empty_slots = rev [n + 2..<?m],
     ctx_slots = [Some TermBox, Some ReaperBox] @ map (\<lambda>i. Some (IoBox i)) [2..<n + 2] @ replicate (?m - (n + 2)) None,
     io_threads = [2..<n + 2], endpoints = Map.empty, log_socket = None\<rparr>"
  have c1: "ctx_create_socket ZMQ_PUB 0 c0 = (Inr (n + 2), c0\<lparr>empty_slots := rev [n + 3..<?m],
      ctx_sockets := arr_push_back 0 arr_new, ctx_slots := (ctx_slots c0)[n + 2 := Some (SockBox 0)]\<rparr>)"
    unfolding ctx_create_socket_def Let_def c0_def using pub by (simp only: e) simp
  obtain c where c: "ctx_new n 0 = Some c" "empty_slots c = rev [n + 3..<?m]" "ctx_sockets c = arr_push_back 0 arr_new"
      "ctx_slots c = (ctx_slots c0)[n + 2 := Some (SockBox 0)]" "\<not> ctx_terminating c" "log_socket c = Some 0"
    unfolding ctx_new_def Let_def c0_def[symmetric] c1 by (simp add: c0_def)
  have len: "length (ctx_slots c0) = ?m" using m by (simp add: c0_def) arith
  have "slots_inv n c [0 \<mapsto> sock_life_new (n + 2)]"
    unfolding slots_inv_def
  proof (intro conjI allI impI)
    show "arr_ok (ctx_sockets c)" using c(3) arr_push_back_ok[OF arr_new_ok, of 0] by (simp add: arr_new_def)
    show "set (items (ctx_sockets c)) = dom [0 \<mapsto> sock_life_new (n + 2)]" using c(3) by (simp add: arr_new_def)
    show "length (ctx_slots c) = ?m" using c(4) len by simp
    show "ctx_slots c ! term_tid = Some TermBox" "ctx_slots c ! reaper_tid = Some ReaperBox"
      using c(4) by (simp_all add: c0_def term_tid_def reaper_tid_def)
    show "distinct (empty_slots c)" using c(2) by simp
    show "set (empty_slots c) = {n + 2..<?m} - tids [0 \<mapsto> sock_life_new (n + 2)]"
      using c(2) by (auto simp: tids_new sock_life_new_def) (auto simp: tids_def)
    fix k :: nat and x assume "[0 \<mapsto> sock_life_new (n + 2)] k = Some x"
    then have kx: "k = 0" "sk_tid x = n + 2" by (auto simp: sock_life_new_def split: if_splits)
    show "n + 2 \<le> sk_tid x" "sk_tid x < ?m" using kx m by simp_all
    show "ctx_slots c ! sk_tid x = Some (SockBox k)" using kx c(4) len m by simp
  qed
  then show ?thesis using c by blast
qed

lemma slots_create:
  assumes inv: "slots_inv n c sk" and k: "sk k = None" and r: "ctx_create_socket t k c = (Inr slot, c')"
  shows "slots_inv n c' (sk(k \<mapsto> sock_life_new slot))" "slot \<in> set (empty_slots c)" "log_socket c' = log_socket c"
    "\<not> ctx_terminating c" "\<not> ctx_terminating c'"
proof -
  note I = slots_invD[OF inv]
  let ?sk = "sk(k \<mapsto> sock_life_new slot)" and ?m = "max_sockets + n + 3"
  have ne: "\<not> ctx_terminating c" "empty_slots c \<noteq> []" "slot = last (empty_slots c)"
      "c' = c\<lparr>empty_slots := butlast (empty_slots c), ctx_sockets := arr_push_back k (ctx_sockets c),
        ctx_slots := (ctx_slots c)[slot := Some (SockBox k)]\<rparr>"
    using r by (auto simp: ctx_create_socket_def Let_def split: if_splits)
  have e: "empty_slots c = butlast (empty_slots c) @ [slot]" using ne(2,3) by simp
  then show slot: "slot \<in> set (empty_slots c)" by (metis in_set_conv_decomp)
  then have b: "n + 2 \<le> slot" "slot < ?m" "\<And>j x. sk j = Some x \<Longrightarrow> sk_tid x \<noteq> slot" using tidsI unfolding I(10) by force+
  have bl: "distinct (butlast (empty_slots c))" "slot \<notin> set (butlast (empty_slots c))"
      "set (butlast (empty_slots c)) = set (empty_slots c) - {slot}"
  proof -
    have d: "distinct (butlast (empty_slots c) @ [slot])" "set (empty_slots c) = set (butlast (empty_slots c) @ [slot])"
      using I(9) e by simp_all
    then show "distinct (butlast (empty_slots c))" "slot \<notin> set (butlast (empty_slots c))"
      by simp_all
    then show "set (butlast (empty_slots c)) = set (empty_slots c) - {slot}"
      unfolding d(2) by auto
  qed
  show "slots_inv n c' ?sk"
    unfolding slots_inv_def
  proof (intro conjI allI impI)
    show "arr_ok (ctx_sockets c')" using I(1,2) k by (auto simp: ne(4) intro!: arr_push_back_ok)
    show "set (items (ctx_sockets c')) = dom ?sk" using I(2) by (auto simp: ne(4))
    show "length (ctx_slots c') = ?m" using I(3) by (simp add: ne(4))
    show "ctx_slots c' ! term_tid = Some TermBox" "ctx_slots c' ! reaper_tid = Some ReaperBox"
      using I(4,5) b(1) by (simp_all add: ne(4) term_tid_def reaper_tid_def)
    show "distinct (empty_slots c')" using bl(1) by (simp add: ne(4))
    have "set (empty_slots c') = {n + 2..<?m} - tids sk - {slot}" using bl(3) I(10) by (simp add: ne(4))
    then show "set (empty_slots c') = {n + 2..<?m} - tids ?sk"
      using tids_new[of sk k "sock_life_new slot", OF k] by (auto simp: sock_life_new_def)
    fix j x assume "?sk j = Some x"
    then consider "j = k" "x = sock_life_new slot" | "j \<noteq> k" "sk j = Some x" by (auto split: if_splits)
    note jx = this
    show "n + 2 \<le> sk_tid x" using jx b(1) I(6) by cases (auto simp: sock_life_new_def)
    show "sk_tid x < ?m" using jx b(2) I(7) by cases (auto simp: sock_life_new_def)
    show "ctx_slots c' ! sk_tid x = Some (SockBox j)"
      using jx
    proof cases
      case 1
      then show ?thesis using b I(3) by (simp add: ne(4) sock_life_new_def)
    next
      case 2
      then have "slot \<noteq> sk_tid x" using b(3) by blast
      then show ?thesis using I(8)[OF 2(2)] by (simp add: ne(4))
    qed
  qed
  show "log_socket c' = log_socket c" "\<not> ctx_terminating c" "\<not> ctx_terminating c'" using ne by simp_all
qed

lemma slots_create_fail:
  assumes inv: "slots_inv n c sk" and r: "ctx_create_socket t k c = (Inl e, c')"
  shows "c' = c"
  using r by (auto simp: ctx_create_socket_def Let_def split: if_splits)

lemma slots_destroy:
  assumes inv: "slots_inv n c sk" and k: "sk k = Some x"
  shows "\<exists>c' cmds. ctx_destroy_socket k (sk_tid x) c = Some (c', cmds) \<and> slots_inv n c' (sk(k := None)) \<and>
    ctx_terminating c' = ctx_terminating c \<and> log_socket c' = log_socket c \<and>
    cmds = (if ctx_terminating c \<and> dom (sk(k := None)) = {} then [(reaper_tid, LStop)] else [])"
proof -
  note I = slots_invD[OF inv]
  let ?sk = "sk(k := None)" and ?m = "max_sockets + n + 3" and ?t = "sk_tid x"
  have "k \<in> set (items (ctx_sockets c))" using I(2) k by blast
  then obtain i where i: "i < length (items (ctx_sockets c))" "items (ctx_sockets c) ! i = k" by (auto simp: in_set_conv_nth)
  obtain a where a: "arr_erase k (ctx_sockets c) = Some a" "arr_ok a" "set (items a) = set (items (ctx_sockets c)) - {k}"
    using arr_erase_ok[OF I(1) i(1)] i(2) by blast
  have dom: "set (items a) = dom ?sk" using a(3) I(2) by auto
  let ?c = "c\<lparr>empty_slots := empty_slots c @ [?t], ctx_slots := (ctx_slots c)[?t := None], ctx_sockets := a\<rparr>"
  have t: "n + 2 \<le> ?t" "?t < ?m" using I(6,7)[OF k] by simp_all
  have "slots_inv n ?c ?sk"
    unfolding slots_inv_def
  proof (intro conjI allI impI)
    show "arr_ok (ctx_sockets ?c)" "set (items (ctx_sockets ?c)) = dom ?sk" "length (ctx_slots ?c) = ?m"
      using a(2) dom I(3) by simp_all
    show "ctx_slots ?c ! term_tid = Some TermBox" "ctx_slots ?c ! reaper_tid = Some ReaperBox"
      using I(4,5) t(1) by (simp_all add: term_tid_def reaper_tid_def)
    show "distinct (empty_slots ?c)" using I(9,10) tidsI[of sk k x, OF k] by auto
    have "set (empty_slots ?c) = insert ?t ({n + 2..<?m} - tids sk)" using I(10) by simp
    then show "set (empty_slots ?c) = {n + 2..<?m} - tids ?sk"
      using tids_del[OF inv k] t by auto
    fix j y assume "?sk j = Some y"
    then have jy: "j \<noteq> k" "sk j = Some y" by (simp_all split: if_splits)
    show "n + 2 \<le> sk_tid y" "sk_tid y < ?m" using I(6,7)[OF jy(2)] by simp_all
    have "sk_tid y \<noteq> ?t" using tid_inj[OF inv jy(2) k] jy(1) by auto
    then show "ctx_slots ?c ! sk_tid y = Some (SockBox j)" using I(8)[OF jy(2)] by simp
  qed
  moreover have "items a = [] \<longleftrightarrow> dom ?sk = {}" using dom by (metis set_empty)
  ultimately show ?thesis using a(1) by (simp add: ctx_destroy_socket_def Let_def)
qed

text \<open>Changes of a socket that do not touch its slot.\<close>

lemma slots_same:
  assumes "slots_inv n c sk" "sk k = Some x" "sk_tid y = sk_tid x"
  shows "slots_inv n c (sk(k \<mapsto> y))"
proof -
  note I = slots_invD[OF assms(1)]
  have "dom (sk(k \<mapsto> y)) = dom sk" using assms(2) by auto
  moreover have "tids (sk(k \<mapsto> y)) = tids sk" by (rule tids_same[of sk k x y, OF assms(2,3)])
  moreover have "\<forall>j z. (sk(k \<mapsto> y)) j = Some z \<longrightarrow> n + 2 \<le> sk_tid z \<and> sk_tid z < max_sockets + n + 3 \<and>
        ctx_slots c ! sk_tid z = Some (SockBox j)"
    using I(6-8) assms(2,3) by auto
  ultimately show ?thesis using I unfolding slots_inv_def by simp
qed

section \<open>Events\<close>

lemma life_new_inv: "\<exists>s. life_new n = Some s \<and> life_inv n s"
proof -
  obtain c where c: "ctx_new n 0 = Some c" "slots_inv n c [0 \<mapsto> sock_life_new (n + 2)]" "\<not> ctx_terminating c" "log_socket c = Some 0"
    using slots_new by blast
  let ?s = "\<lparr>cx = c, rp = reaper_new, socks = [0 \<mapsto> sock_life_new (n + 2)], rbox = [], tbox = [], sbox = (\<lambda>_. []),
       closed = {}, next_sock = 1, finished = False\<rparr>"
  have "{k. \<exists>x. [0 \<mapsto> sock_life_new (n + 2)] k = Some x \<and> sk_polled x} = {}"
    by (auto simp: sock_life_new_def split: if_splits)
  then have "boxes_inv ?s"
    unfolding boxes_inv_def using c(3,4) by (auto simp: reaper_new_def sock_life_new_def split: if_splits)
  then show ?thesis using c by (simp add: life_new_def life_inv_def)
qed

lemma create_run:
  assumes inv: "life_inv n s" and en: "\<not> finished s"
  shows "\<exists>s'. life_exec (ECreate t) s = Some s' \<and> life_inv n s'"
proof -
  note B = boxes_invD[OF life_invD(2)[OF inv]] and S = life_invD(1)[OF inv]
  obtain r c where r: "ctx_create_socket t (next_sock s) (cx s) = (r, c)" by fastforce
  show ?thesis
  proof (cases r)
    case (Inl e)
    then have "c = cx s" using slots_create_fail[OF S, of t "next_sock s" e c] r by simp
    then show ?thesis using inv r Inl by simp
  next
    case (Inr slot)
    have none: "socks s (next_sock s) = None" by (rule B(1)) simp
    note C = slots_create[OF S none r[unfolded Inr]]
    let ?s = "s\<lparr>cx := c, socks := (socks s)(next_sock s \<mapsto> sock_life_new slot), next_sock := next_sock s + 1\<rparr>"
    have pol: "{k. \<exists>x. socks ?s k = Some x \<and> sk_polled x} = {k. \<exists>x. socks s k = Some x \<and> sk_polled x}"
      using none by (auto simp: sock_life_new_def split: if_splits)
    have cl: "next_sock s \<notin> closed s" using B(5) by auto
    have "boxes_inv ?s"
      unfolding boxes_inv_def pol
    proof (intro conjI allI impI)
      fix k
      show "count_list (rbox ?s) (LReap k) = of_bool (k \<in> closed ?s \<and> (\<exists>x. socks ?s k = Some x \<and> \<not> sk_polled x))"
        using B(2)[of k] none cl by (cases "k = next_sock s") simp_all
      show "next_sock ?s \<le> k \<Longrightarrow> socks ?s k = None" using B(1)[of k] by simp
      fix x assume x: "socks ?s k = Some x"
      show "\<not> sk_destroyed x"
        using x B(3)[of k x] by (cases "k = next_sock s") (auto simp: sock_life_new_def)
      show "sk_polled x \<Longrightarrow> k \<in> closed ?s"
        using x B(4)[of k x] by (cases "k = next_sock s") (auto simp: sock_life_new_def)
    next
      show "closed ?s \<subseteq> {..<next_sock ?s}" using B(5) by auto
      show "rp_sockets (rp ?s) = int (card {k. \<exists>x. socks s k = Some x \<and> sk_polled x} + count_list (rbox ?s) LReaped)"
        using B(6) by simp
      show "count_list (rbox ?s) LStop + of_bool (rp_terminating (rp ?s)) = (of_bool (ctx_terminating (cx ?s) \<and> dom (socks ?s) = {}) :: nat)"
        using B(7) C(4,5) by simp
      show "case log_socket (cx ?s) of Some l \<Rightarrow> \<not> ctx_terminating (cx ?s) \<and> socks ?s l \<noteq> None \<and> l \<notin> closed ?s
        | None \<Rightarrow> ctx_terminating (cx ?s)"
        using B(12) C(3-5) cl none by (cases "log_socket (cx s)") auto
    qed (use B(8-11) en in simp_all)
    then show ?thesis using C(1) r Inr by (simp add: life_inv_def)
  qed
qed

lemma close_run:
  assumes inv: "life_inv n s" and en: "life_enabled (EClose k) s"
  shows "\<exists>s'. life_exec (EClose k) s = Some s' \<and> life_inv n s'"
proof -
  note B = boxes_invD[OF life_invD(2)[OF inv]] and S = life_invD(1)[OF inv]
  let ?s = "s\<lparr>closed := insert k (closed s), rbox := rbox s @ [LReap k]\<rparr>"
  obtain x where x: "socks s k = Some x" "k \<notin> closed s" "log_socket (cx s) \<noteq> Some k" using en by auto
  have np: "\<not> sk_polled x" using B(4)[OF x(1)] x(2) by blast
  have kn: "k < next_sock s" using B(1)[of k] x(1) by (metis not_less option.distinct(1))
  have "boxes_inv ?s"
    unfolding boxes_inv_def
  proof (intro conjI allI impI)
    fix j
    show "count_list (rbox ?s) (LReap j) = of_bool (j \<in> closed ?s \<and> (\<exists>x. socks ?s j = Some x \<and> \<not> sk_polled x))"
      using B(2)[of j] x np by (cases "j = k") (simp_all add: count_list_append)
  next
    show "case log_socket (cx ?s) of Some l \<Rightarrow> \<not> ctx_terminating (cx ?s) \<and> socks ?s l \<noteq> None \<and> l \<notin> closed ?s
        | None \<Rightarrow> ctx_terminating (cx ?s)"
      using B(12) x(3) by (auto split: option.splits)
  qed (use B x kn in \<open>simp_all add: count_list_append\<close>)
  moreover have "life_exec (EClose k) s = Some ?s"
    using reaper_post[of n "s\<lparr>closed := insert k (closed s)\<rparr>" "socks s" "LReap k"] S by (simp add: socket_close_def)
  ultimately show ?thesis using S by (simp add: life_inv_def)
qed

definition finish_socket :: "nat \<Rightarrow> sock_life \<Rightarrow> life_sys \<Rightarrow> life_sys option" where
  "finish_socket k x s = do {
     (sk', c, cmds) \<leftarrow> check_destroy k (socket_process_destroy x) (cx s);
     life_posts cmds (s\<lparr>cx := c, socks := (socks s)(k := sk')\<rparr>)
   }"

lemma finish_socket_run:
  assumes inv: "life_inv n s" and x: "socks s k = Some x" "sk_polled x"
  shows "\<exists>s'. finish_socket k x s = Some s' \<and> life_inv n s'"
proof -
  note B = boxes_invD[OF life_invD(2)[OF inv]] and S = life_invD(1)[OF inv]
  define cmds where "cmds = (if ctx_terminating (cx s) \<and> dom ((socks s)(k := None)) = {} then [LStop] else [])"
  obtain c where c: "ctx_destroy_socket k (sk_tid x) (cx s) = Some (c, map (Pair reaper_tid) cmds)"
      "slots_inv n c ((socks s)(k := None))" "ctx_terminating c = ctx_terminating (cx s)" "log_socket c = log_socket (cx s)"
    using slots_destroy[OF S x(1)] by (auto simp: cmds_def split: if_splits)
  let ?s = "s\<lparr>cx := c, socks := (socks s)(k := None), rbox := rbox s @ cmds @ [LReaped]\<rparr>"
  have posts: "life_posts (map (Pair reaper_tid) cs) t = Some (t\<lparr>rbox := rbox t @ cs\<rparr>)" if "cx t = c" for cs t
    using that by (induction cs arbitrary: t) (simp_all add: reaper_post[where n = n and sk = "(socks s)(k := None)"] c(2))
  have cd: "check_destroy k (socket_process_destroy x) (cx s) = Some (None, c, map (Pair reaper_tid) (cmds @ [LReaped]))"
    using x(2) c(1) by (simp add: check_destroy_def socket_process_destroy_def)
  have "finish_socket k x s = life_posts (map (Pair reaper_tid) (cmds @ [LReaped])) (s\<lparr>cx := c, socks := (socks s)(k := None)\<rparr>)"
    unfolding finish_socket_def cd by simp
  also have "\<dots> = Some ?s" by (subst posts) simp_all
  finally have run: "finish_socket k x s = Some ?s" .
  let ?P = "{j. \<exists>x. socks s j = Some x \<and> sk_polled x}"
  have P: "{j. \<exists>x. socks ?s j = Some x \<and> sk_polled x} = ?P - {k}" "k \<in> ?P" using x by (auto split: if_splits)
  have card: "card ?P = Suc (card (?P - {k}))" by (rule card.remove[OF polled_finite[OF life_invD(2)[OF inv]] P(2)])
  have kc: "k \<in> closed s" by (rule B(4)[OF x])
  have cmds0: "count_list cmds (LReap j) = 0" "count_list cmds LReaped = 0" "LDone \<notin> set cmds" for j by (simp_all add: cmds_def)
  have "boxes_inv ?s"
    unfolding boxes_inv_def P(1)
  proof (intro conjI allI impI)
    fix j
    show "count_list (rbox ?s) (LReap j) = of_bool (j \<in> closed ?s \<and> (\<exists>x. socks ?s j = Some x \<and> \<not> sk_polled x))"
      using B(2)[of j] x cmds0 by (cases "j = k") (simp_all add: count_list_append)
    show "next_sock ?s \<le> j \<Longrightarrow> socks ?s j = None" using B(1)[of j] by simp
    fix y assume "socks ?s j = Some y"
    then have "socks s j = Some y" by (simp split: if_splits)
    then show "\<not> sk_destroyed y" "sk_polled y \<Longrightarrow> j \<in> closed ?s" using B(3,4) by simp_all
  next
    show "rp_sockets (rp ?s) = int (card (?P - {k}) + count_list (rbox ?s) LReaped)"
      using B(6) card cmds0 by (simp add: count_list_append)
    show "count_list (rbox ?s) LStop + of_bool (rp_terminating (rp ?s)) = (of_bool (ctx_terminating (cx ?s) \<and> dom (socks ?s) = {}) :: nat)"
    proof -
      have "dom (socks s) \<noteq> {}" using x(1) by auto
      then have "count_list (rbox s) LStop + of_bool (rp_terminating (rp s)) = (0 :: nat)" using B(7) by simp
      then show ?thesis by (simp add: count_list_append cmds_def c(3))
    qed
    show "case log_socket (cx ?s) of Some l \<Rightarrow> \<not> ctx_terminating (cx ?s) \<and> socks ?s l \<noteq> None \<and> l \<notin> closed ?s
        | None \<Rightarrow> ctx_terminating (cx ?s)"
      using B(12) kc by (auto simp: c(3,4) split: option.splits)
  qed (use B(5,8-11) cmds0 in simp_all)
  then show ?thesis using run c(2) by (simp add: life_inv_def)
qed

lemma done_run:
  assumes inv: "life_inv n s" and en: "life_enabled (EDone k) s"
  shows "\<exists>s'. life_exec (EDone k) s = Some s' \<and> life_inv n s'"
proof -
  obtain x where x: "socks s k = Some x" "sk_polled x" using en by (auto split: option.splits)
  then show ?thesis using finish_socket_run[OF inv x] by (simp add: finish_socket_def)
qed

lemma stop_run:
  assumes inv: "life_inv n s" and en: "life_enabled (EStop k) s"
  shows "\<exists>s'. life_exec (EStop k) s = Some s' \<and> life_inv n s'"
proof -
  note B = boxes_invD[OF life_invD(2)[OF inv]] and S = life_invD(1)[OF inv]
  obtain x where x: "socks s k = Some x" using en by auto
  let ?y = "socket_process_stop x"
  have y: "sk_tid ?y = sk_tid x" "sk_polled ?y = sk_polled x" "sk_destroyed ?y = sk_destroyed x"
    by (simp_all add: socket_process_stop_def)
  let ?s = "s\<lparr>sbox := (sbox s)(k := tl (sbox s k)), socks := (socks s)(k \<mapsto> ?y)\<rparr>"
  have P: "{j. \<exists>x. socks ?s j = Some x \<and> sk_polled x} = {j. \<exists>x. socks s j = Some x \<and> sk_polled x}"
    using x y(2) by auto
  have d: "dom (socks ?s) = dom (socks s)" using x by auto
  have "boxes_inv ?s"
    unfolding boxes_inv_def P d
  proof (intro conjI allI impI)
    fix j
    show "count_list (rbox ?s) (LReap j) = of_bool (j \<in> closed ?s \<and> (\<exists>x. socks ?s j = Some x \<and> \<not> sk_polled x))"
      using B(2)[of j] x y by (cases "j = k") simp_all
    show "next_sock ?s \<le> j \<Longrightarrow> socks ?s j = None" using B(1)[of j] x by (cases "j = k") auto
    fix z assume z: "socks ?s j = Some z"
    show "\<not> sk_destroyed z" using z B(3)[of j] x y(3) by (cases "j = k") auto
    show "sk_polled z \<Longrightarrow> j \<in> closed ?s" using z B(4)[of j] x y(2) by (cases "j = k") auto
  next
    show "case log_socket (cx ?s) of Some l \<Rightarrow> \<not> ctx_terminating (cx ?s) \<and> socks ?s l \<noteq> None \<and> l \<notin> closed ?s
        | None \<Rightarrow> ctx_terminating (cx ?s)"
      using B(12) by (auto split: option.splits)
  qed (use B in simp_all)
  then show ?thesis using x slots_same[OF S x y(1)] by (simp add: life_inv_def)
qed

lemma count_Cons: "count_list (x # xs) y = (if x = y then 1 else 0) + count_list xs y"
  by simp

text \<open>A stopped reaper has no command left.\<close>

lemma stopped_idle:
  assumes B: "boxes_inv s" and st: "rp_stopped (rp s)"
  shows "dom (socks s) = {}" "ctx_terminating (cx s)" "rbox s = []"
proof -
  note B' = boxes_invD[OF B]
  have t: "rp_terminating (rp s)" "rp_sockets (rp s) = 0" using B'(9) st by simp_all
  then have e: "dom (socks s) = {} \<and> ctx_terminating (cx s) \<and> count_list (rbox s) LStop = 0"
    using B'(7) unfolding of_bool_def by (simp split: if_splits)
  then show "dom (socks s) = {}" "ctx_terminating (cx s)" by simp_all
  then have "socks s k = None" for k by (metis domIff empty_iff)
  then have "count_list (rbox s) (LReap k) = 0" for k using B'(2)[of k] by simp
  moreover have "count_list (rbox s) LReaped = 0" using B'(6) t(2) by simp
  ultimately have "c \<notin> set (rbox s)" for c using e B'(8) by (cases c) (simp_all add: count_list_0_iff)
  then show "rbox s = []" by (metis list.set_intros(1) neq_Nil_conv)
qed

lemma reaper_stop_run:
  assumes inv: "life_inv n s" and ns: "\<not> rp_stopped (rp s)" and x: "rbox s = LStop # xs"
  shows "\<exists>s'. reaper_command b LStop (s\<lparr>rbox := xs\<rparr>) = Some s' \<and> life_inv n s'"
proof -
  note B = boxes_invD[OF life_invD(2)[OF inv]] and S = life_invD(1)[OF inv]
  let ?last = "rp_sockets (rp s) = 0"
  let ?r = "(rp s)\<lparr>rp_terminating := True, rp_stopped := ?last \<or> rp_stopped (rp s)\<rparr>"
  let ?s = "s\<lparr>rbox := xs, rp := ?r, tbox := tbox s @ (if ?last then [LDone] else [])\<rparr>"
  have cnt: "count_list (rbox s) LStop = Suc (count_list xs LStop)" "count_list (rbox s) (LReap k) = count_list xs (LReap k)"
      "count_list (rbox s) LReaped = count_list xs LReaped" for k by (simp_all add: x)
  have t: "ctx_terminating (cx s)" "dom (socks s) = {}" "\<not> rp_terminating (rp s)" "count_list xs LStop = 0"
    using B(7) unfolding of_bool_def cnt(1) by (simp_all split: if_splits)
  have nf: "\<not> finished s" "tbox s = []" using B(10,11) ns by auto
  have run: "reaper_command b LStop (s\<lparr>rbox := xs\<rparr>) = Some ?s"
    using ns by (cases "rp s") (simp add: reaper_process_stop_def Let_def term_post[where n = n and sk = "socks s"] S)
  have "boxes_inv ?s"
    unfolding boxes_inv_def
  proof (intro conjI allI impI)
    show "tbox ?s = (if rp_stopped (rp ?s) \<and> \<not> finished ?s then [LDone] else [])" using nf ns by simp
    show "rp_stopped (rp ?s) \<longleftrightarrow> rp_terminating (rp ?s) \<and> rp_sockets (rp ?s) = 0" using ns by simp
    show "LDone \<notin> set (rbox ?s)" using B(8) x by simp
    show "finished ?s \<Longrightarrow> rp_stopped (rp ?s)" using nf by simp
    show "case log_socket (cx ?s) of Some l \<Rightarrow> \<not> ctx_terminating (cx ?s) \<and> socks ?s l \<noteq> None \<and> l \<notin> closed ?s
        | None \<Rightarrow> ctx_terminating (cx ?s)"
      using B(12) by (auto split: option.splits)
    show "count_list (rbox ?s) LStop + of_bool (rp_terminating (rp ?s)) = (of_bool (ctx_terminating (cx ?s) \<and> dom (socks ?s) = {}) :: nat)"
      using t by simp
    show "count_list (rbox ?s) (LReap k) = of_bool (k \<in> closed ?s \<and> (\<exists>x. socks ?s k = Some x \<and> \<not> sk_polled x))" for k
      using B(2)[of k] cnt(2) by simp
    show "rp_sockets (rp ?s) = int (card {k. \<exists>x. socks ?s k = Some x \<and> sk_polled x} + count_list (rbox ?s) LReaped)"
      using B(6) cnt(3) by simp
  qed (use B in simp_all)
  then show ?thesis using run S by (simp add: life_inv_def)
qed

lemma reaper_reaped_run:
  assumes inv: "life_inv n s" and ns: "\<not> rp_stopped (rp s)" and x: "rbox s = LReaped # xs"
  shows "\<exists>s'. reaper_command b LReaped (s\<lparr>rbox := xs\<rparr>) = Some s' \<and> life_inv n s'"
proof -
  note B = boxes_invD[OF life_invD(2)[OF inv]] and S = life_invD(1)[OF inv]
  let ?last = "rp_sockets (rp s) = 1 \<and> rp_terminating (rp s)"
  let ?r = "(rp s)\<lparr>rp_sockets := rp_sockets (rp s) - 1, rp_stopped := ?last \<or> rp_stopped (rp s)\<rparr>"
  let ?s = "s\<lparr>rbox := xs, rp := ?r, tbox := tbox s @ (if ?last then [LDone] else [])\<rparr>"
  have cnt: "count_list (rbox s) LStop = count_list xs LStop" "count_list (rbox s) (LReap k) = count_list xs (LReap k)"
      "count_list (rbox s) LReaped = Suc (count_list xs LReaped)" for k by (simp_all add: x)
  have nf: "\<not> finished s" "tbox s = []" using B(10,11) ns by auto
  have run: "reaper_command b LReaped (s\<lparr>rbox := xs\<rparr>) = Some ?s"
    using ns by (cases "rp s") (simp add: reaper_process_reaped_def Let_def term_post[where n = n and sk = "socks s"] S)
  have "boxes_inv ?s"
    unfolding boxes_inv_def
  proof (intro conjI allI impI)
    show "tbox ?s = (if rp_stopped (rp ?s) \<and> \<not> finished ?s then [LDone] else [])" using nf ns by simp
    show "rp_stopped (rp ?s) \<longleftrightarrow> rp_terminating (rp ?s) \<and> rp_sockets (rp ?s) = 0" using ns by auto
    show "LDone \<notin> set (rbox ?s)" using B(8) x by simp
    show "finished ?s \<Longrightarrow> rp_stopped (rp ?s)" using nf by simp
    show "case log_socket (cx ?s) of Some l \<Rightarrow> \<not> ctx_terminating (cx ?s) \<and> socks ?s l \<noteq> None \<and> l \<notin> closed ?s
        | None \<Rightarrow> ctx_terminating (cx ?s)"
      using B(12) by (auto split: option.splits)
    show "count_list (rbox ?s) LStop + of_bool (rp_terminating (rp ?s)) = (of_bool (ctx_terminating (cx ?s) \<and> dom (socks ?s) = {}) :: nat)"
      using B(7) cnt(1) by simp
    show "count_list (rbox ?s) (LReap k) = of_bool (k \<in> closed ?s \<and> (\<exists>x. socks ?s k = Some x \<and> \<not> sk_polled x))" for k
      using B(2)[of k] cnt(2) by simp
    show "rp_sockets (rp ?s) = int (card {k. \<exists>x. socks ?s k = Some x \<and> sk_polled x} + count_list (rbox ?s) LReaped)"
      using B(6) cnt(3) by simp
  qed (use B in simp_all)
  then show ?thesis using run S by (simp add: life_inv_def)
qed

lemma reaper_reap_run:
  assumes inv: "life_inv n s" and ns: "\<not> rp_stopped (rp s)" and x: "rbox s = LReap k # xs"
  shows "\<exists>s'. reaper_command b (LReap k) (s\<lparr>rbox := xs\<rparr>) = Some s' \<and> life_inv n s'"
proof -
  note B = boxes_invD[OF life_invD(2)[OF inv]] and S = life_invD(1)[OF inv]
  have cnt: "count_list (rbox s) LStop = count_list xs LStop"
      "count_list (rbox s) (LReap j) = (if j = k then 1 else 0) + count_list xs (LReap j)"
      "count_list (rbox s) LReaped = count_list xs LReaped" for j by (simp_all add: x)
  obtain y where y: "socks s k = Some y" "\<not> sk_polled y" "k \<in> closed s" "count_list xs (LReap k) = 0"
    using B(2)[of k] cnt(2)[of k] unfolding of_bool_def by (auto split: if_splits)
  let ?y = "start_reaping y"
  have y': "sk_tid ?y = sk_tid y" "sk_polled ?y" "\<not> sk_destroyed ?y"
    using B(3)[OF y(1)] by (simp_all add: start_reaping_def)
  define s1 where "s1 = s\<lparr>rbox := xs, rp := (rp s)\<lparr>rp_sockets := rp_sockets (rp s) + 1\<rparr>, socks := (socks s)(k \<mapsto> ?y)\<rparr>"
  let ?P = "{j. \<exists>x. socks s j = Some x \<and> sk_polled x}"
  have P: "{j. \<exists>x. socks s1 j = Some x \<and> sk_polled x} = insert k ?P" "k \<notin> ?P" using y y'(2) by (auto simp: s1_def)
  have d: "dom (socks s1) = dom (socks s)" using y(1) by (auto simp: s1_def)
  have "boxes_inv s1"
    unfolding boxes_inv_def P(1) d
  proof (intro conjI allI impI)
    fix j
    show "count_list (rbox s1) (LReap j) = of_bool (j \<in> closed s1 \<and> (\<exists>x. socks s1 j = Some x \<and> \<not> sk_polled x))"
      using B(2)[of j] y(4) y'(2) cnt(2)[of j] by (cases "j = k") (simp_all add: s1_def)
    show "next_sock s1 \<le> j \<Longrightarrow> socks s1 j = None" using B(1)[of j] y(1) by (cases "j = k") (auto simp: s1_def)
    fix z assume z: "socks s1 j = Some z"
    show "\<not> sk_destroyed z" using z B(3)[of j z] y'(3) by (cases "j = k") (auto simp: s1_def)
    show "sk_polled z \<Longrightarrow> j \<in> closed s1" using z B(4)[of j z] y(3) by (cases "j = k") (auto simp: s1_def)
  next
    show "rp_sockets (rp s1) = int (card (insert k ?P) + count_list (rbox s1) LReaped)"
      using B(6) cnt(3) P(2) polled_finite[OF life_invD(2)[OF inv]] by (simp add: s1_def)
    show "case log_socket (cx s1) of Some l \<Rightarrow> \<not> ctx_terminating (cx s1) \<and> socks s1 l \<noteq> None \<and> l \<notin> closed s1
        | None \<Rightarrow> ctx_terminating (cx s1)"
      using B(12) by (auto simp: s1_def split: option.splits)
    have "dom (socks s) \<noteq> {}" using y(1) by auto
    then have "\<not> rp_terminating (rp s)" using B(7) by (simp split: if_splits)
    then show "rp_stopped (rp s1) \<longleftrightarrow> rp_terminating (rp s1) \<and> rp_sockets (rp s1) = 0" using ns by (simp add: s1_def)
    show "LDone \<notin> set (rbox s1)" using B(8) x by (simp add: s1_def)
    show "count_list (rbox s1) LStop + of_bool (rp_terminating (rp s1)) = (of_bool (ctx_terminating (cx s1) \<and> dom (socks s) = {}) :: nat)"
      using B(7) cnt(1) by (simp add: s1_def)
  qed (use B(5,10,11) in \<open>simp_all add: s1_def\<close>)
  then have i1: "life_inv n s1" using slots_same[OF S y(1) y'(1)] by (simp add: life_inv_def s1_def)
  show ?thesis
  proof (cases b)
    case False
    then have "reaper_command b (LReap k) (s\<lparr>rbox := xs\<rparr>) = Some s1"
      using y(1) y'(3) by (simp add: reaper_process_reap_def check_destroy_def s1_def)
    then show ?thesis using i1 by blast
  next
    case True
    have "socks s1 k = Some ?y" by (simp add: s1_def)
    then obtain s' where s': "finish_socket k ?y s1 = Some s'" "life_inv n s'"
      using finish_socket_run[OF i1 _ y'(2)] by blast
    obtain sk c cmds where cd: "check_destroy k (socket_process_destroy ?y) (cx s) = Some (sk, c, cmds)"
      using s'(1) by (cases "check_destroy k (socket_process_destroy ?y) (cx s)") (auto simp: finish_socket_def s1_def)
    have "reaper_command b (LReap k) (s\<lparr>rbox := xs\<rparr>) = finish_socket k ?y s1"
      using True y(1) cd by (cases s) (simp add: reaper_process_reap_def finish_socket_def s1_def)
    then show ?thesis using s' by simp
  qed
qed

lemma reaper_run:
  assumes inv: "life_inv n s" and en: "life_enabled (EReaper b) s"
  shows "\<exists>s'. life_exec (EReaper b) s = Some s' \<and> life_inv n s'"
proof -
  obtain x xs where x: "rbox s = x # xs" "\<not> rp_stopped (rp s)" using en by (cases "rbox s") auto
  show ?thesis
  proof (cases x)
    case LStop
    then show ?thesis using reaper_stop_run[OF inv x(2)] x(1) by simp
  next
    case (LReap k)
    then show ?thesis using reaper_reap_run[OF inv x(2)] x(1) by simp
  next
    case LReaped
    then show ?thesis using reaper_reaped_run[OF inv x(2)] x(1) by simp
  next
    case LDone
    then show ?thesis using boxes_invD(8)[OF life_invD(2)[OF inv]] x(1) by simp
  qed
qed

lemma finish_run:
  assumes inv: "life_inv n s" and en: "life_enabled EFinish s"
  shows "\<exists>s'. life_exec EFinish s = Some s' \<and> life_inv n s'"
proof -
  note B = boxes_invD[OF life_invD(2)[OF inv]] and S = life_invD(1)[OF inv]
  have st: "rp_stopped (rp s)" "\<not> finished s" "tbox s = [LDone]" using B(10) en by (auto split: if_splits)
  have "set (items (ctx_sockets (cx s))) = {}"
    using slots_invD(2)[OF S] stopped_idle(1)[OF life_invD(2)[OF inv] st(1)] by simp
  then have "items (ctx_sockets (cx s)) = []" by simp
  then have run: "life_exec EFinish s = Some (s\<lparr>tbox := [], finished := True\<rparr>)"
    using st(3) by (simp add: ctx_terminate_finish_def)
  have "boxes_inv (s\<lparr>tbox := [], finished := True\<rparr>)"
    unfolding boxes_inv_def
  proof (intro conjI allI impI)
    show "case log_socket (cx (s\<lparr>tbox := [], finished := True\<rparr>)) of
        Some l \<Rightarrow> \<not> ctx_terminating (cx (s\<lparr>tbox := [], finished := True\<rparr>)) \<and>
          socks (s\<lparr>tbox := [], finished := True\<rparr>) l \<noteq> None \<and> l \<notin> closed (s\<lparr>tbox := [], finished := True\<rparr>)
      | None \<Rightarrow> ctx_terminating (cx (s\<lparr>tbox := [], finished := True\<rparr>))"
      using B(12) by (cases "log_socket (cx s)") simp_all
  qed (use B st(1) in simp_all)
  then show ?thesis using run S by (simp add: life_inv_def)
qed

lemma posts_stop:
  assumes "slots_inv n (cx s) sk" "\<forall>k \<in> set ks. \<exists>x. sk k = Some x \<and> f k = sk_tid x"
  shows "\<exists>sb. life_posts (map (\<lambda>k. (f k, LStop)) ks @ cmds) s = life_posts cmds (s\<lparr>sbox := sb\<rparr>)"
  using assms
proof (induction ks arbitrary: s)
  case Nil
  show ?case by (rule exI[of _ "sbox s"]) simp
next
  case (Cons k ks)
  obtain x where x: "sk k = Some x" "f k = sk_tid x" using Cons.prems(2) by auto
  have "ctx_mailbox (f k) (cx s) = Some (SockBox k)"
    using slots_invD(3,7,8)[OF Cons.prems(1)] x by (simp add: ctx_mailbox_def)
  then have "life_post (f k, LStop) s = Some (s\<lparr>sbox := (sbox s)(k := sbox s k @ [LStop])\<rparr>)"
    by (simp add: life_post_def)
  then show ?case
    using Cons.IH[of "s\<lparr>sbox := (sbox s)(k := sbox s k @ [LStop])\<rparr>"] Cons.prems by auto
qed

lemma zmq_term_run:
  assumes inv: "life_inv n s" and en: "life_enabled ETerm s"
  shows "\<exists>s'. life_exec ETerm s = Some s' \<and> life_inv n s'"
proof (cases "ctx_terminating (cx s)")
  case True
  note B = boxes_invD[OF life_invD(2)[OF inv]]
  have "log_socket (cx s) = None" using B(12) True by (simp split: option.splits)
  then have "life_exec ETerm s = Some s" using True by (simp add: ctx_terminate_start_def)
  then show ?thesis using inv by blast
next
  case False
  note B = boxes_invD[OF life_invD(2)[OF inv]] and S = life_invD(1)[OF inv]
  obtain l where l: "log_socket (cx s) = Some l" "socks s l \<noteq> None" "l \<notin> closed s"
    using B(12) False by (auto split: option.splits)
  obtain x where x: "socks s l = Some x" using l(2) by blast
  have np: "\<not> sk_polled x" using B(4)[OF x] l(3) by blast
  have ln: "l < next_sock s" using B(1)[of l] l(2) by (metis not_less)
  let ?c = "(cx s)\<lparr>log_socket := None, ctx_terminating := True\<rparr>"
  have ne: "items (ctx_sockets (cx s)) \<noteq> []" using slots_invD(2)[OF S] x by (metis domI empty_iff set_empty)
  have S': "slots_inv n ?c (socks s)" using S by (simp add: slots_inv_def)
  let ?f = "\<lambda>k. case socks s k of Some sk \<Rightarrow> sk_tid sk | None \<Rightarrow> 0"
  define s1 where "s1 = s\<lparr>cx := ?c, closed := insert l (closed s), rbox := rbox s @ [LReap l]\<rparr>"
  have "\<forall>k \<in> set (items (ctx_sockets (cx s))). \<exists>x. socks s k = Some x \<and> ?f k = sk_tid x"
    using slots_invD(2)[OF S] by auto
  then obtain sb where sb: "life_posts (map (\<lambda>k. (?f k, LStop)) (items (ctx_sockets (cx s))) @ []) s1 = life_posts [] (s1\<lparr>sbox := sb\<rparr>)"
    using posts_stop[of n s1 "socks s" "items (ctx_sockets (cx s))" ?f "[]"] S' by (auto simp: s1_def)
  have run: "life_exec ETerm s = Some (s1\<lparr>sbox := sb\<rparr>)"
    using sb False l(1) ne
    by (simp add: ctx_terminate_start_def reaper_post[where n = n and sk = "socks s"] S' s1_def)
  have "boxes_inv (s1\<lparr>sbox := sb\<rparr>)"
    unfolding boxes_inv_def
  proof (intro conjI allI impI)
    fix j
    show "count_list (rbox (s1\<lparr>sbox := sb\<rparr>)) (LReap j) =
        of_bool (j \<in> closed (s1\<lparr>sbox := sb\<rparr>) \<and> (\<exists>x. socks (s1\<lparr>sbox := sb\<rparr>) j = Some x \<and> \<not> sk_polled x))"
      using B(2)[of j] x np l(3) by (cases "j = l") (simp_all add: s1_def count_list_append)
  next
    show "count_list (rbox (s1\<lparr>sbox := sb\<rparr>)) LStop + of_bool (rp_terminating (rp (s1\<lparr>sbox := sb\<rparr>))) =
        (of_bool (ctx_terminating (cx (s1\<lparr>sbox := sb\<rparr>)) \<and> dom (socks (s1\<lparr>sbox := sb\<rparr>)) = {}) :: nat)"
      using B(7) x False by (auto simp: s1_def count_list_append)
  qed (use B ln in \<open>simp_all add: s1_def count_list_append\<close>)
  then show ?thesis using run S' by (auto simp: life_inv_def s1_def)
qed

lemma life_exec_run:
  assumes "life_inv n s" "life_enabled e s"
  shows "\<exists>s'. life_exec e s = Some s' \<and> life_inv n s'"
proof (cases e)
  case (ECreate t)
  then show ?thesis using create_run[OF assms(1)] assms(2) by simp
next
  case (EClose k)
  then show ?thesis using close_run[OF assms(1)] assms(2) by blast
next
  case (EReaper b)
  then show ?thesis using reaper_run[OF assms(1)] assms(2) by blast
next
  case (EDone k)
  then show ?thesis using done_run[OF assms(1)] assms(2) by blast
next
  case (EStop k)
  then show ?thesis using stop_run[OF assms(1)] assms(2) by blast
next
  case ETerm
  then show ?thesis using zmq_term_run[OF assms(1)] assms(2) by blast
next
  case EFinish
  then show ?thesis using finish_run[OF assms(1)] assms(2) by blast
qed

lemma life_reach_inv: "life_reach n s \<Longrightarrow> life_inv n s"
proof (induction rule: life_reach.induct)
  case (life_init s)
  then show ?case using life_new_inv[of n] by auto
next
  case (life_step s e s')
  then show ?case using life_exec_run[OF life_step.IH life_step.hyps(2)] by auto
qed

end
