(* ===== verification/Context.thy ===== *)
theory Context
  imports LifeSafety
begin

text \<open>
  What the context promises: no operation on sockets fails, the slots limit the number of sockets, \<^verbatim>\<open>zmq_term\<close>
  returns when all sockets have gone, and new objects go to the I/O thread with the least load.
\<close>

fun life_runs :: "life_ev list \<Rightarrow> life_sys \<Rightarrow> life_sys option" where
  "life_runs [] s = Some s"
| "life_runs (e # es) s = (if life_enabled e s then do { s' \<leftarrow> life_exec e s; life_runs es s' } else None)"

lemma life_runs_reach: "life_reach n s \<Longrightarrow> life_runs es s = Some s' \<Longrightarrow> life_reach n s'"
proof (induction es arbitrary: s)
  case (Cons e es)
  then obtain s1 where "life_enabled e s" "life_exec e s = Some s1" "life_runs es s1 = Some s'"
    by (auto split: if_splits bind_splits)
  then show ?case using Cons.IH life_step[OF Cons.prems(1)] by blast
qed simp

lemma life_new_state:
  "\<exists>s. life_new n = Some s \<and> life_reach n s \<and> \<not> finished s \<and> rbox s = [] \<and> socks s = [0 \<mapsto> sock_life_new (n + 2)] \<and>
    \<not> ctx_terminating (cx s) \<and> log_socket (cx s) = Some 0"
proof -
  obtain c where "ctx_new n 0 = Some c" "\<not> ctx_terminating c" "log_socket c = Some 0" using slots_new by blast
  then show ?thesis using life_init[of n] by (auto simp: life_new_def)
qed



text \<open>C13: \<^verbatim>\<open>zmq_term\<close> returns exactly when it should. The thread that called it is woken up, once, exactly when
  the call was made, every socket (the log socket included) has been deallocated and the reaper has handled its
  commands. In particular a socket that the user does not close keeps \<^verbatim>\<open>zmq_term\<close> waiting, and nothing else does.\<close>
theorem term_returns_when_sockets_gone:
  assumes "life_reach n s"
  shows "(tbox s = [LDone] \<or> finished s) = (ctx_terminating (cx s) \<and> (\<forall>k. socks s k = None) \<and> rbox s = [])"
proof -
  note I = life_invD(2)[OF life_reach_inv[OF assms]]
  note B = boxes_invD[OF I]
  have "rp_stopped (rp s)" if t: "ctx_terminating (cx s)" "\<forall>k. socks s k = None" "rbox s = []"
  proof -
    have "rp_terminating (rp s)" using B(7) t unfolding of_bool_def by (auto simp: fun_eq_iff split: if_splits)
    moreover have "rp_sockets (rp s) = 0" using B(6) t by simp
    ultimately show ?thesis using B(9) by simp
  qed
  moreover have "socks s k = None" if "rp_stopped (rp s)" for k
    using stopped_idle(1)[OF I that] by (metis domIff empty_iff)
  ultimately have "rp_stopped (rp s) = (ctx_terminating (cx s) \<and> (\<forall>k. socks s k = None) \<and> rbox s = [])"
    using stopped_idle(2,3)[OF I] by blast
  moreover have "(tbox s = [LDone] \<or> finished s) = rp_stopped (rp s)" using B(10,11) by auto
  ultimately show ?thesis by simp
qed

theorem term_returns_when_sockets_gone_witness: "\<exists>s. life_reach 1 s \<and> \<not> (tbox s = [LDone] \<or> finished s)"
proof -
  obtain s where "life_reach 1 s" "\<not> ctx_terminating (cx s)" using life_new_state by blast
  then show ?thesis using term_returns_when_sockets_gone by blast
qed

text \<open>C40: the slots bound the number of sockets. There are never more than \<open>max_sockets\<close> sockets besides the log
  socket; creating one fails for want of a slot exactly when there are as many as that, and otherwise the new socket gets
  a slot of its own: one that is neither reserved for a thread of the library nor in use by another socket.\<close>
theorem socket_slots_bounded:
  assumes "life_reach n s" "\<not> ctx_terminating (cx s)" "socket_type_ok t"
  shows "card (dom (socks s) - {the (log_socket (cx s))}) \<le> max_sockets \<and>
    (case fst (ctx_create_socket t k (cx s)) of
       Inl e \<Rightarrow> e = EMFILE \<and> card (dom (socks s) - {the (log_socket (cx s))}) = max_sockets
     | Inr slot \<Rightarrow> card (dom (socks s) - {the (log_socket (cx s))}) < max_sockets \<and>
         n + 2 \<le> slot \<and> slot < max_sockets + n + 3 \<and> (\<forall>j x. socks s j = Some x \<longrightarrow> sk_tid x \<noteq> slot))"
proof -
  note I = life_reach_inv[OF assms(1)]
  note S = slots_invD[OF life_invD(1)[OF I]] and B = boxes_invD[OF life_invD(2)[OF I]]
  let ?A = "{n + 2..<max_sockets + n + 3}" and ?D = "dom (socks s)"
  have sub: "tids (socks s) \<subseteq> ?A" using S(6,7) by (auto simp: tids_def)
  have "bij_betw (\<lambda>k. sk_tid (the (socks s k))) ?D (tids (socks s))"
    unfolding bij_betw_def
  proof
    show "inj_on (\<lambda>k. sk_tid (the (socks s k))) ?D"
      by (rule inj_onI) (use tid_inj[OF life_invD(1)[OF I]] in force)
    show "(\<lambda>k. sk_tid (the (socks s k))) ` ?D = tids (socks s)" by (force simp: tids_def)
  qed
  then have cD: "card ?D = card (tids (socks s))" by (rule bij_betw_same_card)
  have fin: "finite ?D" using S(2) by (metis finite_set)
  obtain l where l: "log_socket (cx s) = Some l" "l \<in> ?D" using B(12) assms(2) by (auto split: option.splits)
  have cl: "card ?D = Suc (card (?D - {l}))" by (rule card.remove[OF fin l(2)])
  have "card (set (empty_slots (cx s))) = card ?A - card (tids (socks s))"
    unfolding S(10) by (rule card_Diff_subset[OF finite_subset[OF sub] sub]) simp
  then have len: "length (empty_slots (cx s)) = Suc max_sockets - card ?D"
    using S(9) cD by (simp add: distinct_card)
  have le: "card ?D \<le> Suc max_sockets" using card_mono[OF _ sub] cD by simp
  show ?thesis
  proof (cases "empty_slots (cx s) = []")
    case True
    then have "card ?D = Suc max_sockets" using len le by simp
    then show ?thesis using True l(1) cl assms(2) by (simp add: ctx_create_socket_def)
  next
    case False
    then have "card ?D < Suc max_sockets" using len by (cases "empty_slots (cx s)") simp_all
    moreover have "last (empty_slots (cx s)) \<in> ?A - tids (socks s)" using False S(10) by (metis last_in_set)
    moreover from this have "\<forall>j x. socks s j = Some x \<longrightarrow> sk_tid x \<noteq> last (empty_slots (cx s))"
      using tidsI[of "socks s"] by (metis DiffD2)
    moreover have "fst (ctx_create_socket t k (cx s)) = Inr (last (empty_slots (cx s)))"
      using False assms(2,3) by (simp add: ctx_create_socket_def Let_def)
    ultimately show ?thesis using l(1) cl by auto
  qed
qed

theorem socket_slots_bounded_witness:
  "\<exists>s slot. life_reach 4 s \<and> fst (ctx_create_socket ZMQ_REP 1 (cx s)) = Inr slot \<and> 6 \<le> slot \<and> slot < 519 \<and>
    (\<forall>j x. socks s j = Some x \<longrightarrow> sk_tid x \<noteq> slot)"
proof -
  obtain s where s: "life_reach 4 s" "\<not> ctx_terminating (cx s)" "socks s = [0 \<mapsto> sock_life_new (4 + 2)]"
      "log_socket (cx s) = Some 0"
    using life_new_state by blast
  have "card (dom (socks s) - {the (log_socket (cx s))}) = 0" using s(3,4) by simp
  moreover have "socket_type_ok ZMQ_REP" by (simp add: socket_type_ok_def)
  ultimately show ?thesis
    using socket_slots_bounded[OF s(1,2), of ZMQ_REP 1] s(1)
    by (cases "fst (ctx_create_socket ZMQ_REP 1 (cx s))") (auto simp: max_sockets_def)
qed

section \<open>I/O threads\<close>

definition eligible :: "u64 \<Rightarrow> nat \<Rightarrow> bool" where
  "eligible aff i \<longleftrightarrow> aff = 0 \<or> bit aff i"

lemma least_loaded_spec:
  assumes "least_loaded aff i loads m r = (m', r')" "\<forall>l \<in> set loads. 0 \<le> l" "m = -1 \<or> 0 \<le> m"
  shows "(m' = m \<and> r' = r \<and> (\<forall>j < length loads. eligible aff (i + j) \<longrightarrow> m \<noteq> -1 \<and> m \<le> loads ! j)) \<or>
    (\<exists>j < length loads. r' = i + j \<and> m' = loads ! j \<and> eligible aff (i + j) \<and> (m \<noteq> -1 \<longrightarrow> m' < m) \<and>
      (\<forall>k < length loads. eligible aff (i + k) \<longrightarrow> m' \<le> loads ! k))"
  using assms
proof (induction aff i loads m r rule: least_loaded.induct)
  case (1 aff i m r)
  then show ?case by simp
next
  case (2 aff i l loads m r)
  have el: "(aff = 0 \<or> aff AND push_bit i 1 \<noteq> 0) = eligible aff i"
    by (simp add: eligible_def bit_iff_and_push_bit_not_eq_0)
  show ?case
  proof (cases "eligible aff i \<and> (m = -1 \<or> l < m)")
    case True
    then have run: "least_loaded aff (i + 1) loads l i = (m', r')" using 2(4) el by auto
    have "0 \<le> l" using 2(5) by simp
    then consider "m' = l" "r' = i" "\<forall>j < length loads. eligible aff (i + 1 + j) \<longrightarrow> l \<le> loads ! j"
      | j where "j < length loads" "r' = i + 1 + j" "m' = loads ! j" "eligible aff (i + 1 + j)" "m' < l"
        "\<forall>k < length loads. eligible aff (i + 1 + k) \<longrightarrow> m' \<le> loads ! k"
      using 2(1)[OF _ _ run] True el 2(5) by force
    then show ?thesis
    proof cases
      case 1
      have "m' \<le> (l # loads) ! k" if "k < length (l # loads)" "eligible aff (i + k)" for k
        using 1(1,3) that by (cases k) auto
      then show ?thesis using 1(1,2) True by (intro disjI2 exI[of _ 0]) auto
    next
      case (2 j)
      have "m' \<le> (l # loads) ! k" if "k < length (l # loads)" "eligible aff (i + k)" for k
        using 2(5,6) that by (cases k) auto
      moreover have "m \<noteq> -1 \<longrightarrow> m' < m" using 2(5) True by auto
      ultimately show ?thesis using 2(1-4) by (intro disjI2 exI[of _ "Suc j"]) simp
    qed
  next
    case False
    then have run: "least_loaded aff (i + 1) loads m r = (m', r')" using 2(4) el by auto
    have ih: "(m' = m \<and> r' = r \<and> (\<forall>j < length loads. eligible aff (i + 1 + j) \<longrightarrow> m \<noteq> -1 \<and> m \<le> loads ! j)) \<or>
      (\<exists>j < length loads. r' = i + 1 + j \<and> m' = loads ! j \<and> eligible aff (i + 1 + j) \<and> (m \<noteq> -1 \<longrightarrow> m' < m) \<and>
        (\<forall>k < length loads. eligible aff (i + 1 + k) \<longrightarrow> m' \<le> loads ! k))"
      using 2(2)[OF _ _ run] 2(3)[OF _ run] False el 2(5,6) by force
    have head: "eligible aff i \<longrightarrow> m \<noteq> -1 \<and> m \<le> l" using False by auto
    from ih show ?thesis
    proof
      assume a: "m' = m \<and> r' = r \<and> (\<forall>j < length loads. eligible aff (i + 1 + j) \<longrightarrow> m \<noteq> -1 \<and> m \<le> loads ! j)"
      have "m \<noteq> -1 \<and> m \<le> (l # loads) ! k" if "k < length (l # loads)" "eligible aff (i + k)" for k
        using a head that by (cases k) auto
      then show ?thesis using a by blast
    next
      assume "\<exists>j < length loads. r' = i + 1 + j \<and> m' = loads ! j \<and> eligible aff (i + 1 + j) \<and> (m \<noteq> -1 \<longrightarrow> m' < m) \<and>
        (\<forall>k < length loads. eligible aff (i + 1 + k) \<longrightarrow> m' \<le> loads ! k)"
      then obtain j where j: "j < length loads" "r' = i + 1 + j" "m' = loads ! j" "eligible aff (i + 1 + j)" "m \<noteq> -1 \<longrightarrow> m' < m"
        "\<forall>k < length loads. eligible aff (i + 1 + k) \<longrightarrow> m' \<le> loads ! k" by blast
      have "m' \<le> (l # loads) ! k" if "k < length (l # loads)" "eligible aff (i + k)" for k
        using j(5,6) head that by (cases k) auto
      then show ?thesis using j by (intro disjI2 exI[of _ "Suc j"]) simp
    qed
  qed
qed

text \<open>New listeners and sessions go to the I/O thread with the least load among those that the affinity allows
  (all of them if it is zero). There is none exactly when the context has no I/O threads; when there are threads but the
  affinity allows none of them, the process is aborted by an assertion.\<close>
lemma io_thread_least_loaded:
  assumes "\<forall>t \<in> set (io_threads c). 0 \<le> load t"
  shows "case choose_io_thread aff load c of
      None \<Rightarrow> io_threads c \<noteq> [] \<and> (\<forall>i < length (io_threads c). \<not> eligible aff i)
    | Some None \<Rightarrow> io_threads c = []
    | Some (Some t) \<Rightarrow> \<exists>i < length (io_threads c). t = io_threads c ! i \<and> eligible aff i \<and>
        (\<forall>j < length (io_threads c). eligible aff j \<longrightarrow> load t \<le> load (io_threads c ! j))"
proof (cases "io_threads c = []")
  case True
  then show ?thesis by (simp add: choose_io_thread_def)
next
  case False
  let ?l = "map load (io_threads c)"
  obtain m r where mr: "least_loaded aff 0 ?l (-1) 0 = (m, r)" by fastforce
  have spec: "(m = -1 \<and> (\<forall>j < length ?l. \<not> eligible aff j)) \<or>
    (\<exists>j < length ?l. r = j \<and> m = ?l ! j \<and> eligible aff j \<and> (\<forall>k < length ?l. eligible aff k \<longrightarrow> m \<le> ?l ! k))"
    using least_loaded_spec[OF mr] assms by auto
  then show ?thesis
  proof
    assume "m = -1 \<and> (\<forall>j < length ?l. \<not> eligible aff j)"
    then show ?thesis using False mr by (simp add: choose_io_thread_def)
  next
    assume "\<exists>j < length ?l. r = j \<and> m = ?l ! j \<and> eligible aff j \<and> (\<forall>k < length ?l. eligible aff k \<longrightarrow> m \<le> ?l ! k)"
    then obtain j where j: "j < length (io_threads c)" "r = j" "m = load (io_threads c ! j)" "eligible aff j"
        "\<forall>k < length (io_threads c). eligible aff k \<longrightarrow> m \<le> load (io_threads c ! k)" by auto
    have "0 \<le> m" using assms j(1,3) by simp
    then have "choose_io_thread aff load c = Some (Some (io_threads c ! j))"
      using False mr j(2) by (simp add: choose_io_thread_def)
    then show ?thesis using j by auto
  qed
qed

text \<open>The registry of endpoints: an address has one owner, and a socket that terminates gives all of its addresses up.\<close>

lemma endpoint_found: "fst (register_endpoint a ep c) = OK \<Longrightarrow> find_endpoint a (snd (register_endpoint a ep c)) = Inr ep"
  by (auto simp: register_endpoint_def find_endpoint_def split: if_splits)

lemma endpoint_taken: "find_endpoint a c = Inr ep \<Longrightarrow> register_endpoint a ep' c = (Err EADDRINUSE, c)"
  by (auto simp: register_endpoint_def find_endpoint_def split: option.splits)

lemma endpoint_gone:
  "find_endpoint a (unregister_endpoints k c) =
    (case find_endpoint a c of Inr ep \<Rightarrow> if ep_socket ep = k then Inl ECONNREFUSED else Inr ep | Inl e \<Rightarrow> Inl e)"
  by (simp add: find_endpoint_def unregister_endpoints_def split: option.splits)

end
