(* ===== verification/Trie.thy ===== *)
theory Trie
  imports Prelude
begin

text \<open>
  \<^verbatim>\<open>src/trie.hpp\<close>, \<^verbatim>\<open>src/trie.cpp\<close>: the subscriptions of a SUB socket, as a trie
  with a reference counter per prefix. A node keeps the range \<open>min, \<dots>, min + count - 1\<close> of the
  characters it has a slot for; the union \<open>next\<close> is a single pointer when \<open>count\<close> is 1 and a table
  when it is larger. Reading the wrong member of the union, or outside the table, or through a null
  pointer is \<open>None\<close>.

  \<open>subs t p\<close> is the abstract content: how often the prefix \<open>p\<close> is subscribed. The lemmas show that
  \<open>add\<close>, \<open>rm\<close> and \<open>check\<close> are the operations on it.
\<close>

datatype 't trie_next = Node "'t option" | Table "'t option list"

datatype trie = Trie (refcnt: u32) (trie_min: byte) (trie_count: nat) (live_nodes: nat)
  (trie_next: "trie trie_next")

definition trie_new :: trie where
  "trie_new = Trie 0 0 0 0 (Node None)"

definition is_redundant :: "trie \<Rightarrow> bool" where
  "is_redundant t \<longleftrightarrow> refcnt t = 0 \<and> live_nodes t = 0"

definition in_range :: "byte \<Rightarrow> trie \<Rightarrow> bool" where
  "in_range c t \<longleftrightarrow> trie_min t \<le> c \<and> unat c < unat (trie_min t) + trie_count t"

text \<open>The slot of a character in range.\<close>

definition load_next :: "byte \<Rightarrow> trie \<Rightarrow> trie option option" where
  "load_next c t =
     (if trie_count t = 1 then (case trie_next t of Node p \<Rightarrow> Some p | Table _ \<Rightarrow> None)
      else (case trie_next t of
              Node _ \<Rightarrow> None
            | Table ts \<Rightarrow> let i = unat c - unat (trie_min t) in if i < length ts then Some (ts ! i) else None))"

definition store_next :: "byte \<Rightarrow> trie option \<Rightarrow> nat \<Rightarrow> trie \<Rightarrow> trie" where
  "store_next c p lv t =
     (case trie_next t of
        Node _ \<Rightarrow> Trie (refcnt t) (trie_min t) (trie_count t) lv (Node p)
      | Table ts \<Rightarrow> Trie (refcnt t) (trie_min t) (trie_count t) lv
          (Table (ts[unat c - unat (trie_min t) := p])))"

text \<open>Extending the table for a character out of range: the first part of \<open>add\<close>.\<close>

definition trie_extend :: "byte \<Rightarrow> trie \<Rightarrow> trie option" where
  "trie_extend c t =
     (if in_range c t then Some t
      else let r = refcnt t; m = trie_min t; n = trie_count t; lv = live_nodes t in
        if n = 0 then Some (Trie r c 1 lv (Node None))
        else if n = 1 then
          (case trie_next t of
             Table _ \<Rightarrow> None
           | Node oldp \<Rightarrow>
               let n' = (if m < c then unat c - unat m else unat m - unat c) + 1;
                   m' = min m c
               in Some (Trie r m' n' lv (Table ((replicate n' None)[unat m - unat m' := oldp]))))
        else if m < c then
          (case trie_next t of
             Node _ \<Rightarrow> None
           | Table ts \<Rightarrow>
               let n' = unat c - unat m + 1
               in Some (Trie r m n' lv (Table (ts @ replicate (n' - n) None))))
        else
          (case trie_next t of
             Node _ \<Rightarrow> None
           | Table ts \<Rightarrow>
               let n' = (unat m + n) - unat c
               in Some (Trie r c n' lv (Table (replicate (unat m - unat c) None @ ts)))))"

fun trie_add :: "byte list \<Rightarrow> trie \<Rightarrow> trie option" where
  "trie_add [] t = Some (Trie (refcnt t + 1) (trie_min t) (trie_count t) (live_nodes t) (trie_next t))"
| "trie_add (c # p) t = do {
     t1 \<leftarrow> trie_extend c t;
     slot \<leftarrow> load_next c t1;
     let (ch, lv) = (case slot of None \<Rightarrow> (trie_new, live_nodes t1 + 1) | Some ch \<Rightarrow> (ch, live_nodes t1));
     ch' \<leftarrow> trie_add p ch;
     Some (store_next c (Some ch') lv t1)
   }"

fun trie_rm :: "byte list \<Rightarrow> trie \<Rightarrow> (bool \<times> trie) option" where
  "trie_rm [] t =
     (if refcnt t = 0 then Some (False, t)
      else Some (True, Trie (refcnt t - 1) (trie_min t) (trie_count t) (live_nodes t) (trie_next t)))"
| "trie_rm (c # p) t =
     (if trie_count t = 0 \<or> \<not> in_range c t then Some (False, t)
      else do {
        slot \<leftarrow> load_next c t;
        (case slot of
           None \<Rightarrow> Some (False, t)
         | Some next_node \<Rightarrow> do {
             (ret, next') \<leftarrow> trie_rm p next_node;
             Some (ret,
               if is_redundant next' then
                 if trie_count t = 1
                 then Trie (refcnt t) (trie_min t) 0 (live_nodes t - 1) (Node None)
                 else store_next c None (live_nodes t - 1) t
               else store_next c (Some next') (live_nodes t) t)
           })
      })"

fun trie_check :: "byte list \<Rightarrow> trie \<Rightarrow> bool option" where
  "trie_check data t =
     (if refcnt t \<noteq> 0 then Some True
      else case data of
        [] \<Rightarrow> Some False
      | c # data' \<Rightarrow>
          if \<not> in_range c t then Some False
          else if trie_count t = 1 then
            (case trie_next t of Node (Some ch) \<Rightarrow> trie_check data' ch | _ \<Rightarrow> None)
          else do {
            slot \<leftarrow> load_next c t;
            (case slot of None \<Rightarrow> Some False | Some ch \<Rightarrow> trie_check data' ch)
          })"

declare trie_check.simps [simp del]

text \<open>The destructor; its result is the number of nodes it frees.\<close>

fun sum_freed :: "nat option option list \<Rightarrow> nat option" where
  "sum_freed [] = Some 0"
| "sum_freed (None # ds) = sum_freed ds"
| "sum_freed (Some d # ds) = do { k \<leftarrow> d; n \<leftarrow> sum_freed ds; Some (k + n) }"

primrec trie_delete :: "trie \<Rightarrow> nat option" where
  "trie_delete (Trie r m n lv nx) =
     (let freed = map_trie_next trie_delete nx
      in if n = 1 then
           (case freed of Node p \<Rightarrow> do { zmq_assert (p \<noteq> None); d \<leftarrow> p; k \<leftarrow> d; Some (Suc k) } | Table _ \<Rightarrow> None)
         else if 1 < n then
           (case freed of Node _ \<Rightarrow> None
            | Table ds \<Rightarrow> do { zmq_assert (length ds = n); k \<leftarrow> sum_freed ds; Some (Suc k) })
         else Some 1)"

section \<open>The content\<close>

text \<open>The child behind a character, and the counter behind a path.\<close>

definition child :: "byte \<Rightarrow> trie \<Rightarrow> trie option" where
  "child c t = (if in_range c t then Option.bind (load_next c t) id else None)"

fun subs :: "trie \<Rightarrow> byte list \<Rightarrow> u32" where
  "subs t [] = refcnt t"
| "subs t (c # p) = (case child c t of None \<Rightarrow> 0 | Some ch \<Rightarrow> subs ch p)"

definition layout :: "trie \<Rightarrow> bool" where
  "layout t \<longleftrightarrow> unat (trie_min t) + trie_count t \<le> 256 \<and>
     (trie_count t = 1 \<longrightarrow> (\<exists>ch. trie_next t = Node (Some ch))) \<and>
     (1 < trie_count t \<longrightarrow> (\<exists>ts. trie_next t = Table ts \<and> length ts = trie_count t))"

inductive trie_ok :: "trie \<Rightarrow> bool" where
  "layout t \<Longrightarrow> live_nodes t = card {c. child c t \<noteq> None} \<Longrightarrow>
   (\<And>c ch. child c t = Some ch \<Longrightarrow> trie_ok ch \<and> \<not> is_redundant ch) \<Longrightarrow> trie_ok t"

inductive_cases trie_okE: "trie_ok t"



definition union_ok :: "trie \<Rightarrow> bool" where
  "union_ok t \<longleftrightarrow> unat (trie_min t) + trie_count t \<le> 256 \<and>
     (trie_count t = 1 \<longrightarrow> (\<exists>p. trie_next t = Node p)) \<and>
     (1 < trie_count t \<longrightarrow> (\<exists>ts. trie_next t = Table ts \<and> length ts = trie_count t))"

lemma layout_union_ok: "layout t \<Longrightarrow> union_ok t"
  by (auto simp: layout_def union_ok_def)

lemma byte_less_256: "unat (c :: byte) < 256"
  using unsigned_less[of c] by simp

lemma in_range_nat: "in_range c t \<longleftrightarrow> unat (trie_min t) \<le> unat c \<and> unat c < unat (trie_min t) + trie_count t"
  by (simp add: in_range_def word_le_nat_alt)

lemma load_next_Some: "union_ok t \<Longrightarrow> in_range c t \<Longrightarrow> load_next c t = Some (child c t)"
  by (auto simp: union_ok_def in_range_nat load_next_def child_def Let_def split: trie_next.splits)

lemma extend_zero:
  assumes "trie_count t = 0"
  shows "\<exists>t1. trie_extend c t = Some t1 \<and> union_ok t1 \<and> in_range c t1 \<and> refcnt t1 = refcnt t \<and>
    live_nodes t1 = live_nodes t \<and> (\<forall>d. child d t1 = child d t)"
  using assms byte_less_256[of c]
  by (auto simp: trie_extend_def in_range_nat Let_def union_ok_def child_def load_next_def)

lemma extend_one:
  assumes "trie_count t = 1" "union_ok t" "\<not> in_range c t"
  shows "\<exists>t1. trie_extend c t = Some t1 \<and> union_ok t1 \<and> in_range c t1 \<and> refcnt t1 = refcnt t \<and>
    live_nodes t1 = live_nodes t \<and> (\<forall>d. child d t1 = child d t)"
proof -
  obtain p where p: "trie_next t = Node p" using assms by (auto simp: union_ok_def)
  let ?m = "trie_min t"
  have ne: "unat c \<noteq> unat ?m" using assms(1,3) by (auto simp: in_range_nat)
  show ?thesis
  proof (cases "unat ?m < unat c")
    case True
    then have "min ?m c = ?m" "?m < c" by (simp_all add: min_def word_le_nat_alt word_less_nat_alt)
    then show ?thesis
      using True assms p ne byte_less_256[of c] byte_less_256[of ?m]
      by (auto simp: trie_extend_def Let_def union_ok_def child_def in_range_nat load_next_def
          nth_list_update simp del: replicate_Suc list_update.simps)
  next
    case False
    then have "min ?m c = c" "\<not> ?m < c" using ne by (simp_all add: min_def word_le_nat_alt word_less_nat_alt)
    then show ?thesis
      using False assms p ne byte_less_256[of c] byte_less_256[of ?m]
      by (auto simp: trie_extend_def Let_def union_ok_def child_def in_range_nat load_next_def
          nth_list_update simp del: replicate_Suc list_update.simps)
  qed
qed

lemma extend_table:
  assumes "1 < trie_count t" "union_ok t" "\<not> in_range c t"
  shows "\<exists>t1. trie_extend c t = Some t1 \<and> union_ok t1 \<and> in_range c t1 \<and> refcnt t1 = refcnt t \<and>
    live_nodes t1 = live_nodes t \<and> (\<forall>d. child d t1 = child d t)"
proof -
  obtain ts where p: "trie_next t = Table ts" "length ts = trie_count t"
    using assms by (auto simp: union_ok_def)
  let ?m = "trie_min t"
  show ?thesis
  proof (cases "unat ?m < unat c")
    case True
    then have "?m < c" by (simp add: word_less_nat_alt)
    then show ?thesis
      using True assms p byte_less_256[of c]
      by (auto simp: trie_extend_def Let_def union_ok_def child_def in_range_nat load_next_def nth_append)
  next
    case False
    then have "\<not> ?m < c" by (simp add: word_less_nat_alt)
    then show ?thesis
      using False assms p byte_less_256[of c] byte_less_256[of ?m]
      by (auto simp: trie_extend_def Let_def union_ok_def child_def in_range_nat load_next_def nth_append)
  qed
qed

lemma trie_extend_spec:
  assumes "union_ok t"
  shows "\<exists>t1. trie_extend c t = Some t1 \<and> union_ok t1 \<and> in_range c t1 \<and> refcnt t1 = refcnt t \<and>
    live_nodes t1 = live_nodes t \<and> (\<forall>d. child d t1 = child d t)"
proof (cases "in_range c t")
  case True
  then show ?thesis using assms by (simp add: trie_extend_def)
next
  case False
  consider "trie_count t = 0" | "trie_count t = 1" | "1 < trie_count t" by linarith
  then show ?thesis using assms False extend_zero extend_one extend_table by cases blast+
qed

lemma store_next_spec:
  assumes "union_ok t" "in_range c t"
  shows "union_ok (store_next c p lv t)" "refcnt (store_next c p lv t) = refcnt t"
    "live_nodes (store_next c p lv t) = lv" "trie_count (store_next c p lv t) = trie_count t"
    "child d (store_next c p lv t) = (if d = c then p else child d t)"
    "trie_count t = 1 \<Longrightarrow> trie_next (store_next c p lv t) = Node p"
proof -
  have idx: "c = d" if "unat c - k = unat d - k" "k \<le> unat c" "k \<le> unat d" for d k
    using that by (simp add: word_unat_eq_iff)
  have idx': "c = d" if "unat c < Suc k" "unat d < Suc k" "k \<le> unat c" "k \<le> unat d" for d k
    using that by (simp add: word_unat_eq_iff)
  show "child d (store_next c p lv t) = (if d = c then p else child d t)"
    using assms by (auto simp: union_ok_def store_next_def child_def in_range_nat load_next_def Let_def
      nth_list_update split: trie_next.splits dest: idx idx')
qed (use assms in \<open>auto simp: union_ok_def store_next_def in_range_nat split: trie_next.splits\<close>)

lemma trie_okD:
  assumes "trie_ok t"
  shows "layout t" "live_nodes t = card {c. child c t \<noteq> None}" "union_ok t"
    "child c t = Some ch \<Longrightarrow> trie_ok ch" "child c t = Some ch \<Longrightarrow> \<not> is_redundant ch"
  using assms layout_union_ok by (auto elim: trie_okE)

lemma trie_new_ok: "trie_ok trie_new" "child c trie_new = None" "subs trie_new p = 0"
proof -
  have ch: "child c trie_new = None" for c
    by (auto simp: child_def in_range_nat trie_new_def)
  then show "child c trie_new = None" "subs trie_new p = 0"
    by (cases p; simp add: trie_new_def)+
  show "trie_ok trie_new"
    by (rule trie_ok.intros) (simp_all add: ch, simp_all add: layout_def trie_new_def)
qed

lemma redundant_subs:
  assumes "trie_ok t" "is_redundant t"
  shows "subs t p = 0"
proof -
  have "{c. child c t \<noteq> None} = {}"
    using trie_okD(2)[OF assms(1)] assms(2) by (simp add: is_redundant_def)
  then show ?thesis using assms(2) by (cases p) (auto simp: is_redundant_def)
qed

text \<open>One slot of a trie is replaced.\<close>

lemma trie_ok_store:
  assumes "union_ok t" "in_range c t"
    and "\<And>d ch. d \<noteq> c \<Longrightarrow> child d t = Some ch \<Longrightarrow> trie_ok ch \<and> \<not> is_redundant ch"
    and "\<And>ch. p = Some ch \<Longrightarrow> trie_ok ch \<and> \<not> is_redundant ch"
    and "trie_count t = 1 \<Longrightarrow> p \<noteq> None"
    and "lv = card {d. (if d = c then p else child d t) \<noteq> None}"
  shows "trie_ok (store_next c p lv t)"
proof (rule trie_ok.intros)
  note S = store_next_spec[OF assms(1,2), where p = p and lv = lv]
  show "layout (store_next c p lv t)"
    using S assms(5) by (auto simp: layout_def union_ok_def)
  show "live_nodes (store_next c p lv t) = card {d. child d (store_next c p lv t) \<noteq> None}"
    using S(3,5) assms(6) by simp
  show "trie_ok ch \<and> \<not> is_redundant ch" if "child d (store_next c p lv t) = Some ch" for d ch
    using that S(5) assms(3,4) by (auto split: if_splits)
qed

lemma trie_ok_refcnt:
  assumes "trie_ok t"
  shows "trie_ok (Trie r (trie_min t) (trie_count t) (live_nodes t) (trie_next t))" (is "trie_ok ?t")
proof (rule trie_ok.intros)
  have ch: "child d ?t = child d t" for d
    by (cases t) (simp add: child_def in_range_nat load_next_def split: trie_next.splits)
  show "layout ?t" using trie_okD(1)[OF assms] by (simp add: layout_def)
  show "live_nodes ?t = card {c. child c ?t \<noteq> None}" using trie_okD(2)[OF assms] ch by simp
  show "trie_ok ch' \<and> \<not> is_redundant ch'" if "child d ?t = Some ch'" for d ch'
    using that trie_okD(4,5)[OF assms] ch by simp
qed

lemma child_refcnt [simp]:
  "child d (Trie r (trie_min t) (trie_count t) lv (trie_next t)) = child d t"
  by (cases t) (simp add: child_def in_range_nat load_next_def split: trie_next.splits)

lemma subs_refcnt [simp]:
  "subs (Trie r (trie_min t) (trie_count t) lv (trie_next t)) = (subs t)([] := r)"
proof
  fix p
  show "subs (Trie r (trie_min t) (trie_count t) lv (trie_next t)) p = ((subs t)([] := r)) p"
    by (cases p) simp_all
qed

lemma trie_add_spec:
  "trie_ok t \<Longrightarrow> subs t p + 1 \<noteq> 0 \<Longrightarrow>
   \<exists>t'. trie_add p t = Some t' \<and> trie_ok t' \<and> \<not> is_redundant t' \<and> subs t' = (subs t)(p := subs t p + 1)"
proof (induction p arbitrary: t)
  case Nil
  then show ?case by (auto simp: trie_ok_refcnt is_redundant_def fun_upd_def)
next
  case (Cons c p)
  note T = trie_okD[OF Cons.prems(1)]
  obtain t1 where t1: "trie_extend c t = Some t1" "union_ok t1" "in_range c t1" "refcnt t1 = refcnt t"
      "live_nodes t1 = live_nodes t" "\<And>d. child d t1 = child d t"
    using trie_extend_spec[OF T(3)] by blast
  define ch where "ch = (case child c t of None \<Rightarrow> trie_new | Some ch \<Rightarrow> ch)"
  define lv where "lv = (case child c t of None \<Rightarrow> live_nodes t + 1 | Some _ \<Rightarrow> live_nodes t)"
  have ch: "trie_ok ch" "subs ch q = subs t (c # q)" for q
    using trie_new_ok T(4) by (auto simp: ch_def split: option.splits)
  obtain ch' where ch': "trie_add p ch = Some ch'" "trie_ok ch'" "\<not> is_redundant ch'"
      "subs ch' = (subs ch)(p := subs ch p + 1)"
    using Cons.IH[OF ch(1)] Cons.prems(2) ch(2)[of p] by (metis (no_types))
  let ?t = "store_next c (Some ch') lv t1"
  have add: "trie_add (c # p) t = Some ?t"
    using t1 load_next_Some[OF t1(2,3)] ch'(1)
    by (simp add: ch_def lv_def Let_def split: option.splits)
  have set: "{d. (if d = c then Some ch' else child d t1) \<noteq> None} = insert c {d. child d t \<noteq> None}"
    using t1(6) by auto
  have lv: "lv = card (insert c {d. child d t \<noteq> None})"
    using T(2) by (auto simp: lv_def card_insert_if split: option.splits)
  have "trie_ok ?t"
    using trie_okD(4,5)[OF Cons.prems(1)] t1(6) ch'(2,3) lv set
    by (intro trie_ok_store[OF t1(2,3)]) auto
  moreover have "\<not> is_redundant ?t"
    using lv store_next_spec(3)[OF t1(2,3)] by (simp add: is_redundant_def card_eq_0_iff)
  moreover have "subs ?t = (subs t)(c # p := subs t (c # p) + 1)"
  proof
    fix q
    show "subs ?t q = ((subs t)(c # p := subs t (c # p) + 1)) q"
      using store_next_spec[OF t1(2,3)] t1(4,6) ch'(4) ch(2) by (cases q) auto
  qed
  ultimately show ?case using add by blast
qed


lemma trie_rm_spec:
  "trie_ok t \<Longrightarrow>
   \<exists>t'. trie_rm p t = Some (subs t p \<noteq> 0, t') \<and> trie_ok t' \<and>
     subs t' = (if subs t p = 0 then subs t else (subs t)(p := subs t p - 1))"
proof (induction p arbitrary: t)
  case Nil
  then show ?case by (auto simp: trie_ok_refcnt fun_upd_def)
next
  case (Cons c p)
  note T = trie_okD[OF Cons.prems(1)]
  have zero: "\<exists>t'. trie_rm (c # p) t = Some (subs t (c # p) \<noteq> 0, t') \<and> trie_ok t' \<and>
     subs t' = (if subs t (c # p) = 0 then subs t else (subs t)(c # p := subs t (c # p) - 1))"
    if "child c t = None" "trie_rm (c # p) t = Some (False, t)"
    using that Cons.prems by simp
  show ?case
  proof (cases "child c t")
    case None
    have "trie_rm (c # p) t = Some (False, t)"
      using load_next_Some[OF T(3)] None by auto
    then show ?thesis using zero None by simp
  next
    case (Some ch)
    then have c: "in_range c t" "trie_count t \<noteq> 0" by (auto simp: child_def in_range_nat split: if_splits)
    obtain ch' where ch': "trie_rm p ch = Some (subs ch p \<noteq> 0, ch')" "trie_ok ch'"
        "subs ch' = (if subs ch p = 0 then subs ch else (subs ch)(p := subs ch p - 1))"
      using Cons.IH[OF T(4)[OF Some]] by blast
    define slot where "slot = (if is_redundant ch' then None else Some ch')"
    define lv where "lv = (if is_redundant ch' then live_nodes t - 1 else live_nodes t)"
    define t' where "t' = (if is_redundant ch' \<and> trie_count t = 1
        then Trie (refcnt t) (trie_min t) 0 (live_nodes t - 1) (Node None)
        else store_next c slot lv t)"
    have rm: "trie_rm (c # p) t = Some (subs t (c # p) \<noteq> 0, t')"
      using c load_next_Some[OF T(3) c(1)] Some ch'(1) by (simp add: t'_def slot_def lv_def)
    have lv: "lv = card {d. (if d = c then slot else child d t) \<noteq> None}"
    proof (cases "is_redundant ch'")
      case True
      then have "{d. (if d = c then slot else child d t) \<noteq> None} = {d. child d t \<noteq> None} - {c}"
        by (auto simp: slot_def)
      then show ?thesis using True T(2) Some by (simp add: lv_def)
    next
      case False
      then have "{d. (if d = c then slot else child d t) \<noteq> None} = {d. child d t \<noteq> None}"
        using Some by (auto simp: slot_def)
      then show ?thesis using False T(2) by (simp add: lv_def)
    qed
    have child: "child d t' = (if d = c then slot else child d t)" for d
    proof (cases "is_redundant ch' \<and> trie_count t = 1")
      case True
      then have "d \<noteq> c \<Longrightarrow> child d t = None"
        using c(1) by (auto simp: child_def in_range_nat word_unat_eq_iff)
      then show ?thesis using True by (auto simp: t'_def slot_def child_def[of _ "Trie _ _ 0 _ _"] in_range_nat)
    next
      case False
      then have "t' = store_next c slot lv t" unfolding t'_def by auto
      then show ?thesis using store_next_spec(5)[OF T(3) c(1)] by simp
    qed
    have "trie_ok t'"
    proof (cases "is_redundant ch' \<and> trie_count t = 1")
      case True
      then have "live_nodes t' = card {d. child d t' \<noteq> None}"
        using lv child by (simp add: t'_def lv_def)
      then show ?thesis
        using True child T(4,5) byte_less_256[of "trie_min t"]
        by (intro trie_ok.intros) (auto simp: t'_def layout_def slot_def less_imp_le split: if_splits)
    next
      case False
      then have "t' = store_next c slot lv t" unfolding t'_def by auto
      then show ?thesis
        using lv False T(4,5) ch'(2)
        by (auto intro!: trie_ok_store[OF T(3) c(1)] simp: slot_def split: if_splits)
    qed
    moreover have "subs t' = (if subs t (c # p) = 0 then subs t else (subs t)(c # p := subs t (c # p) - 1))"
    proof
      fix q
      have "refcnt t' = refcnt t" using store_next_spec(2)[OF T(3) c(1)] by (simp add: t'_def)
      moreover have "(case slot of None \<Rightarrow> 0 | Some ch \<Rightarrow> subs ch r) = subs ch' r" for r
        using redundant_subs[OF ch'(2)] by (simp add: slot_def)
      ultimately show "subs t' q = (if subs t (c # p) = 0 then subs t else (subs t)(c # p := subs t (c # p) - 1)) q"
        using child ch'(3) Some by (cases q) auto
    qed
    ultimately show ?thesis using rm by blast
  qed
qed

lemma trie_check_spec:
  "trie_ok t \<Longrightarrow> trie_check data t = Some (\<exists>k \<le> length data. subs t (take k data) \<noteq> 0)"
proof (induction data arbitrary: t)
  case Nil
  then show ?case by (simp add: trie_check.simps)
next
  case (Cons c data)
  note T = trie_okD[OF Cons.prems]
  have split: "(\<exists>k \<le> length (c # data). subs t (take k (c # data)) \<noteq> 0) \<longleftrightarrow>
      refcnt t \<noteq> 0 \<or> (\<exists>ch. child c t = Some ch \<and> (\<exists>k \<le> length data. subs ch (take k data) \<noteq> 0))"
    (is "?L \<longleftrightarrow> ?R")
  proof
    assume ?L
    then obtain k where k: "k \<le> length (c # data)" "subs t (take k (c # data)) \<noteq> 0" by blast
    then show ?R by (cases k) (auto split: option.splits)
  next
    assume ?R
    then show ?L
    proof
      assume "refcnt t \<noteq> 0"
      then show ?L by (intro exI[of _ 0]) simp
    next
      assume "\<exists>ch. child c t = Some ch \<and> (\<exists>k \<le> length data. subs ch (take k data) \<noteq> 0)"
      then obtain ch k where "child c t = Some ch" "k \<le> length data" "subs ch (take k data) \<noteq> 0" by blast
      then show ?L by (intro exI[of _ "Suc k"]) simp
    qed
  qed
  show ?case
  proof (cases "refcnt t \<noteq> 0 \<or> \<not> in_range c t")
    case True
    then show ?thesis unfolding split by (subst trie_check.simps) (auto simp: child_def)
  next
    case False
    then have c: "in_range c t" "refcnt t = 0" by auto
    have "trie_check (c # data) t = (case child c t of None \<Rightarrow> Some False | Some ch \<Rightarrow> trie_check data ch)"
    proof (cases "trie_count t = 1")
      case True
      then obtain ch where "trie_next t = Node (Some ch)" using T(1) by (auto simp: layout_def)
      then show ?thesis using c True by (subst trie_check.simps) (simp add: child_def load_next_def)
    next
      case False
      then show ?thesis using c load_next_Some[OF T(3) c(1)] by (subst trie_check.simps) simp
    qed
    then show ?thesis unfolding split using Cons.IH T(4) c(2) by (auto split: option.splits)
  qed
qed

text \<open>A subscription-free trie has given all its nodes back.\<close>

lemma subs_witness: "trie_ok t \<Longrightarrow> \<not> is_redundant t \<Longrightarrow> \<exists>p. subs t p \<noteq> 0"
proof (induction rule: trie_ok.induct)
  case (1 t)
  show ?case
  proof (cases "refcnt t = 0")
    case True
    then have "card {c. child c t \<noteq> None} \<noteq> 0" using 1 by (simp add: is_redundant_def)
    then have "{c. child c t \<noteq> None} \<noteq> {}" by (metis card.empty)
    then obtain c ch where ch: "child c t = Some ch" by auto
    then obtain p where "subs ch p \<noteq> 0" using 1(3) by blast
    then show ?thesis using ch by (intro exI[of _ "c # p"]) simp
  qed (auto intro: exI[of _ "[]"])
qed

lemma sum_freed_Some:
  "(\<And>d. Some d \<in> set ds \<Longrightarrow> d \<noteq> None) \<Longrightarrow> \<exists>k. sum_freed ds = Some k"
  by (induction ds rule: sum_freed.induct) fastforce+

lemma table_child:
  assumes "union_ok t" "trie_next t = Table ts" "1 < trie_count t" "Some ch \<in> set ts"
  shows "\<exists>c. child c t = Some ch"
proof -
  obtain i where i: "i < trie_count t" "ts ! i = Some ch" "length ts = trie_count t"
    using assms by (auto simp: in_set_conv_nth union_ok_def)
  define c :: byte where "c = of_nat (unat (trie_min t) + i)"
  have "unat c = unat (trie_min t) + i"
    using assms(1) i(1) unfolding c_def unat_of_nat by (simp add: union_ok_def)
  then show ?thesis
    using i assms(2,3) by (intro exI[of _ c]) (simp add: child_def in_range_nat load_next_def Let_def)
qed

lemma trie_delete_Some: "trie_ok t \<Longrightarrow> \<exists>k. trie_delete t = Some k"
proof (induction rule: trie_ok.induct)
  case (1 t)
  obtain r m n lv nx where t: "t = Trie r m n lv nx" by (cases t)
  consider "n = 0" | "n = 1" | "1 < n" by linarith
  then show ?case
  proof cases
    case 2
    then obtain ch where nx: "nx = Node (Some ch)" using 1(1) t by (auto simp: layout_def)
    then have "child m t = Some ch"
      using 2 t by (simp add: child_def in_range_nat load_next_def)
    then obtain k where "trie_delete ch = Some k" using 1(3) by blast
    then show ?thesis using 2 t nx by simp
  next
    case 3
    then obtain ts where nx: "nx = Table ts" "length ts = n" using 1(1) t by (auto simp: layout_def)
    have "\<exists>k. trie_delete ch = Some k" if "Some ch \<in> set ts" for ch
      using table_child[OF layout_union_ok[OF 1(1)], of ts ch] that 1(3) 3 nx t by auto
    then have "\<exists>k. sum_freed (map (map_option trie_delete) ts) = Some k"
      by (intro sum_freed_Some) (force simp: in_set_conv_nth map_option_case split: option.splits)
    then show ?thesis using 3 nx t by auto
  qed (simp add: t)
qed

section \<open>Properties\<close>

datatype trie_op = Subscribe blob | Unsubscribe blob

text \<open>A sequence of calls, with the results of the removals.\<close>

fun trie_run :: "trie_op list \<Rightarrow> trie \<Rightarrow> (bool list \<times> trie) option" where
  "trie_run [] t = Some ([], t)"
| "trie_run (Subscribe p # ops) t = do { t' \<leftarrow> trie_add p t; trie_run ops t' }"
| "trie_run (Unsubscribe p # ops) t = do {
     (r, t') \<leftarrow> trie_rm p t;
     (rs, t2) \<leftarrow> trie_run ops t';
     Some (r # rs, t2)
   }"

text \<open>The specification: how often each prefix is subscribed.\<close>

fun spec_run :: "trie_op list \<Rightarrow> (blob \<Rightarrow> nat) \<Rightarrow> bool list \<times> (blob \<Rightarrow> nat)" where
  "spec_run [] f = ([], f)"
| "spec_run (Subscribe p # ops) f = spec_run ops (f(p := f p + 1))"
| "spec_run (Unsubscribe p # ops) f =
     (let (rs, g) = spec_run ops (f(p := f p - 1)) in ((0 < f p) # rs, g))"

lemma trie_run_refines:
  "trie_ok t \<Longrightarrow> \<forall>p. unat (subs t p) = f p \<Longrightarrow> \<forall>p. f p + length ops < 2 ^ 32 \<Longrightarrow>
   \<exists>t'. trie_run ops t = Some (fst (spec_run ops f), t') \<and> trie_ok t' \<and>
     (\<forall>p. unat (subs t' p) = snd (spec_run ops f) p)"
proof (induction ops arbitrary: t f)
  case (Cons op ops)
  show ?case
  proof (cases op)
    case (Subscribe p)
    have lt: "unat (subs t p) + 1 < 2 ^ 32"
      using Cons.prems(2,3)[rule_format, of p] by simp
    then have inc: "unat (subs t p + 1) = f p + 1"
      using Cons.prems(2) by (simp add: unat_word_ariths)
    then have "subs t p + 1 \<noteq> 0" by (metis Suc_eq_plus1 nat.distinct(1) unat_0)
    then obtain t' where t': "trie_add p t = Some t'" "trie_ok t'" "subs t' = (subs t)(p := subs t p + 1)"
      using trie_add_spec[OF Cons.prems(1)] by blast
    have "\<forall>q. (f(p := f p + 1)) q + length ops < 2 ^ 32"
      using Cons.prems(3) by (auto simp: Suc_lessD)
    moreover have "\<forall>q. unat (subs t' q) = (f(p := f p + 1)) q"
      using t'(3) inc Cons.prems(2) by simp
    ultimately show ?thesis
      using Cons.IH[OF t'(2)] t'(1) Subscribe by simp
  next
    case (Unsubscribe p)
    obtain t' where t': "trie_rm p t = Some (subs t p \<noteq> 0, t')" "trie_ok t'"
        "subs t' = (if subs t p = 0 then subs t else (subs t)(p := subs t p - 1))"
      using trie_rm_spec[OF Cons.prems(1)] by blast
    define g where "g = f(p := f p - Suc 0)"
    have eq: "\<forall>q. unat (subs t' q) = g q"
      using t'(3) Cons.prems(2)[rule_format, symmetric] by (auto simp: g_def unat_minus_one)
    have lt: "\<forall>q. g q + length ops < 2 ^ 32"
    proof
      fix q
      show "g q + length ops < 2 ^ 32"
        using Cons.prems(3)[rule_format, of q] by (cases "q = p") (simp_all add: g_def)
    qed
    have "subs t p \<noteq> 0 \<longleftrightarrow> 0 < f p"
      using Cons.prems(2) by (metis gr0I unat_eq_zero less_irrefl)
    moreover obtain t2 where "trie_run ops t' = Some (fst (spec_run ops g), t2)" "trie_ok t2"
        "\<forall>p. unat (subs t2 p) = snd (spec_run ops g) p"
      using Cons.IH[OF t'(2) eq lt] by blast
    ultimately show ?thesis
      using t'(1) Unsubscribe by (simp add: g_def[symmetric] split: prod.splits)
  qed
qed auto

text \<open>C22: The trie represents the subscriptions. After fewer than \<open>2\<^sup>3\<^sup>2\<close> calls that add and remove
  prefixes, in any order and with any repetitions, no call has failed an assertion or made an invalid
  access; each removal reported whether the prefix was subscribed; a message matches if and only if
  some prefix of it is still subscribed (counting repeated subscriptions); the root has no nodes below
  it exactly when no prefix is subscribed; and the destructor ends without failing its assertion.\<close>

theorem trie_represents_subscriptions:
  assumes "length ops < 2 ^ 32"
  shows "\<exists>t. trie_run ops trie_new = Some (fst (spec_run ops (\<lambda>_. 0)), t) \<and>
    (\<forall>data. trie_check data t = Some (\<exists>k \<le> length data. 0 < snd (spec_run ops (\<lambda>_. 0)) (take k data))) \<and>
    (is_redundant t \<longleftrightarrow> (\<forall>p. snd (spec_run ops (\<lambda>_. 0)) p = 0)) \<and>
    (\<exists>k. trie_delete t = Some k)"
proof -
  obtain t where t: "trie_run ops trie_new = Some (fst (spec_run ops (\<lambda>_. 0)), t)" "trie_ok t"
      "\<forall>p. unat (subs t p) = snd (spec_run ops (\<lambda>_. 0)) p"
    using trie_run_refines[OF trie_new_ok(1), of "\<lambda>_. 0" ops] assms trie_new_ok(3) by auto
  have pos: "subs t p \<noteq> 0 \<longleftrightarrow> 0 < snd (spec_run ops (\<lambda>_. 0)) p" for p
    using t(3) by (metis gr0I unat_eq_zero less_irrefl)
  have "trie_check data t = Some (\<exists>k \<le> length data. 0 < snd (spec_run ops (\<lambda>_. 0)) (take k data))" for data
    using trie_check_spec[OF t(2)] pos by simp
  moreover have "is_redundant t \<longleftrightarrow> (\<forall>p. snd (spec_run ops (\<lambda>_. 0)) p = 0)"
    using redundant_subs[OF t(2)] subs_witness[OF t(2)] pos by (metis less_numeral_extra(3) neq0_conv)
  ultimately show ?thesis using t(1) trie_delete_Some[OF t(2)] by blast
qed

theorem trie_represents_subscriptions_witness:
  "\<exists>t. trie_run [Subscribe [1, 2], Subscribe [1], Unsubscribe [1], Unsubscribe [3]] trie_new =
      Some ([True, False], t) \<and>
    trie_check [1, 2, 3] t = Some True \<and> trie_check [1, 3] t = Some False"
proof -
  let ?ops = "[Subscribe [1, 2], Subscribe [1], Unsubscribe [1], Unsubscribe [3]]"
  obtain t where t: "trie_run ?ops trie_new = Some (fst (spec_run ?ops (\<lambda>_. 0)), t)"
      "\<And>data. trie_check data t = Some (\<exists>k \<le> length data. 0 < snd (spec_run ?ops (\<lambda>_. 0)) (take k data))"
    using trie_represents_subscriptions[of ?ops] by auto
  have "\<exists>k \<le> length [1, 2, 3]. 0 < snd (spec_run ?ops (\<lambda>_. 0)) (take k [1, 2, 3])"
    by (rule exI[of _ 2]) simp
  then have 1: "trie_check [1, 2, 3] t = Some True" unfolding t(2) by simp
  have "snd (spec_run ?ops (\<lambda>_. 0)) (take k [1, 3]) = 0" for k
    by (cases k; cases "k - 1") (auto simp: take_Cons' numeral_2_eq_2)
  then have 2: "trie_check [1, 3] t = Some False" unfolding t(2) by simp
  show ?thesis using t(1) 1 2 by (auto simp: Let_def)
qed

end
