(* ===== verification/PipeReaders.thy ===== *)
theory PipeReaders
  imports PipeEnds Fq
begin

text \<open>
  The readers of the pipes a socket holds, as the provider of the interface of the fair queue. A
  pipe is \<open>framed\<close> when what its reader can see ends at the end of a message and a delimiter stands
  at the end only: the writer flushes complete messages, and a delimiter is the last thing it writes.
\<close>

definition pipe_reader_ops :: "pipe_world reader_ops" where
  "pipe_reader_ops = \<lparr>
     op_read = (\<lambda>p w. do { (v, c, acts) \<leftarrow> reader_read (conns w p); Some (v, set_conn p c acts w) }),
     op_check_read = (\<lambda>p w. do { (ok, c, acts) \<leftarrow> reader_check_read (conns w p); Some (ok, set_conn p c acts w) }),
     op_rterminate = (\<lambda>p w. do { (c, acts) \<leftarrow> reader_terminate (conns w p); Some (set_conn p c acts w) }),
     op_rset_sink = (\<lambda>p w. do { c \<leftarrow> reader_set_event_sink (conns w p); Some (set_conn p c [] w) })\<rparr>"

definition framed :: "msg list \<Rightarrow> bool" where
  "framed xs \<longleftrightarrow> (\<forall>i < length xs.
     (has_more (xs ! i) \<longrightarrow> Suc i < length xs \<and> \<not> is_delim (xs ! Suc i)) \<and>
     (is_delim (xs ! i) \<longrightarrow> Suc i = length xs))"

definition visible_items :: "msg pipe_view \<Rightarrow> msg list" where
  "visible_items A = prefetched A @ visible A"

definition reader_valid :: "conn \<Rightarrow> bool" where
  "reader_valid c \<longleftrightarrow> (\<exists>r p cs A. creader c = Some r \<and> r_writer r \<and> cpipe c = Some p \<and> yp_rel p cs A \<and>
     framed (visible_items A))"

text \<open>A part that is not a delimiter can be read.\<close>

definition reader_avail :: "conn \<Rightarrow> bool" where
  "reader_avail c \<longleftrightarrow>
     (case (creader c, cpipe c) of
        (Some r, Some p) \<Rightarrow> r_active r \<and>
          (case ypipe_read p of Some (Some m, _) \<Rightarrow> \<not> is_delim m | _ \<Rightarrow> False)
      | _ \<Rightarrow> False)"

lemma avail_view:
  assumes "creader c = Some r" "cpipe c = Some p" "yp_rel p cs A"
  shows "reader_avail c \<longleftrightarrow> r_active r \<and> visible_items A \<noteq> [] \<and> \<not> is_delim (hd (visible_items A))"
proof -
  obtain p' where "ypipe_read p = Some (fst (view_read A), p')" using ypipe_read_rel[OF assms(3)] by blast
  moreover have "fst (view_read A) = (if visible_items A = [] then None else Some (hd (visible_items A)))"
    by (cases "prefetched A"; cases "visible A")
       (simp_all add: view_read_def view_check_read_def visible_items_def)
  ultimately show ?thesis using assms(1,2) by (simp add: reader_avail_def)
qed

lemma visible_ops:
  "visible_items (snd (view_check_read A)) = visible_items A"
  "visible_items (snd (view_read A)) = tl (visible_items A)"
  "fst (view_check_read A) \<longleftrightarrow> visible_items A \<noteq> []"
  "fst (view_read A) = (if visible_items A = [] then None else Some (hd (visible_items A)))"
  "visible_items A \<noteq> [] \<Longrightarrow> prefetched (snd (view_check_read A)) \<noteq> [] \<and>
     hd (prefetched (snd (view_check_read A))) = hd (visible_items A)"
  by (cases "prefetched A"; cases "visible A";
      simp add: view_read_def view_check_read_def visible_items_def)+

lemma framed_tl:
  assumes "framed (m # xs)"
  shows "framed xs" "has_more m \<Longrightarrow> xs \<noteq> [] \<and> \<not> is_delim (hd xs)" "is_delim m \<Longrightarrow> xs = []"
proof -
  show "framed xs"
    unfolding framed_def
  proof (intro allI impI)
    fix i assume "i < length xs"
    then show "(has_more (xs ! i) \<longrightarrow> Suc i < length xs \<and> \<not> is_delim (xs ! Suc i)) \<and>
        (is_delim (xs ! i) \<longrightarrow> Suc i = length xs)"
      using assms unfolding framed_def by (auto dest!: spec[of _ "Suc i"])
  qed
  show "xs \<noteq> [] \<and> \<not> is_delim (hd xs)" if "has_more m"
    using assms that unfolding framed_def
    by (cases xs) (auto dest!: spec[of _ 0])
  show "xs = []" if "is_delim m"
    using assms that unfolding framed_def by (cases xs) (auto dest!: spec[of _ 0])
qed

lemma framed_Nil [simp]: "framed []"
  by (simp add: framed_def)

lemma reader_read_valid:
  assumes "reader_valid c"
  shows "\<exists>v c' acts. reader_read c = Some (v, c', acts) \<and> (v \<noteq> None \<longleftrightarrow> reader_avail c) \<and> reader_valid c' \<and>
    (v = None \<longrightarrow> \<not> reader_avail c') \<and> (\<forall>m. v = Some m \<and> has_more m \<longrightarrow> reader_avail c')"
proof -
  obtain r p cs A where R: "creader c = Some r" "r_writer r" "cpipe c = Some p" "yp_rel p cs A"
      "framed (visible_items A)"
    using assms by (auto simp: reader_valid_def)
  note av = avail_view[OF R(1,3,4)]
  obtain p' cs' where p': "ypipe_read p = Some (fst (view_read A), p')" "yp_rel p' cs' (snd (view_read A))"
    using ypipe_read_rel[OF R(4)] by blast
  consider (off) "\<not> r_active r" | (empty) "r_active r" "visible_items A = []"
    | (some) m xs where "r_active r" "visible_items A = m # xs"
    by (cases "visible_items A") auto
  then show ?thesis
  proof cases
    case off
    then show ?thesis using R assms av by (auto simp: reader_read_def)
  next
    case empty
    let ?c = "c\<lparr>cpipe := Some p', creader := Some (r\<lparr>r_active := False\<rparr>)\<rparr>"
    have "reader_valid ?c" using R p'(2) visible_ops(2)[of A] empty(2)
      by (auto simp: reader_valid_def intro!: exI[of _ "snd (view_read A)"])
    moreover have "\<not> reader_avail ?c" by (simp add: reader_avail_def)
    ultimately show ?thesis
      using R(1,3) p'(1) empty av visible_ops(4)[of A] by (simp add: reader_read_def)
  next
    case (some m xs)
    have xs: "visible_items (snd (view_read A)) = xs" "framed xs"
      using visible_ops(2)[of A] some(2) framed_tl(1) R(5) by auto
    have v: "fst (view_read A) = Some m" using visible_ops(4)[of A] some(2) by simp
    show ?thesis
    proof (cases "is_delim m")
      case True
      let ?r = "if r_terminating r then r else r\<lparr>r_active := False, r_terminating := True\<rparr>"
      let ?c = "c\<lparr>cpipe := Some p', creader := Some ?r\<rparr>"
      have valid: "reader_valid ?c" using R p'(2) xs by (auto simp: reader_valid_def)
      have "visible_items (snd (view_read A)) = []"
        using xs(1) framed_tl(3)[of m xs] R(5) some(2) True by simp
      then have "\<not> reader_avail ?c"
        using avail_view[of ?c ?r p' cs' "snd (view_read A)"] p'(2) by simp
      moreover have "reader_read c = Some (None, ?c, (if r_sink r then [Delimited] else []) @
          (if r_terminating r then [] else [Send PipeTerm]))"
        using True R(1-3) p'(1) some(1) v by (simp add: reader_read_def reader_terminate_def)
      ultimately show ?thesis using valid av some True by simp
    next
      case False
      define n where "n = (if has_more m then r_msgs_read r else r_msgs_read r + 1)"
      let ?c = "c\<lparr>cpipe := Some p', creader := Some (r\<lparr>r_msgs_read := n\<rparr>)\<rparr>"
      have valid: "reader_valid ?c" using R p'(2) xs by (auto simp: reader_valid_def)
      have "has_more m \<Longrightarrow> reader_avail ?c"
        using avail_view[of ?c "r\<lparr>r_msgs_read := n\<rparr>" p' cs' "snd (view_read A)"] p'(2) xs(1) some(1)
          framed_tl(2)[of m xs] R(5) some(2) by simp
      moreover have "\<exists>acts. reader_read c = Some (Some m, ?c, acts)"
        using False R(1-3) p'(1) some(1) v by (simp add: reader_read_def Let_def flip: n_def)
      ultimately show ?thesis using valid False av some by auto
    qed
  qed
qed

lemma reader_check_valid:
  assumes "reader_valid c"
  shows "\<exists>c' acts. reader_check_read c = Some (reader_avail c, c', acts) \<and> reader_valid c' \<and>
    reader_avail c' = reader_avail c"
proof -
  obtain r p cs A where R: "creader c = Some r" "r_writer r" "cpipe c = Some p" "yp_rel p cs A"
      "framed (visible_items A)"
    using assms by (auto simp: reader_valid_def)
  note av = avail_view[OF R(1,3,4)]
  let ?A = "snd (view_check_read A)"
  obtain ok p1 where p1: "ypipe_check_read p = (ok, p1)" "yp_rel p1 cs ?A" "ok \<longleftrightarrow> visible_items A \<noteq> []"
    using ypipe_check_read_rel[OF R(4)] visible_ops(3)[of A] by (cases "ypipe_check_read p") auto
  have vis: "visible_items ?A = visible_items A" using visible_ops(1) .
  consider (off) "\<not> r_active r" | (empty) "r_active r" "visible_items A = []"
    | (some) m xs where "r_active r" "visible_items A = m # xs"
    by (cases "visible_items A") auto
  then show ?thesis
  proof cases
    case off
    then show ?thesis using R assms av by (auto simp: reader_check_read_def)
  next
    case empty
    let ?c = "c\<lparr>cpipe := Some p1, creader := Some (r\<lparr>r_active := False\<rparr>)\<rparr>"
    have "reader_valid ?c" using R p1(2) vis by (auto simp: reader_valid_def intro!: exI[of _ ?A])
    moreover have "\<not> reader_avail ?c" by (simp add: reader_avail_def)
    ultimately show ?thesis
      using R(1,3) p1 empty av by (simp add: reader_check_read_def)
  next
    case (some m xs)
    have hd: "hd (prefetched (snd (view_check_read ?A))) = m" "fst (view_check_read ?A)"
      using visible_ops(5)[of ?A] visible_ops(3)[of ?A] vis some(2) by auto
    obtain p2 where p2: "ypipe_probe is_delim p1 = Some (is_delim m, p2)" "yp_rel p2 cs (snd (view_check_read ?A))"
      using ypipe_probe_rel[OF p1(2) hd(2), of is_delim] hd(1) by auto
    let ?B = "snd (view_check_read ?A)"
    have visB: "visible_items ?B = m # xs" using visible_ops(1)[of ?A] vis some(2) by simp
    show ?thesis
    proof (cases "is_delim m")
      case False
      let ?c = "c\<lparr>cpipe := Some p2\<rparr>"
      have "reader_valid ?c" using R p2(2) visB some(2) by (auto simp: reader_valid_def intro!: exI[of _ ?B])
      moreover have "reader_avail ?c"
        using avail_view[of ?c r p2 cs ?B] R(1) p2(2) visB some(1) False by simp
      ultimately show ?thesis
        using False R(1,3) p1 p2(1) some av by (simp add: reader_check_read_def)
    next
      case True
      obtain p3 cs3 where p3: "ypipe_read p2 = Some (Some m, p3)" "yp_rel p3 cs3 (snd (view_read ?B))"
        using ypipe_read_rel[OF p2(2)] visible_ops(4)[of ?B] visB by auto
      let ?r = "if r_terminating r then r else r\<lparr>r_active := False, r_terminating := True\<rparr>"
      let ?c = "c\<lparr>cpipe := Some p3, creader := Some ?r\<rparr>"
      have nil: "visible_items (snd (view_read ?B)) = []"
        using visible_ops(2)[of ?B] visB framed_tl(3)[of m xs] R(5) some(2) True by simp
      have "reader_valid ?c" using R p3(2) nil by (auto simp: reader_valid_def intro!: exI[of _ "snd (view_read ?B)"])
      moreover have "\<not> reader_avail ?c"
        using avail_view[of ?c ?r p3 cs3 "snd (view_read ?B)"] p3(2) nil by simp
      moreover have "reader_check_read c = Some (False, ?c, (if r_sink r then [Delimited] else []) @
          (if r_terminating r then [] else [Send PipeTerm]))"
        using True R(1-3) p1 p2(1) p3(1) some by (simp add: reader_check_read_def reader_terminate_def)
      ultimately show ?thesis using av some True by simp
    qed
  qed
qed

interpretation pr: reader_pipes pipe_reader_ops "\<lambda>w p. reader_valid (conns w p)"
  "\<lambda>w p. reader_avail (conns w p)"
proof (unfold_locales, goal_cases)
  case (1 w p)
  then obtain v c' acts where "reader_read (conns w p) = Some (v, c', acts)"
      "v \<noteq> None \<longleftrightarrow> reader_avail (conns w p)" "reader_valid c'" "v = None \<longrightarrow> \<not> reader_avail c'"
      "\<forall>m. v = Some m \<and> has_more m \<longrightarrow> reader_avail c'"
    using reader_read_valid by blast
  then show ?case using 1 by (intro exI[of _ v]) (simp add: pipe_reader_ops_def)
next
  case (2 w p)
  then obtain c' acts where "reader_check_read (conns w p) = Some (reader_avail (conns w p), c', acts)"
      "reader_valid c'" "reader_avail c' = reader_avail (conns w p)"
    using reader_check_valid by blast
  then show ?case using 2 by (simp add: pipe_reader_ops_def)
qed

section \<open>The fair queue over pipes\<close>

definition fq_good :: "fq_t \<Rightarrow> pipe_world \<Rightarrow> bool" where
  "fq_good fq w \<longleftrightarrow> fq_ok fq \<and> (\<forall>p \<in> set (fq_items fq). reader_valid (conns w p)) \<and>
     (\<forall>i. fq_active fq \<le> i \<and> i < length (fq_items fq) \<longrightarrow> \<not> reader_avail (conns w (fq_items fq ! i))) \<and>
     (fq_more fq \<longrightarrow> 0 < fq_active fq \<and> reader_avail (conns w (fq_items fq ! fq_current fq)))"

lemma fq_good_inv: "fq_good fq w \<longleftrightarrow> pr.fq_inv fq w"
  by (simp add: fq_good_def pr.fq_inv_def)


text \<open>A fair queue with one pipe that holds a message of two parts.\<close>

definition demo_parts :: "msg list" where
  "demo_parts = [\<lparr>is_delim = False, mflags = 1, body = [7]\<rparr>, \<lparr>is_delim = False, mflags = 0, body = [8]\<rparr>]"

definition two_part_conn :: "msg \<Rightarrow> msg \<Rightarrow> conn" where
  "two_part_conn m0 m1 =
     (let c1 = snd (the (writer_write m0 (demo_conn 2)));
          c2 = snd (the (writer_write m1 c1))
      in fst (the (writer_flush c2)))"

definition demo_full :: conn where
  "demo_full = two_part_conn (demo_parts ! 0) (demo_parts ! 1)"

definition demo_fq :: fq_t where
  "demo_fq = \<lparr>fq_pipes = arr_push_back 0 arr_new, fq_active = 1, fq_current = 0, fq_more = False,
     fq_terminating = False\<rparr>"

lemma two_part_view:
  assumes more: "has_more m0" "\<not> has_more m1"
  shows "\<exists>q cs A. creader (two_part_conn m0 m1) = Some ((reader_new (compute_lwm 2))\<lparr>r_writer := True\<rparr>) \<and>
    cpipe (two_part_conn m0 m1) = Some q \<and> yp_rel q cs A \<and> visible_items A = [m0, m1]"
proof -
  obtain p :: "msg ypipe_t" and cs where p: "ypipe_new message_pipe_granularity = Some p" "yp_rel p cs view_new"
    using ypipe_new_rel[of message_pipe_granularity] by (auto simp: message_pipe_granularity_def)
  obtain p1 cs1 where p1: "ypipe_write m0 True p = Some p1" "yp_rel p1 cs1 (view_write m0 True view_new)"
    using ypipe_write_rel[OF p(2)] by blast
  obtain p2 cs2 where p2: "ypipe_write m1 False p1 = Some p2"
      "yp_rel p2 cs2 (view_write m1 False (view_write m0 True view_new))" (is "yp_rel _ _ ?A")
    using ypipe_write_rel[OF p1(2)] by blast
  have fl: "yp_rel (snd (ypipe_flush p2)) cs2 (snd (view_flush ?A))" using ypipe_flush_rel[OF p2(2)] by simp
  have vis: "visible_items (snd (view_flush ?A)) = [m0, m1]"
    by (simp add: view_flush_def view_write_def view_new_def visible_items_def)
  have "demo_conn 2 = the (create_pipe 2 0 [] [] 0)" by (simp add: demo_conn_def)
  then have c: "creader (two_part_conn m0 m1) = Some ((reader_new (compute_lwm 2))\<lparr>r_writer := True\<rparr>)"
      "cpipe (two_part_conn m0 m1) = Some (snd (ypipe_flush p2))"
    using p(1) p1(1) p2(1) more
    by (simp_all add: two_part_conn_def create_pipe_def reader_set_writer_def reader_new_def writer_new_def
        writer_write_def writer_check_write_def writer_flush_def pipe_full_def split: prod.splits)
  then show ?thesis using fl vis by blast
qed

lemma demo_full_view:
  "\<exists>q cs A. creader demo_full = Some ((reader_new (compute_lwm 2))\<lparr>r_writer := True\<rparr>) \<and> cpipe demo_full = Some q \<and>
     yp_rel q cs A \<and> visible_items A = demo_parts"
proof -
  have "has_more (demo_parts ! 0)" "\<not> has_more (demo_parts ! 1)" "demo_parts = [demo_parts ! 0, demo_parts ! 1]"
    by (simp_all add: demo_parts_def has_more_def ZMQ_MSG_MORE_def)
  then show ?thesis using two_part_view[of "demo_parts ! 0" "demo_parts ! 1"] by (simp add: demo_full_def)
qed

lemma demo_full_valid: "reader_valid demo_full \<and> reader_avail demo_full"
proof -
  obtain q cs A where c: "creader demo_full = Some ((reader_new (compute_lwm 2))\<lparr>r_writer := True\<rparr>)"
      "cpipe demo_full = Some q" and fl: "yp_rel q cs A" and vis: "visible_items A = demo_parts"
    using demo_full_view by blast
  have "framed demo_parts"
    by (auto simp: framed_def demo_parts_def has_more_def ZMQ_MSG_MORE_def less_Suc_eq)
  then have "reader_valid demo_full" using c fl vis
    by (auto simp: reader_valid_def intro!: exI[of _ cs] exI[of _ A])
  moreover have "reader_avail demo_full"
    using avail_view[OF c fl] vis by (simp add: reader_new_def demo_parts_def)
  ultimately show ?thesis ..
qed

lemma demo_fq_good: "fq_good demo_fq \<lparr>conns = (\<lambda>_. demo_full), pipe_log = []\<rparr>" "0 \<in> set (fq_items demo_fq)"
proof -
  have "arr_ok (fq_pipes demo_fq)" using arr_push_back_ok[of arr_new 0]
    by (simp add: demo_fq_def) (simp add: arr_new_def)
  then show "fq_good demo_fq \<lparr>conns = (\<lambda>_. demo_full), pipe_log = []\<rparr>"
    using demo_full_valid by (simp add: fq_good_def fq_ok_def) (simp add: demo_fq_def arr_new_def)
qed (simp add: demo_fq_def arr_new_def)


text \<open>The same flaw as in the load balancer: when a pipe terminates while another one is empty, a pipe
  that holds messages can end up outside the active zone. Its reader is active, so no event brings it
  back, and its messages are not received.\<close>

definition demo_rops :: "nat set reader_ops" where
  "demo_rops = \<lparr>op_read = (\<lambda>p w. Some (if p \<in> w then Some empty_msg else None, w)),
     op_check_read = (\<lambda>p w. Some (p \<in> w, w)), op_rterminate = (\<lambda>p w. Some w), op_rset_sink = (\<lambda>p w. Some w)\<rparr>"

theorem fq_strands_readable_pipe:
  "\<exists>fq fq' acts fq2. fq = \<lparr>fq_pipes = fold arr_push_back [10, 11, 12] arr_new, fq_active = 2, fq_current = 0,
       fq_more = False, fq_terminating = False\<rparr> \<and>
     fq_terminated 10 fq = Some (fq', acts) \<and> fq_items fq' = [12, 11] \<and>
     fq_recv demo_rops fq' {11} = Some (Err EAGAIN, None, fq2, {11}) \<and>
     fq_recv demo_rops fq2 {11} = Some (Err EAGAIN, None, fq2, {11})"
  by (simp add: fq_terminated_def arr_push_back_def arr_new_def arr_index_def arr_erase_def
      arr_erase_at_def Let_def fq_recv_def demo_rops_def arr_at_def fq_deactivate_def arr_swap_def)

end
