(* ===== verification/PipeContents.thy ===== *)
theory PipeContents
  imports PipeReaders
begin

text \<open>
  What the two ends of a pipe can say about its contents: \<open>conn_feeds c ms\<close> that the reader will
  get exactly the messages \<open>ms\<close>, none of them a delimiter, and \<open>conn_holds c ms\<close> that the pipe of
  a writer without swap holds \<open>ms\<close>, read or not, flushed or not. Reading takes the first message of the former,
  writing appends to the latter.
\<close>

definition conn_feeds :: "conn \<Rightarrow> msg list \<Rightarrow> bool" where
  "conn_feeds c ms \<longleftrightarrow> (\<exists>r q cs A. creader c = Some r \<and> r_writer r \<and> cpipe c = Some q \<and> yp_rel q cs A \<and>
     visible_items A = ms \<and> (\<forall>m \<in> set ms. \<not> is_delim m) \<and> (ms \<noteq> [] \<longrightarrow> r_active r))"

definition conn_holds :: "conn \<Rightarrow> msg list \<Rightarrow> bool" where
  "conn_holds c ms \<longleftrightarrow> (\<exists>wr q cs A. cwriter c = Some wr \<and> w_swap wr = None \<and> \<not> w_swapping wr \<and>
     cpipe c = Some q \<and> yp_rel q cs A \<and> view_items A = ms)"

lemma conn_feeds_read:
  assumes "conn_feeds c ms"
  shows "\<exists>c' acts. reader_read c = Some (if ms = [] then None else Some (hd ms), c', acts) \<and>
    conn_feeds c' (tl ms) \<and> Delimited \<notin> set acts"
proof -
  obtain r q cs A where S: "creader c = Some r" "r_writer r" "cpipe c = Some q"
      "yp_rel q cs A" "visible_items A = ms" "\<forall>m \<in> set ms. \<not> is_delim m" "ms \<noteq> [] \<longrightarrow> r_active r"
    using assms unfolding conn_feeds_def by blast
  obtain q' cs' where q': "ypipe_read q = Some (fst (view_read A), q')" "yp_rel q' cs' (snd (view_read A))"
    using ypipe_read_rel[OF S(4)] by blast
  have v: "fst (view_read A) = (if ms = [] then None else Some (hd ms))" "visible_items (snd (view_read A)) = tl ms"
    using S(5) by (simp_all add: visible_ops)
  show ?thesis
  proof (cases "ms = []")
    case True
    then show ?thesis using S q' v
      by (cases "r_active r") (auto simp: reader_read_def conn_feeds_def)
  next
    case False
    then have "\<not> is_delim (hd ms)" "\<forall>m \<in> set (tl ms). \<not> is_delim m" using S(6) by (auto dest: list.set_sel)
    then show ?thesis using S q' v False
      by (auto simp: reader_read_def conn_feeds_def Let_def)
  qed
qed

lemma conn_feeds_check:
  assumes "conn_feeds c ms"
  shows "\<exists>c' acts. reader_check_read c = Some (ms \<noteq> [], c', acts) \<and> conn_feeds c' ms \<and> Delimited \<notin> set acts"
proof -
  obtain r q cs A where S: "creader c = Some r" "r_writer r" "cpipe c = Some q"
      "yp_rel q cs A" "visible_items A = ms" "\<forall>m \<in> set ms. \<not> is_delim m" "ms \<noteq> [] \<longrightarrow> r_active r"
    using assms unfolding conn_feeds_def by blast
  have vis: "visible_items (snd (view_check_read A)) = ms" "fst (view_check_read A) \<longleftrightarrow> ms \<noteq> []"
    using S(5) by (simp_all add: visible_ops)
  obtain ok q1 where q1: "ypipe_check_read q = (ok, q1)" by fastforce
  obtain A1 where A1: "view_check_read A = (ok, A1)" "yp_rel q1 cs A1"
    using ypipe_check_read_rel[OF S(4)] q1 by (cases "view_check_read A") auto
  show ?thesis
  proof (cases "r_active r \<and> ms \<noteq> []")
    case False
    then show ?thesis using S q1 A1 vis
      by (cases "r_active r") (auto simp: reader_check_read_def conn_feeds_def)
  next
    case True
    then have ok: ok using vis(2) A1(1) by simp
    have pre: "prefetched A1 \<noteq> []" "hd (prefetched A1) = hd ms"
      using visible_ops(5)[of A] True S(5) A1(1) by auto
    obtain q2 cs2 where q2: "ypipe_probe is_delim q1 = Some (is_delim (hd (prefetched A1)), q2)" "yp_rel q2 cs2 A1"
      using ypipe_probe_rel[OF A1(2), of is_delim] pre(1) by (auto simp: view_check_read_def)
    have "\<not> is_delim (hd ms)" using True S(6) by simp
    then have "reader_check_read c = Some (True, c\<lparr>cpipe := Some q2\<rparr>, [])"
      using S(1,3) q1 ok True q2(1) pre(2) by (simp add: reader_check_read_def)
    moreover have "conn_feeds (c\<lparr>cpipe := Some q2\<rparr>) ms"
      using S q2(2) vis(1) A1(1) True unfolding conn_feeds_def by auto
    ultimately show ?thesis using True by auto
  qed
qed

lemma conn_holds_write:
  assumes "conn_holds c ms"
  shows "\<exists>c'. writer_write m c = Some (writer_ready c, c') \<and>
    conn_holds c' (if writer_ready c then ms @ [m] else ms) \<and> (\<not> writer_ready c \<longrightarrow> \<not> writer_ready c') \<and>
    (writer_ready c \<and> has_more m \<longrightarrow> writer_ready c')"
proof -
  obtain wr q cs A where S: "cwriter c = Some wr" "w_swap wr = None" "\<not> w_swapping wr"
      "cpipe c = Some q" "yp_rel q cs A" "view_items A = ms"
    using assms unfolding conn_holds_def by blast
  obtain q' cs' where q': "ypipe_write m (has_more m) q = Some q'" "yp_rel q' cs' (view_write m (has_more m) A)"
    using ypipe_write_rel[OF S(5)] by blast
  have v: "view_items (view_write m (has_more m) A) = ms @ [m]"
    using S(6) by (auto simp: view_write_def view_items_def)
  have acc: "writer_ready c \<longleftrightarrow> w_active wr \<and> \<not> pipe_full wr"
    using S(1) by (simp add: writer_ready_def)
  show ?thesis
  proof (cases "writer_ready c")
    case True
    let ?w = "if \<not> has_more m then wr\<lparr>w_msgs_written := w_msgs_written wr + 1\<rparr> else wr"
    let ?c = "c\<lparr>cpipe := Some q', cwriter := Some ?w\<rparr>"
    have "writer_write m c = Some (True, ?c)"
      using S acc True q'(1) by (simp add: writer_write_def writer_check_write_def)
    moreover have "conn_holds ?c (ms @ [m])"
      using S q'(2) v unfolding conn_holds_def
      by (intro exI[of _ ?w] exI[of _ q'] exI[of _ cs'] exI[of _ "view_write m (has_more m) A"]) auto
    moreover have "has_more m \<Longrightarrow> writer_ready ?c" using True S(1) acc by (simp add: writer_ready_def)
    ultimately show ?thesis using True by auto
  next
    case False
    let ?c = "if w_active wr then c\<lparr>cwriter := Some (wr\<lparr>w_active := False\<rparr>)\<rparr> else c"
    have "writer_write m c = Some (False, ?c)"
      using S acc False by (auto simp: writer_write_def writer_check_write_def)
    moreover have "conn_holds ?c ms"
      using S unfolding conn_holds_def by (cases "w_active wr") auto
    moreover have "\<not> writer_ready ?c" using S acc False by (auto simp: writer_ready_def)
    ultimately show ?thesis using False by auto
  qed
qed

lemma conn_holds_check:
  assumes "conn_holds c ms"
  shows "\<exists>c'. writer_check_write m c = Some (writer_ready c, c') \<and> conn_holds c' ms \<and> writer_ready c' = writer_ready c"
proof -
  obtain wr q cs A where S: "cwriter c = Some wr" "w_swap wr = None" "\<not> w_swapping wr"
      "cpipe c = Some q" "yp_rel q cs A" "view_items A = ms"
    using assms unfolding conn_holds_def by blast
  show ?thesis using S unfolding conn_holds_def
    by (cases "w_active wr"; cases "pipe_full wr")
      (auto simp: writer_check_write_def writer_ready_def pipe_full_def)
qed

lemma conn_holds_flush:
  assumes "conn_holds c ms"
  shows "\<exists>c' acts. writer_flush c = Some (c', acts) \<and> conn_holds c' ms \<and> writer_ready c' = writer_ready c"
proof -
  obtain wr q cs A where S: "cwriter c = Some wr" "w_swap wr = None" "\<not> w_swapping wr"
      "cpipe c = Some q" "yp_rel q cs A" "view_items A = ms"
    using assms unfolding conn_holds_def by blast
  obtain ok q' where fl: "ypipe_flush q = (ok, q')" "yp_rel q' cs (snd (view_flush A))"
    using ypipe_flush_rel[OF S(5)] by (cases "ypipe_flush q") auto
  have v: "view_items (snd (view_flush A)) = ms"
    using S(6) by (auto simp: view_flush_def view_items_def)
  let ?c = "c\<lparr>cpipe := Some q'\<rparr>" and ?acts = "if \<not> ok then [Send ActivateReader] else []"
  have "writer_flush c = Some (?c, ?acts)" using S fl(1) by (simp add: writer_flush_def)
  moreover have "conn_holds ?c ms"
    using S fl(2) v unfolding conn_holds_def
    by (intro exI[of _ wr] exI[of _ q'] exI[of _ cs] exI[of _ "snd (view_flush A)"]) simp
  moreover have "writer_ready ?c = writer_ready c" using S by (simp add: writer_ready_def)
  ultimately show ?thesis by blast
qed

lemma two_part_feeds:
  assumes "has_more m0" "\<not> has_more m1" "\<not> is_delim m0" "\<not> is_delim m1"
  shows "conn_feeds (two_part_conn m0 m1) [m0, m1]"
proof -
  obtain q cs A where "creader (two_part_conn m0 m1) = Some ((reader_new (compute_lwm 2))\<lparr>r_writer := True\<rparr>)"
      "cpipe (two_part_conn m0 m1) = Some q" "yp_rel q cs A" "visible_items A = [m0, m1]"
    using two_part_view[OF assms(1,2)] by blast
  then show ?thesis
    unfolding conn_feeds_def using assms(3,4)
    by (intro exI[of _ "(reader_new (compute_lwm 2))\<lparr>r_writer := True\<rparr>"] exI[of _ q] exI[of _ cs] exI[of _ A])
      (simp add: reader_new_def)
qed

lemma demo_full_feeds: "conn_feeds demo_full demo_parts"
  using two_part_feeds[of "demo_parts ! 0" "demo_parts ! 1"]
  by (simp add: demo_full_def demo_parts_def has_more_def ZMQ_MSG_MORE_def)

lemma demo_conn_holds: "conn_holds (demo_conn 2) [] \<and> writer_ready (demo_conn 2)"
proof -
  obtain p :: "msg ypipe_t" and cs where p: "ypipe_new message_pipe_granularity = Some p" "yp_rel p cs view_new"
    using ypipe_new_rel[of message_pipe_granularity] by (auto simp: message_pipe_granularity_def)
  have c: "cpipe (demo_conn 2) = Some p" "\<exists>wr. cwriter (demo_conn 2) = Some wr \<and> w_swap wr = None \<and>
      \<not> w_swapping wr \<and> w_active wr \<and> \<not> pipe_full wr"
    using p(1) by (simp_all add: demo_conn_def create_pipe_def reader_set_writer_def reader_new_def writer_new_def pipe_full_def)
  then obtain wr where "cwriter (demo_conn 2) = Some wr" "w_swap wr = None" "\<not> w_swapping wr" "w_active wr" "\<not> pipe_full wr"
    by blast
  moreover have "view_items view_new = ([] :: msg list)" by (simp add: view_items_def view_new_def)
  ultimately show ?thesis
    using c(1) p(2) unfolding conn_holds_def by (auto simp: writer_ready_def)
qed

end
