(* ===== verification/Encoder.thy ===== *)
theory Encoder
  imports Wire Message
begin

text \<open>
  \<^verbatim>\<open>src/encoder.hpp\<close>, \<^verbatim>\<open>src/encoder.cpp\<close>: the state machine that turns messages into the
  bytes of the 0MQ framing protocol. The source of messages (\<^verbatim>\<open>i_inout::read\<close>) is an argument: \<open>None\<close>
  of its result is an invalid access, \<open>Some (None, s)\<close> is the answer that there is no message. The interface
  is the locale \<open>msg_source\<close>.

  \<open>write_pos\<close> and \<open>to_write\<close> delimit bytes of \<open>tmpbuf\<close> or of the message in progress. Neither
  changes before all of them are written, so the model keeps the bytes.
\<close>

datatype enc_step = SizeReady | MessageReady

record encoder_t =
  to_write :: "byte list"
  enc_next :: enc_step
  beginning :: bool
  enc_bufsize :: nat
  enc_in_progress :: msg

definition encoder_new :: "nat \<Rightarrow> encoder_t" where
  "encoder_new bufsize = \<lparr>to_write = [], enc_next = MessageReady, beginning = True,
     enc_bufsize = bufsize, enc_in_progress = empty_msg\<rparr>"

definition enc_next_step :: "byte list \<Rightarrow> enc_step \<Rightarrow> bool \<Rightarrow> encoder_t \<Rightarrow> encoder_t" where
  "enc_next_step bs nxt b e = e\<lparr>to_write := bs, enc_next := nxt, beginning := b\<rparr>"

definition enc_size_ready :: "encoder_t \<Rightarrow> bool \<times> encoder_t" where
  "enc_size_ready e = (True, enc_next_step (body (enc_in_progress e)) MessageReady False e)"

text \<open>The header of a message: its size with the flags byte counted, then the flags.\<close>

definition frame_header :: "msg \<Rightarrow> byte list" where
  "frame_header m =
     (let size = (of_nat (length (body m)) :: u64) + 1
      in if size < 255 then [ucast size, mflags m AND ZMQ_MSG_MORE]
         else 0xff # put_uint64 size @ [mflags m AND ZMQ_MSG_MORE])"

definition enc_message_ready ::
  "('s \<Rightarrow> (msg option \<times> 's) option) \<Rightarrow> encoder_t \<Rightarrow> 's \<Rightarrow> (bool \<times> encoder_t \<times> 's) option" where
  "enc_message_ready read e s = do {
     (mo, s') \<leftarrow> read s;
     (case mo of
        None \<Rightarrow> Some (False, e\<lparr>enc_in_progress := empty_msg\<rparr>, s')
      | Some m \<Rightarrow> Some (True, enc_next_step (frame_header m) SizeReady (\<not> has_more m)
                              (e\<lparr>enc_in_progress := m\<rparr>), s'))
   }"

definition enc_machine ::
  "('s \<Rightarrow> (msg option \<times> 's) option) \<Rightarrow> encoder_t \<Rightarrow> 's \<Rightarrow> (bool \<times> encoder_t \<times> 's) option" where
  "enc_machine read e s =
     (case enc_next e of
        SizeReady \<Rightarrow> (let (ok, e') = enc_size_ready e in Some (ok, e', s))
      | MessageReady \<Rightarrow> enc_message_ready read e s)"

text \<open>
  One round of the loop of \<open>get_data\<close>, with \<open>out\<close> the bytes in the buffer so far (\<open>pos\<close> is their number)
  and \<open>off\<close> the offset of the first message. The flag of the result says whether the loop goes on.
\<close>

definition enc_fill ::
  "('s \<Rightarrow> (msg option \<times> 's) option) \<Rightarrow> byte list \<Rightarrow> int \<Rightarrow> encoder_t \<Rightarrow> 's \<Rightarrow>
   (bool \<times> int \<times> encoder_t \<times> 's) option" where
  "enc_fill read out off e s =
     (if to_write e = [] then do {
        (ok, e1, s1) \<leftarrow> enc_machine read e s;
        (if ok \<and> beginning e1
         then Some (ok, if off = -1 then int (length out) else off, e1\<lparr>beginning := False\<rparr>, s1)
         else Some (ok, off, e1, s1))
      }
      else Some (True, off, e, s))"

definition enc_copy ::
  "bool \<Rightarrow> nat \<Rightarrow> byte list \<Rightarrow> encoder_t \<Rightarrow> bool \<times> byte list \<times> encoder_t" where
  "enc_copy own bs out e =
     (if out = [] \<and> own \<and> bs \<le> length (to_write e)
      then (False, to_write e, e\<lparr>to_write := []\<rparr>)
      else let to_copy = min (length (to_write e)) (bs - length out);
               out' = out @ take to_copy (to_write e)
           in (length out' < bs, out', e\<lparr>to_write := drop to_copy (to_write e)\<rparr>))"

text \<open>The loop ends: a round that is not the last one writes a byte, except when a message without a body follows
  its header.\<close>

definition enc_rank :: "encoder_t \<Rightarrow> nat" where
  "enc_rank e = (if to_write e = [] \<and> enc_next e = SizeReady then 1 else 0)"

lemma frame_header_nonempty: "frame_header m \<noteq> []"
  by (simp add: frame_header_def Let_def)

lemma enc_round:
  assumes "enc_fill read out off e s = Some (True, off', e1, s')" "enc_copy own bs out e1 = (True, out', e')"
  shows "length out < length out' \<and> length out' < bs \<or> length out' = length out \<and> enc_rank e' < enc_rank e"
proof -
  have e1: "to_write e1 \<noteq> [] \<or> enc_rank e = 1 \<and> enc_next e1 = MessageReady"
    using assms(1)
    by (auto simp: enc_fill_def enc_machine_def enc_message_ready_def enc_size_ready_def enc_next_step_def
        enc_rank_def Let_def frame_header_nonempty split: if_splits enc_step.splits bind_splits option.splits)
  have out': "out' = out @ take (min (length (to_write e1)) (bs - length out)) (to_write e1)" "length out' < bs"
    and e': "to_write e1 = [] \<Longrightarrow> e' = e1\<lparr>to_write := []\<rparr>"
    using assms(2) by (auto simp: enc_copy_def Let_def split: if_splits)
  show ?thesis
  proof (cases "to_write e1 = []")
    case True
    then show ?thesis using e1 out' e' by (simp add: enc_rank_def)
  next
    case False
    then show ?thesis using out' by (cases "bs \<le> length out") auto
  qed
qed

lemma enc_round_measure:
  assumes "enc_fill read out off e s = Some (True, off', e1, s1)" "(True, out', e') = enc_copy own bs out e1"
  shows "bs - length out' < bs - length out \<or> bs - length out' = bs - length out \<and> enc_rank e' < enc_rank e"
  using enc_round[OF assms(1) assms(2)[symmetric]] by auto

function enc_loop ::
  "('s \<Rightarrow> (msg option \<times> 's) option) \<Rightarrow> bool \<Rightarrow> nat \<Rightarrow> byte list \<Rightarrow> int \<Rightarrow> encoder_t \<Rightarrow> 's \<Rightarrow>
   (byte list \<times> int \<times> encoder_t \<times> 's) option" where
  "enc_loop read own bs out off e s =
     Option.bind (enc_fill read out off e s) (\<lambda>(ok, off1, e1, s1).
       if \<not> ok then Some (out, off1, e1, s1)
       else case enc_copy own bs out e1 of (again, out2, e2) \<Rightarrow>
         if again then enc_loop read own bs out2 off1 e2 s1 else Some (out2, off1, e2, s1))"
  by pat_completeness auto
termination
proof (relation "measures [\<lambda>(read, own, bs, out, off, e, s). bs - length out, \<lambda>(read, own, bs, out, off, e, s). enc_rank e]",
    goal_cases)
  case 2
  then show ?case using enc_round_measure by fastforce
qed simp

declare enc_loop.simps [simp del]

text \<open>
  \<open>get_data\<close>: without a supplied buffer (\<open>None\<close>) the data are in the encoder's own buffer or, for a large message,
  in the message itself.
\<close>

definition enc_get_data ::
  "('s \<Rightarrow> (msg option \<times> 's) option) \<Rightarrow> nat option \<Rightarrow> encoder_t \<Rightarrow> 's \<Rightarrow>
   (byte list \<times> int \<times> encoder_t \<times> 's) option" where
  "enc_get_data read supplied e s =
     (case supplied of
        None \<Rightarrow> enc_loop read True (enc_bufsize e) [] (-1) e s
      | Some sz \<Rightarrow> enc_loop read False sz [] (-1) e s)"

section \<open>The bytes on the wire\<close>

definition frame :: "msg \<Rightarrow> byte list" where
  "frame m = frame_header m @ body m"

text \<open>What the encoder has taken from its source and not yet written.\<close>

definition enc_rest :: "encoder_t \<Rightarrow> byte list" where
  "enc_rest e = to_write e @ (if enc_next e = SizeReady then body (enc_in_progress e) else [])"

text \<open>\<open>feeds s ms\<close>: the source holds the messages \<open>ms\<close>.\<close>

locale msg_source =
  fixes read :: "'s \<Rightarrow> (msg option \<times> 's) option" and feeds :: "'s \<Rightarrow> msg list \<Rightarrow> bool"
  assumes read_none: "feeds s [] \<Longrightarrow> \<exists>s'. read s = Some (None, s') \<and> feeds s' []"
    and read_some: "feeds s (m # ms) \<Longrightarrow> \<exists>s'. read s = Some (Some m, s') \<and> feeds s' ms"

begin

lemma fill_spec:
  assumes "feeds s ms"
  shows "\<exists>ok off' e' s' ms'. enc_fill read out off e s = Some (ok, off', e', s') \<and> feeds s' ms' \<and>
    enc_rest e @ concat (map frame ms) = enc_rest e' @ concat (map frame ms') \<and>
    (ok \<or> enc_rest e = [] \<and> ms = []) \<and> (\<not> ok \<longrightarrow> enc_rest e' = [] \<and> ms' = [])"
proof (cases "to_write e = []")
  case False
  then show ?thesis using assms by (auto simp: enc_fill_def)
next
  case True
  show ?thesis
  proof (cases "enc_next e")
    case SizeReady
    then show ?thesis using True assms
      by (intro exI[of _ True] exI[of _ off] exI[of _ "enc_next_step (body (enc_in_progress e)) MessageReady False e"]
          exI[of _ s] exI[of _ ms])
        (simp add: enc_fill_def enc_machine_def enc_size_ready_def enc_next_step_def enc_rest_def)
  next
    case MessageReady
    show ?thesis
    proof (cases ms)
      case Nil
      obtain s' where "read s = Some (None, s')" "feeds s' []" using read_none assms Nil by blast
      then show ?thesis using True MessageReady Nil
        by (auto simp: enc_fill_def enc_machine_def enc_message_ready_def enc_rest_def)
    next
      case (Cons m ms')
      obtain s' where "read s = Some (Some m, s')" "feeds s' ms'" using read_some assms Cons by blast
      then show ?thesis using True MessageReady Cons
        by (auto simp: enc_fill_def enc_machine_def enc_message_ready_def enc_rest_def enc_next_step_def frame_def)
    qed
  qed
qed

lemma copy_spec:
  assumes "enc_copy own bs out e = (again, out', e')" "length out < bs \<or> out = []"
  shows "out @ enc_rest e = out' @ enc_rest e'" "again \<longleftrightarrow> length out' < bs"
    "\<not> own \<Longrightarrow> length out' \<le> bs"
  using assms by (auto simp: enc_copy_def enc_rest_def Let_def split: if_splits)

lemma enc_loop_spec:
  "rd = read \<Longrightarrow> feeds s ms \<Longrightarrow> length out < bs \<or> out = [] \<Longrightarrow>
   \<exists>out' off' e' s' ms'. enc_loop rd own bs out off e s = Some (out', off', e', s') \<and> feeds s' ms' \<and>
     out @ enc_rest e @ concat (map frame ms) = out' @ enc_rest e' @ concat (map frame ms') \<and>
     (length out' < bs \<longrightarrow> enc_rest e' = [] \<and> ms' = []) \<and> (\<not> own \<longrightarrow> length out' \<le> bs)"
proof (induction rd own bs out off e s arbitrary: ms rule: enc_loop.induct)
  case (1 rd own bs out off e s)
  note rd = 1(2) and f = 1(3) and len = 1(4)
  obtain ok off1 e1 s1 ms1 where F: "enc_fill read out off e s = Some (ok, off1, e1, s1)" "feeds s1 ms1"
      "enc_rest e @ concat (map frame ms) = enc_rest e1 @ concat (map frame ms1)"
      "\<not> ok \<longrightarrow> enc_rest e1 = [] \<and> ms1 = []"
    using fill_spec[OF f] by blast
  show ?case
  proof (cases ok)
    case False
    then have "enc_loop rd own bs out off e s = Some (out, off1, e1, s1)"
      using F(1) rd by (subst enc_loop.simps) simp
    then show ?thesis using F False len by (intro exI[of _ out] exI[of _ off1] exI[of _ e1] exI[of _ s1] exI[of _ ms1]) auto
  next
    case True
    obtain again out2 e2 where C: "enc_copy own bs out e1 = (again, out2, e2)" by (cases "enc_copy own bs out e1")
    note copy = copy_spec[OF C len]
    have eq: "out @ enc_rest e @ concat (map frame ms) = out2 @ enc_rest e2 @ concat (map frame ms1)"
      using F(3) copy(1) by (metis append.assoc)
    show ?thesis
    proof (cases again)
      case False
      then have "enc_loop rd own bs out off e s = Some (out2, off1, e2, s1)"
        using F(1) rd True C by (subst enc_loop.simps) simp
      then show ?thesis using F(2) eq False copy by auto
    next
      case again: True
      then have run: "enc_loop rd own bs out off e s = enc_loop rd own bs out2 off1 e2 s1"
        using F(1) rd True C by (subst enc_loop.simps) simp
      show ?thesis
        unfolding run eq using 1(1)[OF _ refl _ _ _ C[symmetric] refl again rd F(2)] F(1) rd True again copy(2) by auto
    qed
  qed
qed

lemma get_data_spec:
  assumes "feeds s ms"
  shows "\<exists>out off e' s' ms'. enc_get_data read supplied e s = Some (out, off, e', s') \<and> feeds s' ms' \<and>
     enc_rest e @ concat (map frame ms) = out @ enc_rest e' @ concat (map frame ms') \<and>
     (length out < (case supplied of None \<Rightarrow> enc_bufsize e | Some n \<Rightarrow> n) \<longrightarrow> enc_rest e' = [] \<and> ms' = []) \<and>
     (\<forall>n. supplied = Some n \<longrightarrow> length out \<le> n)"
  using enc_loop_spec[OF refl assms, of "[]" "case supplied of None \<Rightarrow> enc_bufsize e | Some n \<Rightarrow> n" "supplied = None" "-1" e]
  by (cases supplied) (simp_all add: enc_get_data_def)

end

end
