(* ===== verification/Decoder.thy ===== *)
theory Decoder
  imports Encoder
begin

text \<open>
  \<^verbatim>\<open>src/decoder.hpp\<close>, \<^verbatim>\<open>src/decoder.cpp\<close>: the state machine that turns the bytes of a connection
  into messages. \<open>read_pos\<close> points into \<open>tmpbuf\<close> or into the message in progress; the model keeps the bytes
  stored there since the last \<open>next_step\<close> (\<open>got\<close>), and the number of bytes that fit (\<open>space\<close>), so that a write
  beyond the buffer is \<open>None\<close>. \<open>dec_next = None\<close> is the state after a decoding error. \<open>lim\<close> is the largest
  request that \<^verbatim>\<open>malloc\<close> serves, as in theory \<open>Msg\<close>. The destination (\<^verbatim>\<open>i_inout::write\<close>) is an argument,
  and the locale \<open>msg_sink\<close> its interface.
\<close>

datatype dec_step = OneByteSizeReady | EightByteSizeReady | FlagsReady | DecMessageReady

record decoder_t =
  got :: "byte list"
  space :: nat
  to_read :: nat
  dec_next :: "dec_step option"
  dec_bufsize :: nat
  in_size :: u64
  in_flags :: byte

definition dec_next_step :: "nat \<Rightarrow> nat \<Rightarrow> dec_step \<Rightarrow> decoder_t \<Rightarrow> decoder_t" where
  "dec_next_step sp n nxt d = d\<lparr>got := [], space := sp, to_read := n, dec_next := Some nxt\<rparr>"

definition decoding_error :: "decoder_t \<Rightarrow> decoder_t" where
  "decoding_error d = d\<lparr>dec_next := None\<rparr>"

definition decoder_new :: "nat \<Rightarrow> decoder_t" where
  "decoder_new bufsize = dec_next_step 8 1 OneByteSizeReady
     \<lparr>got = [], space = 0, to_read = 0, dec_next = None, dec_bufsize = bufsize, in_size = 0,
      in_flags = NOT ZMQ_MSG_MASK\<rparr>"

text \<open>\<^verbatim>\<open>zmq_msg_init_size\<close>: whether it succeeds, and the bytes behind the data pointer of the message.\<close>

definition init_size_ok :: "u64 \<Rightarrow> u64 \<Rightarrow> bool" where
  "init_size_ok lim sz \<longleftrightarrow> sz \<le> ZMQ_MAX_VSM_SIZE \<or> sizeof_msg_content + sz \<le> lim"

definition body_space :: "u64 \<Rightarrow> nat" where
  "body_space sz =
     (if sz \<le> ZMQ_MAX_VSM_SIZE then unat ZMQ_MAX_VSM_SIZE
      else unat (sizeof_msg_content + sz) - unat sizeof_msg_content)"

definition init_size :: "u64 \<Rightarrow> u64 \<Rightarrow> decoder_t \<Rightarrow> bool \<times> decoder_t" where
  "init_size lim sz d =
     (if init_size_ok lim sz
      then (True, dec_next_step 8 1 FlagsReady (d\<lparr>in_size := sz\<rparr>))
      else (False, decoding_error (d\<lparr>in_size := 0\<rparr>)))"

definition one_byte_size_ready :: "u64 \<Rightarrow> decoder_t \<Rightarrow> bool \<times> decoder_t" where
  "one_byte_size_ready lim d =
     (let b = got d ! 0
      in if b = 0xff then (True, dec_next_step 8 8 EightByteSizeReady d)
         else if b = 0 then (False, decoding_error d)
         else init_size lim (ucast b - 1) d)"

definition eight_byte_size_ready :: "u64 \<Rightarrow> decoder_t \<Rightarrow> bool \<times> decoder_t" where
  "eight_byte_size_ready lim d =
     (let size = get_uint64 (got d)
      in if size = 0 then (False, decoding_error d) else init_size lim (size - 1) d)"

definition flags_ready :: "decoder_t \<Rightarrow> bool \<times> decoder_t" where
  "flags_ready d =
     (True, dec_next_step (body_space (in_size d)) (unat (in_size d)) DecMessageReady
              (d\<lparr>in_flags := (got d ! 0) OR NOT ZMQ_MSG_MASK\<rparr>))"

definition dec_message :: "decoder_t \<Rightarrow> msg" where
  "dec_message d = \<lparr>is_delim = False, mflags = in_flags d, body = got d\<rparr>"

definition dec_message_ready ::
  "(msg \<Rightarrow> 's \<Rightarrow> (bool \<times> 's) option) \<Rightarrow> decoder_t \<Rightarrow> 's \<Rightarrow> (bool \<times> decoder_t \<times> 's) option" where
  "dec_message_ready wr d s = do {
     (ok, s') \<leftarrow> wr (dec_message d) s;
     Some (if ok then (True, dec_next_step 8 1 OneByteSizeReady (d\<lparr>in_size := 0, in_flags := NOT ZMQ_MSG_MASK\<rparr>), s')
           else (False, d, s'))
   }"

definition dec_machine ::
  "(msg \<Rightarrow> 's \<Rightarrow> (bool \<times> 's) option) \<Rightarrow> u64 \<Rightarrow> decoder_t \<Rightarrow> 's \<Rightarrow> (bool \<times> decoder_t \<times> 's) option" where
  "dec_machine wr lim d s =
     (case dec_next d of
        None \<Rightarrow> None
      | Some OneByteSizeReady \<Rightarrow> (let (ok, d') = one_byte_size_ready lim d in Some (ok, d', s))
      | Some EightByteSizeReady \<Rightarrow> (let (ok, d') = eight_byte_size_ready lim d in Some (ok, d', s))
      | Some FlagsReady \<Rightarrow> (let (ok, d') = flags_ready d in Some (ok, d', s))
      | Some DecMessageReady \<Rightarrow> dec_message_ready wr d s)"

text \<open>The loop \<open>while (!to_read)\<close>: the machine runs until it wants bytes or fails.\<close>

definition dec_rank :: "decoder_t \<Rightarrow> nat" where
  "dec_rank d = (if to_read d \<noteq> 0 then 0 else
     case dec_next d of None \<Rightarrow> 0 | Some DecMessageReady \<Rightarrow> 1 | Some FlagsReady \<Rightarrow> 2 | Some _ \<Rightarrow> 3)"

lemmas dec_defs = one_byte_size_ready_def eight_byte_size_ready_def flags_ready_def dec_message_ready_def
  init_size_def dec_next_step_def decoding_error_def

lemma dec_machine_rank:
  "dec_machine wr lim d s = Some (True, d', s') \<Longrightarrow> to_read d = 0 \<Longrightarrow> dec_rank d' < dec_rank d"
  by (auto simp: dec_machine_def dec_defs dec_rank_def Let_def
      split: option.splits dec_step.splits if_splits bind_splits)

function dec_run ::
  "(msg \<Rightarrow> 's \<Rightarrow> (bool \<times> 's) option) \<Rightarrow> u64 \<Rightarrow> decoder_t \<Rightarrow> 's \<Rightarrow> (bool \<times> decoder_t \<times> 's) option" where
  "dec_run wr lim d s =
     (if to_read d \<noteq> 0 then Some (True, d, s)
      else Option.bind (dec_machine wr lim d s) (\<lambda>(ok, d1, s1).
        if \<not> ok then Some (False, d1, s1) else dec_run wr lim d1 s1))"
  by pat_completeness auto
termination
  by (relation "measure (\<lambda>(wr, lim, d, s). dec_rank d)") (auto dest: dec_machine_rank)

declare dec_run.simps [simp del]

text \<open>Storing bytes at \<open>read_pos\<close>.\<close>

definition dec_store :: "byte list \<Rightarrow> decoder_t \<Rightarrow> decoder_t option" where
  "dec_store bs d =
     (if length bs \<le> to_read d \<and> length (got d) + length bs \<le> space d
      then Some (d\<lparr>got := got d @ bs, to_read := to_read d - length bs\<rparr>) else None)"

text \<open>The loop of \<open>process_buffer\<close> on the bytes from position \<open>pos\<close> on. The result is the number of bytes
  processed, or -1 after an error.\<close>

lemma dec_run_wants: "dec_run wr lim d s = Some (True, d', s') \<Longrightarrow> to_read d' \<noteq> 0"
proof (induction wr lim d s rule: dec_run.induct)
  case (1 wr lim d s)
  then show ?case
    by (subst (asm) (2) dec_run.simps) (auto split: if_splits bind_splits)
qed

function dec_loop ::
  "(msg \<Rightarrow> 's \<Rightarrow> (bool \<times> 's) option) \<Rightarrow> u64 \<Rightarrow> nat \<Rightarrow> byte list \<Rightarrow> decoder_t \<Rightarrow> 's \<Rightarrow> (int \<times> decoder_t \<times> 's) option" where
  "dec_loop wr lim pos rest d s =
     Option.bind (dec_run wr lim d s) (\<lambda>(ok, d1, s1).
       if \<not> ok then Some (if dec_next d1 = None then -1 else int pos, d1, s1)
       else if rest = [] then Some (int pos, d1, s1)
       else let to_copy = min (to_read d1) (length rest)
            in Option.bind (dec_store (take to_copy rest) d1) (\<lambda>d2.
                 dec_loop wr lim (pos + to_copy) (drop to_copy rest) d2 s1))"
  by pat_completeness auto
termination
  by (relation "measure (\<lambda>(wr, lim, pos, rest, d, s). length rest)") (auto dest: dec_run_wants simp: Let_def)

declare dec_loop.simps [simp del]

text \<open>\<open>get_buffer\<close>: for a large message the caller fills the message itself (\<open>True\<close>).\<close>

definition get_buffer :: "decoder_t \<Rightarrow> bool \<times> nat" where
  "get_buffer d = (if dec_bufsize d \<le> to_read d then (True, to_read d) else (False, dec_bufsize d))"

definition process_buffer ::
  "(msg \<Rightarrow> 's \<Rightarrow> (bool \<times> 's) option) \<Rightarrow> u64 \<Rightarrow> bool \<Rightarrow> byte list \<Rightarrow> decoder_t \<Rightarrow> 's \<Rightarrow> (int \<times> decoder_t \<times> 's) option" where
  "process_buffer wr lim zero_copy dat d s =
     (if dec_next d = None then Some (-1, d, s)
      else if zero_copy then do {
        d1 \<leftarrow> dec_store dat d;
        (ok, d2, s2) \<leftarrow> dec_run wr lim d1 s;
        Some (if \<not> ok \<and> dec_next d2 = None then -1 else int (length dat), d2, s2)
      }
      else dec_loop wr lim 0 dat d s)"

section \<open>Decoding what the encoder wrote\<close>

text \<open>The messages whose size the decoder can represent and allocate, and how they arrive.\<close>

definition msg_fits :: "u64 \<Rightarrow> msg \<Rightarrow> bool" where
  "msg_fits lim m \<longleftrightarrow> length (body m) + 41 \<le> 2 ^ 64 \<and> init_size_ok lim (of_nat (length (body m))) \<and> \<not> is_delim m"

definition received :: "msg \<Rightarrow> msg" where
  "received m = m\<lparr>mflags := (mflags m AND ZMQ_MSG_MORE) OR NOT ZMQ_MSG_MASK\<rparr>"

lemma received_simps [simp]:
  "body (received m) = body m" "is_delim (received m) = is_delim m" "has_more (received m) = has_more m"
proof -
  have "((x AND 1) OR NOT 129) AND 1 = x AND 1" for x :: byte
    by (rule bit_word_eqI) (auto simp: bit_simps bit_numeral_rec(1) numeral_eq_Suc)
  then show "has_more (received m) = has_more m"
    by (simp add: received_def has_more_def ZMQ_MSG_MORE_def ZMQ_MSG_MASK_def)
qed (simp_all add: received_def)

abbreviation flag_byte :: "msg \<Rightarrow> byte" where
  "flag_byte m \<equiv> mflags m AND ZMQ_MSG_MORE"

lemma fits_size:
  assumes "msg_fits lim m"
  shows "unat (of_nat (length (body m)) :: u64) = length (body m)"
    "unat (of_nat (length (body m)) + 1 :: u64) = length (body m) + 1"
    "length (body m) \<le> body_space (of_nat (length (body m)))"
proof -
  have l: "length (body m) + 41 \<le> 2 ^ 64" using assms by (simp add: msg_fits_def)
  then show u: "unat (of_nat (length (body m)) :: u64) = length (body m)" by (simp add: unat_of_nat)
  then show "unat (of_nat (length (body m)) + 1 :: u64) = length (body m) + 1"
    using l by (simp add: unat_word_ariths)
  have "unat (sizeof_msg_content + of_nat (length (body m)) :: u64) = 40 + length (body m)"
    using l u by (simp add: unat_word_ariths sizeof_msg_content_def)
  then show "length (body m) \<le> body_space (of_nat (length (body m)))"
    using u by (auto simp: body_space_def sizeof_msg_content_def word_le_nat_alt)
qed

lemma frame_cases:
  assumes "msg_fits lim m"
  shows "length (body m) + 1 < 255 \<Longrightarrow> frame m = of_nat (length (body m) + 1) # flag_byte m # body m"
    "255 \<le> length (body m) + 1 \<Longrightarrow> frame m = 0xff # put_uint64 (of_nat (length (body m) + 1)) @ flag_byte m # body m"
proof -
  have "(ucast (of_nat (length (body m)) + 1 :: u64) :: byte) = of_nat (length (body m) + 1)"
    using fits_size(2)[OF assms] by (metis of_nat_unat)
  moreover have "(of_nat (length (body m)) + 1 :: u64) < 255 \<longleftrightarrow> length (body m) + 1 < 255"
  proof -
    have "unat (255 :: u64) = 255" by simp
    then show ?thesis using fits_size(2)[OF assms] unfolding word_less_nat_alt by presburger
  qed
  ultimately show "length (body m) + 1 < 255 \<Longrightarrow> frame m = of_nat (length (body m) + 1) # flag_byte m # body m"
    "255 \<le> length (body m) + 1 \<Longrightarrow> frame m = 0xff # put_uint64 (of_nat (length (body m) + 1)) @ flag_byte m # body m"
    by (simp_all add: frame_def frame_header_def Let_def add.commute)
qed

text \<open>
  \<open>dec_rel d ms q\<close>: the decoder still has to deliver \<open>ms\<close>, and \<open>q\<close> are the bytes to come until then.
\<close>

fun dec_rel :: "decoder_t \<Rightarrow> msg list \<Rightarrow> byte list \<Rightarrow> bool" where
  "dec_rel d ms q \<longleftrightarrow>
     (case dec_next d of
        None \<Rightarrow> False
      | Some OneByteSizeReady \<Rightarrow> length (got d) + to_read d = 1 \<and> 1 \<le> space d \<and>
          got d @ q = concat (map frame ms)
      | Some EightByteSizeReady \<Rightarrow> length (got d) + to_read d = 8 \<and> 8 \<le> space d \<and>
          (\<exists>m ms'. ms = m # ms' \<and>
             got d @ q = put_uint64 (of_nat (length (body m) + 1)) @ flag_byte m # body m @ concat (map frame ms'))
      | Some FlagsReady \<Rightarrow> length (got d) + to_read d = 1 \<and> 1 \<le> space d \<and>
          (\<exists>m ms'. ms = m # ms' \<and> in_size d = of_nat (length (body m)) \<and>
             got d @ q = flag_byte m # body m @ concat (map frame ms'))
      | Some DecMessageReady \<Rightarrow>
          (\<exists>m ms'. ms = m # ms' \<and> length (got d) + to_read d = length (body m) \<and> length (body m) \<le> space d \<and>
             in_flags d = flag_byte m OR NOT ZMQ_MSG_MASK \<and> got d @ q = body m @ concat (map frame ms')))"

declare dec_rel.simps [simp del]

lemmas dec_rel_def = dec_rel.simps

lemma dec_rel_new: "dec_rel (decoder_new bs) ms (concat (map frame ms))"
  by (simp add: dec_rel_def decoder_new_def dec_next_step_def)

lemma dec_rel_store:
  assumes "dec_rel d ms (bs @ q)" "length bs \<le> to_read d"
  shows "\<exists>d'. dec_store bs d = Some d' \<and> dec_rel d' ms q \<and> to_read d' = to_read d - length bs"
  using assms by (auto simp: dec_rel_def dec_store_def split: option.splits dec_step.splits)

lemma dec_rel_empty: "dec_rel d ms [] \<Longrightarrow> to_read d \<noteq> 0 \<Longrightarrow> ms = []"
proof -
  assume r: "dec_rel d ms []" and z: "to_read d \<noteq> 0"
  have ne: "frame m \<noteq> []" for m by (simp add: frame_def frame_header_nonempty)
  obtain st where st: "dec_next d = Some st" using r by (cases "dec_next d") (simp_all add: dec_rel_def)
  show "ms = []"
  proof (cases st)
    case OneByteSizeReady
    then have "length (got d) + to_read d = 1 \<and> 1 \<le> space d \<and> got d @ [] = concat (map frame ms)"
      using r by (simp only: dec_rel_def st option.case dec_step.case)
    then have g: "length (got d) + to_read d = 1" "got d = concat (map frame ms)" by (elim conjE, simp only: append_Nil2)+
    from g(1) z have "got d = []" by (cases "got d") auto
    then have "concat (map frame ms) = []" using g(2) by simp
    then show ?thesis using ne by (cases ms) auto
  qed (use r z st in \<open>auto simp: dec_rel_def dest: arg_cong[where f = length]\<close>)
qed

text \<open>\<open>accepts s\<close>: the sink takes the next message; a refusal lasts.\<close>

locale msg_sink =
  fixes wr :: "msg \<Rightarrow> 's \<Rightarrow> (bool \<times> 's) option" and holds :: "'s \<Rightarrow> msg list \<Rightarrow> bool" and accepts :: "'s \<Rightarrow> bool"
  assumes write_law: "holds s ms \<Longrightarrow> \<exists>s'. wr m s = Some (accepts s, s') \<and>
    holds s' (if accepts s then ms @ [m] else ms) \<and> (\<not> accepts s \<longrightarrow> \<not> accepts s')"

begin

lemma one_byte_spec:
  assumes "dec_rel d ms q" "dec_next d = Some OneByteSizeReady" "to_read d = 0" "\<forall>m \<in> set ms. msg_fits lim m"
  shows "\<exists>d'. one_byte_size_ready lim d = (True, d') \<and> dec_rel d' ms q"
proof -
  obtain b where b: "got d = [b]" "b # q = concat (map frame ms)"
    using assms(1-3) by (auto simp: dec_rel_def length_Suc_conv)
  obtain m ms' where ms: "ms = m # ms'" using b(2) by (cases ms) auto
  have fit: "msg_fits lim m" using assms(4) ms by simp
  show ?thesis
  proof (cases "length (body m) + 1 < 255")
    case True
    have f: "b = of_nat (length (body m) + 1)" "q = flag_byte m # body m @ concat (map frame ms')"
      using b(2) ms frame_cases(1)[OF fit True] by simp_all
    have ub: "unat b = length (body m) + 1" using f(1) True by (simp add: unat_of_nat del: of_nat_Suc of_nat_add)
    then have "b \<noteq> 0" "b \<noteq> 0xff" using True by auto
    moreover have "(ucast b :: u64) - 1 = of_nat (length (body m))"
    proof -
      have "(ucast b :: u64) = of_nat (unat b)" by simp
      then show ?thesis using ub by simp
    qed
    ultimately show ?thesis using b(1) f(2) ms fit
      by (auto simp: dec_defs msg_fits_def dec_rel_def)
  next
    case False
    have f: "b = 0xff" "q = put_uint64 (of_nat (length (body m) + 1)) @ flag_byte m # body m @ concat (map frame ms')"
      using b(2) ms frame_cases(2)[OF fit] False by simp_all
    then show ?thesis using b(1) ms by (auto simp: dec_defs dec_rel_def)
  qed
qed

lemma eight_byte_spec:
  assumes "dec_rel d ms q" "dec_next d = Some EightByteSizeReady" "to_read d = 0" "\<forall>m \<in> set ms. msg_fits lim m"
  shows "\<exists>d'. eight_byte_size_ready lim d = (True, d') \<and> dec_rel d' ms q"
proof -
  obtain m ms' where ms: "ms = m # ms'" "length (got d) = 8"
      "got d @ q = put_uint64 (of_nat (length (body m) + 1)) @ flag_byte m # body m @ concat (map frame ms')"
    using assms(1-3) by (auto simp: dec_rel_def)
  have g: "got d = put_uint64 (of_nat (length (body m) + 1))" "q = flag_byte m # body m @ concat (map frame ms')"
    using ms(2,3) by (simp_all add: append_eq_append_conv)
  have fit: "msg_fits lim m" using assms(4) ms(1) by simp
  have size: "get_uint64 (got d) = of_nat (length (body m)) + 1"
    using get_put_uint64[of "of_nat (length (body m) + 1)" "[]"] g(1) by (simp add: add.commute)
  moreover have "(of_nat (length (body m)) + 1 :: u64) \<noteq> 0"
    using fits_size(2)[OF fit] by (metis add_is_0 unat_0 zero_neq_one)
  ultimately show ?thesis using g(2) ms(1) fit by (auto simp: dec_defs msg_fits_def dec_rel_def)
qed

lemma machine_spec:
  assumes rel: "dec_rel d ms q" and z: "to_read d = 0" and h: "holds s acc" and fit: "\<forall>m \<in> set ms. msg_fits lim m"
  shows "\<exists>ok d' s' ms1 ms2. dec_machine wr lim d s = Some (ok, d', s') \<and> ms = ms1 @ ms2 \<and> dec_rel d' ms2 q \<and>
    holds s' (acc @ map received ms1) \<and> (\<not> ok \<longrightarrow> \<not> accepts s' \<and> to_read d' = 0)"
proof -
  obtain st where st: "dec_next d = Some st" using rel by (auto simp: dec_rel_def split: option.splits)
  show ?thesis
  proof (cases st)
    case OneByteSizeReady
    then obtain d' where "one_byte_size_ready lim d = (True, d')" "dec_rel d' ms q"
      using one_byte_spec[OF rel _ z fit] st by auto
    then show ?thesis using st h OneByteSizeReady
      by (intro exI[of _ True] exI[of _ d'] exI[of _ s] exI[of _ "[]"] exI[of _ ms]) (simp add: dec_machine_def)
  next
    case EightByteSizeReady
    then obtain d' where "eight_byte_size_ready lim d = (True, d')" "dec_rel d' ms q"
      using eight_byte_spec[OF rel _ z fit] st by auto
    then show ?thesis using st h EightByteSizeReady
      by (intro exI[of _ True] exI[of _ d'] exI[of _ s] exI[of _ "[]"] exI[of _ ms]) (simp add: dec_machine_def)
  next
    case FlagsReady
    obtain m ms' where ms: "ms = m # ms'" "got d = [flag_byte m]" "in_size d = of_nat (length (body m))"
        "q = body m @ concat (map frame ms')"
      using rel st FlagsReady z by (auto simp: dec_rel_def length_Suc_conv)
    have fit: "msg_fits lim m" using fit ms(1) by simp
    obtain d' where d': "flags_ready d = (True, d')" by (simp add: flags_ready_def)
    then have "dec_rel d' ms q" using ms fits_size(1,3)[OF fit]
      by (auto simp: flags_ready_def dec_next_step_def dec_rel_def)
    then show ?thesis using FlagsReady st h d'
      by (intro exI[of _ True] exI[of _ d'] exI[of _ s] exI[of _ "[]"] exI[of _ ms]) (simp add: dec_machine_def)
  next
    case DecMessageReady
    obtain m ms' where ms: "ms = m # ms'" "got d = body m" "in_flags d = flag_byte m OR NOT ZMQ_MSG_MASK"
        "q = concat (map frame ms')"
      using rel st DecMessageReady z by (auto simp: dec_rel_def)
    have m: "dec_message d = received m"
      using ms(2,3) fit ms(1) by (simp add: dec_message_def received_def msg_fits_def)
    obtain s' where s': "wr (received m) s = Some (accepts s, s')"
        "holds s' (if accepts s then acc @ [received m] else acc)" "\<not> accepts s \<longrightarrow> \<not> accepts s'"
      using write_law[OF h] by blast
    show ?thesis
    proof (cases "accepts s")
      case True
      then show ?thesis using st DecMessageReady s' m ms
        by (intro exI[of _ True] exI exI[of _ s'] exI[of _ "[m]"] exI[of _ ms'])
          (auto simp: dec_machine_def dec_message_ready_def dec_next_step_def dec_rel_def)
    next
      case False
      then show ?thesis using st DecMessageReady s' m rel z
        by (intro exI[of _ False] exI[of _ d] exI[of _ s'] exI[of _ "[]"] exI[of _ ms])
          (auto simp: dec_machine_def dec_message_ready_def)
    qed
  qed
qed

lemma run_spec:
  "f = wr \<Longrightarrow> dec_rel d ms q \<Longrightarrow> holds s acc \<Longrightarrow> \<forall>m \<in> set ms. msg_fits lim m \<Longrightarrow>
   \<exists>ok d' s' ms1 ms2. dec_run f lim d s = Some (ok, d', s') \<and> ms = ms1 @ ms2 \<and> dec_rel d' ms2 q \<and>
     holds s' (acc @ map received ms1) \<and> (ok \<longrightarrow> to_read d' \<noteq> 0) \<and> (\<not> ok \<longrightarrow> \<not> accepts s' \<and> to_read d' = 0)"
proof (induction f lim d s arbitrary: ms acc rule: dec_run.induct)
  case (1 f lim d s)
  note f = 1(2) and rel = 1(3) and h = 1(4) and fit = 1(5)
  show ?case
  proof (cases "to_read d = 0")
    case False
    then have "dec_run f lim d s = Some (True, d, s)" by (simp add: dec_run.simps)
    then show ?thesis using rel h False
      by (intro exI[of _ True] exI[of _ d] exI[of _ s] exI[of _ "[]"] exI[of _ ms]) simp
  next
    case True
    obtain ok d1 s1 ms1 ms2 where M: "dec_machine wr lim d s = Some (ok, d1, s1)" "ms = ms1 @ ms2" "dec_rel d1 ms2 q"
        "holds s1 (acc @ map received ms1)" "\<not> ok \<longrightarrow> \<not> accepts s1 \<and> to_read d1 = 0"
      using machine_spec[OF rel True h fit] by blast
    show ?thesis
    proof (cases ok)
      case False
      then have "dec_run f lim d s = Some (False, d1, s1)" using M(1) f True by (subst dec_run.simps) simp
      then show ?thesis using M False
        by (intro exI[of _ False] exI[of _ d1] exI[of _ s1] exI[of _ ms1] exI[of _ ms2]) simp
    next
      case okT: True
      then have run: "dec_run f lim d s = dec_run f lim d1 s1" using M(1) f True by (subst dec_run.simps) simp
      have dm: "dec_machine f lim d s = Some (True, d1, s1)" using M(1) f okT by simp
      have fit2: "\<forall>m \<in> set ms2. msg_fits lim m" using fit M(2) by simp
      have nz: "\<not> to_read d \<noteq> 0" using True by simp
      obtain ok2 d2 s2 ms3 ms4 where "dec_run f lim d1 s1 = Some (ok2, d2, s2)" "ms2 = ms3 @ ms4" "dec_rel d2 ms4 q"
          "holds s2 ((acc @ map received ms1) @ map received ms3)" "ok2 \<longrightarrow> to_read d2 \<noteq> 0"
          "\<not> ok2 \<longrightarrow> \<not> accepts s2 \<and> to_read d2 = 0"
        using 1(1)[OF nz dm refl refl _ f M(3,4) fit2] by blast
      then show ?thesis unfolding run using M(2)
        by (intro exI[of _ ok2] exI[of _ d2] exI[of _ s2] exI[of _ "ms1 @ ms3"] exI[of _ ms4]) simp
    qed
  qed
qed

lemma dec_loop_spec:
  "f = wr \<Longrightarrow> dec_rel d ms (rest @ q) \<Longrightarrow> holds s acc \<Longrightarrow> \<forall>m \<in> set ms. msg_fits lim m \<Longrightarrow>
   \<exists>k d' s' ms1 ms2. dec_loop f lim pos rest d s = Some (int (pos + k), d', s') \<and> k \<le> length rest \<and>
     ms = ms1 @ ms2 \<and> dec_rel d' ms2 (drop k rest @ q) \<and> holds s' (acc @ map received ms1) \<and>
     (k = length rest \<and> to_read d' \<noteq> 0 \<or> \<not> accepts s')"
proof (induction f lim pos rest d s arbitrary: ms acc rule: dec_loop.induct)
  case (1 f lim pos rest d s)
  note f = 1(2)
  obtain ok d1 s1 ms1 ms2 where R: "dec_run f lim d s = Some (ok, d1, s1)" "ms = ms1 @ ms2" "dec_rel d1 ms2 (rest @ q)"
      "holds s1 (acc @ map received ms1)" "ok \<longrightarrow> to_read d1 \<noteq> 0" "\<not> ok \<longrightarrow> \<not> accepts s1 \<and> to_read d1 = 0"
    using run_spec[OF 1(2-5)] by blast
  have nx: "dec_next d1 \<noteq> None" using R(3) by (cases "dec_next d1") (simp_all add: dec_rel_def)
  show ?case
  proof (cases "ok \<and> rest \<noteq> []")
    case False
    then have "dec_loop f lim pos rest d s = Some (int (pos + 0), d1, s1)"
      using R(1) nx by (subst dec_loop.simps) auto
    then show ?thesis using R False
      by (intro exI[of _ 0] exI[of _ d1] exI[of _ s1] exI[of _ ms1] exI[of _ ms2]) auto
  next
    case True
    let ?n = "min (to_read d1) (length rest)"
    have "dec_rel d1 ms2 (take ?n rest @ (drop ?n rest @ q))" using R(3) by (simp flip: append_assoc)
    then obtain d2 where d2: "dec_store (take ?n rest) d1 = Some d2" "dec_rel d2 ms2 (drop ?n rest @ q)"
      using dec_rel_store[of d1 ms2 "take ?n rest"] by auto
    have run: "dec_loop f lim pos rest d s = dec_loop f lim (pos + ?n) (drop ?n rest) d2 s1"
      using R(1) True d2(1) by (subst dec_loop.simps) (simp add: Let_def)
    have "\<forall>m \<in> set ms2. msg_fits lim m" using 1(5) R(2) by simp
    then obtain k d' s' ms3 ms4 where IH:
        "dec_loop f lim (pos + ?n) (drop ?n rest) d2 s1 = Some (int (pos + ?n + k), d', s')"
        "k \<le> length (drop ?n rest)" "ms2 = ms3 @ ms4" "dec_rel d' ms4 (drop k (drop ?n rest) @ q)"
        "holds s' ((acc @ map received ms1) @ map received ms3)"
        "k = length (drop ?n rest) \<and> to_read d' \<noteq> 0 \<or> \<not> accepts s'"
      using 1(1)[OF _ refl refl _ _ refl _ f d2(2) R(4)] R(1) True d2(1) by fastforce
    then show ?thesis unfolding run using R(2)
      by (intro exI[of _ "?n + k"] exI[of _ d'] exI[of _ s'] exI[of _ "ms1 @ ms3"] exI[of _ ms4])
        (auto simp: add.assoc add.commute)
  qed
qed

lemma process_spec:
  assumes rel: "dec_rel d ms (dat @ q)" and h: "holds s acc" and fit: "\<forall>m \<in> set ms. msg_fits lim m"
    and zc: "zero_copy \<Longrightarrow> length dat \<le> to_read d"
  shows "\<exists>k d' s' ms1 ms2. process_buffer wr lim zero_copy dat d s = Some (int k, d', s') \<and> k \<le> length dat \<and>
     ms = ms1 @ ms2 \<and> dec_rel d' ms2 (drop k dat @ q) \<and> holds s' (acc @ map received ms1) \<and>
     (k = length dat \<and> to_read d' \<noteq> 0 \<or> \<not> accepts s')"
proof -
  have nx: "dec_next d \<noteq> None" using rel by (cases "dec_next d") (simp_all add: dec_rel_def)
  show ?thesis
  proof (cases zero_copy)
    case False
    then show ?thesis using dec_loop_spec[OF refl rel h fit, of 0] nx by (simp add: process_buffer_def)
  next
    case True
    obtain d1 where d1: "dec_store dat d = Some d1" "dec_rel d1 ms q"
      using dec_rel_store[OF rel zc[OF True]] by blast
    obtain ok d2 s2 ms1 ms2 where R: "dec_run wr lim d1 s = Some (ok, d2, s2)" "ms = ms1 @ ms2" "dec_rel d2 ms2 q"
        "holds s2 (acc @ map received ms1)" "ok \<longrightarrow> to_read d2 \<noteq> 0" "\<not> ok \<longrightarrow> \<not> accepts s2 \<and> to_read d2 = 0"
      using run_spec[OF refl d1(2) h fit] by blast
    have "dec_next d2 \<noteq> None" using R(3) by (cases "dec_next d2") (simp_all add: dec_rel_def)
    then have "process_buffer wr lim zero_copy dat d s = Some (int (length dat), d2, s2)"
      using True nx d1(1) R(1) by (simp add: process_buffer_def)
    then show ?thesis using R
      by (intro exI[of _ "length dat"] exI[of _ d2] exI[of _ s2] exI[of _ ms1] exI[of _ ms2]) auto
  qed
qed

end

section \<open>Malformed input\<close>

lemma loop_store:
  assumes "to_read d = length bs" "bs \<noteq> []"
  shows "dec_loop wr lim pos (bs @ rest) d s =
    Option.bind (dec_store bs d) (\<lambda>d2. dec_loop wr lim (pos + length bs) rest d2 s)"
  using assms by (subst dec_loop.simps) (simp add: dec_run.simps Let_def)

lemma loop_step:
  assumes "to_read d = 0" "dec_machine wr lim d s = Some (True, d1, s1)"
  shows "dec_loop wr lim pos rest d s = dec_loop wr lim pos rest d1 s1"
proof -
  have "dec_run wr lim d s = dec_run wr lim d1 s1" using assms by (subst dec_run.simps) simp
  then show ?thesis by (simp add: dec_loop.simps[of wr lim pos rest])
qed

lemma loop_error:
  assumes "to_read d = 0" "dec_machine wr lim d s = Some (False, d1, s1)" "dec_next d1 = None"
  shows "dec_loop wr lim pos rest d s = Some (-1, d1, s1)"
proof -
  have "dec_run wr lim d s = Some (False, d1, s1)" using assms by (subst dec_run.simps) simp
  then show ?thesis using assms(3) by (subst dec_loop.simps) simp
qed

lemma short_header:
  assumes "b \<noteq> 0xff"
  shows "\<exists>d1. process_buffer wr lim False (b # rest) (decoder_new n) s = dec_loop wr lim 1 rest d1 s \<and>
    to_read d1 = 0 \<and> dec_machine wr lim d1 s = (if b = 0 then Some (False, decoding_error d1, s)
      else Some (fst (init_size lim (ucast b - 1) d1), snd (init_size lim (ucast b - 1) d1), s))"
proof -
  let ?d = "decoder_new n\<lparr>got := [b], to_read := 0\<rparr>"
  have "process_buffer wr lim False (b # rest) (decoder_new n) s = dec_loop wr lim 1 rest ?d s"
    using loop_store[of "decoder_new n" "[b]" wr lim 0 rest s]
    by (simp add: process_buffer_def decoder_new_def dec_next_step_def dec_store_def)
  moreover have "dec_next ?d = Some OneByteSizeReady" by (simp add: decoder_new_def dec_next_step_def)
  ultimately show ?thesis using assms
    by (intro exI[of _ ?d]) (simp add: dec_machine_def one_byte_size_ready_def Let_def split_beta)
qed

lemma long_header:
  "\<exists>d1. process_buffer wr lim False (0xff # put_uint64 v @ rest) (decoder_new n) s = dec_loop wr lim 9 rest d1 s \<and>
    to_read d1 = 0 \<and> dec_machine wr lim d1 s = (if v = 0 then Some (False, decoding_error d1, s)
      else Some (fst (init_size lim (v - 1) d1), snd (init_size lim (v - 1) d1), s))"
proof -
  let ?d = "decoder_new n\<lparr>got := [0xff], to_read := 0\<rparr>"
  let ?d1 = "dec_next_step 8 8 EightByteSizeReady ?d"
  let ?d2 = "?d1\<lparr>got := put_uint64 v, to_read := 0\<rparr>"
  have "process_buffer wr lim False (0xff # put_uint64 v @ rest) (decoder_new n) s =
      dec_loop wr lim 1 (put_uint64 v @ rest) ?d s"
    using loop_store[of "decoder_new n" "[0xff]" wr lim 0 "put_uint64 v @ rest" s]
    by (simp add: process_buffer_def decoder_new_def dec_next_step_def dec_store_def)
  also have "\<dots> = dec_loop wr lim 1 (put_uint64 v @ rest) ?d1 s"
    by (rule loop_step) (simp_all add: dec_machine_def one_byte_size_ready_def decoder_new_def dec_next_step_def)
  also have "\<dots> = dec_loop wr lim 9 rest ?d2 s"
    using loop_store[of ?d1 "put_uint64 v" wr lim 1 rest s]
    by (simp add: dec_next_step_def dec_store_def flip: length_0_conv)
  finally have run: "process_buffer wr lim False (0xff # put_uint64 v @ rest) (decoder_new n) s = dec_loop wr lim 9 rest ?d2 s" .
  have "get_uint64 (put_uint64 v) = v" using get_put_uint64[of v "[]"] by simp
  moreover have "dec_next ?d2 = Some EightByteSizeReady" by (simp add: dec_next_step_def)
  ultimately show ?thesis using run
    by (intro exI[of _ ?d2]) (simp add: dec_machine_def eight_byte_size_ready_def Let_def split_beta)
qed

text \<open>The headers with which a connection is closed.\<close>

definition bad_header :: "u64 \<Rightarrow> byte list \<Rightarrow> bool" where
  "bad_header lim h \<longleftrightarrow>
     (case h of
        [b] \<Rightarrow> b = 0 \<or> b \<noteq> 0xff \<and> \<not> init_size_ok lim (ucast b - 1)
      | b # bs \<Rightarrow> b = 0xff \<and> length bs = 8 \<and> (get_uint64 bs = 0 \<or> \<not> init_size_ok lim (get_uint64 bs - 1))
      | _ \<Rightarrow> False)"

text \<open>C32: Bad sizes are rejected for good. A connection whose first message has size zero, or a size for which no
  memory can be allocated, in the short or in the long form, ends in a decoding error whatever follows: no message is delivered, and
  every later call fails as well.\<close>

theorem decoder_rejects_bad_size:
  assumes "bad_header lim h"
  shows "\<exists>d'. process_buffer wr lim False (h @ rest) (decoder_new n) s = Some (-1, d', s) \<and>
    (\<forall>zero_copy dat. process_buffer wr lim zero_copy dat d' s = Some (-1, d', s))"
proof -
  have err: "process_buffer wr lim zero_copy dat d s = Some (-1, d, s)" if "dec_next d = None" for zero_copy dat d
    using that by (simp add: process_buffer_def)
  have "\<exists>d'. process_buffer wr lim False (h @ rest) (decoder_new n) s = Some (-1, d', s) \<and> dec_next d' = None"
  proof (cases "length h = 1")
    case True
    then obtain b where b: "h = [b]" "b = 0 \<or> b \<noteq> 0xff \<and> \<not> init_size_ok lim (ucast b - 1)"
      using assms by (auto simp: bad_header_def length_Suc_conv)
    then have "b \<noteq> 0xff" by auto
    from short_header[OF this, of wr lim rest n s] b show ?thesis
      by (elim exE conjE) (auto simp: init_size_def decoding_error_def loop_error split: if_splits)
  next
    case False
    then obtain bs where b: "h = 0xff # bs" "length bs = 8" "get_uint64 bs = 0 \<or> \<not> init_size_ok lim (get_uint64 bs - 1)"
      using assms by (auto simp: bad_header_def split: list.splits)
    have "bs = put_uint64 (get_uint64 bs)" using put_get_uint64[of bs] b(2) by simp
    then have "h @ rest = 0xff # put_uint64 (get_uint64 bs) @ rest" using b(1) by simp
    with long_header[of wr lim "get_uint64 bs" rest n s] b(3) show ?thesis
      by (elim exE conjE) (auto simp: init_size_def decoding_error_def loop_error split: if_splits)
  qed
  then show ?thesis using err by blast
qed

theorem decoder_rejects_bad_size_witness:
  "\<exists>d'. process_buffer (\<lambda>m s. Some (True, s @ [m])) 1000 False ([0] @ [1, 2]) (decoder_new 8192) [] = Some (-1, d', [])"
  using decoder_rejects_bad_size[of 1000 "[0]" "\<lambda>m s. Some (True, s @ [m])" "[1, 2]" 8192 "[]"]
  by (auto simp: bad_header_def)

text \<open>The largest size makes the request for memory wrap around: the allocation succeeds with a block that has
  no room for the body, and the first byte of the body is written behind it.\<close>

theorem decoder_overflows:
  assumes "40 \<le> lim"
  shows "process_buffer wr lim False (0xff # put_uint64 (-1) @ [flag, x]) (decoder_new n) s = None"
proof -
  obtain d1 where d1: "process_buffer wr lim False (0xff # put_uint64 (-1) @ [flag, x]) (decoder_new n) s =
      dec_loop wr lim 9 [flag, x] d1 s" "to_read d1 = 0"
    "dec_machine wr lim d1 s = Some (fst (init_size lim (-2) d1), snd (init_size lim (-2) d1), s)"
    using long_header[of wr lim "-1" "[flag, x]" n s] by auto
  have u: "unat (- 2 :: u64) = 2 ^ 64 - 2" "(sizeof_msg_content + - 2 :: u64) = 38"
    by (simp_all add: sizeof_msg_content_def)
  have "init_size_ok lim (-2)"
    using assms unfolding init_size_ok_def u(2) by (simp add: word_le_nat_alt)
  then have i: "init_size lim (-2) d1 = (True, dec_next_step 8 1 FlagsReady (d1\<lparr>in_size := -2\<rparr>))"
    by (simp add: init_size_def)
  let ?d2 = "dec_next_step 8 1 FlagsReady (d1\<lparr>in_size := -2\<rparr>)"
  let ?d3 = "?d2\<lparr>got := [flag], to_read := 0\<rparr>"
  let ?d4 = "snd (flags_ready ?d3)"
  have "dec_loop wr lim 9 [flag, x] d1 s = dec_loop wr lim 9 [flag, x] ?d2 s"
    using loop_step[OF d1(2)] d1(3) i by simp
  also have "\<dots> = dec_loop wr lim 10 [x] ?d3 s"
    using loop_store[of ?d2 "[flag]" wr lim 9 "[x]" s] by (simp add: dec_next_step_def dec_store_def)
  also have "\<dots> = dec_loop wr lim 10 [x] ?d4 s"
    by (rule loop_step) (simp_all add: dec_next_step_def dec_machine_def flags_ready_def)
  also have "\<dots> = None"
  proof -
    have "body_space (-2) = 0" unfolding body_space_def u(2) by (simp add: sizeof_msg_content_def ZMQ_MAX_VSM_SIZE_def)
    then have s4: "space ?d4 = 0" "to_read ?d4 = 2 ^ 64 - 2" using u(1)
      by (simp_all add: flags_ready_def dec_next_step_def)
    then show ?thesis by (subst dec_loop.simps) (simp add: dec_run.simps Let_def dec_store_def)
  qed
  finally show ?thesis using d1(1) by simp
qed

end
