(* ===== verification/Session.thy ===== *)
theory Session
  imports PipeContents Options Decoder
begin

text \<open>
  \<^verbatim>\<open>src/session.hpp\<close>, \<^verbatim>\<open>src/session.cpp\<close>: the session, which stands between the pipes to its socket and the
  engine of a connection. The pipes are identities in a \<open>pipe_world\<close>. An operation returns, besides its result
  and the new states, what it asks of others, in order: of its base class \<open>own_t\<close> (acknowledgements to wait for, the
  termination proper), of the timer, the engine, the socket and the derived class.

  \<open>delimited\<close> is called by the pipe from inside \<open>read\<close> and \<open>check_read\<close>. The model runs it right after the
  pipe's operation: the pipe only terminates its reader after the call, and the session's own request to terminate
  the reader is then the one without effect instead of the pipe's.
\<close>

datatype session_state = SActive | SPending | STerminating

datatype session_act =
  RegisterAcks nat | UnregisterAck | OwnProcessTerm int | OwnTerminate | AddTimer int | CancelTimer
  | EngineActivateOut nat | EngineActivateIn nat | EnginePlug nat | EngineTerminate nat | EngineDelete nat
  | LogDuplicate | SendBind "nat option" "nat option" blob | AttachedTo blob | DetachedFrom

record session_t =
  s_in :: "nat option"
  s_incomplete_in :: bool
  s_out :: "nat option"
  s_engine :: "nat option"
  s_pipes_attached :: bool
  s_delimiter_processed :: bool
  s_force_terminate :: bool
  s_has_linger_timer :: bool
  s_state :: session_state
  s_options :: options_t

type_synonym session_step = "(session_t \<times> pipe_world \<times> session_act list) option"

definition session_new :: "options_t \<Rightarrow> session_t" where
  "session_new opts = \<lparr>s_in = None, s_incomplete_in = False, s_out = None, s_engine = None,
     s_pipes_attached = False, s_delimiter_processed = False, s_force_terminate = False,
     s_has_linger_timer = False, s_state = SActive, s_options = opts\<rparr>"

definition session_delete :: "session_t \<Rightarrow> session_act list option" where
  "session_delete s = do {
     zmq_assert (s_in s = None);
     zmq_assert (s_out s = None);
     Some (case s_engine s of None \<Rightarrow> [] | Some e \<Rightarrow> [EngineTerminate e])
   }"

text \<open>Terminating a pipe and waiting for its acknowledgement.\<close>

definition terminate_in :: "session_t \<Rightarrow> pipe_world \<Rightarrow> (pipe_world \<times> session_act list) option" where
  "terminate_in s w =
     (case s_in s of
        None \<Rightarrow> Some (w, [])
      | Some p \<Rightarrow> do { w' \<leftarrow> op_rterminate pipe_reader_ops p w; Some (w', [RegisterAcks 1]) })"

definition terminate_out :: "session_t \<Rightarrow> pipe_world \<Rightarrow> (pipe_world \<times> session_act list) option" where
  "terminate_out s w =
     (case s_out s of
        None \<Rightarrow> Some (w, [])
      | Some p \<Rightarrow> do { w' \<leftarrow> op_terminate pipe_writer_ops p w; Some (w', [RegisterAcks 1]) })"

definition proceed_with_term :: "session_t \<Rightarrow> pipe_world \<Rightarrow> session_step" where
  "proceed_with_term s w =
     (if s_state s = STerminating then Some (s, w, [])
      else do {
        zmq_assert (s_state s = SPending);
        let s1 = s\<lparr>s_state := STerminating, s_has_linger_timer := False\<rparr>;
        (w1, a1) \<leftarrow> terminate_in s1 w;
        (w2, a2) \<leftarrow> terminate_out s1 w1;
        Some (s1, w2, (if s_has_linger_timer s then [CancelTimer] else []) @ a1 @ a2 @ [OwnProcessTerm 0])
      })"

definition session_delimited :: "nat \<Rightarrow> session_t \<Rightarrow> pipe_world \<Rightarrow> session_step" where
  "session_delimited p s w = do {
     zmq_assert (s_in s = Some p);
     zmq_assert (\<not> s_delimiter_processed s);
     let s1 = s\<lparr>s_delimiter_processed := True\<rparr>;
     (if s_state s1 = SPending then proceed_with_term s1 w else Some (s1, w, []))
   }"

text \<open>The callback of the pipe, when its operation reported one.\<close>

definition on_delimited :: "nat \<Rightarrow> pipe_act list \<Rightarrow> session_t \<Rightarrow> pipe_world \<Rightarrow> session_step" where
  "on_delimited p acts s w = (if Delimited \<in> set acts then session_delimited p s w else Some (s, w, []))"

definition session_read ::
  "session_t \<Rightarrow> pipe_world \<Rightarrow> (msg option \<times> session_t \<times> pipe_world \<times> session_act list) option" where
  "session_read s w =
     (case s_in s of
        None \<Rightarrow> Some (None, s, w, [])
      | Some p \<Rightarrow> do {
          (v, c, acts) \<leftarrow> reader_read (conns w p);
          (s1, w1, sacts) \<leftarrow> on_delimited p acts s (set_conn p c acts w);
          Some (case v of
             None \<Rightarrow> (None, s1, w1, sacts)
           | Some m \<Rightarrow> (Some m, s1\<lparr>s_incomplete_in := has_more m\<rparr>, w1, sacts))
        })"

definition session_check_read :: "session_t \<Rightarrow> pipe_world \<Rightarrow> session_step" where
  "session_check_read s w =
     (case s_in s of
        None \<Rightarrow> Some (s, w, [])
      | Some p \<Rightarrow> do {
          (_, c, acts) \<leftarrow> reader_check_read (conns w p);
          on_delimited p acts s (set_conn p c acts w)
        })"

definition session_write :: "msg \<Rightarrow> session_t \<Rightarrow> pipe_world \<Rightarrow> (bool \<times> pipe_world) option" where
  "session_write m s w =
     (case s_out s of None \<Rightarrow> Some (False, w) | Some p \<Rightarrow> op_write pipe_writer_ops p m w)"

definition session_flush :: "session_t \<Rightarrow> pipe_world \<Rightarrow> pipe_world option" where
  "session_flush s w = (case s_out s of None \<Rightarrow> Some w | Some p \<Rightarrow> op_flush pipe_writer_ops p w)"

text \<open>The loop that reads the rest of a half-read message.\<close>

partial_function (option) finish_incomplete :: "session_t \<Rightarrow> pipe_world \<Rightarrow> session_step" where
  "finish_incomplete s w =
     (if \<not> s_incomplete_in s then Some (s, w, [])
      else Option.bind (session_read s w) (\<lambda>(v, s1, w1, acts).
        case v of
          None \<Rightarrow> Option.bind (zmq_assert (\<not> s_incomplete_in s1)) (\<lambda>_. Some (s1, w1, acts))
        | Some m \<Rightarrow> Option.bind (finish_incomplete s1 w1) (\<lambda>(s2, w2, acts2). Some (s2, w2, acts @ acts2))))"

definition rollback_pipe :: "nat \<Rightarrow> pipe_world \<Rightarrow> pipe_world option" where
  "rollback_pipe p w = do { (c, acts) \<leftarrow> writer_rollback (conns w p); Some (set_conn p c acts w) }"

definition clean_pipes :: "session_t \<Rightarrow> pipe_world \<Rightarrow> session_step" where
  "clean_pipes s w = do {
     w1 \<leftarrow> (case s_out s of
              None \<Rightarrow> Some w
            | Some p \<Rightarrow> do { w' \<leftarrow> rollback_pipe p w; op_flush pipe_writer_ops p w' });
     (if s_in s \<noteq> None then finish_incomplete s w1 else Some (s, w1, []))
   }"

definition attach_pipes :: "nat option \<Rightarrow> nat option \<Rightarrow> session_t \<Rightarrow> pipe_world \<Rightarrow> session_step" where
  "attach_pipes inpipe outpipe s w = do {
     zmq_assert (\<not> s_pipes_attached s);
     let s1 = s\<lparr>s_pipes_attached := True\<rparr>;
     (s2, w2) \<leftarrow> (case inpipe of
        None \<Rightarrow> Some (s1, w)
      | Some p \<Rightarrow> do { zmq_assert (s_in s1 = None);
                       w' \<leftarrow> op_rset_sink pipe_reader_ops p w; Some (s1\<lparr>s_in := Some p\<rparr>, w') });
     (s3, w3) \<leftarrow> (case outpipe of
        None \<Rightarrow> Some (s2, w2)
      | Some p \<Rightarrow> do { zmq_assert (s_out s2 = None);
                       w' \<leftarrow> op_set_sink pipe_writer_ops p w2; Some (s2\<lparr>s_out := Some p\<rparr>, w') });
     (if s_state s3 = STerminating then do {
        (w4, a4) \<leftarrow> terminate_in s3 w3;
        (w5, a5) \<leftarrow> terminate_out s3 w4;
        Some (s3, w5, a4 @ a5)
      }
      else Some (s3, w3, []))
   }"

definition session_terminated_in :: "nat \<Rightarrow> session_t \<Rightarrow> (session_t \<times> session_act list) option" where
  "session_terminated_in p s = do {
     zmq_assert (s_in s = Some p);
     Some (s\<lparr>s_in := None\<rparr>, if s_state s = STerminating then [UnregisterAck] else [])
   }"

definition session_terminated_out :: "nat \<Rightarrow> session_t \<Rightarrow> (session_t \<times> session_act list) option" where
  "session_terminated_out p s = do {
     zmq_assert (s_out s = Some p);
     Some (s\<lparr>s_out := None\<rparr>, if s_state s = STerminating then [UnregisterAck] else [])
   }"

definition session_activated_in :: "nat \<Rightarrow> session_t \<Rightarrow> pipe_world \<Rightarrow> session_step" where
  "session_activated_in p s w = do {
     zmq_assert (s_in s = Some p);
     (case s_engine s of Some e \<Rightarrow> Some (s, w, [EngineActivateOut e]) | None \<Rightarrow> session_check_read s w)
   }"

definition session_activated_out :: "nat \<Rightarrow> session_t \<Rightarrow> session_act list option" where
  "session_activated_out p s = do {
     zmq_assert (s_out s = Some p);
     Some (case s_engine s of Some e \<Rightarrow> [EngineActivateIn e] | None \<Rightarrow> [])
   }"

text \<open>\<open>p_in\<close> and \<open>p_out\<close> are the identities of the new pipes, \<open>raw\<close> the uninitialised memory of the swap.\<close>

definition new_pipe :: "nat \<Rightarrow> options_t \<Rightarrow> (byte list \<times> byte list \<times> nat) \<Rightarrow> pipe_world \<Rightarrow> pipe_world option" where
  "new_pipe p opts raw w = do {
     c \<leftarrow> create_pipe (hwm opts) (sint (swap opts)) (fst raw) (fst (snd raw)) (snd (snd raw));
     Some (set_conn p c [] w)
   }"

definition create_session_pipes ::
  "blob \<Rightarrow> nat \<Rightarrow> nat \<Rightarrow> (byte list \<times> byte list \<times> nat) \<Rightarrow> session_t \<Rightarrow> pipe_world \<Rightarrow> session_step" where
  "create_session_pipes peer p_in p_out raw s w = do {
     zmq_assert (s_in s = None \<and> s_out s = None);
     (out, w2) \<leftarrow> (if requires_in (s_options s)
        then do { w' \<leftarrow> new_pipe p_out (s_options s) raw w;
                  w'' \<leftarrow> op_set_sink pipe_writer_ops p_out w';
                  Some (Some p_out, w'') }
        else Some (None, w));
     (inp, w3) \<leftarrow> (if requires_out (s_options s)
        then do { w' \<leftarrow> new_pipe p_in (s_options s) raw w2;
                  w'' \<leftarrow> op_rset_sink pipe_reader_ops p_in w';
                  Some (Some p_in, w'') }
        else Some (None, w2));
     Some (s\<lparr>s_pipes_attached := True, s_in := inp, s_out := out\<rparr>, w3,
       if out \<noteq> None \<or> inp \<noteq> None then [SendBind out inp peer] else [])
   }"

definition session_process_attach ::
  "nat option \<Rightarrow> blob \<Rightarrow> nat \<Rightarrow> nat \<Rightarrow> (byte list \<times> byte list \<times> nat) \<Rightarrow> session_t \<Rightarrow> pipe_world \<Rightarrow> session_step" where
  "session_process_attach eng peer p_in p_out raw s w =
     (case eng of
        None \<Rightarrow> do { zmq_assert (s_engine s = None); Some (s, w, [DetachedFrom]) }
      | Some e \<Rightarrow>
          if s_state s = STerminating then Some (s, w, [EngineDelete e])
          else if s_engine s \<noteq> None then Some (s, w, [LogDuplicate, EngineDelete e])
          else do {
            (s1, w1, acts) \<leftarrow>
              (if s_pipes_attached s then Some (s, w, []) else create_session_pipes peer p_in p_out raw s w);
            Some (s1\<lparr>s_engine := Some e\<rparr>, w1, acts @ [EnginePlug e, AttachedTo peer])
          })"

definition session_detach :: "session_t \<Rightarrow> pipe_world \<Rightarrow> session_step" where
  "session_detach s w = do {
     (s1, w1, a1) \<leftarrow> clean_pipes (s\<lparr>s_engine := None\<rparr>) w;
     (s2, w2, a2) \<leftarrow> session_check_read s1 w1;
     Some (s2, w2, a1 @ [DetachedFrom] @ a2)
   }"

definition session_process_term :: "int \<Rightarrow> session_t \<Rightarrow> pipe_world \<Rightarrow> session_step" where
  "session_process_term lngr s w = do {
     zmq_assert (s_state s = SActive);
     let s1 = s\<lparr>s_state := SPending\<rparr>;
     (if lngr = 0 then proceed_with_term s1 w
      else do {
        (s2, a2) \<leftarrow> (if lngr > 0
           then do { zmq_assert (\<not> s_has_linger_timer s1);
                     Some (s1\<lparr>s_has_linger_timer := True\<rparr>, [AddTimer lngr]) }
           else Some (s1, []));
        (s3, w3, a3) \<leftarrow> session_check_read s2 w;
        (if \<not> requires_out (s_options s3) \<or> s_delimiter_processed s3 \<or> s_force_terminate s3 \<or>
            \<not> immediate_connect (s_options s3) \<and> s_in s3 = None
         then do { (s4, w4, a4) \<leftarrow> proceed_with_term s3 w3; Some (s4, w4, a2 @ a3 @ a4) }
         else Some (s3, w3, a2 @ a3))
      })
   }"

definition session_timer_event :: "session_t \<Rightarrow> pipe_world \<Rightarrow> session_step" where
  "session_timer_event s w = proceed_with_term (s\<lparr>s_has_linger_timer := False\<rparr>) w"

definition session_terminate :: "session_t \<Rightarrow> session_t \<times> session_act list" where
  "session_terminate s = (s\<lparr>s_force_terminate := True\<rparr>, [OwnTerminate])"

end
