(* ===== verification/Engine.thy ===== *)
theory Engine
  imports Session
begin

text \<open>
  \<^verbatim>\<open>src/zmq_engine.hpp\<close>, \<^verbatim>\<open>src/zmq_engine.cpp\<close>: the engine of a connection, between a TCP socket and
  an object with the interface \<^verbatim>\<open>i_inout\<close> (a session, or an init object during the greeting). The socket is a
  parameter: \<open>rd n\<close> is the result of a read of at most \<open>n\<close> bytes (\<open>None\<close> is -1), \<open>wrt bs\<close> the
  number of bytes written.

  The init object unplugs the engine from inside its \<open>read\<close> or \<open>write\<close>; \<open>io_unplugs\<close> tells whether it has.
\<close>

record 's inout =
  io_read :: "'s \<Rightarrow> (msg option \<times> 's) option"
  io_write :: "msg \<Rightarrow> 's \<Rightarrow> (bool \<times> 's) option"
  io_flush :: "'s \<Rightarrow> 's option"
  io_detach :: "'s \<Rightarrow> 's option"
  io_unplugs :: "'s \<Rightarrow> bool"

datatype engine_act = AddFd | RmFd | SetPollin | ResetPollin | SetPollout | ResetPollout | Written "byte list" | Deleted

record engine_t =
  inbuf :: "byte list"
  in_place :: bool
  decoder :: decoder_t
  outbuf :: "byte list"
  encoder :: encoder_t
  has_inout :: bool
  has_ephemeral :: bool
  plugged :: bool

definition in_batch_size :: nat where "in_batch_size = 8192"
definition out_batch_size :: nat where "out_batch_size = 8192"

definition engine_new :: engine_t where
  "engine_new = \<lparr>inbuf = [], in_place = False, decoder = decoder_new in_batch_size, outbuf = [],
     encoder = encoder_new out_batch_size, has_inout = False, has_ephemeral = False, plugged = False\<rparr>"

definition engine_unplug :: "engine_t \<Rightarrow> (engine_t \<times> engine_act list) option" where
  "engine_unplug e = do {
     zmq_assert (plugged e);
     Some (e\<lparr>plugged := False, has_ephemeral := has_inout e, has_inout := False\<rparr>, [RmFd])
   }"

definition engine_terminate :: "engine_t \<Rightarrow> (engine_t \<times> engine_act list) option" where
  "engine_terminate e = do { (e', acts) \<leftarrow> engine_unplug e; Some (e', acts @ [Deleted]) }"

text \<open>\<open>error\<close>: the object is told, the engine destroys itself.\<close>

definition engine_error :: "'s inout \<Rightarrow> engine_t \<Rightarrow> 's \<Rightarrow> (engine_t \<times> 's \<times> engine_act list) option" where
  "engine_error io e s = do {
     zmq_assert (has_inout e);
     s' \<leftarrow> io_detach io s;
     (e', acts) \<leftarrow> engine_terminate e;
     Some (e', s', acts)
   }"

text \<open>The state of the engine after a call into the object, which may have unplugged it.\<close>

definition after_call :: "'s inout \<Rightarrow> 's \<Rightarrow> engine_t \<Rightarrow> (engine_t \<times> engine_act list) option" where
  "after_call io s e = (if plugged e \<and> io_unplugs io s then engine_unplug e else Some (e, []))"

text \<open>Without an object (\<^verbatim>\<open>set_inout (NULL)\<close>) the encoder finds no message and the decoder's is refused.\<close>

definition inout_read :: "'s inout \<Rightarrow> engine_t \<Rightarrow> 's \<Rightarrow> (msg option \<times> 's) option" where
  "inout_read io e s = (if has_inout e \<and> \<not> io_unplugs io s then io_read io s else Some (None, s))"

definition inout_write :: "'s inout \<Rightarrow> engine_t \<Rightarrow> msg \<Rightarrow> 's \<Rightarrow> (bool \<times> 's) option" where
  "inout_write io e m s = (if has_inout e \<and> \<not> io_unplugs io s then io_write io m s else Some (False, s))"

definition engine_in_event ::
  "'s inout \<Rightarrow> u64 \<Rightarrow> (nat \<Rightarrow> byte list option) \<Rightarrow> engine_t \<Rightarrow> 's \<Rightarrow> (engine_t \<times> 's \<times> engine_act list) option" where
  "engine_in_event io lim rd e s = do {
     let (closed, e1) =
       (if inbuf e = []
        then (case rd (snd (get_buffer (decoder e))) of
                None \<Rightarrow> (True, e\<lparr>in_place := fst (get_buffer (decoder e))\<rparr>)
              | Some bs \<Rightarrow> (False, e\<lparr>inbuf := bs, in_place := fst (get_buffer (decoder e))\<rparr>))
        else (False, e\<lparr>in_place := False\<rparr>));
     (n, d', s1) \<leftarrow> process_buffer (inout_write io e1) lim (in_place e1) (inbuf e1) (decoder e1) s;
     (e2, a2) \<leftarrow> after_call io s1 (e1\<lparr>decoder := d'\<rparr>);
     let stuck = (n \<noteq> -1 \<and> n < int (length (inbuf e2)) \<and> plugged e2);
     let e3 = (if n = -1 then e2 else e2\<lparr>inbuf := drop (nat n) (inbuf e2)\<rparr>);
     zmq_assert (plugged e3 \<or> has_ephemeral e3);
     s2 \<leftarrow> io_flush io s1;
     let acts = a2 @ (if stuck then [ResetPollin] else []);
     (if has_inout e3 \<and> (closed \<or> n = -1)
      then do { (e4, s4, a4) \<leftarrow> engine_error io e3 s2; Some (e4, s4, acts @ a4) }
      else Some (e3, s2, acts))
   }"

definition engine_out_event ::
  "'s inout \<Rightarrow> (byte list \<Rightarrow> nat option) \<Rightarrow> engine_t \<Rightarrow> 's \<Rightarrow> (engine_t \<times> 's \<times> engine_act list) option" where
  "engine_out_event io wrt e s = do {
     (e1, s1, a1, stop) \<leftarrow>
       (if outbuf e = [] then do {
          (bs, _, enc, s') \<leftarrow> enc_get_data (inout_read io e) None (encoder e) s;
          (e', a) \<leftarrow> after_call io s' (e\<lparr>outbuf := bs, encoder := enc\<rparr>);
          (if \<not> plugged e'
           then do { zmq_assert (has_ephemeral e'); s'' \<leftarrow> io_flush io s'; Some (e', s'', a, True) }
           else if bs = [] then Some (e', s', a @ [ResetPollout], True)
           else Some (e', s', a, False))
        }
        else Some (e, s, [], False));
     (if stop then Some (e1, s1, a1)
      else case wrt (outbuf e1) of
        None \<Rightarrow> do { (e2, s2, a2) \<leftarrow> engine_error io e1 s1; Some (e2, s2, a1 @ a2) }
      | Some n \<Rightarrow>
          Some (e1\<lparr>outbuf := drop n (outbuf e1)\<rparr>, s1, a1 @ [Written (take n (outbuf e1))]))
   }"

definition engine_plug ::
  "'s inout \<Rightarrow> u64 \<Rightarrow> (nat \<Rightarrow> byte list option) \<Rightarrow> engine_t \<Rightarrow> 's \<Rightarrow> (engine_t \<times> 's \<times> engine_act list) option" where
  "engine_plug io lim rd e s = do {
     zmq_assert (\<not> plugged e);
     zmq_assert (\<not> has_inout e);
     (e', s', acts) \<leftarrow> engine_in_event io lim rd (e\<lparr>plugged := True, has_ephemeral := False, has_inout := True\<rparr>) s;
     Some (e', s', [AddFd, SetPollin, SetPollout] @ acts)
   }"

definition engine_activate_out ::
  "'s inout \<Rightarrow> (byte list \<Rightarrow> nat option) \<Rightarrow> engine_t \<Rightarrow> 's \<Rightarrow> (engine_t \<times> 's \<times> engine_act list) option" where
  "engine_activate_out io wrt e s = do {
     (e', s', acts) \<leftarrow> engine_out_event io wrt e s; Some (e', s', SetPollout # acts) }"

definition engine_activate_in ::
  "'s inout \<Rightarrow> u64 \<Rightarrow> (nat \<Rightarrow> byte list option) \<Rightarrow> engine_t \<Rightarrow> 's \<Rightarrow> (engine_t \<times> 's \<times> engine_act list) option" where
  "engine_activate_in io lim rd e s = do {
     (e', s', acts) \<leftarrow> engine_in_event io lim rd e s; Some (e', s', SetPollin # acts) }"

section \<open>Engines over well-behaved objects\<close>

locale engine_object = msg_source "io_read io" feeds + msg_sink "io_write io" holds accepts
  for io :: "'s inout" and feeds :: "'s \<Rightarrow> msg list \<Rightarrow> bool" and holds :: "'s \<Rightarrow> msg list \<Rightarrow> bool" and accepts :: "'s \<Rightarrow> bool" +
  assumes flush_law: "holds s ms \<Longrightarrow> \<exists>s'. io_flush io s = Some s' \<and> holds s' ms \<and> accepts s' = accepts s"
    and stays_plugged: "\<not> io_unplugs io s"

text \<open>Reading from a network that holds \<open>stream\<close>: the \<open>k\<close>-th event gets at most as many bytes as the schedule says.\<close>

fun net_run :: "'s inout \<Rightarrow> u64 \<Rightarrow> nat list \<Rightarrow> byte list \<Rightarrow> engine_t \<Rightarrow> 's \<Rightarrow> (byte list \<times> engine_t \<times> 's) option" where
  "net_run io lim [] stream e s = Some (stream, e, s)"
| "net_run io lim (k # ks) stream e s = do {
     (e', s', _) \<leftarrow> engine_in_event io lim (\<lambda>n. Some (take (min n k) stream)) e s;
     net_run io lim ks
       (if inbuf e = [] then drop (min (snd (get_buffer (decoder e))) k) stream else stream) e' s'
   }"

fun get_batches ::
  "('s \<Rightarrow> (msg option \<times> 's) option) \<Rightarrow> nat \<Rightarrow> encoder_t \<Rightarrow> 's \<Rightarrow> (byte list \<times> encoder_t \<times> 's) option" where
  "get_batches read 0 e s = Some ([], e, s)"
| "get_batches read (Suc n) e s = do {
     (bs, _, e1, s1) \<leftarrow> enc_get_data read None e s;
     (rest, e2, s2) \<leftarrow> get_batches read n e1 s1;
     Some (bs @ rest, e2, s2)
   }"

context msg_source
begin

lemma get_batches_spec:
  "feeds s ms \<Longrightarrow> \<exists>bs e' s' ms'. get_batches read n e s = Some (bs, e', s') \<and> feeds s' ms' \<and>
     enc_rest e @ concat (map frame ms) = bs @ enc_rest e' @ concat (map frame ms')"
proof (induction n arbitrary: e s ms)
  case 0
  then show ?case by auto
next
  case (Suc n)
  obtain b off e1 s1 ms1 where 1: "enc_get_data read None e s = Some (b, off, e1, s1)" "feeds s1 ms1"
      "enc_rest e @ concat (map frame ms) = b @ enc_rest e1 @ concat (map frame ms1)"
    using get_data_spec[OF Suc.prems, of None e] by auto
  obtain bs e' s' ms' where "get_batches read n e1 s1 = Some (bs, e', s')" "feeds s' ms'"
      "enc_rest e1 @ concat (map frame ms1) = bs @ enc_rest e' @ concat (map frame ms')"
    using Suc.IH[OF 1(2), of e1] by blast
  then show ?case using 1 by (intro exI[of _ "b @ bs"] exI[of _ e'] exI[of _ s'] exI[of _ ms']) simp
qed

end

context engine_object
begin

lemma write_inout: "has_inout e \<Longrightarrow> inout_write io e = io_write io"
  using stays_plugged by (simp add: inout_write_def fun_eq_iff)

lemma in_event_spec:
  assumes plug: "plugged e" "has_inout e" and h: "holds s acc" and fit: "\<forall>m \<in> set ms. msg_fits lim m"
    and rel: "dec_rel (decoder e) ms (inbuf e @ bs @ q)"
    and rd: "inbuf e = [] \<Longrightarrow> rd (snd (get_buffer (decoder e))) = Some bs \<and> length bs \<le> snd (get_buffer (decoder e))"
      "inbuf e \<noteq> [] \<Longrightarrow> bs = []"
  shows "\<exists>e' s' acts ms1 ms2. engine_in_event io lim rd e s = Some (e', s', acts) \<and> plugged e' \<and> has_inout e' \<and>
    ms = ms1 @ ms2 \<and> dec_rel (decoder e') ms2 (inbuf e' @ q) \<and> holds s' (acc @ map received ms1) \<and>
    (inbuf e' = [] \<and> to_read (decoder e') \<noteq> 0 \<or> \<not> accepts s')"
proof -
  let ?dat = "if inbuf e = [] then bs else inbuf e"
  let ?zc = "inbuf e = [] \<and> fst (get_buffer (decoder e))"
  let ?e1 = "if inbuf e = [] then e\<lparr>inbuf := bs, in_place := fst (get_buffer (decoder e))\<rparr> else e\<lparr>in_place := False\<rparr>"
  have e1: "inbuf ?e1 = ?dat" "in_place ?e1 = ?zc" "decoder ?e1 = decoder e" "plugged ?e1" "has_inout ?e1"
    using plug by auto
  have dat: "inbuf e @ bs @ q = ?dat @ q" using rd(2) by auto
  have zc: "?zc \<Longrightarrow> length ?dat \<le> to_read (decoder e)"
    using rd(1) by (auto simp: get_buffer_def split: if_splits)
  obtain k d' s1 ms1 ms2 where P: "process_buffer (io_write io) lim ?zc ?dat (decoder e) s = Some (int k, d', s1)"
      "k \<le> length ?dat" "ms = ms1 @ ms2" "dec_rel d' ms2 (drop k ?dat @ q)" "holds s1 (acc @ map received ms1)"
      "k = length ?dat \<and> to_read d' \<noteq> 0 \<or> \<not> accepts s1"
    using process_spec[OF rel[unfolded dat] h fit zc] by blast
  obtain s2 where s2: "io_flush io s1 = Some s2" "holds s2 (acc @ map received ms1)" "accepts s2 = accepts s1"
    using flush_law[OF P(5)] by blast
  have start: "(if inbuf e = [] then (case rd (snd (get_buffer (decoder e))) of
          None \<Rightarrow> (True, e\<lparr>in_place := fst (get_buffer (decoder e))\<rparr>)
        | Some bs \<Rightarrow> (False, e\<lparr>inbuf := bs, in_place := fst (get_buffer (decoder e))\<rparr>))
      else (False, e\<lparr>in_place := False\<rparr>)) = (False, ?e1)"
    using rd(1) by auto
  let ?e3 = "?e1\<lparr>decoder := d', inbuf := drop k ?dat\<rparr>"
  have "engine_in_event io lim rd e s = Some (?e3, s2, if k < length ?dat then [ResetPollin] else [])"
    unfolding engine_in_event_def start
    using P(1,2) e1 s2(1) stays_plugged by (auto simp: write_inout after_call_def)
  moreover have "plugged ?e3" "has_inout ?e3" using e1(4,5) by simp_all
  moreover have "dec_rel (decoder ?e3) ms2 (inbuf ?e3 @ q)" using P(4) by simp
  moreover have "inbuf ?e3 = [] \<and> to_read (decoder ?e3) \<noteq> 0 \<or> \<not> accepts s2" using P(6) s2(3) by auto
  ultimately show ?thesis using P(3) s2(2) by blast
qed

lemma net_run_spec:
  "plugged e \<Longrightarrow> has_inout e \<Longrightarrow> holds s acc \<Longrightarrow> \<forall>m \<in> set ms. msg_fits lim m \<Longrightarrow>
   dec_rel (decoder e) ms (inbuf e @ stream @ q) \<Longrightarrow> inbuf e = [] \<and> to_read (decoder e) \<noteq> 0 \<or> \<not> accepts s \<Longrightarrow>
   \<exists>rest e' s' ms1 ms2. net_run io lim ks stream e s = Some (rest, e', s') \<and> ms = ms1 @ ms2 \<and>
     dec_rel (decoder e') ms2 (inbuf e' @ rest @ q) \<and> holds s' (acc @ map received ms1) \<and>
     (inbuf e' = [] \<and> to_read (decoder e') \<noteq> 0 \<or> \<not> accepts s')"
proof (induction ks arbitrary: stream e s acc ms)
  case Nil
  then show ?case
    by (intro exI[of _ stream] exI[of _ e] exI[of _ s] exI[of _ "[]"] exI[of _ ms]) simp
next
  case (Cons k ks)
  let ?n = "min (snd (get_buffer (decoder e))) k"
  let ?bs = "if inbuf e = [] then take ?n stream else []"
  let ?rest = "if inbuf e = [] then drop ?n stream else stream"
  have split: "inbuf e @ stream @ q = inbuf e @ ?bs @ (?rest @ q)" by simp
  have rd: "inbuf e = [] \<Longrightarrow> (\<lambda>n. Some (take (min n k) stream)) (snd (get_buffer (decoder e))) = Some ?bs \<and>
      length ?bs \<le> snd (get_buffer (decoder e))" "inbuf e \<noteq> [] \<Longrightarrow> ?bs = []"
    by simp_all
  obtain e1 s1 acts ms1 ms2 where 1: "engine_in_event io lim (\<lambda>n. Some (take (min n k) stream)) e s = Some (e1, s1, acts)"
      "plugged e1" "has_inout e1" "ms = ms1 @ ms2" "dec_rel (decoder e1) ms2 (inbuf e1 @ (?rest @ q))"
      "holds s1 (acc @ map received ms1)" "inbuf e1 = [] \<and> to_read (decoder e1) \<noteq> 0 \<or> \<not> accepts s1"
    using in_event_spec[OF Cons.prems(1-4) Cons.prems(5)[unfolded split], of "\<lambda>n. Some (take (min n k) stream)", OF rd]
    by blast
  have "\<forall>m \<in> set ms2. msg_fits lim m" using Cons.prems(4) 1(4) by simp
  then obtain rest e' s' ms3 ms4 where "net_run io lim ks ?rest e1 s1 = Some (rest, e', s')" "ms2 = ms3 @ ms4"
      "dec_rel (decoder e') ms4 (inbuf e' @ rest @ q)" "holds s' ((acc @ map received ms1) @ map received ms3)"
      "inbuf e' = [] \<and> to_read (decoder e') \<noteq> 0 \<or> \<not> accepts s'"
    using Cons.IH[OF 1(2,3,6) _ 1(5,7)] by blast
  then show ?case using 1(1,4)
    by (intro exI[of _ rest] exI[of _ e'] exI[of _ s'] exI[of _ "ms1 @ ms3"] exI[of _ ms4]) simp
qed

end

section \<open>The session as the object of an engine\<close>

definition session_io :: "(session_t \<times> pipe_world) inout" where
  "session_io = \<lparr>
     io_read = (\<lambda>(s, w). do { (v, s', w', _) \<leftarrow> session_read s w; Some (v, (s', w')) }),
     io_write = (\<lambda>m (s, w). do { (ok, w') \<leftarrow> session_write m s w; Some (ok, (s, w')) }),
     io_flush = (\<lambda>(s, w). do { w' \<leftarrow> session_flush s w; Some (s, w') }),
     io_detach = (\<lambda>(s, w). do { (s', w', _) \<leftarrow> session_detach s w; Some (s', w') }),
     io_unplugs = (\<lambda>_. False)\<rparr>"

definition session_feeds :: "session_t \<times> pipe_world \<Rightarrow> msg list \<Rightarrow> bool" where
  "session_feeds x ms \<longleftrightarrow> (\<exists>p. s_in (fst x) = Some p \<and> conn_feeds (conns (snd x) p) ms)"

definition session_holds :: "session_t \<times> pipe_world \<Rightarrow> msg list \<Rightarrow> bool" where
  "session_holds x ms \<longleftrightarrow> (\<exists>p. s_out (fst x) = Some p \<and> conn_holds (conns (snd x) p) ms)"

definition session_accepts :: "session_t \<times> pipe_world \<Rightarrow> bool" where
  "session_accepts x = (case s_out (fst x) of None \<Rightarrow> False | Some p \<Rightarrow> writer_ready (conns (snd x) p))"

lemma session_feeds_read:
  assumes "session_feeds x ms"
  shows "\<exists>x'. io_read session_io x = Some (if ms = [] then None else Some (hd ms), x') \<and> session_feeds x' (tl ms)"
proof -
  obtain s w p where x: "x = (s, w)" "s_in s = Some p" "conn_feeds (conns w p) ms"
    using assms by (cases x) (auto simp: session_feeds_def)
  obtain c' acts where "reader_read (conns w p) = Some (if ms = [] then None else Some (hd ms), c', acts)"
      "conn_feeds c' (tl ms)" "Delimited \<notin> set acts"
    using conn_feeds_read[OF x(3)] by blast
  then show ?thesis using x(2)
    by (auto simp: x(1) session_io_def session_read_def on_delimited_def session_feeds_def)
qed

lemma session_holds_write:
  assumes "session_holds x ms"
  shows "\<exists>x'. io_write session_io m x = Some (session_accepts x, x') \<and>
    session_holds x' (if session_accepts x then ms @ [m] else ms) \<and> (\<not> session_accepts x \<longrightarrow> \<not> session_accepts x')"
proof -
  obtain s w p where x: "x = (s, w)" "s_out s = Some p" "conn_holds (conns w p) ms"
    using assms by (cases x) (auto simp: session_holds_def)
  show ?thesis using conn_holds_write[OF x(3), of m] x(2)
    by (auto simp: x(1) session_io_def session_write_def pipe_writer_ops_def session_holds_def session_accepts_def)
qed

lemma session_holds_flush:
  assumes "session_holds x ms"
  shows "\<exists>x'. io_flush session_io x = Some x' \<and> session_holds x' ms \<and> session_accepts x' = session_accepts x"
proof -
  obtain s w p where x: "x = (s, w)" "s_out s = Some p" "conn_holds (conns w p) ms"
    using assms by (cases x) (auto simp: session_holds_def)
  show ?thesis using conn_holds_flush[OF x(3)] x(2)
    by (auto simp: x(1) session_io_def session_flush_def pipe_writer_ops_def session_holds_def session_accepts_def)
qed

interpretation se: engine_object session_io session_feeds session_holds session_accepts
proof (unfold_locales, goal_cases)
  case (1 x)
  then show ?case using session_feeds_read[OF 1] by simp
next
  case (2 x m ms)
  then show ?case using session_feeds_read[OF 2] by simp
next
  case (3 x ms m)
  then show ?case by (rule session_holds_write)
next
  case (4 x ms)
  then show ?case by (rule session_holds_flush)
next
  case (5 x)
  then show ?case by (simp add: session_io_def)
qed

text \<open>C31: The encoder writes the messages and nothing else. Whatever the buffers it is given, the bytes it returns
  are the next ones of the frames of the messages in the pipe; a batch that does not fill the
  buffer means that no byte is left to be written, and a supplied buffer is never overrun.\<close>

theorem encoder_writes_frames:
  assumes "session_feeds x ms"
  shows "\<exists>out off e' x' ms'. enc_get_data (io_read session_io) supplied e x = Some (out, off, e', x') \<and>
     session_feeds x' ms' \<and> enc_rest e @ concat (map frame ms) = out @ enc_rest e' @ concat (map frame ms') \<and>
     (length out < (case supplied of None \<Rightarrow> enc_bufsize e | Some n \<Rightarrow> n) \<longrightarrow> enc_rest e' = [] \<and> ms' = []) \<and>
     (\<forall>n. supplied = Some n \<longrightarrow> length out \<le> n)"
  using assms by (rule se.get_data_spec)

text \<open>A session whose pipe from the socket holds two parts, and one whose pipe to the socket is empty.\<close>

definition demo_sender :: "session_t \<times> pipe_world" where
  "demo_sender = ((session_new options_new)\<lparr>s_in := Some 0\<rparr>, \<lparr>conns = (\<lambda>_. demo_full), pipe_log = []\<rparr>)"

definition demo_receiver :: "session_t \<times> pipe_world" where
  "demo_receiver = ((session_new options_new)\<lparr>s_out := Some 0\<rparr>, \<lparr>conns = (\<lambda>_. demo_conn 2), pipe_log = []\<rparr>)"

definition demo_engine :: engine_t where
  "demo_engine = engine_new\<lparr>plugged := True, has_inout := True\<rparr>"

lemma demo_sender_feeds: "session_feeds demo_sender demo_parts"
  using demo_full_feeds by (simp add: session_feeds_def demo_sender_def session_new_def)

lemma demo_receiver_holds: "session_holds demo_receiver [] \<and> session_accepts demo_receiver"
  using demo_conn_holds
  by (simp add: session_holds_def session_accepts_def demo_receiver_def session_new_def)

theorem encoder_writes_frames_witness:
  "\<exists>out off e' x'. enc_get_data (io_read session_io) (Some 3) (encoder_new 8192) demo_sender = Some (out, off, e', x') \<and>
     length out = 3"
proof -
  have rest0: "enc_rest (encoder_new 8192) = []" by (simp add: enc_rest_def encoder_new_def)
  obtain out off e' x' ms' where *: "enc_get_data (io_read session_io) (Some 3) (encoder_new 8192) demo_sender =
      Some (out, off, e', x')"
    "concat (map frame demo_parts) = out @ enc_rest e' @ concat (map frame ms')"
    "length out < 3 \<longrightarrow> enc_rest e' = [] \<and> ms' = []" "length out \<le> 3"
    using encoder_writes_frames[OF demo_sender_feeds, of "Some 3" "encoder_new 8192"]
    unfolding option.case rest0 append_Nil option.inject by blast
  have "length (concat (map frame demo_parts)) = 6"
    by (simp add: demo_parts_def frame_def frame_header_def)
  then have "\<not> length out < 3" using *(2,3) by auto
  then show ?thesis using *(1,4) by auto
qed

text \<open>C30: Messages survive the connection. A session sends the messages in its pipe in any number of batches; on the
  other side a freshly plugged engine reads the bytes in pieces of any size. No assertion fails and no memory is overrun,
  the receiving pipe holds a prefix of the messages in order and unchanged but for the internal flags, and all of them
  when everything was sent, everything was read and the pipe did not fill up.\<close>

theorem connection_roundtrip:
  assumes "session_feeds x ms" and "\<forall>m \<in> set ms. msg_fits lim m" and "session_holds y acc"
    and "plugged e" and "has_inout e" and "decoder e = decoder_new n" and "inbuf e = []"
  shows "\<exists>bs enc' x' ms' rest e' y' del. get_batches (io_read session_io) k (encoder_new b) x = Some (bs, enc', x') \<and>
    session_feeds x' ms' \<and> net_run session_io lim ks bs e y = Some (rest, e', y') \<and>
    session_holds y' (acc @ map received del) \<and> (\<exists>more_ms. ms = del @ more_ms) \<and>
    (enc_rest enc' = [] \<and> ms' = [] \<and> rest = [] \<and> session_accepts y' \<longrightarrow> del = ms)"
proof -
  obtain bs enc' x' ms' where B: "get_batches (io_read session_io) k (encoder_new b) x = Some (bs, enc', x')"
      "session_feeds x' ms'" "concat (map frame ms) = bs @ enc_rest enc' @ concat (map frame ms')"
    using se.get_batches_spec[OF assms(1), of k "encoder_new b"] by (auto simp: enc_rest_def encoder_new_def)
  have rel: "dec_rel (decoder e) ms (inbuf e @ bs @ enc_rest enc' @ concat (map frame ms'))"
    using dec_rel_new[of n ms] B(3) assms(6,7) by simp
  have start: "inbuf e = [] \<and> to_read (decoder e) \<noteq> 0 \<or> \<not> session_accepts y"
    using assms(6,7) by (simp add: decoder_new_def dec_next_step_def)
  obtain rest e' y' del ms2 where R: "net_run session_io lim ks bs e y = Some (rest, e', y')" "ms = del @ ms2"
      "dec_rel (decoder e') ms2 (inbuf e' @ rest @ enc_rest enc' @ concat (map frame ms'))"
      "session_holds y' (acc @ map received del)" "inbuf e' = [] \<and> to_read (decoder e') \<noteq> 0 \<or> \<not> session_accepts y'"
    using se.net_run_spec[OF assms(4,5,3,2) rel start, of ks] by blast
  have "ms2 = []" if "enc_rest enc' = []" "ms' = []" "rest = []" "session_accepts y'"
  proof -
    have "dec_rel (decoder e') ms2 []" "to_read (decoder e') \<noteq> 0" using R(3,5) that by auto
    then show ?thesis by (rule dec_rel_empty)
  qed
  then show ?thesis using B(1,2) R(1,2,4) by (intro exI[of _ bs] exI[of _ enc'] exI[of _ x'] exI[of _ ms'] exI[of _ rest]
      exI[of _ e'] exI[of _ y'] exI[of _ del]) auto
qed

theorem connection_roundtrip_witness:
  "\<exists>bs enc' x' rest e' y' del. get_batches (io_read session_io) 1 (encoder_new 8192) demo_sender = Some (bs, enc', x') \<and>
    net_run session_io 1000 [1, 2, 3] bs demo_engine demo_receiver = Some (rest, e', y') \<and>
    session_holds y' (map received del) \<and> (\<exists>more_ms. demo_parts = del @ more_ms)"
proof -
  have "\<forall>m \<in> set demo_parts. msg_fits 1000 m"
    by (simp add: demo_parts_def msg_fits_def init_size_ok_def ZMQ_MAX_VSM_SIZE_def)
  moreover have "plugged demo_engine" "has_inout demo_engine" "decoder demo_engine = decoder_new in_batch_size" "inbuf demo_engine = []"
    by (simp_all add: demo_engine_def engine_new_def)
  moreover have "session_holds demo_receiver []" using demo_receiver_holds by simp
  ultimately show ?thesis
    using connection_roundtrip[OF demo_sender_feeds, of 1000 demo_receiver "[]" demo_engine in_batch_size 1 8192 "[1, 2, 3]"]
    unfolding append_Nil by blast
qed

end
