(* ===== verification/SessionLife.thy ===== *)
theory SessionLife
  imports Session
begin

text \<open>
  The life of a session: the calls it gets from its pipes, its engine, its owner and its timer in any
  order, and the balance of the acknowledgements it waits for before it may be destroyed.
\<close>

datatype session_call =
  CallRead | CallWrite msg | CallFlush | CallAttachPipes "nat option" "nat option" | CallTerminatedIn nat
  | CallTerminatedOut nat | CallActivatedIn nat | CallActivatedOut nat
  | CallAttach "nat option" blob nat nat "byte list \<times> byte list \<times> nat" | CallDetach | CallTerm int | CallTimer
  | CallTerminate

fun session_exec :: "session_call \<Rightarrow> session_t \<Rightarrow> pipe_world \<Rightarrow> session_step" where
  "session_exec CallRead s w = do { (_, s', w', acts) \<leftarrow> session_read s w; Some (s', w', acts) }"
| "session_exec (CallWrite m) s w = do { (_, w') \<leftarrow> session_write m s w; Some (s, w', []) }"
| "session_exec CallFlush s w = do { w' \<leftarrow> session_flush s w; Some (s, w', []) }"
| "session_exec (CallAttachPipes i out) s w = attach_pipes i out s w"
| "session_exec (CallTerminatedIn p) s w = do { (s', acts) \<leftarrow> session_terminated_in p s; Some (s', w, acts) }"
| "session_exec (CallTerminatedOut p) s w = do { (s', acts) \<leftarrow> session_terminated_out p s; Some (s', w, acts) }"
| "session_exec (CallActivatedIn p) s w = session_activated_in p s w"
| "session_exec (CallActivatedOut p) s w = do { acts \<leftarrow> session_activated_out p s; Some (s, w, acts) }"
| "session_exec (CallAttach eng peer i out raw) s w = session_process_attach eng peer i out raw s w"
| "session_exec CallDetach s w = session_detach s w"
| "session_exec (CallTerm lngr) s w = session_process_term lngr s w"
| "session_exec CallTimer s w = session_timer_event s w"
| "session_exec CallTerminate s w = (let (s', acts) = session_terminate s in Some (s', w, acts))"

text \<open>What the calls of \<open>own_t\<close> in a list of actions add up to, and how often its termination was started.\<close>

fun ack_of :: "session_act \<Rightarrow> int" where
  "ack_of (RegisterAcks n) = int n"
| "ack_of UnregisterAck = -1"
| "ack_of _ = 0"

definition acks_of :: "session_act list \<Rightarrow> int" where
  "acks_of acts = sum_list (map ack_of acts)"

definition terms_of :: "session_act list \<Rightarrow> nat" where
  "terms_of acts = length (filter (\<lambda>a. case a of OwnProcessTerm _ \<Rightarrow> True | _ \<Rightarrow> False) acts)"

definition owed :: "session_t \<Rightarrow> int" where
  "owed s = (if s_state s = STerminating
     then (if s_in s = None then 0 else 1) + (if s_out s = None then 0 else 1) else 0)"

definition finished :: "session_t \<Rightarrow> nat" where
  "finished s = (if s_state s = STerminating then 1 else 0)"

definition session_ok :: "session_t \<Rightarrow> bool" where
  "session_ok s \<longleftrightarrow> (\<not> s_pipes_attached s \<longrightarrow> s_in s = None \<and> s_out s = None) \<and>
     (s_has_linger_timer s \<longrightarrow> s_state s = SPending)"

definition balanced :: "session_t \<Rightarrow> session_t \<Rightarrow> session_act list \<Rightarrow> bool" where
  "balanced s s' acts \<longleftrightarrow> session_ok s' \<and> acks_of acts = owed s' - owed s \<and>
     finished s + terms_of acts = finished s'"

inductive sess_reach :: "options_t \<Rightarrow> pipe_world \<Rightarrow> session_t \<Rightarrow> pipe_world \<Rightarrow> session_act list \<Rightarrow> bool"
  for opts w0 where
  born: "sess_reach opts w0 (session_new opts) w0 []"
| called: "sess_reach opts w0 s w acts \<Longrightarrow> session_exec c s w = Some (s', w', acts') \<Longrightarrow>
    sess_reach opts w0 s' w' (acts @ acts')"

named_theorems session_defs

lemmas [session_defs] = balanced_def session_ok_def owed_def finished_def acks_of_def terms_of_def

lemma acks_append: "acks_of (xs @ ys) = acks_of xs + acks_of ys" "terms_of (xs @ ys) = terms_of xs + terms_of ys"
  by (simp_all add: acks_of_def terms_of_def)

lemma balanced_trans: "balanced s s1 a \<Longrightarrow> balanced s1 s2 b \<Longrightarrow> balanced s s2 (a @ b)"
  by (simp add: balanced_def acks_append)

lemma balanced_id: "session_ok s \<Longrightarrow> balanced s s []"
  by (simp add: session_defs)

lemma balanced_proceed:
  "session_ok s \<Longrightarrow> proceed_with_term s w = Some (s', w', acts) \<Longrightarrow> balanced s s' acts"
  by (cases "s_in s"; cases "s_out s")
    (auto simp: proceed_with_term_def terminate_in_def terminate_out_def Let_def session_defs
      split: if_splits bind_splits)

lemma balanced_delimited:
  "session_ok s \<Longrightarrow> session_delimited p s w = Some (s', w', acts) \<Longrightarrow> balanced s s' acts"
proof -
  assume ok: "session_ok s" and run: "session_delimited p s w = Some (s', w', acts)"
  let ?s = "s\<lparr>s_delimiter_processed := True\<rparr>"
  have ok1: "session_ok ?s" using ok by (simp add: session_defs)
  have same: "balanced s x a = balanced ?s x a" for x a by (simp add: session_defs)
  show ?thesis
    using run balanced_proceed[OF ok1] balanced_id[OF ok1] unfolding same
    by (auto simp: session_delimited_def Let_def split: if_splits bind_splits)
qed

lemma balanced_on_delimited:
  "session_ok s \<Longrightarrow> on_delimited p a s w = Some (s', w', acts) \<Longrightarrow> balanced s s' acts"
  using balanced_delimited balanced_id by (auto simp: on_delimited_def split: if_splits)

lemma balanced_read:
  "session_ok s \<Longrightarrow> session_read s w = Some (v, s', w', acts) \<Longrightarrow> balanced s s' acts"
proof -
  assume ok: "session_ok s" and run: "session_read s w = Some (v, s', w', acts)"
  have upd: "balanced s (x\<lparr>s_incomplete_in := b\<rparr>) a = balanced s x a" for x b a by (simp add: session_defs)
  show ?thesis
    using run balanced_on_delimited[OF ok] balanced_id[OF ok]
    by (auto simp: session_read_def upd split: option.splits bind_splits)
qed

lemma balanced_check_read:
  "session_ok s \<Longrightarrow> session_check_read s w = Some (s', w', acts) \<Longrightarrow> balanced s s' acts"
  using balanced_on_delimited balanced_id
  by (auto simp: session_check_read_def split: option.splits bind_splits)

lemma balanced_finish:
  "finish_incomplete s w = Some y \<Longrightarrow> session_ok s \<longrightarrow> balanced s (fst y) (snd (snd y))"
proof (induction s w y rule: finish_incomplete.raw_induct[rotated, consumes 1])
  case (1 f s w y)
  show ?case
  proof
    assume ok: "session_ok s"
    show "balanced s (fst y) (snd (snd y))"
    proof (cases "s_incomplete_in s")
      case False
      then show ?thesis using 1(2) balanced_id[OF ok] by auto
    next
      case True
      obtain v s1 w1 a1 where r: "session_read s w = Some (v, s1, w1, a1)"
        using 1(2) True by (auto split: bind_splits)
      note b1 = balanced_read[OF ok r]
      then have ok1: "session_ok s1" by (simp add: balanced_def)
      show ?thesis
      proof (cases v)
        case None
        then have "y = (s1, w1, a1)" using 1(2) True r by (cases "s_incomplete_in s1") simp_all
        then show ?thesis using b1 by simp
      next
        case (Some m)
        then obtain s2 w2 a2 where f: "f s1 w1 = Some (s2, w2, a2)" and y: "y = (s2, w2, a1 @ a2)"
          using 1(2) True r by (cases "f s1 w1") auto
        have "balanced s1 s2 a2" using 1(1)[OF f] ok1 by simp
        from balanced_trans[OF b1 this] show ?thesis using y by simp
      qed
    qed
  qed
qed

lemma balanced_clean:
  "session_ok s \<Longrightarrow> clean_pipes s w = Some (s', w', acts) \<Longrightarrow> balanced s s' acts"
  using balanced_finish[of s _ "(s', w', acts)"] balanced_id[of s]
  by (auto simp: clean_pipes_def split: bind_splits if_splits)

lemma balanced_attach_pipes:
  "session_ok s \<Longrightarrow> attach_pipes i out s w = Some (s', w', acts) \<Longrightarrow> balanced s s' acts"
  by (cases i; cases out)
    (auto simp: attach_pipes_def terminate_in_def terminate_out_def Let_def session_defs
      split: if_splits bind_splits option.splits)

lemma balanced_create:
  assumes "create_session_pipes peer i out raw s w = Some (s', w', acts)" "s_state s \<noteq> STerminating"
    and "session_ok s"
  shows "balanced s s' acts" "s_state s' = s_state s"
proof -
  have "s' = s\<lparr>s_pipes_attached := True, s_in := s_in s', s_out := s_out s'\<rparr> \<and>
      (acts = [] \<or> acts = [SendBind (s_out s') (s_in s') peer])"
    using assms(1) by (auto simp: create_session_pipes_def split: bind_splits if_splits)
  then show "balanced s s' acts" "s_state s' = s_state s"
    using assms(2,3) by (auto simp: session_defs dest: arg_cong[where f = s_state] arg_cong[where f = s_pipes_attached])
qed

lemma balanced_attach:
  assumes ok: "session_ok s" and run: "session_process_attach eng peer i out raw s w = Some (s', w', acts)"
  shows "balanced s s' acts"
proof (cases "eng = None \<or> s_state s = STerminating \<or> s_engine s \<noteq> None")
  case True
  then show ?thesis using run ok
    by (auto simp: session_process_attach_def session_defs split: if_splits bind_splits option.splits)
next
  case False
  then obtain e s1 w1 a where c: "(if s_pipes_attached s then Some (s, w, []) else create_session_pipes peer i out raw s w) = Some (s1, w1, a)"
      "s' = s1\<lparr>s_engine := Some e\<rparr>" "acts = a @ [EnginePlug e, AttachedTo peer]"
    using run by (auto simp: session_process_attach_def split: bind_splits)
  have "balanced s s1 a"
    using c(1) balanced_create(1)[of peer i out raw s w s1 w1 a] False ok balanced_id[OF ok] by (auto split: if_splits)
  then show ?thesis unfolding c(2,3) by (simp add: session_defs)
qed

lemma balanced_detach:
  assumes ok: "session_ok s" and run: "session_detach s w = Some (s', w', acts)"
  shows "balanced s s' acts"
proof -
  let ?s = "s\<lparr>s_engine := None\<rparr>"
  have ok0: "session_ok ?s" using ok by (simp add: session_defs)
  have same: "balanced s x a = balanced ?s x a" for x a by (simp add: session_defs)
  obtain s1 w1 a1 a2 where c: "clean_pipes ?s w = Some (s1, w1, a1)" "session_check_read s1 w1 = Some (s', w', a2)"
      "acts = a1 @ [DetachedFrom] @ a2"
    using run by (auto simp: session_detach_def split: bind_splits)
  note b1 = balanced_clean[OF ok0 c(1)]
  then have "session_ok s1" by (simp add: balanced_def)
  then have "balanced s1 s' ([DetachedFrom] @ a2)"
    using balanced_check_read[OF _ c(2)] by (simp add: balanced_def acks_append) (simp add: acks_of_def terms_of_def)
  then show ?thesis unfolding same c(3) by (rule balanced_trans[OF b1])
qed

lemma balanced_term:
  assumes ok: "session_ok s" and run: "session_process_term lngr s w = Some (s', w', acts)"
  shows "balanced s s' acts"
proof -
  have st: "s_state s = SActive" using run by (auto simp: session_process_term_def split: bind_splits)
  let ?s1 = "s\<lparr>s_state := SPending\<rparr>"
  have ok1: "session_ok ?s1" using ok by (simp add: session_defs)
  have same: "balanced s x a = balanced ?s1 x a" for x a using st by (simp add: session_defs)
  show ?thesis
  proof (cases "lngr = 0")
    case True
    then show ?thesis using run st balanced_proceed[OF ok1] unfolding same
      by (auto simp: session_process_term_def Let_def)
  next
    case False
    let ?s2 = "if lngr > 0 then ?s1\<lparr>s_has_linger_timer := True\<rparr> else ?s1"
    let ?a2 = "if lngr > 0 then [AddTimer lngr] else []"
    have b2: "balanced ?s1 ?s2 ?a2" using ok1 by (simp add: session_defs)
    then have ok2: "session_ok ?s2" by (simp add: balanced_def)
    obtain s3 w3 a3 where c: "session_check_read ?s2 w = Some (s3, w3, a3)"
        "s' = s3 \<and> w' = w3 \<and> acts = ?a2 @ a3 \<or>
         (\<exists>a4. proceed_with_term s3 w3 = Some (s', w', a4) \<and> acts = ?a2 @ a3 @ a4)"
      using run st False by (auto simp: session_process_term_def Let_def split: if_splits bind_splits)
    note b3 = balanced_trans[OF b2 balanced_check_read[OF ok2 c(1)]]
    then have "session_ok s3" by (simp add: balanced_def)
    from c(2) show ?thesis
    proof (elim disjE exE conjE)
      fix a4 assume p: "proceed_with_term s3 w3 = Some (s', w', a4)" "acts = ?a2 @ a3 @ a4"
      then show ?thesis
        using balanced_trans[OF b3 balanced_proceed[OF \<open>session_ok s3\<close> p(1)]] unfolding same by simp
    qed (use b3 in \<open>simp add: same\<close>)
  qed
qed

lemma balanced_exec:
  "session_ok s \<Longrightarrow> session_exec c s w = Some (s', w', acts) \<Longrightarrow> balanced s s' acts"
proof (cases c)
  case CallTimer
  assume ok: "session_ok s" and run: "session_exec c s w = Some (s', w', acts)"
  let ?s = "s\<lparr>s_has_linger_timer := False\<rparr>"
  have "session_ok ?s" using ok by (simp add: session_defs)
  from balanced_proceed[OF this] run CallTimer show ?thesis
    by (auto simp: session_timer_event_def) (simp add: session_defs)
next
  case (CallActivatedIn p)
  assume ok: "session_ok s" and run: "session_exec c s w = Some (s', w', acts)"
  have "balanced s s [EngineActivateOut e]" for e using ok by (simp add: session_defs)
  then show ?thesis using run CallActivatedIn balanced_check_read[OF ok]
    by (auto simp: session_activated_in_def split: option.splits bind_splits)
next
  case CallTerminate
  assume "session_ok s" and "session_exec c s w = Some (s', w', acts)"
  then have "session_ok s" "s' = s\<lparr>s_force_terminate := True\<rparr>" "acts = [OwnTerminate]"
    using CallTerminate by (auto simp: session_terminate_def)
  then show ?thesis by (simp add: session_defs)
next
  case (CallTerminatedIn p)
  assume "session_ok s" and "session_exec c s w = Some (s', w', acts)"
  then show ?thesis using CallTerminatedIn
    by (auto simp: session_terminated_in_def session_defs split: bind_splits)
next
  case (CallTerminatedOut p)
  assume "session_ok s" and "session_exec c s w = Some (s', w', acts)"
  then show ?thesis using CallTerminatedOut
    by (auto simp: session_terminated_out_def session_defs split: bind_splits)
next
  case (CallActivatedOut p)
  assume "session_ok s" and "session_exec c s w = Some (s', w', acts)"
  then show ?thesis using CallActivatedOut
    by (auto simp: session_activated_out_def session_defs split: bind_splits option.splits)
qed (auto split: bind_splits intro: balanced_read balanced_attach_pipes balanced_attach balanced_detach balanced_term balanced_id)

lemma reach_balanced:
  "sess_reach opts w0 s w acts \<Longrightarrow> balanced (session_new opts) s acts"
proof (induction rule: sess_reach.induct)
  case born
  show ?case by (rule balanced_id) (simp add: session_new_def session_defs)
next
  case (called s w acts c s' w' acts')
  then have "session_ok s" by (simp add: balanced_def)
  from balanced_trans[OF called.IH balanced_exec[OF this called.hyps(2)]] show ?case .
qed

text \<open>C33: The acknowledgements of a session are balanced. Whatever calls a session gets, and in whatever order, the
  acknowledgements it has registered minus those it has received are the number of its pipes once it
  terminates, and none before; the termination proper is started exactly once, and a linger timer runs only while
  it is pending. So when the last acknowledgement has arrived the destructor's assertions hold.\<close>

theorem session_acks_balanced:
  assumes "sess_reach opts w0 s w acts"
  shows "acks_of acts = (if s_state s = STerminating
      then (if s_in s = None then 0 else 1) + (if s_out s = None then 0 else 1) else 0) \<and>
    terms_of acts = (if s_state s = STerminating then 1 else 0) \<and>
    (s_has_linger_timer s \<longrightarrow> s_state s = SPending) \<and>
    (terms_of acts = 1 \<and> acks_of acts = 0 \<longrightarrow> session_delete s \<noteq> None)"
proof -
  have "balanced (session_new opts) s acts" using assms by (rule reach_balanced)
  then have *: "session_ok s" "acks_of acts = owed s" "terms_of acts = finished s"
    by (auto simp: balanced_def owed_def[of "session_new opts"] finished_def[of "session_new opts"])
      (simp_all add: session_new_def)
  then show ?thesis
    by (cases "s_in s"; cases "s_out s") (auto simp: owed_def finished_def session_ok_def session_delete_def)
qed

theorem session_acks_balanced_witness:
  "\<exists>s w acts. sess_reach options_new \<lparr>conns = (\<lambda>_. demo_conn 2), pipe_log = []\<rparr> s w acts \<and> terms_of acts = 1 \<and> session_delete s \<noteq> None"
proof -
  let ?w0 = "\<lparr>conns = (\<lambda>_. demo_conn 2), pipe_log = []\<rparr>"
  let ?s = "(session_new options_new)\<lparr>s_state := STerminating\<rparr>"
  have "sess_reach options_new ?w0 ?s ?w0 ([] @ [OwnProcessTerm 0])"
    by (rule called[OF born, of "CallTerm 0"])
      (simp add: session_process_term_def session_new_def proceed_with_term_def terminate_in_def terminate_out_def Let_def)
  then have r: "sess_reach options_new ?w0 ?s ?w0 [OwnProcessTerm 0]" by simp
  have "terms_of [OwnProcessTerm 0] = 1" "acks_of [OwnProcessTerm 0] = 0" by (simp_all add: terms_of_def acks_of_def)
  then show ?thesis using session_acks_balanced[OF r] r by blast
qed

end
