(* ===== verification/Req.thy ===== *)
theory Req
  imports Patterns
begin

text \<open>
  \<^verbatim>\<open>src/req.hpp\<close>, \<^verbatim>\<open>src/req.cpp\<close>: the REQ socket, a state machine over an XREQ socket. The
  operations of the XREQ part are a \<open>dealer_ops\<close> on its state \<open>'x\<close>; \<open>xreq_dealer\<close> is the one of the code.
\<close>

record 'x dealer_ops =
  de_xsend :: "msg \<Rightarrow> 'x \<Rightarrow> (rc \<times> 'x) option"
  de_xrecv :: "'x \<Rightarrow> (rc \<times> msg option \<times> 'x) option"
  de_xhas_in :: "'x \<Rightarrow> (bool \<times> 'x) option"
  de_xhas_out :: "'x \<Rightarrow> (bool \<times> 'x) option"

definition xreq_dealer :: "'w reader_ops \<Rightarrow> 'w writer_ops \<Rightarrow> (xreq_t \<times> 'w) dealer_ops" where
  "xreq_dealer rops wops = \<lparr>
     de_xsend = (\<lambda>m (x, w). do { (r, x', w') \<leftarrow> xreq_xsend wops m x w; Some (r, (x', w')) }),
     de_xrecv = (\<lambda>(x, w). do { (r, v, x', w') \<leftarrow> xreq_xrecv rops x w; Some (r, v, (x', w')) }),
     de_xhas_in = (\<lambda>(x, w). do { (ok, x', w') \<leftarrow> xreq_xhas_in rops x w; Some (ok, (x', w')) }),
     de_xhas_out = (\<lambda>(x, w). do { (ok, x', w') \<leftarrow> xreq_xhas_out wops x w; Some (ok, (x', w')) })\<rparr>"

record 'x req_t =
  rq_base :: 'x
  receiving_reply :: bool
  message_begins :: bool

definition req_new :: "'x \<Rightarrow> 'x req_t" where
  "req_new x = \<lparr>rq_base = x, receiving_reply = False, message_begins = True\<rparr>"

definition req_options :: "options_t \<Rightarrow> options_t" where
  "req_options opts = (xreq_options opts)\<lparr>socket_type := ZMQ_REQ\<rparr>"

text \<open>The empty first part: the bottom of the stack of addresses.\<close>

definition bottom_msg :: msg where
  "bottom_msg = empty_msg\<lparr>mflags := mflags empty_msg OR ZMQ_MSG_MORE\<rparr>"

definition req_xsend :: "'x dealer_ops \<Rightarrow> msg \<Rightarrow> 'x req_t \<Rightarrow> (rc \<times> 'x req_t) option" where
  "req_xsend ops m q =
     (if receiving_reply q then Some (Err EFSM, q)
      else do {
        (r1, q1) \<leftarrow> (if message_begins q then do {
             (r, x) \<leftarrow> de_xsend ops bottom_msg (rq_base q);
             Some (r, if r = OK then q\<lparr>rq_base := x, message_begins := False\<rparr> else q\<lparr>rq_base := x\<rparr>)
           }
           else Some (OK, q));
        (if r1 \<noteq> OK then Some (r1, q1)
         else do {
           (r2, x2) \<leftarrow> de_xsend ops m (rq_base q1);
           (if r2 \<noteq> OK then Some (r2, q1\<lparr>rq_base := x2\<rparr>)
            else if \<not> has_more m
            then Some (OK, q1\<lparr>rq_base := x2, receiving_reply := True, message_begins := True\<rparr>)
            else Some (OK, q1\<lparr>rq_base := x2\<rparr>))
         })
      })"

definition req_xrecv :: "'x dealer_ops \<Rightarrow> 'x req_t \<Rightarrow> (rc \<times> msg option \<times> 'x req_t) option" where
  "req_xrecv ops q =
     (if \<not> receiving_reply q then Some (Err EFSM, None, q)
      else do {
        (r1, v1, q1) \<leftarrow> (if message_begins q then do {
             (r, v, x) \<leftarrow> de_xrecv ops (rq_base q);
             (if r \<noteq> OK then Some (r, v, q\<lparr>rq_base := x\<rparr>)
              else do {
                m \<leftarrow> v;
                Some (if \<not> has_more m \<or> body m \<noteq> [] then (Err EAGAIN, Some m, q\<lparr>rq_base := x\<rparr>)
                      else (OK, Some m, q\<lparr>rq_base := x, message_begins := False\<rparr>))
              })
           }
           else Some (OK, None, q));
        (if r1 \<noteq> OK then Some (r1, v1, q1)
         else do {
           (r2, v2, x2) \<leftarrow> de_xrecv ops (rq_base q1);
           (if r2 \<noteq> OK then Some (r2, v2, q1\<lparr>rq_base := x2\<rparr>)
            else do {
              m \<leftarrow> v2;
              Some (OK, Some m,
                if \<not> has_more m
                then q1\<lparr>rq_base := x2, receiving_reply := False, message_begins := True\<rparr>
                else q1\<lparr>rq_base := x2\<rparr>)
            })
         })
      })"

definition req_xhas_in :: "'x dealer_ops \<Rightarrow> 'x req_t \<Rightarrow> (bool \<times> 'x req_t) option" where
  "req_xhas_in ops q =
     (if \<not> receiving_reply q then Some (False, q)
      else do { (ok, x) \<leftarrow> de_xhas_in ops (rq_base q); Some (ok, q\<lparr>rq_base := x\<rparr>) })"

definition req_xhas_out :: "'x dealer_ops \<Rightarrow> 'x req_t \<Rightarrow> (bool \<times> 'x req_t) option" where
  "req_xhas_out ops q =
     (if receiving_reply q then Some (False, q)
      else do { (ok, x) \<leftarrow> de_xhas_out ops (rq_base q); Some (ok, q\<lparr>rq_base := x\<rparr>) })"

section \<open>What goes over the wire\<close>

text \<open>The dealer with a record of the parts it took and gave.\<close>

definition logged :: "'x dealer_ops \<Rightarrow> (msg list \<times> msg list \<times> 'x) dealer_ops" where
  "logged ops = \<lparr>
     de_xsend = (\<lambda>m (o', i, x). do { (r, x') \<leftarrow> de_xsend ops m x; Some (r, (if r = OK then o' @ [m] else o', i, x')) }),
     de_xrecv = (\<lambda>(o', i, x). do { (r, v, x') \<leftarrow> de_xrecv ops x;
                    Some (r, v, (o', case v of Some m \<Rightarrow> if r = OK then i @ [m] else i | None \<Rightarrow> i, x')) }),
     de_xhas_in = (\<lambda>(o', i, x). do { (ok, x') \<leftarrow> de_xhas_in ops x; Some (ok, (o', i, x')) }),
     de_xhas_out = (\<lambda>(o', i, x). do { (ok, x') \<leftarrow> de_xhas_out ops x; Some (ok, (o', i, x')) })\<rparr>"

datatype req_call = ReqSend msg | ReqRecv | ReqHasIn | ReqHasOut

text \<open>A program that uses the socket: the parts it sent and received successfully are recorded.\<close>

inductive req_run :: "'x dealer_ops \<Rightarrow> 'x \<Rightarrow> msg list \<Rightarrow> msg list \<Rightarrow> 'x req_t \<Rightarrow> bool"
  for ops and x0 where
  req_start: "req_run ops x0 [] [] (req_new x0)"
| req_sent: "req_run ops x0 us vs q \<Longrightarrow> req_xsend ops m q = Some (r, q') \<Longrightarrow>
    req_run ops x0 (if r = OK then us @ [m] else us) vs q'"
| req_received: "req_run ops x0 us vs q \<Longrightarrow> req_xrecv ops q = Some (r, v, q') \<Longrightarrow>
    req_run ops x0 us (if r = OK then vs @ [the v] else vs) q'"
| req_in: "req_run ops x0 us vs q \<Longrightarrow> req_xhas_in ops q = Some (ok, q') \<Longrightarrow> req_run ops x0 us vs q'"
| req_out: "req_run ops x0 us vs q \<Longrightarrow> req_xhas_out ops q = Some (ok, q') \<Longrightarrow> req_run ops x0 us vs q'"

text \<open>Every message gets an empty part in front; \<open>fresh\<close> says that a message begins.\<close>

fun with_bottoms :: "bool \<Rightarrow> msg list \<Rightarrow> msg list" where
  "with_bottoms fresh [] = []"
| "with_bottoms fresh (m # ms) = (if fresh then [bottom_msg] else []) @ m # with_bottoms (\<not> has_more m) ms"

definition msgs_complete :: "msg list \<Rightarrow> nat" where
  "msgs_complete ms = length (filter (\<lambda>m. \<not> has_more m) ms)"

definition ends_message :: "msg list \<Rightarrow> bool" where
  "ends_message ms \<longleftrightarrow> ms = [] \<or> \<not> has_more (last ms)"

lemma with_bottoms_snoc:
  "with_bottoms b (ms @ [m]) = with_bottoms b ms @
     (if (if ms = [] then b else \<not> has_more (last ms)) then [bottom_msg] else []) @ [m]"
  by (induction ms arbitrary: b) auto

lemma ends_message_snoc [simp]: "ends_message (ms @ [m]) \<longleftrightarrow> \<not> has_more m" "ends_message []"
  by (simp_all add: ends_message_def)

lemma complete_snoc [simp]:
  "msgs_complete (ms @ [m]) = msgs_complete ms + (if has_more m then 0 else 1)" "msgs_complete [] = 0"
  by (simp_all add: msgs_complete_def)

definition req_inv :: "msg list \<Rightarrow> msg list \<Rightarrow> (msg list \<times> msg list \<times> 'x) req_t \<Rightarrow> bool" where
  "req_inv us vs q \<longleftrightarrow>
     fst (rq_base q) = with_bottoms True us @
       (if \<not> receiving_reply q \<and> \<not> message_begins q \<and> ends_message us then [bottom_msg] else []) \<and>
     msgs_complete us = msgs_complete vs + (if receiving_reply q then 1 else 0) \<and>
     (receiving_reply q \<longrightarrow> ends_message us) \<and> (\<not> receiving_reply q \<longrightarrow> ends_message vs) \<and>
     (\<not> receiving_reply q \<and> message_begins q \<longrightarrow> ends_message us)"

lemma logged_simps:
  "de_xsend (logged ops) m (o', i, x) =
     map_option (\<lambda>(r, x'). (r, (if r = OK then o' @ [m] else o', i, x'))) (de_xsend ops m x)"
  "de_xrecv (logged ops) (o', i, x) =
     map_option (\<lambda>(r, v, x'). (r, v, (o', case v of Some m \<Rightarrow> if r = OK then i @ [m] else i | None \<Rightarrow> i, x'))) (de_xrecv ops x)"
  by (simp_all add: logged_def map_option_case split: option.splits)

text \<open>The ways a call of \<open>xsend\<close> or \<open>xrecv\<close> can go.\<close>

lemma req_xsend_cases:
  assumes "req_xsend (logged ops) m q = Some (r, q')" "rq_base q = (o', i, x)"
  obtains "receiving_reply q" "r = Err EFSM" "q' = q"
  | x1 where "\<not> receiving_reply q" "r \<noteq> OK" "q' = q\<lparr>rq_base := (o', i, x1)\<rparr>"
  | x1 where "\<not> receiving_reply q" "message_begins q" "r \<noteq> OK"
      "q' = q\<lparr>rq_base := (o' @ [bottom_msg], i, x1), message_begins := False\<rparr>"
  | x1 where "\<not> receiving_reply q" "r = OK"
      "q' = q\<lparr>rq_base := (o' @ (if message_begins q then [bottom_msg] else []) @ [m], i, x1),
              receiving_reply := \<not> has_more m, message_begins := \<not> has_more m\<rparr>"
proof (cases "receiving_reply q")
  case True
  then have "r = Err EFSM" "q' = q" using assms(1) by (auto simp: req_xsend_def)
  then show ?thesis by (rule that(1)[OF True])
next
  case False
  note nr = False
  show ?thesis
  proof (cases "message_begins q")
    case True
    obtain r0 x0 where p: "de_xsend ops bottom_msg x = Some (r0, x0)"
      using assms nr True by (cases "de_xsend ops bottom_msg x") (auto simp: req_xsend_def logged_simps)
    show ?thesis
    proof (cases "r0 = OK")
      case False
      then show ?thesis using assms nr True p that(2)[of x0] by (simp add: req_xsend_def logged_simps)
    next
      case r0: True
      obtain r1 x1 where s: "de_xsend ops m x0 = Some (r1, x1)"
        using assms nr True p r0 by (cases "de_xsend ops m x0") (auto simp: req_xsend_def logged_simps)
      then show ?thesis using assms nr True p r0 that(3)[of x1] that(4)[of x1]
        by (cases q; cases "r1 = OK"; cases "has_more m") (auto simp: req_xsend_def logged_simps)
    qed
  next
    case nb: False
    obtain r1 x1 where s: "de_xsend ops m x = Some (r1, x1)"
      using assms nr nb by (cases "de_xsend ops m x") (auto simp: req_xsend_def logged_simps)
    then show ?thesis using assms nr nb that(2)[of x1] that(4)[of x1]
      by (cases q; cases "r1 = OK"; cases "has_more m") (auto simp: req_xsend_def logged_simps)
  qed
qed

lemma req_xrecv_cases:
  assumes "req_xrecv (logged ops) q = Some (r, v, q')" "rq_base q = (o', i, x)"
  obtains "\<not> receiving_reply q" "r \<noteq> OK" "q' = q"
  | i' x1 b where "receiving_reply q" "r \<noteq> OK" "q' = q\<lparr>rq_base := (o', i', x1), message_begins := b\<rparr>"
  | i' x1 m where "receiving_reply q" "r = OK" "v = Some m"
      "q' = q\<lparr>rq_base := (o', i', x1), receiving_reply := has_more m, message_begins := \<not> has_more m\<rparr>"
proof (cases "receiving_reply q")
  case False
  then have "r = Err EFSM" "q' = q" using assms(1) by (auto simp: req_xrecv_def)
  then show ?thesis using False by (intro that(1)) simp_all
next
  case True
  show ?thesis
  proof (cases "message_begins q")
    case False
    obtain r2 v2 x2 where d: "de_xrecv ops x = Some (r2, v2, x2)"
      using assms True False by (cases "de_xrecv ops x") (auto simp: req_xrecv_def logged_simps)
    show ?thesis
    proof (cases "r2 = OK")
      case False
      then show ?thesis using assms True d \<open>\<not> message_begins q\<close> that(2)[of False i x2]
        by (cases q; cases v2) (auto simp: req_xrecv_def logged_simps)
    next
      case okT: True
      then obtain m where "v2 = Some m" using assms True d \<open>\<not> message_begins q\<close>
        by (cases v2) (auto simp: req_xrecv_def logged_simps)
      then show ?thesis using assms True d okT \<open>\<not> message_begins q\<close> that(3)[of m "i @ [m]" x2]
        by (cases q; cases "has_more m") (auto simp: req_xrecv_def logged_simps)
    qed
  next
    case begins: True
    obtain r1 v1 x1 where c: "de_xrecv ops x = Some (r1, v1, x1)"
      using assms True begins by (cases "de_xrecv ops x") (auto simp: req_xrecv_def logged_simps)
    show ?thesis
    proof (cases "r1 = OK \<and> (\<exists>m. v1 = Some m \<and> has_more m \<and> body m = [])")
      case False
      then show ?thesis using assms True begins c that(2)[of True i x1] that(2)[of True "i @ [the v1]" x1]
        by (cases q; cases v1) (auto simp: req_xrecv_def logged_simps split: if_splits)
    next
      case okT: True
      then obtain b where b: "r1 = OK" "v1 = Some b" "has_more b" "body b = []" by blast
      obtain r2 v2 x2 where d: "de_xrecv ops x1 = Some (r2, v2, x2)"
        using assms True begins c b by (cases "de_xrecv ops x1") (auto simp: req_xrecv_def logged_simps)
      show ?thesis
      proof (cases "r2 = OK")
        case False
        then show ?thesis using assms True begins c b d that(2)[of False "i @ [b]" x2]
          by (cases q; cases v2) (auto simp: req_xrecv_def logged_simps)
      next
        case r2: True
        then obtain m where "v2 = Some m" using assms True begins c b d
          by (cases v2) (auto simp: req_xrecv_def logged_simps)
        then show ?thesis using assms True begins c b d r2 that(3)[of m "(i @ [b]) @ [m]" x2]
          by (cases q; cases "has_more m") (auto simp: req_xrecv_def logged_simps)
      qed
    qed
  qed
qed

lemma req_inv_send:
  assumes inv: "req_inv us vs q" and run: "req_xsend (logged ops) m q = Some (r, q')"
  shows "req_inv (if r = OK then us @ [m] else us) vs q'"
proof -
  obtain o' i x where q: "rq_base q = (o', i, x)" by (cases "rq_base q")
  from run q show ?thesis
  proof (cases rule: req_xsend_cases)
    case 1
    then show ?thesis using inv by simp
  next
    case (2 x1)
    then show ?thesis using inv q by (simp add: req_inv_def)
  next
    case (3 x1)
    then show ?thesis using inv q by (simp add: req_inv_def)
  next
    case (4 x1)
    then show ?thesis using inv q
      by (cases "message_begins q"; cases "ends_message us")
        (auto simp: req_inv_def with_bottoms_snoc ends_message_def)
  qed
qed

lemma req_inv_recv:
  assumes inv: "req_inv us vs q" and run: "req_xrecv (logged ops) q = Some (r, v, q')"
  shows "req_inv us (if r = OK then vs @ [the v] else vs) q'"
proof -
  obtain o' i x where q: "rq_base q = (o', i, x)" by (cases "rq_base q")
  from run q show ?thesis
  proof (cases rule: req_xrecv_cases)
    case 1
    then show ?thesis using inv by simp
  next
    case (2 i' x1 b)
    then show ?thesis using inv q by (simp add: req_inv_def)
  next
    case (3 i' x1 m)
    then show ?thesis using inv q by (simp add: req_inv_def)
  qed
qed

lemma req_run_inv: "req_run (logged ops) ([], [], x0) us vs q \<Longrightarrow> req_inv us vs q"
proof (induction rule: req_run.induct)
  case req_start
  then show ?case by (simp add: req_inv_def req_new_def)
next
  case (req_sent us vs q m r q')
  then show ?case by (blast intro: req_inv_send)
next
  case (req_received us vs q r v q')
  then show ?case by (blast intro: req_inv_recv)
next
  case (req_in us vs q ok q')
  then show ?case
    by (cases "rq_base q") (auto simp: req_xhas_in_def logged_def req_inv_def split: bind_splits if_splits)
next
  case (req_out us vs q ok q')
  then show ?case
    by (cases "rq_base q") (auto simp: req_xhas_out_def logged_def req_inv_def split: bind_splits if_splits)
qed

text \<open>A dealer whose peer sends everything straight back.\<close>

definition echo_dealer :: "msg list dealer_ops" where
  "echo_dealer = \<lparr>
     de_xsend = (\<lambda>m ms. Some (OK, ms @ [m])),
     de_xrecv = (\<lambda>ms. case ms of [] \<Rightarrow> Some (Err EAGAIN, None, []) | m # ms' \<Rightarrow> Some (OK, Some m, ms')),
     de_xhas_in = (\<lambda>ms. Some (ms \<noteq> [], ms)),
     de_xhas_out = (\<lambda>ms. Some (True, ms))\<rparr>"

lemma echo_run:
  "req_run (logged echo_dealer) ([], [], []) [empty_msg] [empty_msg]
     \<lparr>rq_base = ([bottom_msg, empty_msg], [bottom_msg, empty_msg], []), receiving_reply = False, message_begins = True\<rparr>"
proof -
  let ?ops = "logged echo_dealer"
  let ?q1 = "\<lparr>rq_base = ([bottom_msg, empty_msg], [], [bottom_msg, empty_msg]),
               receiving_reply = True, message_begins = True\<rparr>"
  let ?q2 = "\<lparr>rq_base = ([bottom_msg, empty_msg], [bottom_msg, empty_msg], []),
               receiving_reply = False, message_begins = True\<rparr>"
  have more: "has_more bottom_msg" "\<not> has_more empty_msg" "body bottom_msg = []"
    by (simp_all add: bottom_msg_def empty_msg_def has_more_def ZMQ_MSG_MORE_def ZMQ_MSG_MASK_def)
  have "req_xsend ?ops empty_msg (req_new ([], [], [])) = Some (OK, ?q1)"
    using more by (simp add: req_xsend_def logged_simps req_new_def echo_dealer_def)
  from req_sent [OF req_start this] have "req_run ?ops ([], [], []) [empty_msg] [] ?q1" by simp
  moreover have "req_xrecv ?ops ?q1 = Some (OK, Some empty_msg, ?q2)"
    using more by (simp add: req_xrecv_def logged_simps echo_dealer_def)
  ultimately show ?thesis using req_received [of ?ops "([], [], [])"] by fastforce
qed

text \<open>C35: A REQ socket alternates: however it is used and whatever its XREQ part does, the requests that were
  completely sent are as many as the replies that were completely received, plus the one whose reply is awaited; while
  one is awaited nothing is sent (\<open>EFSM\<close>), otherwise nothing is received. What goes to the wire is what the user
  sent with an empty part before each message, the last of which may still wait for its first part.\<close>

theorem req_alternates:
  assumes "req_run (logged ops) ([], [], x0) us vs q" "rq_base q = (sent, got, x)"
  shows "msgs_complete us = msgs_complete vs + (if receiving_reply q then 1 else 0) \<and>
    sent = with_bottoms True us @
      (if \<not> receiving_reply q \<and> \<not> message_begins q \<and> ends_message us then [bottom_msg] else []) \<and>
    (receiving_reply q \<longrightarrow> ends_message us \<and> req_xsend (logged ops) m q = Some (Err EFSM, q)) \<and>
    (\<not> receiving_reply q \<longrightarrow> ends_message vs \<and> req_xrecv (logged ops) q = Some (Err EFSM, None, q))"
  using req_run_inv [OF assms(1)] assms(2) by (auto simp: req_inv_def req_xsend_def req_xrecv_def)

theorem req_alternates_witness:
  "msgs_complete [empty_msg] = msgs_complete [empty_msg] \<and>
   req_xrecv (logged echo_dealer) \<lparr>rq_base = ([bottom_msg, empty_msg], [bottom_msg, empty_msg], []),
      receiving_reply = False, message_begins = True\<rparr> =
     Some (Err EFSM, None, \<lparr>rq_base = ([bottom_msg, empty_msg], [bottom_msg, empty_msg], []),
      receiving_reply = False, message_begins = True\<rparr>) \<and>
   [bottom_msg, empty_msg] = with_bottoms True [empty_msg]"
  using req_alternates [OF echo_run] by simp

end
