(* ===== verification/Pair.thy ===== *)
theory Pair
  imports Patterns PipeReaders
begin

text \<open>
  \<^verbatim>\<open>src/pair.hpp\<close>, \<^verbatim>\<open>src/pair.cpp\<close>: the PAIR socket, which has at most one pipe in each direction.
\<close>

record pair_t =
  pa_inpipe :: "nat option"
  pa_outpipe :: "nat option"
  pa_in_alive :: bool
  pa_out_alive :: bool
  pa_terminating :: bool

definition pair_new :: pair_t where
  "pair_new = \<lparr>pa_inpipe = None, pa_outpipe = None, pa_in_alive = False, pa_out_alive = False,
     pa_terminating = False\<rparr>"

definition pair_options :: "options_t \<Rightarrow> options_t" where
  "pair_options opts = opts\<lparr>socket_type := ZMQ_PAIR, requires_in := True, requires_out := True\<rparr>"

definition pair_delete :: "pair_t \<Rightarrow> unit option" where
  "pair_delete a = do { zmq_assert (pa_inpipe a = None); zmq_assert (pa_outpipe a = None) }"

text \<open>The socket calls both pipes that it is given: a missing one is a null pointer.\<close>

definition pair_attach ::
  "'w reader_ops \<Rightarrow> 'w writer_ops \<Rightarrow> nat option \<Rightarrow> nat option \<Rightarrow> pair_t \<Rightarrow> 'w \<Rightarrow> (pair_t \<times> 'w \<times> sock_act list) option" where
  "pair_attach rops wops inpipe outpipe a w = do {
     zmq_assert (pa_inpipe a = None \<and> pa_outpipe a = None);
     i \<leftarrow> inpipe;
     w1 \<leftarrow> op_rset_sink rops i w;
     out \<leftarrow> outpipe;
     w2 \<leftarrow> op_set_sink wops out w1;
     let a' = a\<lparr>pa_inpipe := Some i, pa_in_alive := True, pa_outpipe := Some out, pa_out_alive := True\<rparr>;
     (if pa_terminating a then do {
        w3 \<leftarrow> op_rterminate rops i w2;
        w4 \<leftarrow> op_terminate wops out w3;
        Some (a', w4, [Sink (RegisterTermAcks 2)])
      }
      else Some (a', w2, []))
   }"

definition pair_terminated_in :: "nat \<Rightarrow> pair_t \<Rightarrow> (pair_t \<times> sock_act list) option" where
  "pair_terminated_in p a = do {
     zmq_assert (pa_inpipe a = Some p);
     Some (a\<lparr>pa_inpipe := None, pa_in_alive := False\<rparr>, if pa_terminating a then [Sink UnregisterTermAck] else [])
   }"

definition pair_terminated_out :: "nat \<Rightarrow> pair_t \<Rightarrow> (pair_t \<times> sock_act list) option" where
  "pair_terminated_out p a = do {
     zmq_assert (pa_outpipe a = Some p);
     Some (a\<lparr>pa_outpipe := None, pa_out_alive := False\<rparr>, if pa_terminating a then [Sink UnregisterTermAck] else [])
   }"

definition pair_delimited :: "nat \<Rightarrow> pair_t \<Rightarrow> pair_t" where
  "pair_delimited p a = a"

definition pair_process_term ::
  "'w reader_ops \<Rightarrow> 'w writer_ops \<Rightarrow> int \<Rightarrow> pair_t \<Rightarrow> 'w \<Rightarrow> (pair_t \<times> 'w \<times> sock_act list) option" where
  "pair_process_term rops wops lngr a w = do {
     (w1, a1) \<leftarrow> (case pa_inpipe a of
         Some i \<Rightarrow> do { w' \<leftarrow> op_rterminate rops i w; Some (w', [Sink (RegisterTermAcks 1)]) }
       | None \<Rightarrow> Some (w, []));
     (w2, a2) \<leftarrow> (case pa_outpipe a of
         Some out \<Rightarrow> do { w' \<leftarrow> op_terminate wops out w1; Some (w', [Sink (RegisterTermAcks 1)]) }
       | None \<Rightarrow> Some (w1, []));
     Some (a\<lparr>pa_terminating := True\<rparr>, w2, a1 @ a2 @ [BaseTerm lngr])
   }"

definition pair_activated_in :: "nat \<Rightarrow> pair_t \<Rightarrow> pair_t option" where
  "pair_activated_in p a = do { zmq_assert (\<not> pa_in_alive a); Some (a\<lparr>pa_in_alive := True\<rparr>) }"

definition pair_activated_out :: "nat \<Rightarrow> pair_t \<Rightarrow> pair_t option" where
  "pair_activated_out p a = do { zmq_assert (\<not> pa_out_alive a); Some (a\<lparr>pa_out_alive := True\<rparr>) }"

text \<open>\<open>sndmore\<close> is the flag the caller passes to \<open>xsend\<close>.\<close>

definition pair_xsend :: "'w writer_ops \<Rightarrow> msg \<Rightarrow> bool \<Rightarrow> pair_t \<Rightarrow> 'w \<Rightarrow> (rc \<times> pair_t \<times> 'w) option" where
  "pair_xsend wops m sndmore a w =
     (case pa_outpipe a of
        None \<Rightarrow> Some (Err EAGAIN, a, w)
      | Some out \<Rightarrow>
          if \<not> pa_out_alive a then Some (Err EAGAIN, a, w)
          else do {
            (ok, w1) \<leftarrow> op_write wops out m w;
            (if \<not> ok then Some (Err EAGAIN, a\<lparr>pa_out_alive := False\<rparr>, w1)
             else do {
               w2 \<leftarrow> (if \<not> sndmore then op_flush wops out w1 else Some w1);
               Some (OK, a, w2)
             })
          })"

definition pair_xrecv :: "'w reader_ops \<Rightarrow> pair_t \<Rightarrow> 'w \<Rightarrow> (rc \<times> msg option \<times> pair_t \<times> 'w) option" where
  "pair_xrecv rops a w = do {
     (v, w1) \<leftarrow> (case pa_inpipe a of
         Some i \<Rightarrow> if pa_in_alive a then op_read rops i w else Some (None, w)
       | None \<Rightarrow> Some (None, w));
     Some (case v of
             Some m \<Rightarrow> (OK, Some m, a, w1)
           | None \<Rightarrow> (Err EAGAIN, None, a\<lparr>pa_in_alive := False\<rparr>, w1))
   }"

definition pair_xhas_in :: "'w reader_ops \<Rightarrow> pair_t \<Rightarrow> 'w \<Rightarrow> (bool \<times> pair_t \<times> 'w) option" where
  "pair_xhas_in rops a w =
     (case pa_inpipe a of
        Some i \<Rightarrow> if pa_in_alive a
          then do { (ok, w') \<leftarrow> op_check_read rops i w; Some (ok, a\<lparr>pa_in_alive := ok\<rparr>, w') }
          else Some (False, a, w)
      | None \<Rightarrow> Some (False, a, w))"

definition pair_xhas_out :: "'w writer_ops \<Rightarrow> pair_t \<Rightarrow> 'w \<Rightarrow> (bool \<times> pair_t \<times> 'w) option" where
  "pair_xhas_out wops a w =
     (case pa_outpipe a of
        Some out \<Rightarrow> if pa_out_alive a
          then do { (ok, w') \<leftarrow> op_check_write wops out empty_msg w; Some (ok, a\<lparr>pa_out_alive := ok\<rparr>, w') }
          else Some (False, a, w)
      | None \<Rightarrow> Some (False, a, w))"

section \<open>Acknowledgements\<close>

datatype 'w pair_ev =
  PairAttach "nat option" "nat option" | PairReaderGone nat | PairWriterGone nat | PairTerm int
  | PairReaderUp nat | PairWriterUp nat | PairSend msg bool | PairRecv | PairPollIn | PairPollOut | PairWorld "'w \<Rightarrow> 'w"

text \<open>One event; \<open>PairWorld\<close> is a change of the pipes from elsewhere.\<close>

fun pair_exec ::
  "'w reader_ops \<Rightarrow> 'w writer_ops \<Rightarrow> 'w pair_ev \<Rightarrow> pair_t \<Rightarrow> 'w \<Rightarrow> (pair_t \<times> 'w \<times> sock_act list) option" where
  "pair_exec rops wops (PairAttach i out) a w = pair_attach rops wops i out a w"
| "pair_exec rops wops (PairReaderGone p) a w = do { (a', acts) \<leftarrow> pair_terminated_in p a; Some (a', w, acts) }"
| "pair_exec rops wops (PairWriterGone p) a w = do { (a', acts) \<leftarrow> pair_terminated_out p a; Some (a', w, acts) }"
| "pair_exec rops wops (PairTerm lngr) a w = pair_process_term rops wops lngr a w"
| "pair_exec rops wops (PairReaderUp p) a w = do { a' \<leftarrow> pair_activated_in p a; Some (a', w, []) }"
| "pair_exec rops wops (PairWriterUp p) a w = do { a' \<leftarrow> pair_activated_out p a; Some (a', w, []) }"
| "pair_exec rops wops (PairSend m sm) a w = do { (_, a', w') \<leftarrow> pair_xsend wops m sm a w; Some (a', w', []) }"
| "pair_exec rops wops PairRecv a w = do { (_, _, a', w') \<leftarrow> pair_xrecv rops a w; Some (a', w', []) }"
| "pair_exec rops wops PairPollIn a w = do { (_, a', w') \<leftarrow> pair_xhas_in rops a w; Some (a', w', []) }"
| "pair_exec rops wops PairPollOut a w = do { (_, a', w') \<leftarrow> pair_xhas_out wops a w; Some (a', w', []) }"
| "pair_exec rops wops (PairWorld f) a w = Some (a, f w, [])"

fun pair_run ::
  "'w reader_ops \<Rightarrow> 'w writer_ops \<Rightarrow> 'w pair_ev list \<Rightarrow> pair_t \<Rightarrow> 'w \<Rightarrow> (pair_t \<times> 'w \<times> sock_act list) option" where
  "pair_run rops wops [] a w = Some (a, w, [])"
| "pair_run rops wops (e # es) a w = do {
     (a1, w1, acts1) \<leftarrow> pair_exec rops wops e a w;
     (a2, w2, acts2) \<leftarrow> pair_run rops wops es a1 w1;
     Some (a2, w2, acts1 @ acts2)
   }"

fun pending_acks :: "sock_act list \<Rightarrow> int" where
  "pending_acks [] = 0"
| "pending_acks (Sink (RegisterTermAcks n) # acts) = int n + pending_acks acts"
| "pending_acks (Sink UnregisterTermAck # acts) = pending_acks acts - 1"
| "pending_acks (BaseTerm _ # acts) = pending_acks acts"

lemma pending_acks_append [simp]: "pending_acks (xs @ ys) = pending_acks xs + pending_acks ys"
  by (induction xs rule: pending_acks.induct) simp_all

definition is_pair_term :: "'w pair_ev \<Rightarrow> bool" where
  "is_pair_term e \<longleftrightarrow> (case e of PairTerm _ \<Rightarrow> True | _ \<Rightarrow> False)"

definition pair_pipes :: "pair_t \<Rightarrow> int" where
  "pair_pipes a = (if pa_inpipe a = None then 0 else 1) + (if pa_outpipe a = None then 0 else 1)"

definition pair_waits :: "pair_t \<Rightarrow> int" where
  "pair_waits a = (if pa_terminating a then pair_pipes a else 0)"

lemma pair_exec_acks:
  assumes "pair_exec rops wops e a w = Some (a', w', acts)" "is_pair_term e \<longrightarrow> \<not> pa_terminating a"
  shows "pair_waits a' = pair_waits a + pending_acks acts \<and>
    (pa_terminating a' \<longleftrightarrow> pa_terminating a \<or> is_pair_term e)"
proof (cases e)
  case (PairAttach i out)
  then show ?thesis using assms
    by (auto simp: pair_attach_def pair_waits_def pair_pipes_def is_pair_term_def Let_def split: bind_splits if_splits)
next
  case (PairTerm l)
  then show ?thesis using assms
    by (cases "pa_inpipe a"; cases "pa_outpipe a")
      (auto simp: pair_process_term_def pair_waits_def pair_pipes_def is_pair_term_def split: bind_splits)
next
  case (PairSend m sm)
  then show ?thesis using assms
    by (auto simp: pair_xsend_def pair_waits_def pair_pipes_def is_pair_term_def
        split: bind_splits if_splits option.splits)
next
  case (PairRecv)
  then show ?thesis using assms
    by (auto simp: pair_xrecv_def pair_waits_def pair_pipes_def is_pair_term_def
        split: bind_splits if_splits option.splits)
next
  case (PairPollIn)
  then show ?thesis using assms
    by (auto simp: pair_xhas_in_def pair_waits_def pair_pipes_def is_pair_term_def
        split: bind_splits if_splits option.splits)
next
  case (PairPollOut)
  then show ?thesis using assms
    by (auto simp: pair_xhas_out_def pair_waits_def pair_pipes_def is_pair_term_def
        split: bind_splits if_splits option.splits)
qed (use assms in \<open>auto simp: pair_terminated_in_def pair_terminated_out_def pair_activated_in_def
  pair_activated_out_def pair_waits_def pair_pipes_def is_pair_term_def split: bind_splits\<close>)

lemma pair_run_acks:
  "pair_run rops wops es a w = Some (a', w', acts) \<Longrightarrow>
   length (filter is_pair_term es) \<le> (if pa_terminating a then 0 else 1) \<Longrightarrow>
   pair_waits a' = pair_waits a + pending_acks acts \<and>
   (pa_terminating a' \<longleftrightarrow> pa_terminating a \<or> (\<exists>e \<in> set es. is_pair_term e))"
proof (induction es arbitrary: a w acts)
  case (Cons e es)
  obtain a1 w1 acts1 where s: "pair_exec rops wops e a w = Some (a1, w1, acts1)"
    using Cons.prems(1) by (cases "pair_exec rops wops e a w") auto
  then obtain acts2 where r: "pair_run rops wops es a1 w1 = Some (a', w', acts2)" "acts = acts1 @ acts2"
    using Cons.prems(1) by (auto split: bind_splits)
  have t: "is_pair_term e \<longrightarrow> \<not> pa_terminating a" using Cons.prems(2) by (auto split: if_splits)
  note E = pair_exec_acks[OF s t]
  have "length (filter is_pair_term es) \<le> (if pa_terminating a1 then 0 else 1)"
    using Cons.prems(2) E by (auto split: if_splits)
  from Cons.IH[OF r(1) this] show ?case using E r(2) by auto
qed simp

text \<open>C39: A PAIR socket waits for its pipes. Whatever happens to it (pipes that come, go, fill up or empty,
  before and after the start of its termination, which happens once), the acknowledgements it still waits for are its
  remaining pipes when it is terminating and none before, and when the termination has begun and none is missing,
  its destructor's assertions hold.\<close>

theorem pair_acks_balanced:
  assumes "pair_run rops wops es pair_new w = Some (a, w', acts)" "length (filter is_pair_term es) \<le> 1"
  shows "pending_acks acts = (if pa_terminating a then pair_pipes a else 0) \<and>
    (pa_terminating a \<longleftrightarrow> (\<exists>e \<in> set es. is_pair_term e)) \<and>
    (pa_terminating a \<and> pending_acks acts = 0 \<longrightarrow> pair_delete a = Some ())"
proof -
  have R: "pair_waits a = pending_acks acts" "pa_terminating a \<longleftrightarrow> (\<exists>e \<in> set es. is_pair_term e)"
    using pair_run_acks[OF assms(1)] assms(2) by (auto simp: pair_new_def pair_waits_def)
  have "pair_delete a = Some ()" if "pa_terminating a" "pending_acks acts = 0"
    using that R(1) by (auto simp: pair_waits_def pair_pipes_def pair_delete_def split: if_splits)
  then show ?thesis using R by (simp add: pair_waits_def)
qed

text \<open>A second peer that connects to a PAIR socket stops the process.\<close>

lemma pair_second_peer_aborts:
  "pa_inpipe a \<noteq> None \<or> pa_outpipe a \<noteq> None \<Longrightarrow> pair_attach rops wops i out a w = None"
  by (auto simp: pair_attach_def)

definition demo_pair_run :: "unit pair_ev list" where
  "demo_pair_run = [PairAttach (Some 1) (Some 2), PairTerm 0, PairReaderGone 1, PairWriterGone 2]"

definition unit_rops :: "unit reader_ops" where
  "unit_rops = \<lparr>op_read = (\<lambda>p w. Some (None, ())), op_check_read = (\<lambda>p w. Some (False, ())),
     op_rterminate = (\<lambda>p w. Some ()), op_rset_sink = (\<lambda>p w. Some ())\<rparr>"

definition unit_wops :: "unit writer_ops" where
  "unit_wops = \<lparr>op_write = (\<lambda>p m w. Some (False, ())), op_check_write = (\<lambda>p m w. Some (False, ())),
     op_flush = (\<lambda>p w. Some ()), op_terminate = (\<lambda>p w. Some ()), op_set_sink = (\<lambda>p w. Some ())\<rparr>"

theorem pair_acks_balanced_witness:
  "\<exists>a acts. pair_run unit_rops unit_wops demo_pair_run pair_new () = Some (a, (), acts) \<and>
     pending_acks acts = 0 \<and> pair_delete a = Some ()"
proof -
  obtain a acts where r: "pair_run unit_rops unit_wops demo_pair_run pair_new () = Some (a, (), acts)"
      "pair_pipes a = 0"
    by (simp add: demo_pair_run_def pair_new_def pair_attach_def unit_rops_def unit_wops_def pair_process_term_def
        pair_terminated_in_def pair_terminated_out_def pair_pipes_def Let_def)
  have "length (filter is_pair_term demo_pair_run) \<le> 1" "\<exists>e \<in> set demo_pair_run. is_pair_term e"
    by (simp_all add: demo_pair_run_def is_pair_term_def)
  from pair_acks_balanced[OF r(1) this(1)] this(2) r show ?thesis by auto
qed

end
