(* ===== verification/FqContents.thy ===== *)
theory FqContents
  imports PipeContents
begin

text \<open>
  The fair queue over readers whose contents are known. The locale \<open>feeding_pipes\<close> adds to the interface of the
  fair queue what a reader will give: \<open>feeds w p ms\<close> holds when reading \<open>p\<close> gives the messages \<open>ms\<close>. The fair queue
  then takes the first message of one of them.
\<close>

locale feeding_pipes = reader_pipes ops valid avail
  for ops :: "'w reader_ops" and valid :: "'w \<Rightarrow> nat \<Rightarrow> bool" and avail :: "'w \<Rightarrow> nat \<Rightarrow> bool" +
  fixes feeds :: "'w \<Rightarrow> nat \<Rightarrow> msg list \<Rightarrow> bool"
  assumes feeds_valid: "feeds w p ms \<Longrightarrow> valid w p \<and> (avail w p \<longleftrightarrow> ms \<noteq> [])"
    and feeds_read: "feeds w p ms \<Longrightarrow> \<exists>w'. op_read ops p w = Some (if ms = [] then None else Some (hd ms), w') \<and>
      feeds w' p (tl ms) \<and> (\<forall>q xs. q \<noteq> p \<and> feeds w q xs \<longrightarrow> feeds w' q xs)"
    and feeds_framed: "feeds w p (m # ms) \<Longrightarrow> has_more m \<Longrightarrow> ms \<noteq> []"
begin

definition fq_feeds :: "fq_t \<Rightarrow> 'w \<Rightarrow> (nat \<Rightarrow> msg list) \<Rightarrow> bool" where
  "fq_feeds fq w F \<longleftrightarrow> fq_inv fq w \<and> (\<forall>p \<in> set (fq_items fq). feeds w p (F p))"

lemma fq_loop_feeds:
  "fq_loop ops n fq w = Some (v, fq', w') \<Longrightarrow> set (fq_items fq) \<subseteq> S \<Longrightarrow> \<forall>p \<in> S. feeds w p (F p) \<Longrightarrow>
   (case v of
      None \<Rightarrow> \<forall>q \<in> S. feeds w' q (F q)
    | Some (p, m) \<Rightarrow> F p \<noteq> [] \<and> m = hd (F p) \<and> (\<forall>q \<in> S. feeds w' q ((F(p := tl (F p))) q)))"
proof (induction n arbitrary: fq w)
  case 0
  then show ?case by simp
next
  case (Suc n)
  obtain p v0 w1 where p: "arr_at (fq_pipes fq) (fq_current fq) = Some p" "op_read ops p w = Some (v0, w1)"
    using Suc.prems(1) by (auto split: bind_splits)
  have "p \<in> S" using p(1) Suc.prems(2) by (auto simp: arr_at_def split: if_splits)
  then obtain r: "v0 = (if F p = [] then None else Some (hd (F p)))" "feeds w1 p (tl (F p))"
      "\<forall>q xs. q \<noteq> p \<and> feeds w q xs \<longrightarrow> feeds w1 q xs"
    using feeds_read[of w p "F p"] p(2) Suc.prems(3) by auto
  show ?case
  proof (cases v0)
    case (Some m)
    then show ?thesis using Suc.prems p r by (auto split: if_splits)
  next
    case None
    then have e: "F p = []" using r(1) by (auto split: if_splits)
    obtain fq1 where fq1: "fq_deactivate fq = Some fq1" "fq_loop ops n fq1 w1 = Some (v, fq', w')"
      using Suc.prems(1) p None by (auto split: bind_splits)
    have "set (fq_items fq1) = set (fq_items fq)"
      using fq1(1) by (auto simp: fq_deactivate_def arr_swap_def Let_def split: if_splits)
    moreover have "\<forall>q \<in> S. feeds w1 q (F q)"
      using r(2,3) e Suc.prems(3) by (metis list.sel(2))
    ultimately show ?thesis using Suc.IH[OF fq1(2)] Suc.prems(2) by simp
  qed
qed

lemma fq_recv_feeds:
  assumes "fq_feeds fq w F"
  obtains (empty) fq' w' where "fq_recv ops fq w = Some (Err EAGAIN, None, fq', w')" "fq_feeds fq' w' F"
      "\<forall>p \<in> set (fq_items fq). F p = []" "set (fq_items fq') = set (fq_items fq)"
  | (part) p m ms fq' w' where "fq_recv ops fq w = Some (OK, Some (p, m), fq', w')" "F p = m # ms"
      "p \<in> set (fq_items fq)" "fq_feeds fq' w' (F(p := ms))" "set (fq_items fq') = set (fq_items fq)"
      "has_more m \<Longrightarrow> ms \<noteq> []"
proof -
  have inv: "fq_inv fq w" and F: "\<forall>p \<in> set (fq_items fq). feeds w p (F p)"
    using assms by (simp_all add: fq_feeds_def)
  obtain v fq' w' where loop: "fq_loop ops (fq_active fq) fq w = Some (v, fq', w')"
      "fq_inv fq' w'" "set (fq_items fq') = set (fq_items fq)"
      "case v of None \<Rightarrow> (\<forall>p \<in> set (fq_items fq). \<not> avail w p) | Some (p, m) \<Rightarrow> p \<in> set (fq_items fq)"
    using fq_loop_spec[OF inv refl] by (elim exE conjE) (auto split: option.splits)
  note L = fq_loop_feeds[OF loop(1) subset_refl F]
  show ?thesis
  proof (cases v)
    case None
    have "\<forall>p \<in> set (fq_items fq). F p = []"
      using loop(4) F None feeds_valid by fastforce
    moreover have "fq_feeds fq' w' F" using loop(2,3) L None by (simp add: fq_feeds_def)
    ultimately show ?thesis using empty[of fq' w'] loop(1,3) None by (simp add: fq_recv_def)
  next
    case (Some pm)
    obtain p m where pm: "pm = (p, m)" by (cases pm)
    have "F p = m # tl (F p)" using L Some pm by auto
    moreover have "has_more m \<Longrightarrow> tl (F p) \<noteq> []"
      using feeds_framed[of w p m "tl (F p)"] calculation F loop(4) Some pm by auto
    moreover have "fq_feeds fq' w' (F(p := tl (F p)))"
      using loop(2,3) L Some pm by (auto simp: fq_feeds_def)
    ultimately show ?thesis
      using part[of p m fq' w' "tl (F p)"] loop(1,3,4) Some pm by (simp add: fq_recv_def)
  qed
qed

end

text \<open>The readers of pipes.\<close>

definition conn_stream :: "conn \<Rightarrow> msg list \<Rightarrow> bool" where
  "conn_stream c ms \<longleftrightarrow> conn_feeds c ms \<and> framed ms"

lemma conn_stream_valid: "conn_stream c ms \<Longrightarrow> reader_valid c \<and> (reader_avail c \<longleftrightarrow> ms \<noteq> [])"
proof -
  assume s: "conn_stream c ms"
  then obtain r q cs A where A: "creader c = Some r" "r_writer r" "cpipe c = Some q" "yp_rel q cs A"
      "visible_items A = ms" "\<forall>m \<in> set ms. \<not> is_delim m" "ms \<noteq> [] \<longrightarrow> r_active r" "framed ms"
    unfolding conn_stream_def conn_feeds_def by blast
  show ?thesis using avail_view[OF A(1,3,4)] A by (auto simp: reader_valid_def)
qed

interpretation pf: feeding_pipes pipe_reader_ops "\<lambda>w p. reader_valid (conns w p)"
  "\<lambda>w p. reader_avail (conns w p)" "\<lambda>w p. conn_stream (conns w p)"
proof (unfold_locales, goal_cases)
  case (1 w p ms)
  then show ?case by (rule conn_stream_valid)
next
  case (2 w p ms)
  then have "conn_feeds (conns w p) ms" "framed (tl ms)"
    using framed_tl(1)[of "hd ms" "tl ms"] by (cases ms; simp add: conn_stream_def)+
  then show ?case
    using conn_feeds_read[of "conns w p" ms] by (auto simp: pipe_reader_ops_def conn_stream_def)
next
  case (3 w p m ms)
  then show ?case using framed_tl(2)[of m ms] by (simp add: conn_stream_def)
qed

end
