(* ===== verification/Xrep.thy ===== *)
theory Xrep
  imports Patterns FqContents
begin

text \<open>
  \<^verbatim>\<open>src/xrep.hpp\<close>, \<^verbatim>\<open>src/xrep.cpp\<close>: the XREP socket, which puts the identity of the sender in front of what it
  receives and routes what it sends by the identity in its first part. The operations of the pipes are the fields of a
  \<open>router_pipes\<close>. The \<^verbatim>\<open>std::map\<close> of the outbound pipes is an association list in the order of its keys, and
  the vector of the inbound pipes a list; an access outside of it is \<open>None\<close>.
\<close>

record 'w router_pipes =
  rp_in :: "'w reader_ops"
  rp_out :: "'w writer_ops"
  rp_rollback :: "nat \<Rightarrow> 'w \<Rightarrow> 'w option"

record inpipe_t =
  ip_reader :: nat
  ip_identity :: blob
  ip_active :: bool

record outpipe_t =
  op_writer :: nat
  op_active :: bool

record xrep_t =
  xr_inpipes :: "inpipe_t list"
  xr_current_in :: nat
  xr_prefetched :: bool
  xr_prefetched_msg :: msg
  xr_more_in :: bool
  xr_outpipes :: "(blob \<times> outpipe_t) list"
  xr_current_out :: "nat option"
  xr_more_out :: bool
  xr_terminating :: bool

definition xrep_new :: xrep_t where
  "xrep_new = \<lparr>xr_inpipes = [], xr_current_in = 0, xr_prefetched = False, xr_prefetched_msg = empty_msg,
     xr_more_in = False, xr_outpipes = [], xr_current_out = None, xr_more_out = False, xr_terminating = False\<rparr>"

definition xrep_options :: "options_t \<Rightarrow> options_t" where
  "xrep_options opts = opts\<lparr>socket_type := ZMQ_XREP, requires_in := True, requires_out := True,
     immediate_connect := False\<rparr>"

definition xrep_delete :: "xrep_t \<Rightarrow> unit option" where
  "xrep_delete x = do { zmq_assert (xr_inpipes x = []); zmq_assert (xr_outpipes x = []) }"

text \<open>\<^verbatim>\<open>std::map::insert\<close>: \<open>None\<close> when the key is there.\<close>

fun map_insert :: "blob \<Rightarrow> 'v \<Rightarrow> (blob \<times> 'v) list \<Rightarrow> (blob \<times> 'v) list option" where
  "map_insert k v [] = Some [(k, v)]"
| "map_insert k v ((k', v') # kvs) =
     (if k = k' then None
      else if lexordp (<) k k' then Some ((k, v) # (k', v') # kvs)
      else map_option (Cons (k', v')) (map_insert k v kvs))"

definition xrep_attach ::
  "'w router_pipes \<Rightarrow> nat option \<Rightarrow> nat option \<Rightarrow> blob \<Rightarrow> xrep_t \<Rightarrow> 'w \<Rightarrow> (xrep_t \<times> 'w \<times> sock_act list) option" where
  "xrep_attach ops inpipe outpipe peer x w = do {
     (x1, w1, a1) \<leftarrow> (case outpipe of
         None \<Rightarrow> Some (x, w, [])
       | Some out \<Rightarrow> do {
           w' \<leftarrow> op_set_sink (rp_out ops) out w;
           m \<leftarrow> map_insert peer \<lparr>op_writer = out, op_active = True\<rparr> (xr_outpipes x);
           let x' = x\<lparr>xr_outpipes := m\<rparr>;
           (if xr_terminating x then do { w2 \<leftarrow> op_terminate (rp_out ops) out w'; Some (x', w2, [Sink (RegisterTermAcks 1)]) }
            else Some (x', w', []))
         });
     (case inpipe of
        None \<Rightarrow> Some (x1, w1, a1)
      | Some i \<Rightarrow> do {
          w' \<leftarrow> op_rset_sink (rp_in ops) i w1;
          let x' = x1\<lparr>xr_inpipes := xr_inpipes x1 @ [\<lparr>ip_reader = i, ip_identity = peer, ip_active = True\<rparr>]\<rparr>;
          (if xr_terminating x then do { w2 \<leftarrow> op_rterminate (rp_in ops) i w'; Some (x', w2, a1 @ [Sink (RegisterTermAcks 1)]) }
           else Some (x', w', a1))
        })
   }"

definition xrep_process_term ::
  "'w router_pipes \<Rightarrow> int \<Rightarrow> xrep_t \<Rightarrow> 'w \<Rightarrow> (xrep_t \<times> 'w \<times> sock_act list) option" where
  "xrep_process_term ops lngr x w = do {
     w1 \<leftarrow> terminate_all (op_rterminate (rp_in ops)) (map ip_reader (xr_inpipes x)) w;
     w2 \<leftarrow> terminate_all (op_terminate (rp_out ops)) (map (op_writer \<circ> snd) (xr_outpipes x)) w1;
     Some (x\<lparr>xr_terminating := True\<rparr>, w2,
           [Sink (RegisterTermAcks (length (xr_inpipes x) + length (xr_outpipes x))), BaseTerm lngr])
   }"

text \<open>The position of the first entry that satisfies the condition; the code asserts that there is one.\<close>

fun index_of :: "('a \<Rightarrow> bool) \<Rightarrow> 'a list \<Rightarrow> nat option" where
  "index_of P [] = None"
| "index_of P (x # xs) = (if P x then Some 0 else map_option Suc (index_of P xs))"

definition remove_at :: "nat \<Rightarrow> 'a list \<Rightarrow> 'a list" where
  "remove_at i xs = take i xs @ drop (Suc i) xs"

definition xrep_terminated_in :: "nat \<Rightarrow> xrep_t \<Rightarrow> (xrep_t \<times> sock_act list) option" where
  "xrep_terminated_in p x = do {
     i \<leftarrow> index_of (\<lambda>ip. ip_reader ip = p) (xr_inpipes x);
     let cur = (if i < xr_current_in x then xr_current_in x - 1 else xr_current_in x);
     let ips = remove_at i (xr_inpipes x);
     Some (x\<lparr>xr_inpipes := ips, xr_current_in := if cur \<ge> length ips then 0 else cur\<rparr>,
           if xr_terminating x then [Sink UnregisterTermAck] else [])
   }"

definition xrep_terminated_out :: "nat \<Rightarrow> xrep_t \<Rightarrow> (xrep_t \<times> sock_act list) option" where
  "xrep_terminated_out p x = do {
     i \<leftarrow> index_of (\<lambda>(k, out). op_writer out = p) (xr_outpipes x);
     Some (x\<lparr>xr_outpipes := remove_at i (xr_outpipes x),
             xr_current_out := if xr_current_out x = Some p then None else xr_current_out x\<rparr>,
           if xr_terminating x then [Sink UnregisterTermAck] else [])
   }"

definition xrep_delimited :: "nat \<Rightarrow> xrep_t \<Rightarrow> xrep_t" where
  "xrep_delimited p x = x"

definition xrep_activated_in :: "nat \<Rightarrow> xrep_t \<Rightarrow> xrep_t option" where
  "xrep_activated_in p x = do {
     i \<leftarrow> index_of (\<lambda>ip. ip_reader ip = p) (xr_inpipes x);
     zmq_assert (\<not> ip_active (xr_inpipes x ! i));
     Some (x\<lparr>xr_inpipes := (xr_inpipes x)[i := (xr_inpipes x ! i)\<lparr>ip_active := True\<rparr>]\<rparr>)
   }"

definition xrep_activated_out :: "nat \<Rightarrow> xrep_t \<Rightarrow> xrep_t option" where
  "xrep_activated_out p x = do {
     i \<leftarrow> index_of (\<lambda>(k, out). op_writer out = p) (xr_outpipes x);
     zmq_assert (\<not> op_active (snd (xr_outpipes x ! i)));
     let (k, out) = xr_outpipes x ! i;
     Some (x\<lparr>xr_outpipes := (xr_outpipes x)[i := (k, out\<lparr>op_active := True\<rparr>)]\<rparr>)
   }"

definition xrep_xsend :: "'w router_pipes \<Rightarrow> msg \<Rightarrow> xrep_t \<Rightarrow> 'w \<Rightarrow> (rc \<times> xrep_t \<times> 'w) option" where
  "xrep_xsend ops m x w =
     (if \<not> xr_more_out x then do {
        zmq_assert (xr_current_out x = None);
        (if \<not> has_more m then Some (OK, x, w)
         else case index_of (\<lambda>(k, out). k = body m) (xr_outpipes x) of
             None \<Rightarrow> Some (OK, x\<lparr>xr_more_out := True\<rparr>, w)
           | Some i \<Rightarrow> do {
               let (k, out) = xr_outpipes x ! i;
               (ok, w1) \<leftarrow> op_check_write (rp_out ops) (op_writer out) empty_msg w;
               Some (OK,
                 if ok then x\<lparr>xr_more_out := True, xr_current_out := Some (op_writer out)\<rparr>
                 else x\<lparr>xr_outpipes := (xr_outpipes x)[i := (k, out\<lparr>op_active := False\<rparr>)],
                        xr_more_out := False, xr_current_out := None\<rparr>, w1)
             })
      }
      else case xr_current_out x of
          Some p \<Rightarrow> do {
            (ok, w1) \<leftarrow> op_write (rp_out ops) p m w;
            zmq_assert ok;
            (if has_more m then Some (OK, x\<lparr>xr_more_out := True\<rparr>, w1)
             else do {
               w2 \<leftarrow> op_flush (rp_out ops) p w1;
               Some (OK, x\<lparr>xr_more_out := False, xr_current_out := None\<rparr>, w2)
             })
          }
        | None \<Rightarrow> Some (OK, x\<lparr>xr_more_out := has_more m\<rparr>, w))"

definition next_in :: "xrep_t \<Rightarrow> nat" where
  "next_in x = (if xr_current_in x + 1 \<ge> length (xr_inpipes x) then 0 else xr_current_in x + 1)"

definition current_inpipe :: "xrep_t \<Rightarrow> inpipe_t option" where
  "current_inpipe x =
     (if xr_current_in x < length (xr_inpipes x) then Some (xr_inpipes x ! xr_current_in x) else None)"

definition pass_over :: "xrep_t \<Rightarrow> xrep_t" where
  "pass_over x = x\<lparr>xr_inpipes := (xr_inpipes x)[xr_current_in x := (xr_inpipes x ! xr_current_in x)\<lparr>ip_active := False\<rparr>],
     xr_current_in := next_in x\<rparr>"

fun xrep_fetch :: "'w router_pipes \<Rightarrow> nat \<Rightarrow> xrep_t \<Rightarrow> 'w \<Rightarrow> (msg option \<times> xrep_t \<times> 'w) option" where
  "xrep_fetch ops 0 x w = Some (None, x, w)"
| "xrep_fetch ops (Suc count) x w = do {
     ip \<leftarrow> current_inpipe x;
     (v, w1) \<leftarrow> (if ip_active ip then op_read (rp_in ops) (ip_reader ip) w else Some (None, w));
     (case v of
        Some m \<Rightarrow>
          Some (Some (empty_msg\<lparr>body := ip_identity ip, mflags := mflags empty_msg OR ZMQ_MSG_MORE\<rparr>),
                x\<lparr>xr_prefetched := True, xr_prefetched_msg := m\<rparr>, w1)
      | None \<Rightarrow> xrep_fetch ops count (pass_over x) w1)
   }"

definition xrep_xrecv :: "'w router_pipes \<Rightarrow> xrep_t \<Rightarrow> 'w \<Rightarrow> (rc \<times> msg option \<times> xrep_t \<times> 'w) option" where
  "xrep_xrecv ops x w =
     (if xr_prefetched x
      then Some (OK, Some (xr_prefetched_msg x),
             x\<lparr>xr_prefetched_msg := empty_msg, xr_prefetched := False,
               xr_more_in := has_more (xr_prefetched_msg x)\<rparr>, w)
      else if xr_more_in x then do {
        ip \<leftarrow> current_inpipe x;
        zmq_assert (ip_active ip);
        (v, w1) \<leftarrow> op_read (rp_in ops) (ip_reader ip) w;
        m \<leftarrow> v;
        Some (OK, Some m,
          if has_more m then x\<lparr>xr_more_in := True\<rparr> else x\<lparr>xr_more_in := False, xr_current_in := next_in x\<rparr>, w1)
      }
      else do {
        (v, x', w') \<leftarrow> xrep_fetch ops (length (xr_inpipes x)) x w;
        Some (case v of None \<Rightarrow> Err EAGAIN | Some _ \<Rightarrow> OK, v, x', w')
      })"

definition xrep_rollback :: "'w router_pipes \<Rightarrow> xrep_t \<Rightarrow> 'w \<Rightarrow> (xrep_t \<times> 'w) option" where
  "xrep_rollback ops x w =
     (case xr_current_out x of
        Some p \<Rightarrow> do { w' \<leftarrow> rp_rollback ops p w; Some (x\<lparr>xr_current_out := None, xr_more_out := False\<rparr>, w') }
      | None \<Rightarrow> Some (x, w))"

fun xrep_probe :: "'w router_pipes \<Rightarrow> nat \<Rightarrow> xrep_t \<Rightarrow> 'w \<Rightarrow> (bool \<times> xrep_t \<times> 'w) option" where
  "xrep_probe ops 0 x w = Some (False, x, w)"
| "xrep_probe ops (Suc count) x w = do {
     ip \<leftarrow> current_inpipe x;
     (ok, w1) \<leftarrow> (if ip_active ip then op_check_read (rp_in ops) (ip_reader ip) w else Some (False, w));
     (if ok then Some (True, x, w1) else xrep_probe ops count (pass_over x) w1)
   }"

definition xrep_xhas_in :: "'w router_pipes \<Rightarrow> xrep_t \<Rightarrow> 'w \<Rightarrow> (bool \<times> xrep_t \<times> 'w) option" where
  "xrep_xhas_in ops x w =
     (if xr_prefetched x \<or> xr_more_in x then Some (True, x, w)
      else xrep_probe ops (length (xr_inpipes x)) x w)"

definition xrep_xhas_out :: "xrep_t \<Rightarrow> bool" where
  "xrep_xhas_out x = True"

section \<open>Three weaknesses\<close>

text \<open>When the pipe of the addressed peer is full, the identity is dropped and the socket is again at the beginning of
  a message: the next part, which is data, is taken for an identity.\<close>

lemma xrep_data_as_identity:
  assumes "\<not> xr_more_out x" "xr_current_out x = None" "has_more m"
    and "index_of (\<lambda>(k, out). k = body m) (xr_outpipes x) = Some i"
    and "op_check_write (rp_out ops) (op_writer (snd (xr_outpipes x ! i))) empty_msg w = Some (False, w')"
  shows "\<exists>x'. xrep_xsend ops m x w = Some (OK, x', w') \<and> \<not> xr_more_out x' \<and> xr_current_out x' = None"
  using assms by (cases "xr_outpipes x ! i") (auto simp: xrep_xsend_def)

text \<open>\<open>rollback\<close> leaves \<open>more_out\<close> set when there is no current pipe; then everything up to the end of the next
  message is dropped, its identity too.\<close>

lemma xrep_rollback_keeps_more: "xr_current_out x = None \<Longrightarrow> xrep_rollback ops x w = Some (x, w)"
  by (simp add: xrep_rollback_def)

lemma xrep_drops_rest:
  "xr_more_out x \<Longrightarrow> xr_current_out x = None \<Longrightarrow> xrep_xsend ops m x w = Some (OK, x\<lparr>xr_more_out := has_more m\<rparr>, w)"
  by (simp add: xrep_xsend_def)

text \<open>After a message of one part the turn stays at the same pipe, so a peer that always has such messages is the only
  one that is read.\<close>

lemma xrep_single_part_keeps_turn:
  assumes "xr_prefetched x" "\<not> has_more (xr_prefetched_msg x)"
  shows "\<exists>x'. xrep_xrecv ops x w = Some (OK, Some (xr_prefetched_msg x), x', w) \<and>
    xr_current_in x' = xr_current_in x \<and> \<not> xr_more_in x' \<and> \<not> xr_prefetched x'"
  using assms by (simp add: xrep_xrecv_def)

end
