(* ===== verification/Rep.thy ===== *)
theory Rep
  imports Xrep
begin

text \<open>
  \<^verbatim>\<open>src/rep.hpp\<close>, \<^verbatim>\<open>src/rep.cpp\<close>: the REP socket over an XREP socket. It keeps the addresses of a request as the
  beginning of a reply, so that the reply takes the path of the request back.
\<close>

record rep_t =
  rep_base :: xrep_t
  sending_reply :: bool
  request_begins :: bool

definition rep_new :: rep_t where
  "rep_new = \<lparr>rep_base = xrep_new, sending_reply = False, request_begins = True\<rparr>"

definition rep_options :: "options_t \<Rightarrow> options_t" where
  "rep_options opts = (xrep_options opts)\<lparr>socket_type := ZMQ_REP\<rparr>"

definition rep_xsend :: "'w router_pipes \<Rightarrow> msg \<Rightarrow> rep_t \<Rightarrow> 'w \<Rightarrow> (rc \<times> rep_t \<times> 'w) option" where
  "rep_xsend ops m r w =
     (if \<not> sending_reply r then Some (Err EFSM, r, w)
      else do {
        (rc, x, w') \<leftarrow> xrep_xsend ops m (rep_base r) w;
        Some (rc, if rc = OK \<and> \<not> has_more m then r\<lparr>rep_base := x, sending_reply := False\<rparr> else r\<lparr>rep_base := x\<rparr>, w')
      })"

text \<open>The loop that copies the addresses; the result is that of a failed \<open>xrecv\<close>, if any.\<close>

partial_function (option) copy_envelope ::
  "'w router_pipes \<Rightarrow> xrep_t \<Rightarrow> 'w \<Rightarrow> (rc \<times> xrep_t \<times> 'w) option" where
  "copy_envelope ops x w =
     Option.bind (xrep_xrecv ops x w) (\<lambda>(rc, v, x1, w1).
       if rc \<noteq> OK then Some (rc, x1, w1)
       else Option.bind v (\<lambda>m.
         if has_more m
         then Option.bind (xrep_xsend ops m x1 w1) (\<lambda>(rc2, x2, w2).
                Option.bind (zmq_assert (rc2 = OK)) (\<lambda>_.
                  if body m = [] then Some (OK, x2, w2) else copy_envelope ops x2 w2))
         else Option.bind (xrep_rollback ops x1 w1) (\<lambda>(x2, w2). copy_envelope ops x2 w2)))"

declare copy_envelope.simps [code]

definition rep_xrecv :: "'w router_pipes \<Rightarrow> rep_t \<Rightarrow> 'w \<Rightarrow> (rc \<times> msg option \<times> rep_t \<times> 'w) option" where
  "rep_xrecv ops r w =
     (if sending_reply r then Some (Err EFSM, None, r, w)
      else do {
        (rc1, r1, w1) \<leftarrow> (if request_begins r then do {
             (rc, x, w') \<leftarrow> copy_envelope ops (rep_base r) w;
             Some (rc, if rc = OK then r\<lparr>rep_base := x, request_begins := False\<rparr> else r\<lparr>rep_base := x\<rparr>, w')
           }
           else Some (OK, r, w));
        (if rc1 \<noteq> OK then Some (rc1, None, r1, w1)
         else do {
           (rc2, v, x, w2) \<leftarrow> xrep_xrecv ops (rep_base r1) w1;
           (if rc2 \<noteq> OK then Some (rc2, v, r1\<lparr>rep_base := x\<rparr>, w2)
            else do {
              m \<leftarrow> v;
              Some (OK, Some m,
                if \<not> has_more m then r1\<lparr>rep_base := x, sending_reply := True, request_begins := True\<rparr>
                else r1\<lparr>rep_base := x\<rparr>, w2)
            })
         })
      })"

definition rep_xhas_in :: "'w router_pipes \<Rightarrow> rep_t \<Rightarrow> 'w \<Rightarrow> (bool \<times> rep_t \<times> 'w) option" where
  "rep_xhas_in ops r w =
     (if sending_reply r then Some (False, r, w)
      else do { (ok, x, w') \<leftarrow> xrep_xhas_in ops (rep_base r) w; Some (ok, r\<lparr>rep_base := x\<rparr>, w') })"

definition rep_xhas_out :: "rep_t \<Rightarrow> bool" where
  "rep_xhas_out r = (sending_reply r \<and> xrep_xhas_out (rep_base r))"

section \<open>Routing over pipes\<close>

definition pipe_router :: "pipe_world router_pipes" where
  "pipe_router = \<lparr>rp_in = pipe_reader_ops, rp_out = pipe_writer_ops,
     rp_rollback = (\<lambda>p w. do { (c, acts) \<leftarrow> writer_rollback (conns w p); Some (set_conn p c acts w) })\<rparr>"

text \<open>A request on its way: the addresses, an empty part and the request itself.\<close>

definition complete_msg :: "msg list \<Rightarrow> bool" where
  "complete_msg ms \<longleftrightarrow> ms \<noteq> [] \<and> (\<forall>m \<in> set (butlast ms). has_more m) \<and> \<not> has_more (last ms)"

definition envelope :: "msg list \<Rightarrow> bool" where
  "envelope ms \<longleftrightarrow> ms \<noteq> [] \<and> (\<forall>m \<in> set ms. has_more m) \<and> (\<forall>m \<in> set (butlast ms). body m \<noteq> []) \<and> body (last ms) = []"

text \<open>Nothing is half-read or half-written, and the turn is at the inbound pipe \<open>p\<close> of the peer \<open>peer\<close>.\<close>

definition router_idle :: "xrep_t \<Rightarrow> bool" where
  "router_idle x \<longleftrightarrow> \<not> xr_prefetched x \<and> \<not> xr_more_in x \<and> \<not> xr_more_out x \<and> xr_current_out x = None"

definition rep_idle :: "rep_t \<Rightarrow> bool" where
  "rep_idle r \<longleftrightarrow> router_idle (rep_base r) \<and> \<not> sending_reply r \<and> request_begins r"

definition in_turn :: "xrep_t \<Rightarrow> nat \<Rightarrow> blob \<Rightarrow> bool" where
  "in_turn x p peer \<longleftrightarrow> current_inpipe x = Some \<lparr>ip_reader = p, ip_identity = peer, ip_active = True\<rparr>"

fun rep_recv_parts :: "nat \<Rightarrow> rep_t \<Rightarrow> pipe_world \<Rightarrow> (msg list \<times> rep_t \<times> pipe_world) option" where
  "rep_recv_parts 0 r w = Some ([], r, w)"
| "rep_recv_parts (Suc n) r w = do {
     (rc, v, r1, w1) \<leftarrow> rep_xrecv pipe_router r w;
     zmq_assert (rc = OK);
     m \<leftarrow> v;
     (ms, r2, w2) \<leftarrow> rep_recv_parts n r1 w1;
     Some (m # ms, r2, w2)
   }"

fun rep_send_parts :: "msg list \<Rightarrow> rep_t \<Rightarrow> pipe_world \<Rightarrow> (rep_t \<times> pipe_world) option" where
  "rep_send_parts [] r w = Some (r, w)"
| "rep_send_parts (m # ms) r w = do {
     (rc, r1, w1) \<leftarrow> rep_xsend pipe_router m r w;
     zmq_assert (rc = OK);
     rep_send_parts ms r1 w1
   }"

text \<open>The reader \<open>p\<close> will give \<open>ins\<close>, and the pipe of the writer \<open>q\<close> holds \<open>outs\<close> and takes more.\<close>

definition ends_hold :: "pipe_world \<Rightarrow> nat \<Rightarrow> msg list \<Rightarrow> nat \<Rightarrow> msg list \<Rightarrow> bool" where
  "ends_hold w p ins q outs \<longleftrightarrow> p \<noteq> q \<and> conn_feeds (conns w p) ins \<and> conn_holds (conns w q) outs \<and>
     writer_ready (conns w q)"

lemma router_read:
  assumes "ends_hold w p (m # ins) q outs"
  shows "\<exists>w'. op_read (rp_in pipe_router) p w = Some (Some m, w') \<and> ends_hold w' p ins q outs"
  using conn_feeds_read[of "conns w p" "m # ins"] assms
  by (auto simp: ends_hold_def pipe_router_def pipe_reader_ops_def)

lemma router_write:
  assumes "ends_hold w p ins q outs"
  shows "\<exists>w'. op_write (rp_out pipe_router) q m w = Some (True, w') \<and> conn_holds (conns w' q) (outs @ [m]) \<and>
    conn_feeds (conns w' p) ins \<and> (has_more m \<longrightarrow> ends_hold w' p ins q (outs @ [m]))"
  using conn_holds_write[of "conns w q" outs m] assms
  by (auto simp: ends_hold_def pipe_router_def pipe_writer_ops_def)

lemma router_flush:
  assumes "conn_holds (conns w q) outs" "p \<noteq> q"
  shows "\<exists>w'. op_flush (rp_out pipe_router) q w = Some w' \<and> conn_holds (conns w' q) outs \<and> conns w' p = conns w p"
  using conn_holds_flush[of "conns w q" outs] assms
  by (auto simp: pipe_router_def pipe_writer_ops_def)

lemma router_check:
  assumes "ends_hold w p ins q outs"
  shows "\<exists>w'. op_check_write (rp_out pipe_router) q m w = Some (True, w') \<and> ends_hold w' p ins q outs"
  using conn_holds_check[of "conns w q" outs m] assms
  by (auto simp: ends_hold_def pipe_router_def pipe_writer_ops_def)

section \<open>The path of a request and its reply\<close>

text \<open>In the middle of a request: its parts come from \<open>p\<close>, and what is sent goes to \<open>q\<close>.\<close>

definition routing :: "xrep_t \<Rightarrow> nat \<Rightarrow> blob \<Rightarrow> nat \<Rightarrow> bool" where
  "routing x p peer q \<longleftrightarrow> in_turn x p peer \<and> xr_more_out x \<and> xr_current_out x = Some q"

definition gives :: "xrep_t \<Rightarrow> pipe_world \<Rightarrow> nat \<Rightarrow> msg list \<Rightarrow> nat \<Rightarrow> msg list \<Rightarrow> bool" where
  "gives x w p ins q outs \<longleftrightarrow>
     (if xr_prefetched x then ins \<noteq> [] \<and> hd ins = xr_prefetched_msg x \<and> ends_hold w p (tl ins) q outs
      else xr_more_in x \<and> ends_hold w p ins q outs)"

definition routes :: "xrep_t \<Rightarrow> blob \<Rightarrow> nat \<Rightarrow> bool" where
  "routes x peer q \<longleftrightarrow> (\<exists>i out. index_of (\<lambda>(k, out). k = peer) (xr_outpipes x) = Some i \<and>
     xr_outpipes x ! i = (peer, out) \<and> op_writer out = q)"

lemma routing_recv:
  assumes "routing x p peer q" "gives x w p (m # ins) q outs"
  obtains x' w' where "xrep_xrecv pipe_router x w = Some (OK, Some m, x', w')" "ends_hold w' p ins q outs"
    "\<not> xr_prefetched x'" "xr_more_in x' = has_more m" "xr_more_out x'" "xr_current_out x' = Some q"
    "has_more m \<Longrightarrow> routing x' p peer q"
proof (cases "xr_prefetched x")
  case True
  then show ?thesis
    using assms that[of "x\<lparr>xr_prefetched_msg := empty_msg, xr_prefetched := False, xr_more_in := has_more m\<rparr>" w]
    by (auto simp: xrep_xrecv_def routing_def gives_def in_turn_def current_inpipe_def split: if_splits)
next
  case False
  then have more: "xr_more_in x" "ends_hold w p (m # ins) q outs" using assms(2) by (auto simp: gives_def)
  obtain w' where w': "op_read (rp_in pipe_router) p w = Some (Some m, w')" "ends_hold w' p ins q outs"
    using router_read[OF more(2)] by blast
  let ?x = "if has_more m then x\<lparr>xr_more_in := True\<rparr> else x\<lparr>xr_more_in := False, xr_current_in := next_in x\<rparr>"
  have "xrep_xrecv pipe_router x w = Some (OK, Some m, ?x, w')"
    using False more(1) w'(1) assms(1) by (simp add: xrep_xrecv_def routing_def in_turn_def)
  then show ?thesis
    using that[of ?x w'] False w'(2) assms(1)
    by (auto simp: routing_def in_turn_def current_inpipe_def split: if_splits)
qed

lemma routing_send:
  assumes "xr_more_out x" "xr_current_out x = Some q" "has_more m" "ends_hold w p ins q outs"
  obtains w' where "xrep_xsend pipe_router m x w = Some (OK, x, w')" "ends_hold w' p ins q (outs @ [m])"
proof -
  obtain w' where "op_write (rp_out pipe_router) q m w = Some (True, w')" "ends_hold w' p ins q (outs @ [m])"
    using router_write[OF assms(4), of m] assms(3) by blast
  moreover have "x\<lparr>xr_more_out := True\<rparr> = x" using assms(1) by (cases x) simp
  ultimately show ?thesis using that[of w'] assms by (simp add: xrep_xsend_def)
qed

lemma copy_envelope_ok:
  "routing x p peer q \<Longrightarrow> gives x w p (env @ ins) q outs \<Longrightarrow> envelope env \<Longrightarrow>
   \<exists>x' w'. copy_envelope pipe_router x w = Some (OK, x', w') \<and> routing x' p peer q \<and>
     gives x' w' p ins q (outs @ env)"
proof (induction env arbitrary: x w outs)
  case (Cons m env)
  have more: "has_more m" using Cons.prems(3) by (simp add: envelope_def)
  obtain x1 w1 where r: "xrep_xrecv pipe_router x w = Some (OK, Some m, x1, w1)" "ends_hold w1 p (env @ ins) q outs"
      "\<not> xr_prefetched x1" "xr_more_in x1" "xr_more_out x1" "xr_current_out x1 = Some q" "routing x1 p peer q"
    using routing_recv[OF Cons.prems(1)] Cons.prems(2) more by (metis append_Cons)
  obtain w2 where s: "xrep_xsend pipe_router m x1 w1 = Some (OK, x1, w2)" "ends_hold w2 p (env @ ins) q (outs @ [m])"
    using routing_send[OF r(5,6) more r(2)] .
  have g: "gives x1 w2 p (env @ ins) q (outs @ [m])" using s(2) r(3,4) by (simp add: gives_def)
  show ?case
  proof (cases "body m = []")
    case True
    then have "env = []" using Cons.prems(3) by (cases env) (auto simp: envelope_def)
    then show ?thesis using True r s g more by (subst copy_envelope.simps) simp
  next
    case False
    then have "envelope env" using Cons.prems(3) by (cases env) (auto simp: envelope_def)
    from Cons.IH[OF r(7) g this] show ?thesis using False r s more by (subst copy_envelope.simps) simp
  qed
qed (simp add: envelope_def)

lemma copy_envelope_start:
  assumes idle: "router_idle x" and turn: "in_turn x p peer" and rt: "routes x peer q" and peer: "peer \<noteq> []"
    and ends: "ends_hold w p (env @ ins) q outs" and env: "envelope env"
  shows "\<exists>x' w'. copy_envelope pipe_router x w = Some (OK, x', w') \<and> routing x' p peer q \<and>
     gives x' w' p ins q (outs @ env)"
proof -
  obtain m env' where m: "env = m # env'" using env by (cases env) (auto simp: envelope_def)
  obtain w1 where w1: "op_read (rp_in pipe_router) p w = Some (Some m, w1)" "ends_hold w1 p (env' @ ins) q outs"
    using router_read[of w p m "env' @ ins"] ends m by auto
  let ?id = "empty_msg\<lparr>body := peer, mflags := mflags empty_msg OR ZMQ_MSG_MORE\<rparr>"
  let ?x1 = "x\<lparr>xr_prefetched := True, xr_prefetched_msg := m\<rparr>"
  obtain n where n: "length (xr_inpipes x) = Suc n"
    using turn by (cases "length (xr_inpipes x)") (auto simp: in_turn_def current_inpipe_def)
  have recv: "xrep_xrecv pipe_router x w = Some (OK, Some ?id, ?x1, w1)"
    using idle turn w1(1) n by (simp add: xrep_xrecv_def router_idle_def in_turn_def)
  have id: "has_more ?id" by (simp add: has_more_def empty_msg_def ZMQ_MSG_MORE_def ZMQ_MSG_MASK_def)
  obtain i out where i: "index_of (\<lambda>(k, out). k = peer) (xr_outpipes x) = Some i" "xr_outpipes x ! i = (peer, out)"
      "op_writer out = q"
    using rt by (auto simp: routes_def)
  obtain w2 where w2: "op_check_write (rp_out pipe_router) q empty_msg w1 = Some (True, w2)"
      "ends_hold w2 p (env' @ ins) q outs"
    using router_check[OF w1(2)] by blast
  let ?x2 = "?x1\<lparr>xr_more_out := True, xr_current_out := Some q\<rparr>"
  have send: "xrep_xsend pipe_router ?id ?x1 w1 = Some (OK, ?x2, w2)"
    using idle id i w2(1) by (simp add: xrep_xsend_def router_idle_def)
  have "routing ?x2 p peer q" "gives ?x2 w2 p (env @ ins) q outs"
    using turn w2(2) m by (auto simp: routing_def in_turn_def current_inpipe_def gives_def split: if_splits)
  from copy_envelope_ok[OF this env] show ?thesis
    using recv send id peer by (subst copy_envelope.simps) simp
qed

definition replying :: "rep_t \<Rightarrow> nat \<Rightarrow> bool" where
  "replying r q \<longleftrightarrow> sending_reply r \<and> request_begins r \<and> \<not> xr_prefetched (rep_base r) \<and> \<not> xr_more_in (rep_base r) \<and>
     xr_more_out (rep_base r) \<and> xr_current_out (rep_base r) = Some q"

lemma complete_msg_Cons: "complete_msg (m # ms) \<longleftrightarrow> (if ms = [] then \<not> has_more m else has_more m \<and> complete_msg ms)"
  by (auto simp: complete_msg_def)

lemma recv_parts_ok:
  "\<not> sending_reply r \<Longrightarrow> \<not> request_begins r \<Longrightarrow> routing (rep_base r) p peer q \<Longrightarrow>
   gives (rep_base r) w p (ms @ ins) q outs \<Longrightarrow> complete_msg ms \<Longrightarrow>
   \<exists>r' w'. rep_recv_parts (length ms) r w = Some (ms, r', w') \<and> replying r' q \<and> ends_hold w' p ins q outs"
proof (induction ms arbitrary: r w)
  case (Cons m ms)
  obtain x1 w1 where x: "xrep_xrecv pipe_router (rep_base r) w = Some (OK, Some m, x1, w1)"
      "ends_hold w1 p (ms @ ins) q outs" "\<not> xr_prefetched x1" "xr_more_in x1 = has_more m" "xr_more_out x1"
      "xr_current_out x1 = Some q" "has_more m \<Longrightarrow> routing x1 p peer q"
    using routing_recv[OF Cons.prems(3), of w m "ms @ ins" outs] Cons.prems(4) by auto
  let ?r = "if \<not> has_more m then r\<lparr>rep_base := x1, sending_reply := True, request_begins := True\<rparr>
    else r\<lparr>rep_base := x1\<rparr>"
  have step: "rep_xrecv pipe_router r w = Some (OK, Some m, ?r, w1)"
    using Cons.prems(1,2) x(1) by (simp add: rep_xrecv_def)
  show ?case
  proof (cases "has_more m")
    case False
    then have "ms = []" using Cons.prems(5) by (auto simp: complete_msg_Cons split: if_splits)
    then show ?thesis using step x False by (simp add: replying_def)
  next
    case True
    then have "complete_msg ms" using Cons.prems(5) by (auto simp: complete_msg_Cons split: if_splits)
    moreover have "gives x1 w1 p (ms @ ins) q outs" using x(2-4) True by (simp add: gives_def)
    ultimately obtain r' w' where "rep_recv_parts (length ms) ?r w1 = Some (ms, r', w')" "replying r' q"
        "ends_hold w' p ins q outs"
      using Cons.IH[of ?r w1] Cons.prems(1,2) x(7) True by auto
    then show ?thesis using step by simp
  qed
qed (simp add: complete_msg_def)

lemma send_parts_ok:
  "replying r q \<Longrightarrow> ends_hold w p ins q outs \<Longrightarrow> complete_msg rs \<Longrightarrow>
   \<exists>r' w'. rep_send_parts rs r w = Some (r', w') \<and> rep_idle r' \<and> conn_feeds (conns w' p) ins \<and>
     conn_holds (conns w' q) (outs @ rs)"
proof (induction rs arbitrary: r w outs)
  case (Cons m rs)
  let ?x = "rep_base r"
  note R = Cons.prems(1)[unfolded replying_def]
  show ?case
  proof (cases "has_more m")
    case True
    obtain w1 where w1: "xrep_xsend pipe_router m ?x w = Some (OK, ?x, w1)" "ends_hold w1 p ins q (outs @ [m])"
      using routing_send[of ?x q m w p ins outs] R True Cons.prems(2) by blast
    have "rep_xsend pipe_router m r w = Some (OK, r, w1)"
      using R w1(1) True by (cases r) (simp add: rep_xsend_def)
    moreover have "complete_msg rs" using Cons.prems(3) True by (auto simp: complete_msg_Cons split: if_splits)
    ultimately show ?thesis using Cons.IH[OF Cons.prems(1) w1(2)] by simp
  next
    case False
    then have nil: "rs = []" using Cons.prems(3) by (auto simp: complete_msg_Cons split: if_splits)
    obtain w1 where w1: "op_write (rp_out pipe_router) q m w = Some (True, w1)"
        "conn_holds (conns w1 q) (outs @ [m])" "conn_feeds (conns w1 p) ins"
      using router_write[OF Cons.prems(2), of m] by blast
    obtain w2 where w2: "op_flush (rp_out pipe_router) q w1 = Some w2" "conn_holds (conns w2 q) (outs @ [m])"
        "conns w2 p = conns w1 p"
      using router_flush[OF w1(2), of p] Cons.prems(2) by (auto simp: ends_hold_def)
    have "xrep_xsend pipe_router m ?x w = Some (OK, ?x\<lparr>xr_more_out := False, xr_current_out := None\<rparr>, w2)"
      using R False w1(1) w2(1) by (simp add: xrep_xsend_def)
    then have "rep_xsend pipe_router m r w =
        Some (OK, r\<lparr>rep_base := ?x\<lparr>xr_more_out := False, xr_current_out := None\<rparr>, sending_reply := False\<rparr>, w2)"
      using R False by (simp add: rep_xsend_def)
    then show ?thesis using nil w1(3) w2(2,3) R by (simp add: rep_idle_def router_idle_def)
  qed
qed (simp add: complete_msg_def)

text \<open>C36: A reply takes the path of its request back. Let an idle REP socket be at the turn of the pipe of a peer, whose
  reader holds a request: any number of addresses, an empty part, the parts of the request, then anything. If the pipe
  to that peer takes a message, then receiving gives exactly the parts of the request, one per call; until the last
  the socket refuses to send and then refuses to receive; and sending the parts of any complete reply appends the
  addresses, the empty part and the reply to the pipe of that peer, in this order, and leaves the socket idle.\<close>

theorem rep_replies_to_requester:
  assumes "rep_idle r" "in_turn (rep_base r) p peer" "routes (rep_base r) peer q" "peer \<noteq> []"
    and "ends_hold w p (env @ req @ ins) q outs" "envelope env" "complete_msg req" "complete_msg rep"
  shows "\<exists>r1 w1 r2 w2. rep_recv_parts (length req) r w = Some (req, r1, w1) \<and>
    (\<forall>m. rep_xsend pipe_router m r w = Some (Err EFSM, r, w)) \<and> rep_xrecv pipe_router r1 w1 = Some (Err EFSM, None, r1, w1) \<and>
    rep_send_parts rep r1 w1 = Some (r2, w2) \<and> rep_idle r2 \<and> conn_feeds (conns w2 p) ins \<and>
    conn_holds (conns w2 q) (outs @ env @ rep)"
proof -
  have idle: "router_idle (rep_base r)" "\<not> sending_reply r" "request_begins r"
    using assms(1) by (auto simp: rep_idle_def)
  obtain x0 w0 where env: "copy_envelope pipe_router (rep_base r) w = Some (OK, x0, w0)" "routing x0 p peer q"
      "gives x0 w0 p (req @ ins) q (outs @ env)"
    using copy_envelope_start[OF idle(1) assms(2-6)] by blast
  let ?r0 = "r\<lparr>rep_base := x0, request_begins := False\<rparr>"
  have "rep_xrecv pipe_router r w = rep_xrecv pipe_router ?r0 w0"
    using idle env(1) by (simp add: rep_xrecv_def)
  moreover obtain n where "length req = Suc n" using assms(7) by (cases req) (auto simp: complete_msg_def)
  ultimately have "rep_recv_parts (length req) r w = rep_recv_parts (length req) ?r0 w0" by simp
  then obtain r1 w1 where r1: "rep_recv_parts (length req) r w = Some (req, r1, w1)" "replying r1 q"
      "ends_hold w1 p ins q (outs @ env)"
    using recv_parts_ok[of ?r0 p peer q w0 req ins "outs @ env"] idle env(2,3) assms(7) by auto
  obtain r2 w2 where "rep_send_parts rep r1 w1 = Some (r2, w2)" "rep_idle r2" "conn_feeds (conns w2 p) ins"
      "conn_holds (conns w2 q) (outs @ env @ rep)"
    using send_parts_ok[OF r1(2,3) assms(8)] by auto
  moreover have "rep_xsend pipe_router m r w = Some (Err EFSM, r, w)" for m using idle by (simp add: rep_xsend_def)
  moreover have "rep_xrecv pipe_router r1 w1 = Some (Err EFSM, None, r1, w1)"
    using r1(2) by (simp add: rep_xrecv_def replying_def)
  ultimately show ?thesis using r1(1) by blast
qed

definition demo_rep :: rep_t where
  "demo_rep = rep_new\<lparr>rep_base := xrep_new\<lparr>xr_inpipes := [\<lparr>ip_reader = 0, ip_identity = [5], ip_active = True\<rparr>],
     xr_outpipes := [([5], \<lparr>op_writer = 1, op_active = True\<rparr>)]\<rparr>\<rparr>"

definition demo_rep_world :: pipe_world where
  "demo_rep_world = \<lparr>conns = (\<lambda>p. if p = 0 then two_part_conn (empty_msg\<lparr>mflags := 1\<rparr>) empty_msg else demo_conn 2),
     pipe_log = []\<rparr>"

theorem rep_replies_to_requester_witness:
  "\<exists>r1 w1 r2 w2. rep_recv_parts 1 demo_rep demo_rep_world = Some ([empty_msg], r1, w1) \<and>
     rep_send_parts [empty_msg] r1 w1 = Some (r2, w2) \<and> conn_holds (conns w2 1) [empty_msg\<lparr>mflags := 1\<rparr>, empty_msg]"
proof -
  let ?b = "empty_msg\<lparr>mflags := 1\<rparr>"
  have b: "has_more ?b" "\<not> is_delim ?b" "body ?b = []" by (simp_all add: has_more_def ZMQ_MSG_MORE_def empty_msg_def)
  have "conn_feeds (two_part_conn ?b empty_msg) [?b, empty_msg]" using two_part_feeds b(1,2) by simp
  then have ends: "ends_hold demo_rep_world 0 ([?b] @ [empty_msg] @ []) 1 []"
    using demo_conn_holds by (simp add: ends_hold_def demo_rep_world_def)
  have rep: "rep_idle demo_rep" "in_turn (rep_base demo_rep) 0 [5]" "routes (rep_base demo_rep) [5] 1"
    by (simp_all add: demo_rep_def rep_new_def xrep_new_def rep_idle_def router_idle_def in_turn_def
        current_inpipe_def routes_def)
  have env: "envelope [?b]" "complete_msg [empty_msg]" using b by (simp_all add: envelope_def complete_msg_def)
  show ?thesis
    using rep_replies_to_requester[OF rep _ ends env env(2)] by auto
qed

end
