(* ===== verification/Xsub.thy ===== *)
theory Xsub
  imports Patterns Trie FqContents
begin

text \<open>
  \<^verbatim>\<open>src/xsub.hpp\<close>, \<^verbatim>\<open>src/xsub.cpp\<close>, \<^verbatim>\<open>src/sub.cpp\<close>: the subscriber sockets, which drop the messages of the fair
  queue that match no subscription. The loops of the code end only when a message matches or the queue is empty, so
  they are partial functions: not returning is \<open>None\<close>, like a failed assertion.
\<close>

record xsub_t =
  xs_fq :: fq_t
  xs_subs :: trie
  xs_has_message :: bool
  xs_message :: msg
  xs_more :: bool

definition xsub_new :: xsub_t where
  "xsub_new = \<lparr>xs_fq = fq_new, xs_subs = trie_new, xs_has_message = False, xs_message = empty_msg, xs_more = False\<rparr>"

definition xsub_options :: "options_t \<Rightarrow> options_t" where
  "xsub_options opts = opts\<lparr>socket_type := ZMQ_XSUB, requires_in := True, requires_out := False\<rparr>"

definition xsub_attach ::
  "'w reader_ops \<Rightarrow> nat option \<Rightarrow> nat option \<Rightarrow> xsub_t \<Rightarrow> 'w \<Rightarrow> (xsub_t \<times> 'w \<times> sock_act list) option" where
  "xsub_attach rops inpipe outpipe x w = do {
     i \<leftarrow> inpipe;
     zmq_assert (outpipe = None);
     (fq', w', a) \<leftarrow> fq_attach rops i (xs_fq x) w;
     Some (x\<lparr>xs_fq := fq'\<rparr>, w', map Sink a)
   }"

definition xsub_process_term ::
  "'w reader_ops \<Rightarrow> int \<Rightarrow> xsub_t \<Rightarrow> 'w \<Rightarrow> (xsub_t \<times> 'w \<times> sock_act list) option" where
  "xsub_process_term rops lngr x w = do {
     (fq', w', a) \<leftarrow> fq_terminate rops (xs_fq x) w;
     Some (x\<lparr>xs_fq := fq'\<rparr>, w', map Sink a @ [BaseTerm lngr])
   }"

text \<open>A message whose first byte is 1 subscribes to the rest, one whose first byte is 0 unsubscribes.\<close>

definition xsub_xsend :: "msg \<Rightarrow> xsub_t \<Rightarrow> (rc \<times> xsub_t) option" where
  "xsub_xsend m x =
     (case body m of
        [] \<Rightarrow> Some (OK, x)
      | b # data \<Rightarrow> do {
          t1 \<leftarrow> (if b = 1 then trie_add data (xs_subs x) else Some (xs_subs x));
          t2 \<leftarrow> (if b = 0 then do { (_, t) \<leftarrow> trie_rm data t1; Some t } else Some t1);
          Some (OK, x\<lparr>xs_subs := t2\<rparr>)
        })"

definition xsub_xhas_out :: "xsub_t \<Rightarrow> bool" where
  "xsub_xhas_out x = True"

definition xsub_match :: "msg \<Rightarrow> trie \<Rightarrow> bool option" where
  "xsub_match m t = trie_check (body m) t"

text \<open>The remaining parts of a message that does not match.\<close>

partial_function (option) skip_parts ::
  "'w reader_ops \<Rightarrow> msg \<Rightarrow> fq_t \<Rightarrow> 'w \<Rightarrow> (fq_t \<times> 'w) option" where
  "skip_parts rops m fq w =
     (if \<not> has_more m then Some (fq, w)
      else Option.bind (fq_recv rops fq w) (\<lambda>(r, v, fq', w').
        case v of None \<Rightarrow> None | Some (p, m') \<Rightarrow> skip_parts rops m' fq' w'))"

partial_function (option) next_match ::
  "'w reader_ops \<Rightarrow> bool \<Rightarrow> trie \<Rightarrow> fq_t \<Rightarrow> 'w \<Rightarrow> (msg option \<times> fq_t \<times> 'w) option" where
  "next_match rops inside t fq w =
     Option.bind (fq_recv rops fq w) (\<lambda>(r, v, fq1, w1).
       case v of
         None \<Rightarrow> Some (None, fq1, w1)
       | Some (p, m) \<Rightarrow>
           Option.bind (if inside then Some True else xsub_match m t) (\<lambda>ok.
             if ok then Some (Some m, fq1, w1)
             else Option.bind (skip_parts rops m fq1 w1) (\<lambda>(fq2, w2). next_match rops inside t fq2 w2)))"

declare skip_parts.simps [code] next_match.simps [code]

definition xsub_xrecv :: "'w reader_ops \<Rightarrow> xsub_t \<Rightarrow> 'w \<Rightarrow> (rc \<times> msg option \<times> xsub_t \<times> 'w) option" where
  "xsub_xrecv rops x w =
     (if xs_has_message x
      then Some (OK, Some (xs_message x),
             x\<lparr>xs_message := empty_msg, xs_has_message := False, xs_more := has_more (xs_message x)\<rparr>, w)
      else do {
        (v, fq', w') \<leftarrow> next_match rops (xs_more x) (xs_subs x) (xs_fq x) w;
        Some (case v of
                None \<Rightarrow> (Err EAGAIN, None, x\<lparr>xs_fq := fq'\<rparr>, w')
              | Some m \<Rightarrow> (OK, Some m, x\<lparr>xs_fq := fq', xs_more := has_more m\<rparr>, w'))
      })"

definition xsub_xhas_in :: "'w reader_ops \<Rightarrow> xsub_t \<Rightarrow> 'w \<Rightarrow> (bool \<times> xsub_t \<times> 'w) option" where
  "xsub_xhas_in rops x w =
     (if xs_more x then Some (True, x, w)
      else if xs_has_message x then Some (True, x, w)
      else do {
        (v, fq', w') \<leftarrow> next_match rops False (xs_subs x) (xs_fq x) w;
        Some (case v of
                None \<Rightarrow> (False, x\<lparr>xs_fq := fq', xs_message := empty_msg\<rparr>, w')
              | Some m \<Rightarrow> (True, x\<lparr>xs_fq := fq', xs_message := m, xs_has_message := True\<rparr>, w'))
      })"

section \<open>SUB\<close>

definition sub_options :: "options_t \<Rightarrow> options_t" where
  "sub_options opts = (xsub_options opts)\<lparr>socket_type := ZMQ_SUB\<rparr>"

definition sub_xsetsockopt :: "sockopt \<Rightarrow> byte list \<Rightarrow> xsub_t \<Rightarrow> (rc \<times> xsub_t) option" where
  "sub_xsetsockopt o' v x =
     (if o' \<noteq> SUBSCRIBE \<and> o' \<noteq> UNSUBSCRIBE then Some (Err EINVAL, x)
      else xsub_xsend (empty_msg\<lparr>body := (if o' = SUBSCRIBE then 1 else 0) # v\<rparr>) x)"

definition sub_xsend :: "msg \<Rightarrow> xsub_t \<Rightarrow> rc \<times> xsub_t" where
  "sub_xsend m x = (Err ENOTSUP, x)"

definition sub_xhas_out :: "xsub_t \<Rightarrow> bool" where
  "sub_xhas_out x = False"

section \<open>What a subscriber delivers\<close>

text \<open>
  What happened to a subscriber: subscriptions and the parts its fair queue gave. The specification keeps the
  multiset of subscriptions, whether a message is under way (and is being delivered), and the delivered parts.
\<close>

datatype sub_ev = EvSub blob | EvUnsub blob | EvGot msg

type_synonym sub_view = "(blob \<Rightarrow> nat) \<times> bool option \<times> msg list"

definition matches :: "(blob \<Rightarrow> nat) \<Rightarrow> blob \<Rightarrow> bool" where
  "matches f data \<longleftrightarrow> (\<exists>k \<le> length data. 0 < f (take k data))"

fun sub_step :: "sub_ev \<Rightarrow> sub_view \<Rightarrow> sub_view" where
  "sub_step (EvSub p) (f, c, out) = (f(p := f p + 1), c, out)"
| "sub_step (EvUnsub p) (f, c, out) = (f(p := f p - 1), c, out)"
| "sub_step (EvGot m) (f, c, out) =
     (let b = (case c of Some b \<Rightarrow> b | None \<Rightarrow> matches f (body m))
      in (f, if has_more m then Some b else None, if b then out @ [m] else out))"

definition sub_after :: "sub_ev list \<Rightarrow> sub_view" where
  "sub_after evs = fold sub_step evs (\<lambda>_. 0, None, [])"

definition sub_delivers :: "sub_ev list \<Rightarrow> msg list" where
  "sub_delivers evs = snd (snd (sub_after evs))"

lemma sub_after_snoc [simp]: "sub_after (evs @ [e]) = sub_step e (sub_after evs)" "sub_after [] = (\<lambda>_. 0, None, [])"
  by (simp_all add: sub_after_def)

text \<open>Readers that record in the world what they gave.\<close>

definition traced :: "'w reader_ops \<Rightarrow> ('w \<times> sub_ev list) reader_ops" where
  "traced rops = \<lparr>
     op_read = (\<lambda>p (w, evs). do { (v, w') \<leftarrow> op_read rops p w;
        Some (v, (w', case v of None \<Rightarrow> evs | Some m \<Rightarrow> evs @ [EvGot m])) }),
     op_check_read = (\<lambda>p (w, evs). do { (ok, w') \<leftarrow> op_check_read rops p w; Some (ok, (w', evs)) }),
     op_rterminate = (\<lambda>p (w, evs). do { w' \<leftarrow> op_rterminate rops p w; Some (w', evs) }),
     op_rset_sink = (\<lambda>p (w, evs). do { w' \<leftarrow> op_rset_sink rops p w; Some (w', evs) })\<rparr>"

text \<open>
  A program that uses the socket, with the parts it received. It subscribes to no prefix \<open>2\<^sup>3\<^sup>2\<close> times: the
  counters of the trie have 32 bits.
\<close>

inductive sub_run :: "'w reader_ops \<Rightarrow> fq_t \<Rightarrow> 'w \<Rightarrow> msg list \<Rightarrow> xsub_t \<Rightarrow> 'w \<times> sub_ev list \<Rightarrow> bool"
  for rops and fq0 and w0 where
  sub_start: "sub_run rops fq0 w0 [] (xsub_new\<lparr>xs_fq := fq0\<rparr>) (w0, [])"
| sub_subscribe: "sub_run rops fq0 w0 vs x (w, evs) \<Longrightarrow> sub_xsetsockopt SUBSCRIBE p x = Some (r, x') \<Longrightarrow>
    Suc (fst (sub_after evs) p) < 2 ^ 32 \<Longrightarrow> sub_run rops fq0 w0 vs x' (w, evs @ [EvSub p])"
| sub_unsubscribe: "sub_run rops fq0 w0 vs x (w, evs) \<Longrightarrow> sub_xsetsockopt UNSUBSCRIBE p x = Some (r, x') \<Longrightarrow>
    sub_run rops fq0 w0 vs x' (w, evs @ [EvUnsub p])"
| sub_received: "sub_run rops fq0 w0 vs x w \<Longrightarrow> xsub_xrecv (traced rops) x w = Some (r, v, x', w') \<Longrightarrow>
    sub_run rops fq0 w0 (case v of None \<Rightarrow> vs | Some m \<Rightarrow> vs @ [m]) x' w'"
| sub_polled: "sub_run rops fq0 w0 vs x w \<Longrightarrow> xsub_xhas_in (traced rops) x w = Some (ok, x', w') \<Longrightarrow>
    sub_run rops fq0 w0 vs x' w'"

lemma fq_loop_traced:
  "fq_loop (traced rops) n fq (w, evs) = Some (v, fq', (w', evs')) \<Longrightarrow>
   evs' = (case v of None \<Rightarrow> evs | Some (p, m) \<Rightarrow> evs @ [EvGot m])"
proof (induction n arbitrary: fq w evs)
  case (Suc n)
  obtain p v0 w1 where p: "arr_at (fq_pipes fq) (fq_current fq) = Some p" "op_read rops p w = Some (v0, w1)"
    using Suc.prems by (auto simp: traced_def split: bind_splits)
  show ?case
  proof (cases v0)
    case None
    then obtain fq1 where "fq_loop (traced rops) n fq1 (w1, evs) = Some (v, fq', (w', evs'))"
      using Suc.prems p by (auto simp: traced_def split: bind_splits)
    then show ?thesis by (rule Suc.IH)
  next
    case (Some m)
    then show ?thesis using Suc.prems p by (auto simp: traced_def split: if_splits bind_splits)
  qed
qed simp

lemma fq_recv_traced:
  "fq_recv (traced rops) fq (w, evs) = Some (r, v, fq', (w', evs')) \<Longrightarrow>
   evs' = (case v of None \<Rightarrow> evs | Some (p, m) \<Rightarrow> evs @ [EvGot m])"
  by (auto simp: fq_recv_def split: bind_splits dest!: fq_loop_traced)

lemma skip_parts_traced:
  assumes "skip_parts (traced rops) m fq W = Some (fq', W')"
    and "sub_after (snd W) = (f, if has_more m then Some False else None, out)"
  shows "sub_after (snd W') = (f, None, out)"
  using assms
proof (induction "traced rops" m fq W "(fq', W')" rule: skip_parts.raw_induct[rotated, consumes 1])
  case (1 skip m fq W)
  obtain w evs where W: "W = (w, evs)" by (cases W)
  show ?case
  proof (cases "has_more m")
    case True
    obtain r p m' fq1 w1 evs1 where rv: "fq_recv (traced rops) fq W = Some (r, Some (p, m'), fq1, (w1, evs1))"
        "skip (traced rops) m' fq1 (w1, evs1) = Some (fq', W')"
      using 1(2) True by (auto split: bind_splits option.splits)
    have "evs1 = evs @ [EvGot m']" using fq_recv_traced rv(1) W by fastforce
    then have "sub_after evs1 = (f, if has_more m' then Some False else None, out)"
      using 1(3) True W by simp
    then show ?thesis using 1(1)[OF rv(2)] by simp
  qed (use 1 in auto)
qed

text \<open>The trie of a subscriber and the specified subscriptions.\<close>

definition trie_for :: "trie \<Rightarrow> (blob \<Rightarrow> nat) \<Rightarrow> bool" where
  "trie_for t f \<longleftrightarrow> trie_ok t \<and> (\<forall>p. unat (subs t p) = f p)"

lemma trie_for_match: "trie_for t f \<Longrightarrow> xsub_match m t = Some (matches f (body m))"
proof -
  assume t: "trie_for t f"
  then have "subs t p \<noteq> 0 \<longleftrightarrow> 0 < f p" for p
    by (metis gr0I less_irrefl trie_for_def unat_eq_zero)
  then show ?thesis
    using t trie_check_spec[of t "body m"] by (simp add: xsub_match_def matches_def trie_for_def)
qed

lemma trie_for_add:
  assumes "trie_for t f" "Suc (f p) < 2 ^ 32"
  obtains t' where "trie_add p t = Some t'" "trie_for t' (f(p := f p + 1))"
proof -
  have t: "trie_ok t" "\<And>q. unat (subs t q) = f q" using assms(1) by (auto simp: trie_for_def)
  then have inc: "unat (subs t p + 1) = f p + 1" using assms(2) by (simp add: unat_word_ariths)
  then have "subs t p + 1 \<noteq> 0" by auto
  then obtain t' where t': "trie_add p t = Some t'" "trie_ok t'" "subs t' = (subs t)(p := subs t p + 1)"
    using trie_add_spec[OF t(1)] by blast
  then show ?thesis using that[OF t'(1)] inc t(2) by (simp add: trie_for_def)
qed

lemma trie_for_rm:
  assumes "trie_for t f"
  obtains b t' where "trie_rm p t = Some (b, t')" "trie_for t' (f(p := f p - 1))"
proof -
  have t: "trie_ok t" "\<And>q. unat (subs t q) = f q" using assms by (auto simp: trie_for_def)
  obtain t' where t': "trie_rm p t = Some (subs t p \<noteq> 0, t')" "trie_ok t'"
      "subs t' = (if subs t p = 0 then subs t else (subs t)(p := subs t p - 1))"
    using trie_rm_spec[OF t(1)] by blast
  have "unat (subs t' q) = (f(p := f p - 1)) q" for q
    using t'(3) t(2)[of q] t(2)[of p] by (auto simp: unat_minus_one)
  then show ?thesis using that[OF t'(1)] t'(2) by (simp add: trie_for_def)
qed

lemma next_match_traced:
  assumes "next_match (traced rops) inside t fq W = Some (v, fq', W')"
    and "trie_for t f" and "sub_after (snd W) = (f, if inside then Some True else None, out)"
  shows "sub_after (snd W') =
    (f, case v of None \<Rightarrow> if inside then Some True else None | Some m \<Rightarrow> if has_more m then Some True else None,
     out @ (case v of None \<Rightarrow> [] | Some m \<Rightarrow> [m]))"
  using assms
proof (induction "traced rops" inside t fq W "(v, fq', W')" rule: next_match.raw_induct[rotated, consumes 1])
  case (1 loop inside t fq W)
  obtain w evs where W: "W = (w, evs)" by (cases W)
  obtain r u fq1 w1 evs1 where rv: "fq_recv (traced rops) fq W = Some (r, u, fq1, (w1, evs1))"
    using 1(2) by (auto split: bind_splits)
  have evs1: "evs1 = (case u of None \<Rightarrow> evs | Some (p, m) \<Rightarrow> evs @ [EvGot m])"
    using fq_recv_traced[OF rv[unfolded W]] .
  show ?case
  proof (cases u)
    case None
    then show ?thesis using 1(2,4) rv evs1 W by auto
  next
    case (Some pm)
    obtain p m where pm: "pm = (p, m)" by (cases pm)
    show ?thesis
    proof (cases "inside \<or> matches f (body m)")
      case True
      then have "v = Some m" "W' = (w1, evs1)"
        using 1(2) rv Some pm trie_for_match[OF 1(3)] by (auto split: if_splits bind_splits)
      then show ?thesis using True 1(4) evs1 Some pm W by (cases inside) simp_all
    next
      case False
      then obtain fq2 W2 where sk: "skip_parts (traced rops) m fq1 (w1, evs1) = Some (fq2, W2)"
          "loop (traced rops) inside t fq2 W2 = Some (v, fq', W')"
        using 1(2) rv Some pm trie_for_match[OF 1(3)] by (auto split: bind_splits)
      have "sub_after evs1 = (f, if has_more m then Some False else None, out)"
        using False 1(4) evs1 Some pm W by simp
      from skip_parts_traced[OF sk(1)] this have "sub_after (snd W2) = (f, None, out)" by simp
      then show ?thesis using 1(1)[OF sk(2) 1(3)] False by simp
    qed
  qed
qed

definition sub_inv :: "msg list \<Rightarrow> xsub_t \<Rightarrow> sub_ev list \<Rightarrow> bool" where
  "sub_inv vs x evs \<longleftrightarrow> (\<exists>f. trie_for (xs_subs x) f \<and>
     (if xs_has_message x
      then \<not> xs_more x \<and>
        sub_after evs = (f, if has_more (xs_message x) then Some True else None, vs @ [xs_message x])
      else sub_after evs = (f, if xs_more x then Some True else None, vs)))"

lemma sub_inv_recv:
  assumes "sub_inv vs x (snd W)" "xsub_xrecv (traced rops) x W = Some (r, v, x', W')"
  shows "sub_inv (case v of None \<Rightarrow> vs | Some m \<Rightarrow> vs @ [m]) x' (snd W')"
proof (cases "xs_has_message x")
  case True
  then show ?thesis using assms by (auto simp: xsub_xrecv_def sub_inv_def)
next
  case False
  obtain f where f: "trie_for (xs_subs x) f" "sub_after (snd W) = (f, if xs_more x then Some True else None, vs)"
    using assms(1) False by (auto simp: sub_inv_def)
  obtain u fq' W1 where n: "next_match (traced rops) (xs_more x) (xs_subs x) (xs_fq x) W = Some (u, fq', W1)"
    using assms(2) False by (auto simp: xsub_xrecv_def split: bind_splits)
  note after = next_match_traced[OF n f]
  show ?thesis using assms(2) False n after f(1)
    by (cases u) (auto simp: xsub_xrecv_def sub_inv_def)
qed

lemma sub_inv_poll:
  assumes "sub_inv vs x (snd W)" "xsub_xhas_in (traced rops) x W = Some (ok, x', W')"
  shows "sub_inv vs x' (snd W')"
proof (cases "xs_more x \<or> xs_has_message x")
  case True
  then show ?thesis using assms by (auto simp: xsub_xhas_in_def split: if_splits)
next
  case False
  obtain f where f: "trie_for (xs_subs x) f" "sub_after (snd W) = (f, if False then Some True else None, vs)"
    using assms(1) False by (auto simp: sub_inv_def)
  obtain u fq' W1 where n: "next_match (traced rops) False (xs_subs x) (xs_fq x) W = Some (u, fq', W1)"
    using assms(2) False by (auto simp: xsub_xhas_in_def split: bind_splits)
  note after = next_match_traced[OF n f]
  show ?thesis using assms(2) False n after f(1)
    by (cases u) (auto simp: xsub_xhas_in_def sub_inv_def)
qed

lemma sub_inv_setsockopt:
  assumes "sub_inv vs x evs" "sub_xsetsockopt o' p x = Some (r, x')"
    and "o' = SUBSCRIBE \<and> e = EvSub p \<and> Suc (fst (sub_after evs) p) < 2 ^ 32 \<or> o' = UNSUBSCRIBE \<and> e = EvUnsub p"
  shows "sub_inv vs x' (evs @ [e])"
proof -
  obtain f where f: "trie_for (xs_subs x) f" "fst (sub_after evs) = f"
    using assms(1) by (auto simp: sub_inv_def split: if_splits)
  show ?thesis
  proof (cases "o' = SUBSCRIBE")
    case True
    then obtain t' where "trie_add p (xs_subs x) = Some t'" "trie_for t' (f(p := f p + 1))" "e = EvSub p"
      using trie_for_add[OF f(1)] f(2) assms(3) by auto
    then show ?thesis using assms(1,2) f True
      by (auto simp: sub_xsetsockopt_def xsub_xsend_def sub_inv_def split: if_splits)
  next
    case False
    then obtain b t' where "trie_rm p (xs_subs x) = Some (b, t')" "trie_for t' (f(p := f p - 1))"
        "e = EvUnsub p" "o' = UNSUBSCRIBE"
      using trie_for_rm[OF f(1)] assms(3) by metis
    then show ?thesis using assms(1,2) f False
      by (auto simp: sub_xsetsockopt_def xsub_xsend_def sub_inv_def split: if_splits)
  qed
qed

lemma sub_run_inv: "sub_run rops fq0 w0 vs x W \<Longrightarrow> sub_inv vs x (snd W)"
proof (induction rule: sub_run.induct)
  case sub_start
  then show ?case using trie_new_ok by (simp add: sub_inv_def xsub_new_def trie_for_def)
next
  case (sub_subscribe vs x w evs p r x')
  then show ?case using sub_inv_setsockopt[of vs x evs SUBSCRIBE p r x'] by simp
next
  case (sub_unsubscribe vs x w evs p r x')
  then show ?case using sub_inv_setsockopt[of vs x evs UNSUBSCRIBE p r x'] by simp
next
  case (sub_received vs x w r v x' w')
  show ?case using sub_received.IH sub_received.hyps(2) by (rule sub_inv_recv)
next
  case (sub_polled vs x w ok x' w')
  show ?case using sub_polled.IH sub_polled.hyps(2) by (rule sub_inv_poll)
qed

section \<open>The loops end\<close>

text \<open>The fair queue of a subscriber over pipes that hold \<open>F p\<close>; \<open>left\<close> is the number of parts.\<close>

definition stream_fq :: "fq_t \<Rightarrow> pipe_world \<Rightarrow> (nat \<Rightarrow> msg list) \<Rightarrow> bool" where
  "stream_fq fq w F \<longleftrightarrow> fq_good fq w \<and> (\<forall>p \<in> set (fq_items fq). conn_stream (conns w p) (F p))"

lemma stream_fq_feeds: "stream_fq fq w F \<longleftrightarrow> pf.fq_feeds fq w F"
  by (simp add: stream_fq_def pf.fq_feeds_def fq_good_inv)

definition left :: "nat set \<Rightarrow> (nat \<Rightarrow> msg list) \<Rightarrow> nat" where
  "left S F = (\<Sum>p\<in>S. length (F p))"

lemma left_take: "finite S \<Longrightarrow> p \<in> S \<Longrightarrow> F p = m # ms \<Longrightarrow> left S F = Suc (left S (F(p := ms)))"
  by (simp add: left_def sum.remove[of S p])

lemma skip_parts_ends:
  "stream_fq fq w F \<Longrightarrow> set (fq_items fq) = S \<Longrightarrow> has_more m \<Longrightarrow> \<exists>p \<in> S. F p \<noteq> [] \<Longrightarrow>
   \<exists>fq' w' F'. skip_parts pipe_reader_ops m fq w = Some (fq', w') \<and> stream_fq fq' w' F' \<and>
     set (fq_items fq') = S \<and> left S F' < left S F"
proof (induction "left S F" arbitrary: m fq w F rule: less_induct)
  case less
  have "finite S" using less.prems(2) by auto
  from less.prems(1) have "pf.fq_feeds fq w F" by (simp add: stream_fq_feeds)
  then show ?case
  proof (cases rule: pf.fq_recv_feeds)
    case (empty fq' w')
    then show ?thesis using less.prems(2,4) by auto
  next
    case (part p m' ms fq' w')
    let ?F = "F(p := ms)"
    have lt: "left S F = Suc (left S ?F)" using left_take[OF \<open>finite S\<close>, of p F] part(2,3) less.prems(2) by simp
    have st: "stream_fq fq' w' ?F" "set (fq_items fq') = S" using part(4,5) less.prems(2) by (simp_all add: stream_fq_feeds)
    have eq: "skip_parts pipe_reader_ops m fq w = skip_parts pipe_reader_ops m' fq' w'"
      using part(1) less.prems(3) by (simp add: skip_parts.simps[of _ m])
    show ?thesis
    proof (cases "has_more m'")
      case True
      then have "\<exists>p \<in> S. ?F p \<noteq> []" using part(3,6) less.prems(2) by auto
      then obtain fq2 w2 F2 where "skip_parts pipe_reader_ops m' fq' w' = Some (fq2, w2)" "stream_fq fq2 w2 F2"
          "set (fq_items fq2) = S" "left S F2 < left S ?F"
        using less.hyps[of ?F fq' w' m'] lt st True by auto
      then show ?thesis using eq lt by (intro exI[of _ fq2] exI[of _ w2] exI[of _ F2]) simp
    next
      case False
      then have "skip_parts pipe_reader_ops m' fq' w' = Some (fq', w')" by (simp add: skip_parts.simps)
      then show ?thesis using eq st lt by (intro exI[of _ fq'] exI[of _ w'] exI[of _ ?F]) simp
    qed
  qed
qed

lemma next_match_ends:
  "stream_fq fq w F \<Longrightarrow> set (fq_items fq) = S \<Longrightarrow> trie_ok t \<Longrightarrow>
   \<exists>v fq' w' F'. next_match pipe_reader_ops inside t fq w = Some (v, fq', w') \<and> stream_fq fq' w' F' \<and>
     set (fq_items fq') = S \<and> (v = None \<longrightarrow> (\<forall>p \<in> S. F' p = [])) \<and> left S F' \<le> left S F \<and>
     (v \<noteq> None \<longrightarrow> left S F' < left S F)"
proof (induction "left S F" arbitrary: fq w F rule: less_induct)
  case less
  have "finite S" using less.prems(2) by auto
  from less.prems(1) have "pf.fq_feeds fq w F" by (simp add: stream_fq_feeds)
  then show ?case
  proof (cases rule: pf.fq_recv_feeds)
    case (empty fq' w')
    then have "next_match pipe_reader_ops inside t fq w = Some (None, fq', w')" by (simp add: next_match.simps)
    then show ?thesis using empty less.prems(2)
      by (intro exI[of _ None] exI[of _ fq'] exI[of _ w'] exI[of _ F]) (simp add: stream_fq_feeds)
  next
    case (part p m ms fq' w')
    let ?F = "F(p := ms)"
    have lt: "left S F = Suc (left S ?F)" using left_take[OF \<open>finite S\<close>, of p F] part(2,3) less.prems(2) by simp
    have st: "stream_fq fq' w' ?F" "set (fq_items fq') = S" using part(4,5) less.prems(2) by (simp_all add: stream_fq_feeds)
    obtain b where b: "xsub_match m t = Some b" using trie_check_spec[OF less.prems(3)] by (simp add: xsub_match_def)
    show ?thesis
    proof (cases "inside \<or> b")
      case True
      then have "next_match pipe_reader_ops inside t fq w = Some (Some m, fq', w')"
        using part(1) b by (auto simp: next_match.simps)
      then show ?thesis using st lt
        by (intro exI[of _ "Some m"] exI[of _ fq'] exI[of _ w'] exI[of _ ?F]) simp
    next
      case False
      obtain fq2 w2 F2 where sk: "skip_parts pipe_reader_ops m fq' w' = Some (fq2, w2)" "stream_fq fq2 w2 F2"
          "set (fq_items fq2) = S" "left S F2 \<le> left S ?F"
      proof (cases "has_more m")
        case True
        then have "\<exists>p \<in> S. ?F p \<noteq> []" using part(3,6) less.prems(2) by auto
        then show ?thesis using skip_parts_ends[OF st True] that by (metis less_imp_le_nat)
      next
        case False
        then have "skip_parts pipe_reader_ops m fq' w' = Some (fq', w')" by (simp add: skip_parts.simps)
        then show ?thesis using that[of fq' w' ?F] st by simp
      qed
      then have eq: "next_match pipe_reader_ops inside t fq w = next_match pipe_reader_ops inside t fq2 w2"
        using part(1) b False by (subst next_match.simps) simp
      have "left S F2 < left S F" using lt sk(4) by simp
      from less.hyps[OF this sk(2,3) less.prems(3)] obtain v fq3 w3 F3 where
        "next_match pipe_reader_ops inside t fq2 w2 = Some (v, fq3, w3)" "stream_fq fq3 w3 F3"
        "set (fq_items fq3) = S" "v = None \<longrightarrow> (\<forall>p \<in> S. F3 p = [])" "left S F3 \<le> left S F2"
        by (elim exE conjE) (rule that)
      then show ?thesis using eq lt sk(4)
        by (intro exI[of _ v] exI[of _ fq3] exI[of _ w3] exI[of _ F3]) simp
    qed
  qed
qed

section \<open>Properties\<close>

text \<open>C37: A subscriber delivers the messages that match, whole and in order. However a SUB socket is used (any
  sequence of subscriptions, unsubscriptions, receptions and polls, in any state of the pipes), the parts it delivered,
  and the one that a poll has put aside, are exactly those that the specification selects from what the fair queue
  gave: all parts of every message whose first part matched a subscription when it was taken, and no other.\<close>

theorem sub_delivers_matching:
  assumes "sub_run rops fq0 w0 vs x (w, evs)"
  shows "vs @ (if xs_has_message x then [xs_message x] else []) = sub_delivers evs"
  using sub_run_inv[OF assms] by (auto simp: sub_inv_def sub_delivers_def split: if_splits)

text \<open>A fair queue with one pipe, whose reader gives the messages of a list.\<close>

definition list_rops :: "msg list reader_ops" where
  "list_rops = \<lparr>
     op_read = (\<lambda>p ms. Some (case ms of [] \<Rightarrow> (None, []) | m # ms' \<Rightarrow> (Some m, ms'))),
     op_check_read = (\<lambda>p ms. Some (ms \<noteq> [], ms)), op_rterminate = (\<lambda>p ms. Some ms), op_rset_sink = (\<lambda>p ms. Some ms)\<rparr>"

lemma demo_sub_run:
  "\<exists>x w. sub_run list_rops demo_fq [empty_msg\<lparr>body := [9]\<rparr>, demo_parts ! 0] [demo_parts ! 0] x
     (w, [EvSub [7], EvGot (empty_msg\<lparr>body := [9]\<rparr>), EvGot (demo_parts ! 0)]) \<and> \<not> xs_has_message x"
proof -
  let ?m0 = "empty_msg\<lparr>body := [9]\<rparr>" and ?m1 = "demo_parts ! 0" and ?f = "(\<lambda>_. 0)([7] := 1)"
  let ?x0 = "xsub_new\<lparr>xs_fq := demo_fq\<rparr>"
  have "trie_for trie_new (\<lambda>_. 0)" using trie_new_ok by (simp add: trie_for_def)
  then obtain t where t: "trie_add [7] trie_new = Some t" "trie_for t ?f"
    using trie_for_add[of trie_new "\<lambda>_. 0" "[7]"] by auto
  have sub: "sub_xsetsockopt SUBSCRIBE [7] ?x0 = Some (OK, ?x0\<lparr>xs_subs := t\<rparr>)"
    using t(1) by (simp add: sub_xsetsockopt_def xsub_xsend_def xsub_new_def)
  have run1: "sub_run list_rops demo_fq [?m0, ?m1] [] (?x0\<lparr>xs_subs := t\<rparr>) ([?m0, ?m1], [EvSub [7]])"
    using sub_subscribe[OF sub_start sub] by simp
  have more: "\<not> has_more ?m0" "has_more ?m1" "body ?m1 = [7]"
    by (simp_all add: demo_parts_def has_more_def empty_msg_def ZMQ_MSG_MORE_def ZMQ_MSG_MASK_def)
  have mf: "\<not> matches ?f [9]" "matches ?f [7]"
  proof -
    have "take k [9] \<noteq> [7 :: byte]" for k by (cases k) simp_all
    then show "\<not> matches ?f [9]" by (simp add: matches_def)
    show "matches ?f [7]" unfolding matches_def by (rule exI[of _ 1]) simp
  qed
  have m: "xsub_match ?m0 t = Some False" "xsub_match ?m1 t = Some True"
    using trie_for_match[OF t(2), of ?m0] trie_for_match[OF t(2), of ?m1] more(3) mf by simp_all
  have "xsub_xrecv (traced list_rops) (?x0\<lparr>xs_subs := t\<rparr>) ([?m0, ?m1], [EvSub [7]]) =
      Some (OK, Some ?m1, ?x0\<lparr>xs_subs := t, xs_fq := demo_fq\<lparr>fq_more := True\<rparr>, xs_more := True\<rparr>,
        ([], [EvSub [7], EvGot ?m0, EvGot ?m1]))"
    using m more by (simp add: xsub_xrecv_def next_match.simps skip_parts.simps fq_recv_def traced_def list_rops_def
        xsub_new_def demo_fq_def arr_at_def arr_new_def numeral_2_eq_2)
  from sub_received[OF run1 this] show ?thesis
    by (intro exI conjI) (auto simp: xsub_new_def)
qed

theorem sub_delivers_matching_witness:
  "sub_delivers [EvSub [7], EvGot (empty_msg\<lparr>body := [9]\<rparr>), EvGot (demo_parts ! 0)] = [demo_parts ! 0]"
  using demo_sub_run sub_delivers_matching by fastforce



end
