(* ===== verification/Own.thy ===== *)
theory Own
  imports Atomics
begin

text \<open>
  \<^verbatim>\<open>src/own.hpp\<close>, \<^verbatim>\<open>src/own.cpp\<close> and the commands of \<^verbatim>\<open>src/object.cpp\<close> they use: the tree of objects that own
  each other, and its shutdown. An object is a number (its address). An operation returns the new object and, in the
  order of the code, what it does to others: it counts a command in the sequence number of its destination (which may
  happen in another thread), sends a command, or deallocates itself. \<open>None\<close> is a failed assertion or a null
  owner.
\<close>

datatype own_cmd = CPlug | COwn nat | CTermReq nat | CTerm int | CTermAck

datatype own_act = IncSeq nat | Post nat own_cmd | DeleteThis nat

record own_t =
  own_tid :: nat
  own_linger :: int
  own_terminating :: bool
  own_sent :: u32
  own_processed :: u64
  own_owner :: "nat option"
  own_owned :: "nat set"
  own_acks :: int

definition own_new :: "nat \<Rightarrow> int \<Rightarrow> own_t" where
  "own_new tid lngr = \<lparr>own_tid = tid, own_linger = lngr, own_terminating = False, own_sent = 0, own_processed = 0,
     own_owner = None, own_owned = {}, own_acks = 0\<rparr>"

definition own_set_owner :: "nat \<Rightarrow> own_t \<Rightarrow> own_t option" where
  "own_set_owner p ob = do { zmq_assert (own_owner ob = None); Some (ob\<lparr>own_owner := Some p\<rparr>) }"

definition own_inc_seqnum :: "own_t \<Rightarrow> own_t" where
  "own_inc_seqnum ob = ob\<lparr>own_sent := snd (atomic_counter_add (own_sent ob) 1)\<rparr>"

section \<open>Sending commands\<close>

definition send_plug :: "nat \<Rightarrow> own_act list" where
  "send_plug c = [IncSeq c, Post c CPlug]"

definition send_own :: "nat \<Rightarrow> nat \<Rightarrow> own_act list" where
  "send_own dest c = [IncSeq dest, Post dest (COwn c)]"

definition send_term_req :: "nat \<Rightarrow> nat \<Rightarrow> own_act list" where
  "send_term_req dest c = [Post dest (CTermReq c)]"

definition send_term :: "nat \<Rightarrow> int \<Rightarrow> own_act list" where
  "send_term dest lngr = [Post dest (CTerm lngr)]"

definition send_term_ack :: "nat \<Rightarrow> own_act list" where
  "send_term_ack dest = [Post dest CTermAck]"

section \<open>The operations\<close>

text \<open>\<open>self\<close> is the address of the object itself.\<close>

definition own_process_destroy :: "nat \<Rightarrow> own_act list" where
  "own_process_destroy self = [DeleteThis self]"

definition own_check_term_acks :: "nat \<Rightarrow> own_t \<Rightarrow> own_act list option" where
  "own_check_term_acks self ob =
     (if own_terminating ob \<and> own_processed ob = ucast (atomic_counter_get (own_sent ob)) \<and> own_acks ob = 0
      then do {
        zmq_assert (own_owned ob = {});
        Some ((case own_owner ob of Some p \<Rightarrow> send_term_ack p | None \<Rightarrow> []) @ own_process_destroy self)
      }
      else Some [])"

definition own_process_seqnum :: "nat \<Rightarrow> own_t \<Rightarrow> (own_t \<times> own_act list) option" where
  "own_process_seqnum self ob = do {
     let ob' = ob\<lparr>own_processed := own_processed ob + 1\<rparr>;
     acts \<leftarrow> own_check_term_acks self ob';
     Some (ob', acts)
   }"

definition own_register_term_acks :: "int \<Rightarrow> own_t \<Rightarrow> own_t" where
  "own_register_term_acks n ob = ob\<lparr>own_acks := own_acks ob + n\<rparr>"

definition own_unregister_term_ack :: "nat \<Rightarrow> own_t \<Rightarrow> (own_t \<times> own_act list) option" where
  "own_unregister_term_ack self ob = do {
     zmq_assert (own_acks ob > 0);
     let ob' = ob\<lparr>own_acks := own_acks ob - 1\<rparr>;
     acts \<leftarrow> own_check_term_acks self ob';
     Some (ob', acts)
   }"

definition own_process_term_ack :: "nat \<Rightarrow> own_t \<Rightarrow> (own_t \<times> own_act list) option" where
  "own_process_term_ack self ob = own_unregister_term_ack self ob"

text \<open>Launching: the launched object and what the launcher does.\<close>

definition own_launch_child :: "nat \<Rightarrow> nat \<Rightarrow> own_t \<Rightarrow> (own_t \<times> own_act list) option" where
  "own_launch_child self c child = do {
     child' \<leftarrow> own_set_owner self child;
     Some (child', send_plug c @ send_own self c)
   }"

definition own_launch_sibling :: "own_t \<Rightarrow> nat \<Rightarrow> own_t \<Rightarrow> (own_t \<times> own_act list) option" where
  "own_launch_sibling ob c sibling = do {
     p \<leftarrow> own_owner ob;
     sibling' \<leftarrow> own_set_owner p sibling;
     Some (sibling', send_plug c @ send_own p c)
   }"

definition own_process_term_req :: "nat \<Rightarrow> own_t \<Rightarrow> own_t \<times> own_act list" where
  "own_process_term_req c ob =
     (if own_terminating ob then (ob, [])
      else if c \<notin> own_owned ob then (ob, [])
      else (own_register_term_acks 1 (ob\<lparr>own_owned := own_owned ob - {c}\<rparr>), send_term c (own_linger ob)))"

definition own_process_own :: "nat \<Rightarrow> own_t \<Rightarrow> own_t \<times> own_act list" where
  "own_process_own c ob =
     (if own_terminating ob then (own_register_term_acks 1 ob, send_term c 0)
      else (ob\<lparr>own_owned := insert c (own_owned ob)\<rparr>, []))"

definition own_process_term :: "nat \<Rightarrow> int \<Rightarrow> own_t \<Rightarrow> (own_t \<times> own_act list) option" where
  "own_process_term self lngr ob = do {
     zmq_assert (\<not> own_terminating ob);
     let children = sorted_list_of_set (own_owned ob);
     let ob' = (own_register_term_acks (int (length children)) ob)\<lparr>own_owned := {}, own_terminating := True\<rparr>;
     acts \<leftarrow> own_check_term_acks self ob';
     Some (ob', concat (map (\<lambda>c. send_term c lngr) children) @ acts)
   }"

definition own_terminate :: "nat \<Rightarrow> own_t \<Rightarrow> (own_t \<times> own_act list) option" where
  "own_terminate self ob =
     (if own_terminating ob then Some (ob, [])
      else case own_owner ob of
          None \<Rightarrow> own_process_term self (own_linger ob) ob
        | Some p \<Rightarrow> Some (ob, send_term_req p self))"

text \<open>The dispatch of a command; what a derived class does when it is plugged is not part of this component.\<close>

fun own_process_command :: "nat \<Rightarrow> own_cmd \<Rightarrow> own_t \<Rightarrow> (own_t \<times> own_act list) option" where
  "own_process_command self CPlug ob = own_process_seqnum self ob"
| "own_process_command self (COwn c) ob = do {
     let (ob1, acts1) = own_process_own c ob;
     (ob2, acts2) \<leftarrow> own_process_seqnum self ob1;
     Some (ob2, acts1 @ acts2)
   }"
| "own_process_command self (CTermReq c) ob = Some (own_process_term_req c ob)"
| "own_process_command self (CTerm lngr) ob = own_process_term self lngr ob"
| "own_process_command self CTermAck ob = own_process_term_ack self ob"

lemma u32_less: "unat (v :: u32) < 4294967296"
proof -
  have "unat v < 2 ^ LENGTH(32)" by (rule unsigned_less)
  then show ?thesis by simp
qed

lemma unat_ucast64: "unat (ucast (v :: u32) :: u64) = unat v"
  using u32_less[of v] by (simp add: unsigned_ucast_eq take_bit_nat_eq_self_iff)

text \<open>The counter of sent commands has 32 bits and the one of processed commands 64: after \<open>2\<^sup>3\<^sup>2\<close> commands they
  never agree again, and the object is never deallocated.\<close>

lemma own_counters_diverge:
  assumes "own_processed ob \<ge> 2 ^ 32"
  shows "own_check_term_acks self ob = Some []"
proof -
  have "unat (ucast (own_sent ob) :: u64) < 4294967296" using u32_less by (simp add: unat_ucast64)
  moreover have "4294967296 \<le> unat (own_processed ob)" using assms by (simp add: word_le_nat_alt)
  ultimately have "own_processed ob \<noteq> ucast (own_sent ob)" by auto
  then show ?thesis by (simp add: own_check_term_acks_def atomic_counter_get_def)
qed

end
