(* ===== verification/OwnTree.thy ===== *)
theory OwnTree
  imports Own "HOL-Library.Multiset"
begin

text \<open>
  The objects of a process, their threads and the commands between them. A thread has a mailbox, which keeps the
  order of the commands that are put into it, and runs one handler at a time: what the handler does to others is
  done step by step, and the steps of different threads interleave in any order. A command is sent by reading the
  thread of its destination, so sending to, counting for or running a deallocated object is an invalid access.
\<close>

record tree =
  objs :: "nat \<Rightarrow> own_t option"
  mail :: "nat \<Rightarrow> (nat \<times> own_cmd) list"
  outbox :: "nat \<Rightarrow> own_act list"
  awaited :: "nat \<Rightarrow> nat"
  fresh :: nat

text \<open>The events. \<open>AwaitAck\<close> and \<open>AckArrives\<close> are the acknowledgements of pipes.\<close>

datatype own_ev =
  Perform nat | Deliver nat | NewRoot nat int | LaunchChild nat nat int | LaunchSibling nat nat int
  | Terminate nat | AwaitAck nat nat | AckArrives nat

definition tree_new :: tree where
  "tree_new = \<lparr>objs = (\<lambda>_. None), mail = (\<lambda>_. []), outbox = (\<lambda>_. []), awaited = (\<lambda>_. 0), fresh = 0\<rparr>"

fun perform :: "nat \<Rightarrow> own_act \<Rightarrow> tree \<Rightarrow> tree option" where
  "perform t (IncSeq j) s = do { ob \<leftarrow> objs s j; Some (s\<lparr>objs := (objs s)(j \<mapsto> own_inc_seqnum ob)\<rparr>) }"
| "perform t (Post j c) s = do {
     ob \<leftarrow> objs s j;
     Some (s\<lparr>mail := (mail s)(own_tid ob := mail s (own_tid ob) @ [(j, c)])\<rparr>)
   }"
| "perform t (DeleteThis j) s = do { _ \<leftarrow> objs s j; Some (s\<lparr>objs := (objs s)(j := None)\<rparr>) }"

text \<open>The object \<open>i\<close> runs \<open>f\<close> in its thread.\<close>

definition run_at :: "nat \<Rightarrow> (own_t \<Rightarrow> (own_t \<times> own_act list) option) \<Rightarrow> tree \<Rightarrow> tree option" where
  "run_at i f s = do {
     ob \<leftarrow> objs s i;
     (ob', acts) \<leftarrow> f ob;
     Some (s\<lparr>objs := (objs s)(i \<mapsto> ob'), outbox := (outbox s)(own_tid ob := acts)\<rparr>)
   }"

definition launch :: "nat \<Rightarrow> (nat \<Rightarrow> own_t \<Rightarrow> own_t \<Rightarrow> (own_t \<times> own_act list) option) \<Rightarrow> own_t \<Rightarrow> tree \<Rightarrow> tree option" where
  "launch i f child s = do {
     ob \<leftarrow> objs s i;
     (child', acts) \<leftarrow> f (fresh s) ob child;
     Some (s\<lparr>objs := (objs s)(fresh s \<mapsto> child'), outbox := (outbox s)(own_tid ob := acts),
             awaited := (awaited s)(fresh s := 0), fresh := fresh s + 1\<rparr>)
   }"

fun own_exec :: "own_ev \<Rightarrow> tree \<Rightarrow> tree option" where
  "own_exec (Perform t) s =
     (case outbox s t of [] \<Rightarrow> Some s | a # as \<Rightarrow> perform t a (s\<lparr>outbox := (outbox s)(t := as)\<rparr>))"
| "own_exec (Deliver t) s =
     (case mail s t of [] \<Rightarrow> Some s
      | (j, c) # ms \<Rightarrow> run_at j (own_process_command j c) (s\<lparr>mail := (mail s)(t := ms)\<rparr>))"
| "own_exec (NewRoot t lngr) s =
     Some (s\<lparr>objs := (objs s)(fresh s \<mapsto> own_new t lngr), awaited := (awaited s)(fresh s := 0), fresh := fresh s + 1\<rparr>)"
| "own_exec (LaunchChild i t lngr) s = launch i (\<lambda>c ob child. own_launch_child i c child) (own_new t lngr) s"
| "own_exec (LaunchSibling i t lngr) s = launch i (\<lambda>c ob child. own_launch_sibling ob c child) (own_new t lngr) s"
| "own_exec (Terminate i) s = run_at i (own_terminate i) s"
| "own_exec (AwaitAck i n) s =
     run_at i (\<lambda>ob. Some (own_register_term_acks (int n) ob, [])) (s\<lparr>awaited := (awaited s)(i := awaited s i + n)\<rparr>)"
| "own_exec (AckArrives i) s =
     run_at i (own_unregister_term_ack i) (s\<lparr>awaited := (awaited s)(i := awaited s i - 1)\<rparr>)"

text \<open>
  When an event can happen, for a process of \<open>N\<close> threads: a thread finishes what a handler does before it runs
  another one. The commands that are counted for an object are fewer than \<open>2\<^sup>3\<^sup>2\<close>.
\<close>

definition runnable :: "nat \<Rightarrow> tree \<Rightarrow> bool" where
  "runnable i s \<longleftrightarrow> (case objs s i of Some ob \<Rightarrow> outbox s (own_tid ob) = [] | None \<Rightarrow> False)"

fun own_enabled :: "nat \<Rightarrow> own_ev \<Rightarrow> tree \<Rightarrow> bool" where
  "own_enabled N (Perform t) s \<longleftrightarrow> t < N \<and> outbox s t \<noteq> [] \<and>
     (case hd (outbox s t) of
        IncSeq j \<Rightarrow> (case objs s j of Some ob \<Rightarrow> unat (own_sent ob) + 1 < 4294967296 | None \<Rightarrow> True)
      | _ \<Rightarrow> True)"
| "own_enabled N (Deliver t) s \<longleftrightarrow> t < N \<and> outbox s t = [] \<and> mail s t \<noteq> []"
| "own_enabled N (NewRoot t lngr) s \<longleftrightarrow> t < N"
| "own_enabled N (LaunchChild i t lngr) s \<longleftrightarrow> runnable i s \<and> t < N"
| "own_enabled N (LaunchSibling i t lngr) s \<longleftrightarrow> runnable i s \<and> t < N \<and> own_owner (the (objs s i)) \<noteq> None"
| "own_enabled N (Terminate i) s \<longleftrightarrow> runnable i s"
| "own_enabled N (AwaitAck i n) s \<longleftrightarrow> runnable i s"
| "own_enabled N (AckArrives i) s \<longleftrightarrow> runnable i s \<and> awaited s i > 0"

inductive own_reach :: "nat \<Rightarrow> tree \<Rightarrow> bool" for N where
  own_init: "own_reach N tree_new"
| own_step: "own_reach N s \<Longrightarrow> own_enabled N e s \<Longrightarrow> own_exec e s = Some s' \<Longrightarrow> own_reach N s'"

section \<open>Commands on their way\<close>

fun posts :: "own_act list \<Rightarrow> (nat \<times> own_cmd) list" where
  "posts [] = []"
| "posts (Post j c # as) = (j, c) # posts as"
| "posts (IncSeq j # as) = posts as"
| "posts (DeleteThis j # as) = posts as"

definition incs :: "nat \<Rightarrow> own_act list \<Rightarrow> nat" where
  "incs j as = count_list as (IncSeq j)"

definition flying :: "nat \<Rightarrow> tree \<Rightarrow> (nat \<times> own_cmd) multiset" where
  "flying N s = (\<Sum>t<N. mset (posts (outbox s t)) + mset (mail s t))"

definition pending_incs :: "nat \<Rightarrow> tree \<Rightarrow> nat \<Rightarrow> nat" where
  "pending_incs N s j = (\<Sum>t<N. incs j (outbox s t))"

lemma posts_append [simp]: "posts (xs @ ys) = posts xs @ posts ys"
  by (induction xs rule: posts.induct) simp_all

lemma in_posts: "(j, c) \<in> set (posts as) \<longleftrightarrow> Post j c \<in> set as"
  by (induction as rule: posts.induct) auto

lemma incs_simps [simp]:
  "incs j [] = 0" "incs j (IncSeq k # as) = (if k = j then 1 else 0) + incs j as"
  "incs j (Post k c # as) = incs j as" "incs j (DeleteThis k # as) = incs j as"
  "incs j (xs @ ys) = incs j xs + incs j ys"
  by (simp_all add: incs_def)

lemma incs_0: "incs j as = 0 \<longleftrightarrow> IncSeq j \<notin> set as"
  by (simp add: incs_def count_list_0_iff)

lemma sum_at:
  fixes g h :: "nat \<Rightarrow> 'a :: comm_monoid_add"
  assumes "t < N" "\<And>k. k \<noteq> t \<Longrightarrow> g k = h k"
  shows "(\<Sum>k<N. g k) + h t = (\<Sum>k<N. h k) + g t"
proof -
  have "(\<Sum>k<N. g k) = g t + (\<Sum>k\<in>{..<N} - {t}. g k)" "(\<Sum>k<N. h k) = h t + (\<Sum>k\<in>{..<N} - {t}. h k)"
    using assms(1) by (simp_all add: sum.remove)
  moreover have "(\<Sum>k\<in>{..<N} - {t}. g k) = (\<Sum>k\<in>{..<N} - {t}. h k)"
    using assms(2) by (intro sum.cong) auto
  ultimately show ?thesis by (simp add: ac_simps)
qed

lemma in_flying: "x \<in># flying N s \<longleftrightarrow> (\<exists>t<N. x \<in> set (posts (outbox s t)) \<or> x \<in> set (mail s t))"
  by (auto simp: flying_def set_mset_sum)

lemma pending_incs_0: "pending_incs N s j = 0 \<longleftrightarrow> (\<forall>t<N. IncSeq j \<notin> set (outbox s t))"
  by (auto simp: pending_incs_def incs_0)

text \<open>A change of the outbox and the mailbox of one thread.\<close>

lemma flying_at:
  assumes "t < N" "\<And>k. k \<noteq> t \<Longrightarrow> outbox s' k = outbox s k \<and> mail s' k = mail s k"
  shows "flying N s' + mset (posts (outbox s t)) + mset (mail s t) =
    flying N s + mset (posts (outbox s' t)) + mset (mail s' t)"
  using sum_at[of t N "\<lambda>k. mset (posts (outbox s' k)) + mset (mail s' k)" "\<lambda>k. mset (posts (outbox s k)) + mset (mail s k)"]
    assms by (simp add: flying_def ac_simps)

lemma pending_incs_at:
  assumes "t < N" "\<And>k. k \<noteq> t \<Longrightarrow> outbox s' k = outbox s k"
  shows "pending_incs N s' j + incs j (outbox s t) = pending_incs N s j + incs j (outbox s' t)"
  using sum_at[of t N "\<lambda>k. incs j (outbox s' k)" "\<lambda>k. incs j (outbox s k)"] assms by (simp add: pending_incs_def)

section \<open>The invariant\<close>

text \<open>An object is dying when its deallocation is all that is left to do in its thread.\<close>

definition dying :: "nat \<Rightarrow> tree \<Rightarrow> nat \<Rightarrow> bool" where
  "dying N s c \<longleftrightarrow> (\<exists>t<N. DeleteThis c \<in> set (outbox s t))"

definition live :: "nat \<Rightarrow> tree \<Rightarrow> nat \<Rightarrow> bool" where
  "live N s c \<longleftrightarrow> objs s c \<noteq> None \<and> \<not> dying N s c"

definition kid :: "nat \<Rightarrow> tree \<Rightarrow> nat \<Rightarrow> nat \<Rightarrow> bool" where
  "kid N s p c \<longleftrightarrow> live N s c \<and> own_owner (the (objs s c)) = Some p"

fun is_term :: "nat \<Rightarrow> nat \<times> own_cmd \<Rightarrow> bool" where
  "is_term c (j, CTerm _) \<longleftrightarrow> j = c"
| "is_term c _ \<longleftrightarrow> False"

fun is_counted :: "nat \<Rightarrow> nat \<times> own_cmd \<Rightarrow> bool" where
  "is_counted c (j, CPlug) \<longleftrightarrow> j = c"
| "is_counted c (j, COwn _) \<longleftrightarrow> j = c"
| "is_counted c _ \<longleftrightarrow> False"

text \<open>The number of commands on their way that satisfy a condition.\<close>

definition tally :: "(nat \<times> own_cmd \<Rightarrow> bool) \<Rightarrow> nat \<Rightarrow> tree \<Rightarrow> nat" where
  "tally P N s = size (filter_mset P (flying N s))"

abbreviation terms :: "nat \<Rightarrow> tree \<Rightarrow> nat \<Rightarrow> nat" where
  "terms N s c \<equiv> tally (is_term c) N s"

abbreviation counted :: "nat \<Rightarrow> tree \<Rightarrow> nat \<Rightarrow> nat" where
  "counted N s c \<equiv> tally (is_counted c) N s"

abbreviation owns :: "nat \<Rightarrow> tree \<Rightarrow> nat \<Rightarrow> nat \<Rightarrow> nat" where
  "owns N s p c \<equiv> tally ((=) (p, COwn c)) N s"

abbreviation acks :: "nat \<Rightarrow> tree \<Rightarrow> nat \<Rightarrow> nat" where
  "acks N s p \<equiv> tally ((=) (p, CTermAck)) N s"

text \<open>The children that were asked to terminate and have not confirmed.\<close>

definition asked :: "nat \<Rightarrow> tree \<Rightarrow> nat \<Rightarrow> nat set" where
  "asked N s p = {c. kid N s p c \<and> (terms N s c > 0 \<or> own_terminating (the (objs s c)))}"

definition ready :: "own_t \<Rightarrow> bool" where
  "ready ob \<longleftrightarrow> own_terminating ob \<and> unat (own_processed ob) = unat (own_sent ob) \<and> own_acks ob = 0"

text \<open>What a thread can be in the middle of.\<close>

definition launching :: "nat \<Rightarrow> tree \<Rightarrow> nat \<Rightarrow> own_act list \<Rightarrow> bool" where
  "launching N s t xs \<longleftrightarrow> (\<exists>l ob c p. xs \<in> {[IncSeq c, Post c CPlug, IncSeq p, Post p (COwn c)],
       [Post c CPlug, IncSeq p, Post p (COwn c)], [IncSeq p, Post p (COwn c)], [Post p (COwn c)]} \<and>
     kid N s p c \<and> objs s l = Some ob \<and> live N s l \<and> own_tid ob = t \<and> (l = p \<or> kid N s p l \<and> l < c))"

definition requesting :: "nat \<Rightarrow> tree \<Rightarrow> nat \<Rightarrow> own_act list \<Rightarrow> bool" where
  "requesting N s t xs \<longleftrightarrow> (\<exists>l p ob. xs = [Post p (CTermReq l)] \<and> kid N s p l \<and> objs s l = Some ob \<and> own_tid ob = t)"

definition terming :: "own_act list \<Rightarrow> bool" where
  "terming xs \<longleftrightarrow> (\<forall>x \<in> set xs. \<exists>c lngr. x = Post c (CTerm lngr))"

definition ending :: "tree \<Rightarrow> nat \<Rightarrow> own_act list \<Rightarrow> bool" where
  "ending s t xs \<longleftrightarrow> (\<exists>l ob. objs s l = Some ob \<and> own_tid ob = t \<and>
     (xs = [DeleteThis l] \<or> (\<exists>p. own_owner ob = Some p \<and> xs = [Post p CTermAck, DeleteThis l])))"

definition outbox_ok :: "nat \<Rightarrow> tree \<Rightarrow> nat \<Rightarrow> own_act list \<Rightarrow> bool" where
  "outbox_ok N s t xs \<longleftrightarrow> launching N s t xs \<or> requesting N s t xs \<or> terming xs \<or> ending s t xs"

text \<open>A request of a child for its termination is followed by its confirmation when the child has gone.\<close>

definition request_ok :: "nat \<Rightarrow> tree \<Rightarrow> nat \<Rightarrow> (nat \<times> own_cmd) list \<Rightarrow> bool" where
  "request_ok N s p ms \<longleftrightarrow> (\<forall>pre x post. ms = pre @ (p, CTermReq x) # post \<longrightarrow>
     kid N s p x \<or> (p, CTermAck) \<in> set post \<or> (\<exists>t<N. Post p CTermAck \<in> set (outbox s t)))"

definition static_inv :: "nat \<Rightarrow> tree \<Rightarrow> bool" where
  "static_inv N s \<longleftrightarrow>
     (\<forall>i. fresh s \<le> i \<longrightarrow> objs s i = None) \<and>
     (\<forall>i ob. objs s i = Some ob \<longrightarrow> own_tid ob < N) \<and>
     (\<forall>t<N. \<forall>x \<in> set (mail s t). \<exists>ob. objs s (fst x) = Some ob \<and> own_tid ob = t) \<and>
     (\<forall>x \<in># flying N s. live N s (fst x)) \<and>
     (\<forall>t<N. outbox_ok N s t (outbox s t)) \<and>
     (\<forall>t<N. \<forall>p. request_ok N s p (mail s t))"

definition count_inv :: "nat \<Rightarrow> tree \<Rightarrow> bool" where
  "count_inv N s \<longleftrightarrow>
     (\<forall>i ob. live N s i \<and> objs s i = Some ob \<longrightarrow>
        unat (own_sent ob) + pending_incs N s i = unat (own_processed ob) + counted N s i \<and>
        own_acks ob = int (card (asked N s i) + acks N s i + awaited s i) \<and>
        (own_terminating ob \<longrightarrow> own_owned ob = {}) \<and>
        (\<forall>c \<in> own_owned ob. kid N s i c))"

text \<open>A child is announced to its owner, or owned, or asked to terminate, or terminating.\<close>

definition stage :: "nat \<Rightarrow> tree \<Rightarrow> nat \<Rightarrow> nat \<Rightarrow> nat" where
  "stage N s p c = owns N s p c + (if c \<in> own_owned (the (objs s p)) then 1 else 0) + terms N s c +
     (if own_terminating (the (objs s c)) then 1 else 0)"

definition kid_inv :: "nat \<Rightarrow> tree \<Rightarrow> bool" where
  "kid_inv N s \<longleftrightarrow>
     (\<forall>p c. kid N s p c \<longrightarrow> p < c \<and> live N s p \<and> stage N s p c = 1) \<and>
     (\<forall>p c. owns N s p c > 0 \<longrightarrow> kid N s p c) \<and>
     (\<forall>c. terms N s c > 0 \<longrightarrow> (\<exists>p. kid N s p c))"

definition own_inv :: "nat \<Rightarrow> tree \<Rightarrow> bool" where
  "own_inv N s \<longleftrightarrow> static_inv N s \<and> count_inv N s \<and> kid_inv N s"

definition none_ready :: "nat \<Rightarrow> tree \<Rightarrow> bool" where
  "none_ready N s \<longleftrightarrow> (\<forall>i ob. live N s i \<and> objs s i = Some ob \<longrightarrow> \<not> ready ob)"

lemma tally_pos: "0 < tally P N s \<longleftrightarrow> (\<exists>x \<in># flying N s. P x)"
  by (auto simp: tally_def filter_mset_eq_mempty_iff simp flip: neq0_conv)

lemma tally_0: "tally P N s = 0 \<longleftrightarrow> (\<forall>x \<in># flying N s. \<not> P x)"
  using tally_pos[of P N s] by auto

lemma is_term_iff: "is_term c x \<longleftrightarrow> (\<exists>lngr. x = (c, CTerm lngr))"
  by (cases "(c, x)" rule: is_term.cases) auto

lemma is_counted_iff: "is_counted c x \<longleftrightarrow> x = (c, CPlug) \<or> (\<exists>d. x = (c, COwn d))"
  by (cases "(c, x)" rule: is_counted.cases) auto

text \<open>A change of the outbox and the mailbox of one thread.\<close>

lemma tally_at:
  assumes "t < N" "\<And>k. k \<noteq> t \<Longrightarrow> outbox s' k = outbox s k \<and> mail s' k = mail s k"
  shows "tally P N s' + length (filter P (posts (outbox s t))) + length (filter P (mail s t)) =
    tally P N s + length (filter P (posts (outbox s' t))) + length (filter P (mail s' t))"
proof -
  have "size (filter_mset P (flying N s' + mset (posts (outbox s t)) + mset (mail s t))) =
    size (filter_mset P (flying N s + mset (posts (outbox s' t)) + mset (mail s' t)))"
    using flying_at[of t N s' s] assms by simp
  then show ?thesis by (simp add: tally_def flip: size_mset mset_filter)
qed

lemma tally_sum:
  "tally P N s = (\<Sum>k<N. length (filter P (posts (outbox s k)))) + (\<Sum>k<N. length (filter P (mail s k)))"
  by (induction N) (simp_all add: tally_def flying_def flip: size_mset mset_filter)

lemma static_invD:
  assumes "static_inv N s"
  shows "\<forall>i. fresh s \<le> i \<longrightarrow> objs s i = None"
    "\<forall>i ob. objs s i = Some ob \<longrightarrow> own_tid ob < N"
    "\<forall>t<N. \<forall>x \<in> set (mail s t). \<exists>ob. objs s (fst x) = Some ob \<and> own_tid ob = t"
    "\<forall>x \<in># flying N s. live N s (fst x)"
    "\<forall>t<N. outbox_ok N s t (outbox s t)"
    "\<forall>t<N. \<forall>p. request_ok N s p (mail s t)"
  by (insert assms[unfolded static_inv_def], (elim conjE, assumption)+)

lemma kid_invD:
  assumes "kid_inv N s"
  shows "kid N s p c \<Longrightarrow> p < c" "kid N s p c \<Longrightarrow> live N s p" "kid N s p c \<Longrightarrow> stage N s p c = 1"
    "owns N s p c > 0 \<Longrightarrow> kid N s p c" "terms N s c > 0 \<Longrightarrow> \<exists>p. kid N s p c"
  using assms unfolding kid_inv_def by blast+

lemma count_invD:
  assumes "count_inv N s" "live N s i" "objs s i = Some ob"
  shows "unat (own_sent ob) + pending_incs N s i = unat (own_processed ob) + counted N s i"
    "own_acks ob = int (card (asked N s i) + acks N s i + awaited s i)"
    "own_terminating ob \<Longrightarrow> own_owned ob = {}" "c \<in> own_owned ob \<Longrightarrow> kid N s i c"
  using assms unfolding count_inv_def by blast+

lemma pending_le:
  assumes "\<forall>t<N. outbox_ok N s t (outbox s t)" "t < N"
  shows "pending_incs N s j + length (filter (is_counted j) (mail s t)) \<le> counted N s j"
proof -
  have o: "incs j xs \<le> length (filter (is_counted j) (posts xs))" if "outbox_ok N s k xs" for k xs
    using that by (auto simp: outbox_ok_def launching_def requesting_def ending_def terming_def)
      (metis bot_nat_0.extremum incs_0 own_act.distinct(1))
  have "pending_incs N s j + length (filter (is_counted j) (mail s t)) \<le>
      (\<Sum>k<N. length (filter (is_counted j) (posts (outbox s k)))) + (\<Sum>k<N. length (filter (is_counted j) (mail s k)))"
    unfolding pending_incs_def using assms o
    by (intro add_mono sum_mono) (auto intro: member_le_sum)
  also have "\<dots> = counted N s j"
    by (simp add: tally_sum)
  finally show ?thesis .
qed

lemma kid_unique: "kid N s p c \<Longrightarrow> kid N s q c \<Longrightarrow> p = q"
  by (simp add: kid_def)

lemma kid_live: "kid N s p c \<Longrightarrow> live N s c"
  by (simp add: kid_def)

lemma live_objs: "live N s c \<Longrightarrow> objs s c \<noteq> None"
  by (simp add: live_def)

lemma asked_finite:
  assumes "static_inv N s"
  shows "finite (asked N s p)"
proof (rule finite_subset)
  show "asked N s p \<subseteq> {..<fresh s}"
  proof
    fix c assume "c \<in> asked N s p"
    then have "objs s c \<noteq> None" by (simp add: asked_def kid_def live_def)
    then show "c \<in> {..<fresh s}" using static_invD(1)[OF assms] by (metis lessThan_iff not_less)
  qed
qed simp

end
