(* ===== verification/OwnShutdown.thy ===== *)
theory OwnShutdown
  imports OwnTree
begin

text \<open>
  The shutdown of the tree of objects is safe: the invariant of theory \<open>OwnTree\<close> is kept by every event.
\<close>

section \<open>A handler\<close>

text \<open>
  The object \<open>j\<close> handles the first \<open>gone\<close> commands of its mailbox (none or one) and becomes \<open>ob'\<close>; \<open>acts\<close> is what
  is left to be done.
\<close>

definition handler ::
  "nat \<Rightarrow> tree \<Rightarrow> nat \<Rightarrow> own_t \<Rightarrow> own_t \<Rightarrow> (nat \<times> own_cmd) list \<Rightarrow> own_act list \<Rightarrow> (nat \<Rightarrow> nat) \<Rightarrow> tree \<Rightarrow> bool" where
  "handler N s j ob ob' gone acts aw s' \<longleftrightarrow>
     objs s j = Some ob \<and> own_tid ob < N \<and> outbox s (own_tid ob) = [] \<and> own_tid ob' = own_tid ob \<and>
     own_owner ob' = own_owner ob \<and> (\<forall>x \<in> set acts. \<exists>k c. x = Post k c) \<and>
     (\<exists>ms. mail s (own_tid ob) = gone @ ms \<and>
        s' = s\<lparr>objs := (objs s)(j \<mapsto> ob'), mail := (mail s)(own_tid ob := ms),
               outbox := (outbox s)(own_tid ob := acts), awaited := aw\<rparr>)"

lemma handlerD:
  assumes "handler N s j ob ob' gone acts aw s'"
  shows "objs s j = Some ob" "own_tid ob < N" "outbox s (own_tid ob) = []" "own_tid ob' = own_tid ob"
    "own_owner ob' = own_owner ob" "objs s' = (objs s)(j \<mapsto> ob')" "outbox s' = (outbox s)(own_tid ob := acts)"
    "awaited s' = aw" "fresh s' = fresh s" "mail s (own_tid ob) = gone @ mail s' (own_tid ob)"
    "k \<noteq> own_tid ob \<Longrightarrow> mail s' k = mail s k" "DeleteThis c \<notin> set acts" "IncSeq c \<notin> set acts"
  using assms by (auto simp: handler_def)

lemma handler_dying: "handler N s j ob ob' gone acts aw s' \<Longrightarrow> dying N s' = dying N s"
  using handlerD by (intro ext) (auto simp: dying_def; metis empty_iff list.set(1))

lemma handler_live: "handler N s j ob ob' gone acts aw s' \<Longrightarrow> live N s' = live N s"
  using handler_dying[of N s j ob ob' gone acts aw s'] handlerD(1,6)[of N s j ob ob' gone acts aw s']
  by (auto simp: live_def fun_eq_iff)

lemma handler_kid: "handler N s j ob ob' gone acts aw s' \<Longrightarrow> kid N s' = kid N s"
  using handler_live[of N s j ob ob' gone acts aw s'] handlerD(1,5,6)[of N s j ob ob' gone acts aw s']
  by (auto simp: kid_def fun_eq_iff)

lemma handler_tally:
  assumes "handler N s j ob ob' gone acts aw s'"
  shows "tally P N s' + length (filter P gone) = tally P N s + length (filter P (posts acts))"
  using tally_at[of "own_tid ob" N s' s P] handlerD[OF assms] by simp

lemma handler_incs: "handler N s j ob ob' gone acts aw s' \<Longrightarrow> pending_incs N s' i = pending_incs N s i"
  using pending_incs_at[of "own_tid ob" N s' s i] handlerD[of N s j ob ob' gone acts aw s'] by (simp add: incs_0[THEN iffD2])

lemma handler_outbox_ok:
  assumes "handler N s j ob ob' gone acts aw s'"
  shows "outbox_ok N s' t xs = outbox_ok N s t xs"
proof -
  note H = handlerD[OF assms]
  have o: "(\<exists>l ob. objs s' l = Some ob \<and> Q l (own_tid ob) (own_owner ob)) \<longleftrightarrow>
      (\<exists>l ob. objs s l = Some ob \<and> Q l (own_tid ob) (own_owner ob))" for Q
  proof -
    have "(\<exists>ob. objs s' l = Some ob \<and> Q l (own_tid ob) (own_owner ob)) \<longleftrightarrow>
        (\<exists>ob. objs s l = Some ob \<and> Q l (own_tid ob) (own_owner ob))" for l
      using H(1,4,5) by (cases "l = j") (simp_all add: H(6))
    then show ?thesis by simp
  qed
  have "launching N s' t xs = launching N s t xs"
    using o[of "\<lambda>l td ow. \<exists>c p. xs \<in> {[IncSeq c, Post c CPlug, IncSeq p, Post p (COwn c)],
       [Post c CPlug, IncSeq p, Post p (COwn c)], [IncSeq p, Post p (COwn c)], [Post p (COwn c)]} \<and>
     kid N s p c \<and> live N s l \<and> td = t \<and> (l = p \<or> kid N s p l \<and> l < c)"]
    unfolding launching_def handler_kid[OF assms] handler_live[OF assms] by blast
  moreover have "requesting N s' t xs = requesting N s t xs"
    using o[of "\<lambda>l td ow. \<exists>p. xs = [Post p (CTermReq l)] \<and> kid N s p l \<and> td = t"]
    unfolding requesting_def handler_kid[OF assms] by blast
  moreover have "ending s' t xs = ending s t xs"
    using o[of "\<lambda>l td ow. td = t \<and> (xs = [DeleteThis l] \<or> (\<exists>p. ow = Some p \<and> xs = [Post p CTermAck, DeleteThis l]))"]
    unfolding ending_def by blast
  ultimately show ?thesis by (simp add: outbox_ok_def)
qed

lemma request_ok_tl: "request_ok N s p (xs @ ms) \<Longrightarrow> request_ok N s p ms"
  unfolding request_ok_def by (metis append.assoc)

lemma in_flying_mail: "t < N \<Longrightarrow> x \<in> set (mail s t) \<Longrightarrow> x \<in># flying N s"
  by (auto simp: in_flying)

lemma handler_flying:
  assumes "handler N s j ob ob' gone acts aw s'" "x \<in># flying N s'"
  shows "x \<in># flying N s \<or> x \<in> set (posts acts)"
proof -
  note H = handlerD[OF assms(1)]
  obtain t where t: "t < N" "x \<in> set (posts (outbox s' t)) \<or> x \<in> set (mail s' t)"
    using assms(2) by (auto simp: in_flying)
  then show ?thesis
    using H(7,10,11) in_flying[of x N s] by (cases "t = own_tid ob") auto
qed

lemma handler_static:
  assumes inv: "static_inv N s" and h: "handler N s j ob ob' gone acts aw s'"
    and ok: "outbox_ok N s (own_tid ob) acts" and target: "\<forall>x \<in> set (posts acts). live N s (fst x)"
  shows "static_inv N s'"
proof -
  note H = handlerD[OF h] and I = static_invD[OF inv]
  have "\<forall>i. fresh s' \<le> i \<longrightarrow> objs s' i = None" using I(1) H(1,6,9) by auto
  moreover have "\<forall>i o'. objs s' i = Some o' \<longrightarrow> own_tid o' < N" using I(2) H(1,2,4,6) by auto
  moreover have "\<exists>o'. objs s' (fst x) = Some o' \<and> own_tid o' = t" if tx: "t < N" "x \<in> set (mail s' t)" for t x
  proof -
    have "x \<in> set (mail s t)" using tx(2) H(10,11) by (cases "t = own_tid ob") auto
    then obtain o1 where "objs s (fst x) = Some o1" "own_tid o1 = t" using I(3) tx(1) by blast
    then show ?thesis using H(1,4) by (cases "fst x = j") (simp_all add: H(6))
  qed
  moreover have "\<forall>x \<in># flying N s'. live N s' (fst x)"
    using handler_flying[OF h] I(4) target by (auto simp: handler_live[OF h])
  moreover have "\<forall>t<N. outbox_ok N s' t (outbox s' t)"
    using I(5) ok by (simp add: handler_outbox_ok[OF h] H(7))
  moreover have "request_ok N s' p (mail s' t)" if "t < N" for t p
  proof -
    have "request_ok N s p (mail s' t)"
      using I(6) that request_ok_tl H(10,11) by (cases "t = own_tid ob") (metis, metis)
    moreover have "Post p CTermAck \<in> set (outbox s' k)" if "Post p CTermAck \<in> set (outbox s k)" for k
      using that H(3,7) by auto
    ultimately show ?thesis unfolding request_ok_def handler_kid[OF h] by blast
  qed
  ultimately show ?thesis unfolding static_inv_def by blast
qed

lemma handler_count:
  assumes inv: "count_inv N s" and h: "handler N s j ob ob' gone acts aw s'"
    and own: "unat (own_sent ob') + pending_incs N s j = unat (own_processed ob') + counted N s' j"
      "own_acks ob' = int (card (asked N s' j) + acks N s' j + aw j)"
      "own_terminating ob' \<Longrightarrow> own_owned ob' = {}" "\<And>c. c \<in> own_owned ob' \<Longrightarrow> kid N s j c"
    and others: "\<And>i. i \<noteq> j \<Longrightarrow> counted N s' i = counted N s i \<and> asked N s' i = asked N s i \<and>
      acks N s' i = acks N s i \<and> aw i = awaited s i"
  shows "count_inv N s'"
  unfolding count_inv_def
proof (intro allI impI)
  fix i o' assume l: "live N s' i \<and> objs s' i = Some o'"
  note H = handlerD[OF h]
  show "unat (own_sent o') + pending_incs N s' i = unat (own_processed o') + counted N s' i \<and>
     own_acks o' = int (card (asked N s' i) + acks N s' i + awaited s' i) \<and>
     (own_terminating o' \<longrightarrow> own_owned o' = {}) \<and> (\<forall>c \<in> own_owned o'. kid N s' i c)"
  proof (cases "i = j")
    case True
    then show ?thesis using l own by (simp add: H(6,8) handler_incs[OF h] handler_kid[OF h])
  next
    case False
    then have "live N s i" "objs s i = Some o'" using l by (simp_all add: H(6) handler_live[OF h])
    then show ?thesis
      using count_invD[OF inv] others[OF False] by (simp add: H(8) handler_incs[OF h] handler_kid[OF h])
  qed
qed

lemma handler_kid_inv:
  assumes inv: "kid_inv N s" and h: "handler N s j ob ob' gone acts aw s'"
    and st: "\<And>p c. kid N s p c \<Longrightarrow> stage N s' p c = stage N s p c"
    and ow: "\<And>p c. owns N s' p c > 0 \<Longrightarrow> kid N s p c"
    and te: "\<And>c. terms N s' c > 0 \<Longrightarrow> \<exists>p. kid N s p c"
  shows "kid_inv N s'"
  unfolding kid_inv_def handler_kid[OF h] handler_live[OF h]
proof (intro conjI allI impI)
  fix p c assume k: "kid N s p c"
  show "p < c" "live N s p" by (rule kid_invD(1,2)[OF inv k])+
  show "stage N s' p c = 1" using st[OF k] kid_invD(3)[OF inv k] by simp
qed (use ow te in blast)+

lemma asked_cong:
  assumes "kid N s' = kid N s"
    and "\<And>c. kid N s p c \<Longrightarrow> (terms N s' c > 0 \<or> own_terminating (the (objs s' c))) =
      (terms N s c > 0 \<or> own_terminating (the (objs s c)))"
  shows "asked N s' p = asked N s p"
  using assms by (auto simp: asked_def)

section \<open>The handlers of the commands\<close>

lemma own_invD: "own_inv N s \<Longrightarrow> static_inv N s" "own_inv N s \<Longrightarrow> count_inv N s" "own_inv N s \<Longrightarrow> kid_inv N s"
  by (simp_all add: own_inv_def)

lemma head_live:
  assumes "own_inv N s" "handler N s j ob ob' [(j, c)] acts aw s'"
  shows "live N s j"
proof -
  note H = handlerD[OF assms(2)]
  have "(j, c) \<in># flying N s" using in_flying_mail[OF H(2)] H(10) by simp
  then show ?thesis using static_invD(4)[OF own_invD(1)[OF assms(1)]] by fastforce
qed

lemma processed_Suc:
  assumes inv: "own_inv N s" and h: "handler N s j ob ob' [(j, c)] acts aw s'" and c: "is_counted j (j, c)"
  shows "unat (own_processed ob + 1) = Suc (unat (own_processed ob))"
proof -
  note H = handlerD[OF h] and S = static_invD[OF own_invD(1)[OF inv]]
  have "pending_incs N s j + 1 \<le> counted N s j"
    using pending_le[OF S(5) H(2), of j] H(10) c by simp
  then have "unat (own_processed ob) < unat (own_sent ob)"
    using count_invD(1)[OF own_invD(2)[OF inv] head_live[OF inv h] H(1)] by simp
  then have "unat (own_processed ob) + 1 < 2 ^ LENGTH(64)" using u32_less[of "own_sent ob"] by simp
  then show ?thesis by (simp add: unat_word_ariths)
qed

lemma core_plug:
  assumes inv: "own_inv N s"
    and h: "handler N s j ob (ob\<lparr>own_processed := own_processed ob + 1\<rparr>) [(j, CPlug)] [] (awaited s) s'"
  shows "own_inv N s'"
proof -
  note H = handlerD[OF h] and T = handler_tally[OF h] and J = head_live[OF inv h]
  note I = own_invD[OF inv]
  have T': "terms N s' c = terms N s c" "owns N s' p c = owns N s p c" "acks N s' p = acks N s p"
      "i \<noteq> j \<Longrightarrow> counted N s' i = counted N s i" "counted N s j = Suc (counted N s' j)" for c p i
    using T[of "is_term c"] T[of "(=) (p, COwn c)"] T[of "(=) (p, CTermAck)"] T[of "is_counted i"] T[of "is_counted j"]
    by simp_all
  have asked: "asked N s' p = asked N s p" for p
    by (rule asked_cong) (simp_all add: handler_kid[OF h] T' H(1,6))
  have "static_inv N s'" by (rule handler_static[OF I(1) h]) (simp_all add: outbox_ok_def terming_def)
  moreover have "count_inv N s'"
    using count_invD[OF I(2) J H(1)] processed_Suc[OF inv h]
    by (intro handler_count[OF I(2) h]) (simp_all add: T' asked)
  moreover have "kid_inv N s'"
    using kid_invD(4,5)[OF I(3)]
    by (intro handler_kid_inv[OF I(3) h]) (simp_all add: T' stage_def H(1,6))
  ultimately show ?thesis by (simp add: own_inv_def)
qed

lemma own_kid:
  assumes inv: "own_inv N s" and h: "handler N s j ob ob' [(j, COwn c)] acts aw s'"
  shows "kid N s j c" "owns N s j c = 1" "c \<notin> own_owned ob" "terms N s c = 0"
    "\<not> own_terminating (the (objs s c))" "j < c" "c \<notin> asked N s j"
proof -
  note H = handlerD[OF h] and I = own_invD[OF inv]
  have "0 < owns N s j c" using in_flying_mail[OF H(2)] H(10) by (auto simp: tally_pos)
  then show k: "kid N s j c" using kid_invD(4)[OF I(3)] by blast
  then show "j < c" using kid_invD(1)[OF I(3)] by blast
  have "stage N s j c = 1" using kid_invD(3)[OF I(3) k] .
  then show "owns N s j c = 1" "c \<notin> own_owned ob" "terms N s c = 0" "\<not> own_terminating (the (objs s c))"
    using \<open>0 < owns N s j c\<close> H(1) by (auto simp: stage_def split: if_splits)
  then show "c \<notin> asked N s j" by (simp add: asked_def)
qed

lemma core_own:
  assumes inv: "own_inv N s" and nt: "\<not> own_terminating ob"
    and h: "handler N s j ob (ob\<lparr>own_owned := insert c (own_owned ob), own_processed := own_processed ob + 1\<rparr>)
      [(j, COwn c)] [] (awaited s) s'"
  shows "own_inv N s'"
proof -
  note H = handlerD[OF h] and T = handler_tally[OF h] and J = head_live[OF inv h] and K = own_kid[OF inv h]
  note I = own_invD[OF inv]
  have T': "terms N s' d = terms N s d" "acks N s' p = acks N s p"
      "(p, d) \<noteq> (j, c) \<Longrightarrow> owns N s' p d = owns N s p d" "owns N s' j c = 0"
      "i \<noteq> j \<Longrightarrow> counted N s' i = counted N s i" "counted N s j = Suc (counted N s' j)" for d p i
    using T[of "is_term d"] T[of "(=) (p, COwn d)"] T[of "(=) (j, COwn c)"] T[of "(=) (p, CTermAck)"]
      T[of "is_counted i"] T[of "is_counted j"] K(2)
    by (simp_all split: if_splits)
  have tm: "own_terminating (the (objs s' d)) = own_terminating (the (objs s d))" for d using H(1,6) by simp
  have asked: "asked N s' p = asked N s p" for p
    by (rule asked_cong) (simp_all add: handler_kid[OF h] T' tm)
  have "static_inv N s'" by (rule handler_static[OF I(1) h]) (simp_all add: outbox_ok_def terming_def)
  moreover have "count_inv N s'"
  proof (rule handler_count[OF I(2) h], goal_cases)
    case 1
    then show ?case using count_invD(1)[OF I(2) J H(1)] processed_Suc[OF inv h] T'(6) by simp
  next
    case 2
    then show ?case using count_invD(2)[OF I(2) J H(1)] T'(2) asked by simp
  next
    case (4 d)
    then show ?case using count_invD(4)[OF I(2) J H(1), of d] K(1) by auto
  qed (simp_all add: T'(2,5) asked nt)
  moreover have "kid_inv N s'"
  proof (rule handler_kid_inv[OF I(3) h])
    fix p d assume k: "kid N s p d"
    show "stage N s' p d = stage N s p d"
    proof (cases "(p, d) = (j, c)")
      case True
      then show ?thesis using K(2,3) H(1,6) T' tm by (simp add: stage_def)
    next
      case False
      then have "d \<in> own_owned (the (objs s' p)) \<longleftrightarrow> d \<in> own_owned (the (objs s p))" using H(1,6) by auto
      then show ?thesis using False T'(1,3) tm by (simp add: stage_def)
    qed
  next
    fix p d assume "0 < owns N s' p d"
    then show "kid N s p d" using kid_invD(4)[OF I(3)] T'(3,4) by (cases "(p, d) = (j, c)") auto
  next
    fix d assume "0 < terms N s' d"
    then show "\<exists>p. kid N s p d" using kid_invD(5)[OF I(3)] T'(1) by simp
  qed
  ultimately show ?thesis by (simp add: own_inv_def)
qed

lemma asked_insert:
  assumes "kid N s' = kid N s" "kid N s j c" "terms N s' c > 0"
    and "\<And>d. d \<noteq> c \<Longrightarrow> (terms N s' d > 0 \<or> own_terminating (the (objs s' d))) =
      (terms N s d > 0 \<or> own_terminating (the (objs s d)))"
  shows "asked N s' p = (if p = j then insert c (asked N s j) else asked N s p)"
proof -
  have p: "kid N s p c \<longleftrightarrow> p = j" using assms(2) kid_unique by metis
  have "d \<in> asked N s' p \<longleftrightarrow> d \<in> (if p = j then insert c (asked N s j) else asked N s p)" for d
    using assms(4)[of d] by (cases "d = c") (simp_all add: asked_def assms(1,3) p)
  then show ?thesis by blast
qed

lemma core_own_term:
  assumes inv: "own_inv N s" and nt: "own_terminating ob"
    and h: "handler N s j ob (ob\<lparr>own_acks := own_acks ob + 1, own_processed := own_processed ob + 1\<rparr>)
      [(j, COwn c)] [Post c (CTerm 0)] (awaited s) s'"
  shows "own_inv N s'"
proof -
  note H = handlerD[OF h] and T = handler_tally[OF h] and J = head_live[OF inv h] and K = own_kid[OF inv h]
  note I = own_invD[OF inv]
  have T': "terms N s' d = (if d = c then 1 else terms N s d)" "acks N s' p = acks N s p"
      "(p, d) \<noteq> (j, c) \<Longrightarrow> owns N s' p d = owns N s p d" "owns N s' j c = 0"
      "i \<noteq> j \<Longrightarrow> counted N s' i = counted N s i" "counted N s j = Suc (counted N s' j)" for d p i
    using T[of "is_term d"] T[of "(=) (p, COwn d)"] T[of "(=) (j, COwn c)"] T[of "(=) (p, CTermAck)"]
      T[of "is_counted i"] T[of "is_counted j"] K(2,4)
    by (simp_all split: if_splits)
  have tm: "own_terminating (the (objs s' d)) = own_terminating (the (objs s d))" for d using H(1,6) by simp
  have asked: "asked N s' p = (if p = j then insert c (asked N s j) else asked N s p)" for p
    by (rule asked_insert) (simp_all add: handler_kid[OF h] K(1) T' tm)
  have "static_inv N s'"
    using kid_live[OF K(1)] by (intro handler_static[OF I(1) h]) (simp_all add: outbox_ok_def terming_def)
  moreover have "count_inv N s'"
  proof (rule handler_count[OF I(2) h], goal_cases)
    case 1
    then show ?case using count_invD(1)[OF I(2) J H(1)] processed_Suc[OF inv h] T'(6) by simp
  next
    case 2
    then show ?case
      using count_invD(2)[OF I(2) J H(1)] T'(2) asked K(7) asked_finite[OF I(1)] by simp
  next
    case 3
    then show ?case using count_invD(3)[OF I(2) J H(1)] nt by simp
  next
    case (4 d)
    then show ?case using count_invD(4)[OF I(2) J H(1), of d] by simp
  qed (simp_all add: T'(2,5) asked)
  moreover have "kid_inv N s'"
  proof (rule handler_kid_inv[OF I(3) h])
    fix p d assume k: "kid N s p d"
    have o: "d \<in> own_owned (the (objs s' p)) \<longleftrightarrow> d \<in> own_owned (the (objs s p))" using H(1,6) by simp
    show "stage N s' p d = stage N s p d"
    proof (cases "(p, d) = (j, c)")
      case True
      then show ?thesis using K(2,4) T'(1,4) tm o by (simp add: stage_def)
    next
      case False
      then have "d \<noteq> c" using k K(1) kid_unique by blast
      then show ?thesis using False T'(1,3) tm o by (simp add: stage_def)
    qed
  next
    fix p d assume "0 < owns N s' p d"
    then show "kid N s p d" using kid_invD(4)[OF I(3)] T'(3,4) by (cases "(p, d) = (j, c)") auto
  next
    fix d assume "0 < terms N s' d"
    then show "\<exists>p. kid N s p d" using kid_invD(5)[OF I(3)] T'(1) K(1) by (cases "d = c") auto
  qed
  ultimately show ?thesis by (simp add: own_inv_def)
qed

text \<open>A request for termination that is ignored.\<close>

lemma core_ignore:
  assumes inv: "own_inv N s" and h: "handler N s j ob ob [(j, CTermReq c)] [] (awaited s) s'"
  shows "own_inv N s'"
proof -
  note H = handlerD[OF h] and T = handler_tally[OF h] and J = head_live[OF inv h]
  note I = own_invD[OF inv]
  have T': "terms N s' d = terms N s d" "owns N s' p d = owns N s p d" "acks N s' p = acks N s p"
      "counted N s' i = counted N s i" for d p i
    using T[of "is_term d"] T[of "(=) (p, COwn d)"] T[of "(=) (p, CTermAck)"] T[of "is_counted i"] by simp_all
  have ob: "objs s' = objs s" using H(1,6) by auto
  have asked: "asked N s' p = asked N s p" for p
    by (rule asked_cong) (simp_all add: handler_kid[OF h] T' ob)
  have "static_inv N s'" by (rule handler_static[OF I(1) h]) (simp_all add: outbox_ok_def terming_def)
  moreover have "count_inv N s'"
    by (rule handler_count[OF I(2) h]) (use count_invD[OF I(2) J H(1)] in \<open>simp_all add: T' asked\<close>)
  moreover have "kid_inv N s'"
    using kid_invD(4,5)[OF I(3)] by (intro handler_kid_inv[OF I(3) h]) (simp_all add: T' stage_def ob)
  ultimately show ?thesis by (simp add: own_inv_def)
qed

text \<open>A request that is granted: an owned child is asked to terminate.\<close>

lemma owned_kid:
  assumes inv: "own_inv N s" and j: "live N s j" "objs s j = Some ob" and c: "c \<in> own_owned ob"
  shows "kid N s j c" "owns N s j c = 0" "terms N s c = 0" "\<not> own_terminating (the (objs s c))" "j < c"
    "c \<notin> asked N s j"
proof -
  note I = own_invD[OF inv]
  show k: "kid N s j c" using count_invD(4)[OF I(2) j c] .
  then show "j < c" using kid_invD(1)[OF I(3)] by blast
  have "stage N s j c = 1" using kid_invD(3)[OF I(3) k] .
  then show "owns N s j c = 0" "terms N s c = 0" "\<not> own_terminating (the (objs s c))"
    using c j(2) by (auto simp: stage_def split: if_splits)
  then show "c \<notin> asked N s j" by (simp add: asked_def)
qed

lemma core_grant:
  assumes inv: "own_inv N s" and nt: "\<not> own_terminating ob" and c: "c \<in> own_owned ob"
    and h: "handler N s j ob (ob\<lparr>own_owned := own_owned ob - {c}, own_acks := own_acks ob + 1\<rparr>)
      [(j, CTermReq c)] [Post c (CTerm lngr)] (awaited s) s'"
  shows "own_inv N s'"
proof -
  note H = handlerD[OF h] and T = handler_tally[OF h] and J = head_live[OF inv h]
  note K = owned_kid[OF inv J H(1) c] and I = own_invD[OF inv]
  have T': "terms N s' d = (if d = c then 1 else terms N s d)" "acks N s' p = acks N s p"
      "owns N s' p d = owns N s p d" "counted N s' i = counted N s i" for d p i
    using T[of "is_term d"] T[of "(=) (p, COwn d)"] T[of "(=) (p, CTermAck)"] T[of "is_counted i"] K(3)
    by (simp_all split: if_splits)
  have tm: "own_terminating (the (objs s' d)) = own_terminating (the (objs s d))" for d using H(1,6) by simp
  have asked: "asked N s' p = (if p = j then insert c (asked N s j) else asked N s p)" for p
    by (rule asked_insert) (simp_all add: handler_kid[OF h] K(1) T' tm)
  have "static_inv N s'"
    using kid_live[OF K(1)] by (intro handler_static[OF I(1) h]) (simp_all add: outbox_ok_def terming_def)
  moreover have "count_inv N s'"
  proof (rule handler_count[OF I(2) h], goal_cases)
    case 2
    then show ?case
      using count_invD(2)[OF I(2) J H(1)] T'(2) asked K(6) asked_finite[OF I(1)] by simp
  next
    case (4 d)
    then show ?case using count_invD(4)[OF I(2) J H(1), of d] by simp
  qed (use count_invD(1)[OF I(2) J H(1)] in \<open>simp_all add: T'(2,4) asked nt\<close>)
  moreover have "kid_inv N s'"
  proof (rule handler_kid_inv[OF I(3) h])
    fix p d assume k: "kid N s p d"
    show "stage N s' p d = stage N s p d"
    proof (cases "d = c")
      case True
      then have "p = j" using k K(1) kid_unique by blast
      then show ?thesis using True K(2,3) c H(1,6) T'(1,3) tm by (simp add: stage_def)
    next
      case False
      then have "d \<in> own_owned (the (objs s' p)) \<longleftrightarrow> d \<in> own_owned (the (objs s p))" using H(1,6) by simp
      then show ?thesis using False T'(1,3) tm by (simp add: stage_def)
    qed
  next
    fix p d assume "0 < owns N s' p d"
    then show "kid N s p d" using kid_invD(4)[OF I(3)] T'(3) by simp
  next
    fix d assume "0 < terms N s' d"
    then show "\<exists>p. kid N s p d" using kid_invD(5)[OF I(3)] T'(1) K(1) by (cases "d = c") auto
  qed
  ultimately show ?thesis by (simp add: own_inv_def)
qed

text \<open>Termination: all owned children are asked to terminate.\<close>

definition term_all :: "int \<Rightarrow> nat set \<Rightarrow> own_act list" where
  "term_all lngr cs = map (\<lambda>c. Post c (CTerm lngr)) (sorted_list_of_set cs)"

lemma posts_terms: "posts (map (\<lambda>c. Post c (CTerm lngr)) cs) = map (\<lambda>c. (c, CTerm lngr)) cs"
  by (induction cs) simp_all

lemma posts_term_all: "posts (term_all lngr cs) = map (\<lambda>c. (c, CTerm lngr)) (sorted_list_of_set cs)"
  by (simp add: term_all_def posts_terms)

lemma term_all_counts:
  assumes "finite cs"
  shows "length (filter (is_term d) (posts (term_all lngr cs))) = (if d \<in> cs then 1 else 0)"
    "length (filter ((=) (p, COwn d)) (posts (term_all lngr cs))) = 0"
    "length (filter ((=) (p, CTermAck)) (posts (term_all lngr cs))) = 0"
    "length (filter (is_counted i) (posts (term_all lngr cs))) = 0"
proof -
  have "length (filter (\<lambda>c. c = d) (sorted_list_of_set cs)) = (if d \<in> cs then 1 else 0)"
  proof -
    have "length (filter (\<lambda>c. c = d) (sorted_list_of_set cs)) = card ({c \<in> cs. c = d})"
      using assms by (simp add: distinct_length_filter Int_def)
    also have "{c \<in> cs. c = d} = (if d \<in> cs then {d} else {})" by auto
    finally show ?thesis by simp
  qed
  then show "length (filter (is_term d) (posts (term_all lngr cs))) = (if d \<in> cs then 1 else 0)"
    by (simp add: posts_term_all filter_map o_def)
qed (simp_all add: posts_term_all filter_map o_def)

lemma own_finite:
  assumes "own_inv N s" "live N s j" "objs s j = Some ob"
  shows "finite (own_owned ob)"
proof (rule finite_subset)
  show "own_owned ob \<subseteq> {..<fresh s}"
  proof
    fix c assume "c \<in> own_owned ob"
    then have "kid N s j c" using owned_kid(1)[OF assms] by blast
    then have "objs s c \<noteq> None" by (simp add: kid_def live_def)
    then show "c \<in> {..<fresh s}" using static_invD(1)[OF own_invD(1)[OF assms(1)]] by (metis lessThan_iff not_less)
  qed
qed simp

lemma terms_posI: "(c, CTerm lngr) \<in># flying N s \<Longrightarrow> 0 < terms N s c"
  unfolding tally_pos by (rule bexI[of _ "(c, CTerm lngr)"]) simp_all

lemma core_term:
  assumes inv: "own_inv N s" and J: "live N s j" and nt: "\<not> own_terminating ob"
    and gone: "gone = [(j, CTerm l0)] \<or> gone = [] \<and> own_owner ob = None"
    and h: "handler N s j ob (ob\<lparr>own_acks := own_acks ob + int (card (own_owned ob)), own_owned := {},
      own_terminating := True\<rparr>) gone (term_all lngr (own_owned ob)) (awaited s) s'"
  shows "own_inv N s'"
proof -
  note H = handlerD[OF h] and T = handler_tally[OF h] and I = own_invD[OF inv]
  note K = owned_kid[OF inv J H(1)] and fin = own_finite[OF inv J H(1)]
  have parent: "terms N s j = 1 \<and> gone \<noteq> []" if "kid N s p j" for p
  proof -
    have "gone = [(j, CTerm l0)]" using gone that H(1) by (auto simp: kid_def)
    then have "(j, CTerm l0) \<in># flying N s" using in_flying_mail[OF H(2)] H(10) by simp
    then have "0 < terms N s j" by (rule terms_posI)
    then show ?thesis using kid_invD(3)[OF I(3) that] \<open>gone = _\<close> by (simp add: stage_def)
  qed
  have gl: "length (filter (is_term d) gone) = (if d = j then length gone else 0)"
      "filter ((=) (p, COwn d)) gone = []" "filter ((=) (p, CTermAck)) gone = []" "filter (is_counted i) gone = []" for d p i
    using gone by auto
  have T1: "terms N s' d = (if d \<in> own_owned ob then 1 else if d = j then terms N s j - length gone else terms N s d)" for d
    using T[of "is_term d"] K(3,5)[of d]
    unfolding gl(1) term_all_counts(1)[OF fin]
    by (cases "d \<in> own_owned ob"; cases "d = j") simp_all
  have T2: "acks N s' p = acks N s p" "owns N s' p d = owns N s p d" "counted N s' i = counted N s i" for d p i
    using T[of "(=) (p, COwn d)"] T[of "(=) (p, CTermAck)"] T[of "is_counted i"]
    unfolding gl(2-4) term_all_counts(2-4)[OF fin] by simp_all
  note T' = T1 T2
  have asked: "asked N s' p = (if p = j then asked N s j \<union> own_owned ob else asked N s p)" for p
  proof -
    have "d \<in> asked N s' p \<longleftrightarrow> d \<in> (if p = j then asked N s j \<union> own_owned ob else asked N s p)" for d
    proof (cases "d \<in> own_owned ob")
      case True
      then have "kid N s p d \<longleftrightarrow> p = j" using K(1)[OF True] kid_unique by metis
      then show ?thesis using True T1[of d] by (simp add: asked_def handler_kid[OF h])
    next
      case False
      then have "d \<in> asked N s' p \<longleftrightarrow> d \<in> asked N s p"
      proof (cases "d = j")
        case True
        have "j \<in> asked N s' p \<longleftrightarrow> kid N s p j" by (simp add: asked_def handler_kid[OF h] H(6))
        moreover have "j \<in> asked N s p \<longleftrightarrow> kid N s p j" using parent[of p] by (auto simp: asked_def)
        ultimately show ?thesis using True by simp
      next
        case dj: False
        then show ?thesis using T1[of d] False by (simp add: asked_def handler_kid[OF h] H(6))
      qed
      then show ?thesis using False by simp
    qed
    then show ?thesis by blast
  qed
  have "static_inv N s'"
    using kid_live[OF K(1)] fin
    by (intro handler_static[OF I(1) h]) (auto simp: outbox_ok_def terming_def term_all_def posts_terms)
  moreover have "count_inv N s'"
  proof (rule handler_count[OF I(2) h], goal_cases)
    case 2
    have "asked N s j \<inter> own_owned ob = {}" using K(6) by blast
    then have "card (asked N s' j) = card (asked N s j) + card (own_owned ob)"
      using asked[of j] card_Un_disjoint[OF asked_finite[OF I(1)] fin] by simp
    then show ?case using count_invD(2)[OF I(2) J H(1)] T'(2) by simp
  qed (use count_invD(1)[OF I(2) J H(1)] in \<open>simp_all add: T'(2,4) asked\<close>)
  moreover have "kid_inv N s'"
  proof (rule handler_kid_inv[OF I(3) h])
    fix p d assume k: "kid N s p d"
    show "stage N s' p d = stage N s p d"
    proof (cases "d \<in> own_owned ob")
      case True
      then have "p = j" using k K(1) kid_unique by blast
      then show ?thesis using True K(2-5)[OF True] H(1,6) T'(1,3) by (simp add: stage_def)
    next
      case False
      then have o: "d \<in> own_owned (the (objs s' p)) \<longleftrightarrow> d \<in> own_owned (the (objs s p))" using H(1,6) by simp
      show ?thesis
      proof (cases "d = j")
        case True
        then show ?thesis using parent[of p] k gone o False T'(1,3) nt H(1,6) by (auto simp: stage_def)
      next
        case dj: False
        then show ?thesis using o False T'(1,3) H(6) by (simp add: stage_def)
      qed
    qed
  next
    fix p d assume "0 < owns N s' p d"
    then show "kid N s p d" using kid_invD(4)[OF I(3)] T'(3) by simp
  next
    fix d assume "0 < terms N s' d"
    then show "\<exists>p. kid N s p d" using kid_invD(5)[OF I(3)] T'(1) K(1) by (auto split: if_splits)
  qed
  ultimately show ?thesis by (simp add: own_inv_def)
qed

text \<open>Acknowledgements of children and of pipes, and new ones to wait for.\<close>

lemma core_acks:
  assumes inv: "own_inv N s" and J: "live N s j"
    and ev: "gone = [(j, CTermAck)] \<and> n = own_acks ob - 1 \<and> aw = awaited s \<or>
      gone = [] \<and> own_acks ob - int (awaited s j) = n - int (aw j) \<and> (\<forall>i. i \<noteq> j \<longrightarrow> aw i = awaited s i)"
    and h: "handler N s j ob (ob\<lparr>own_acks := n\<rparr>) gone [] aw s'"
  shows "own_inv N s'" "gone \<noteq> [] \<Longrightarrow> 0 < own_acks ob"
proof -
  note H = handlerD[OF h] and T = handler_tally[OF h] and I = own_invD[OF inv]
  have T': "terms N s' d = terms N s d" "owns N s' p d = owns N s p d" "counted N s' i = counted N s i"
      "acks N s' p + (if gone \<noteq> [] \<and> p = j then 1 else 0) = acks N s p" for d p i
    using T[of "is_term d"] T[of "(=) (p, COwn d)"] T[of "(=) (p, CTermAck)"] T[of "is_counted i"] ev by auto
  have tm: "own_terminating (the (objs s' d)) = own_terminating (the (objs s d))"
      "own_owned (the (objs s' d)) = own_owned (the (objs s d))" for d using H(1,6) by simp_all
  have asked: "asked N s' p = asked N s p" for p
    by (rule asked_cong) (simp_all add: handler_kid[OF h] T' tm)
  show "0 < own_acks ob" if "gone \<noteq> []"
    using that T'(4)[of j] count_invD(2)[OF I(2) J H(1)] by simp
  have "static_inv N s'" by (rule handler_static[OF I(1) h]) (simp_all add: outbox_ok_def terming_def)
  moreover have "count_inv N s'"
  proof (rule handler_count[OF I(2) h], goal_cases)
    case 2
    then show ?case using count_invD(2)[OF I(2) J H(1)] T'(4)[of j] ev by (auto simp: asked)
  next
    case (5 i)
    then show ?case using T'(4)[of i] ev by (auto simp: asked T'(3))
  qed (use count_invD[OF I(2) J H(1)] in \<open>simp_all add: T'(3)\<close>)
  moreover have "kid_inv N s'"
    using kid_invD(4,5)[OF I(3)] by (intro handler_kid_inv[OF I(3) h]) (simp_all add: T' stage_def tm)
  ultimately show "own_inv N s'" by (simp add: own_inv_def)
qed

section \<open>The end of an object\<close>

text \<open>An object that is ready to be deallocated has no children, and no command is on its way to it.\<close>

lemma ready_acks:
  assumes inv: "own_inv N s" and J: "live N s j" and ob: "objs s j = Some ob" and r: "ready ob"
  shows "asked N s j = {}" "acks N s j = 0" "awaited s j = 0"
proof -
  have "int (card (asked N s j) + acks N s j + awaited s j) = 0"
    using count_invD(2)[OF own_invD(2)[OF inv] J ob] r unfolding ready_def by linarith
  then have "card (asked N s j) + acks N s j + awaited s j = 0" unfolding of_nat_eq_0_iff .
  then show "asked N s j = {}" "acks N s j = 0" "awaited s j = 0"
    using asked_finite[OF own_invD(1)[OF inv], of j] by simp_all
qed

lemma ready_no_kids:
  assumes inv: "own_inv N s" and J: "live N s j" and ob: "objs s j = Some ob" and idle: "outbox s (own_tid ob) = []"
    and r: "ready ob"
  shows "\<not> kid N s j c"
proof (induction c rule: less_induct)
  case (less c)
  note I = own_invD[OF inv] and S = static_invD[OF own_invD(1)[OF inv]] and C = count_invD[OF own_invD(2)[OF inv] J ob]
  show ?case
  proof
    assume k: "kid N s j c"
    have "own_owned ob = {}" using C(3) r by (simp add: ready_def)
    moreover have "terms N s c = 0 \<and> \<not> own_terminating (the (objs s c))"
      using k ready_acks(1)[OF inv J ob r] by (auto simp: asked_def)
    ultimately have "0 < owns N s j c" using kid_invD(3)[OF I(3) k] ob by (simp add: stage_def)
    then have "(j, COwn c) \<in># flying N s" by (simp add: tally_pos)
    then obtain t where t: "t < N" "Post j (COwn c) \<in> set (outbox s t) \<or> (j, COwn c) \<in> set (mail s t)"
      by (auto simp: in_flying in_posts)
    from t(2) show False
    proof
      assume p: "Post j (COwn c) \<in> set (outbox s t)"
      then have "launching N s t (outbox s t)"
        using S(5) t(1) by (auto simp: outbox_ok_def requesting_def terming_def ending_def)
      then obtain l lo where "objs s l = Some lo" "own_tid lo = t" "l = j \<or> kid N s j l \<and> l < c"
        using p by (auto simp: launching_def)
      then show False using less idle ob p by auto
    next
      assume m: "(j, COwn c) \<in> set (mail s t)"
      then have "0 < length (filter (is_counted j) (mail s t))"
        by (auto simp: filter_empty_conv intro!: bexI[of _ "(j, COwn c)"])
      then have "pending_incs N s j < counted N s j" using pending_le[OF S(5) t(1), of j] by linarith
      then show False using C(1) r by (simp add: ready_def)
    qed
  qed
qed

lemma ready_no_command:
  assumes inv: "own_inv N s" and J: "live N s j" and ob: "objs s j = Some ob" and idle: "outbox s (own_tid ob) = []"
    and r: "ready ob" and x: "(j, c) \<in># flying N s"
  shows False
proof -
  note I = own_invD[OF inv] and S = static_invD[OF own_invD(1)[OF inv]] and C = count_invD[OF own_invD(2)[OF inv] J ob]
  note nk = ready_no_kids[OF inv J ob idle r]
  have ack: "(j, CTermAck) \<notin># flying N s"
    using ready_acks(2)[OF inv J ob r] by (auto simp: tally_0)
  obtain t where t: "t < N" "Post j c \<in> set (outbox s t) \<or> (j, c) \<in> set (mail s t)"
    using x by (auto simp: in_flying in_posts)
  have ow: "owns N s p j = 0" "terms N s j = 0" if "kid N s p j" for p
    using kid_invD(3)[OF I(3) that] r ob by (auto simp: stage_def ready_def split: if_splits)
  show False
  proof (cases c)
    case CPlug
    from t(2) show False
    proof
      assume p: "Post j c \<in> set (outbox s t)"
      then have "launching N s t (outbox s t)"
        using S(5) t(1) CPlug by (auto simp: outbox_ok_def requesting_def terming_def ending_def)
      then obtain p where "kid N s p j" "Post p (COwn j) \<in> set (outbox s t)"
        using p CPlug by (auto simp: launching_def)
      moreover from this(2) have "(p, COwn j) \<in># flying N s" using t(1) by (auto simp: in_flying in_posts)
      ultimately show False using ow(1)[of p] by (auto simp: tally_0)
    next
      assume m: "(j, c) \<in> set (mail s t)"
      then have "0 < length (filter (is_counted j) (mail s t))"
        using CPlug by (auto simp: filter_empty_conv intro!: bexI[of _ "(j, CPlug)"])
      then have "pending_incs N s j < counted N s j" using pending_le[OF S(5) t(1), of j] by linarith
      then show False using C(1) r by (simp add: ready_def)
    qed
  next
    case (COwn d)
    then have "0 < owns N s j d" using x by (simp add: tally_pos)
    then show False using kid_invD(4)[OF I(3)] nk by blast
  next
    case (CTermReq d)
    from t(2) show False
    proof
      assume p: "Post j c \<in> set (outbox s t)"
      then have "requesting N s t (outbox s t)"
        using S(5) t(1) CTermReq by (auto simp: outbox_ok_def launching_def terming_def ending_def)
      then show False using p CTermReq nk by (auto simp: requesting_def)
    next
      assume "(j, c) \<in> set (mail s t)"
      then obtain pre post where sp: "mail s t = pre @ (j, CTermReq d) # post"
        using CTermReq by (metis split_list)
      have "request_ok N s j (mail s t)" using S(6) t(1) by blast
      then consider "kid N s j d" | "(j, CTermAck) \<in> set post" | k where "k < N" "Post j CTermAck \<in> set (outbox s k)"
        using sp unfolding request_ok_def by blast
      then show False
        using nk ack sp t(1) by cases (auto simp: in_flying in_posts)
    qed
  next
    case (CTerm l)
    then have "0 < terms N s j" using x terms_posI by blast
    then show False using kid_invD(5)[OF I(3)] ow(2) by force
  next
    case CTermAck
    then show False using x ack by simp
  qed
qed

definition end_acts :: "nat \<Rightarrow> own_t \<Rightarrow> own_act list" where
  "end_acts j ob = (case own_owner ob of Some p \<Rightarrow> send_term_ack p | None \<Rightarrow> []) @ own_process_destroy j"

lemma ending_static:
  assumes inv: "own_inv N s" and J: "live N s j" and ob: "objs s j = Some ob" and idle: "outbox s (own_tid ob) = []"
    and r: "ready ob" and s': "s' = s\<lparr>outbox := (outbox s)(own_tid ob := end_acts j ob)\<rparr>"
  shows "static_inv N s'" "kid N s' p c = (kid N s p c \<and> c \<noteq> j)" "live N s' c = (live N s c \<and> c \<noteq> j)"
    "flying N s' = flying N s + (case own_owner ob of Some p \<Rightarrow> {#(p, CTermAck)#} | None \<Rightarrow> {#})"
    "pending_incs N s' i = pending_incs N s i"
proof -
  note I = own_invD[OF inv] and S = static_invD[OF own_invD(1)[OF inv]]
  note nk = ready_no_kids[OF inv J ob idle r] and nc = ready_no_command[OF inv J ob idle r]
  let ?t = "own_tid ob"
  have t: "?t < N" using S(2) ob by blast
  have st: "objs s' = objs s" "mail s' = mail s" by (simp_all add: s')
  have acts: "set (end_acts j ob) \<subseteq> {DeleteThis j} \<union> {Post p CTermAck |p. own_owner ob = Some p}"
      "DeleteThis j \<in> set (end_acts j ob)" "incs i (end_acts j ob) = 0" for i
    by (auto simp: end_acts_def send_term_ack_def own_process_destroy_def split: option.splits)
  have posts: "mset (posts (end_acts j ob)) = (case own_owner ob of Some p \<Rightarrow> {#(p, CTermAck)#} | None \<Rightarrow> {#})"
    by (simp add: end_acts_def send_term_ack_def own_process_destroy_def split: option.splits)
  have dying: "dying N s' c \<longleftrightarrow> dying N s c \<or> c = j" for c
    using t acts idle unfolding s' dying_def by (auto simp: fun_upd_def) (metis empty_iff list.set(1))
  show live: "live N s' c = (live N s c \<and> c \<noteq> j)" for c by (auto simp: live_def dying) (simp_all add: s')
  show kid: "kid N s' p c = (kid N s p c \<and> c \<noteq> j)" for p c by (simp add: kid_def live) (auto simp: s')
  show fl: "flying N s' = flying N s + (case own_owner ob of Some p \<Rightarrow> {#(p, CTermAck)#} | None \<Rightarrow> {#})"
    using flying_at[OF t, of s' s] idle posts by (simp add: s')
  show "pending_incs N s' i = pending_incs N s i" for i
    using pending_incs_at[OF t, of s' s i] idle acts(3) by (simp add: s')
  have parent: "kid N s p j" if "own_owner ob = Some p" for p
    using that J ob by (simp add: kid_def)
  have box: "outbox_ok N s' k (outbox s' k)" if k: "k < N" for k
  proof (cases "k = ?t")
    case True
    then have "ending s' k (outbox s' k)"
      using ob by (auto simp: s' ending_def end_acts_def send_term_ack_def own_process_destroy_def split: option.splits)
    then show ?thesis by (simp add: outbox_ok_def)
  next
    case False
    then have eq: "outbox s' k = outbox s k" by (simp add: s')
    have "outbox_ok N s k (outbox s k)" using S(5) k by blast
    moreover have "launching N s' k (outbox s k)" if l: "launching N s k (outbox s k)"
    proof -
      obtain l lo c p where L: "outbox s k \<in> {[IncSeq c, Post c CPlug, IncSeq p, Post p (COwn c)],
         [Post c CPlug, IncSeq p, Post p (COwn c)], [IncSeq p, Post p (COwn c)], [Post p (COwn c)]}"
        "kid N s p c" "objs s l = Some lo" "live N s l" "own_tid lo = k" "l = p \<or> kid N s p l \<and> l < c"
        using l unfolding launching_def by blast
      have "l \<noteq> j" using L(3,5) ob False by auto
      moreover have "(p, COwn c) \<in># flying N s" using L(1) k by (auto simp: in_flying in_posts)
      then have "0 < owns N s p c" by (auto simp: tally_pos)
      then have "c \<noteq> j" using kid_invD(3)[OF I(3) L(2)] r ob by (auto simp: stage_def ready_def)
      ultimately have "kid N s' p c" "live N s' l" "l = p \<or> kid N s' p l \<and> l < c" "objs s' l = Some lo"
        using L(2-4,6) by (simp_all add: kid live st)
      then show ?thesis unfolding launching_def using L(1,5) by blast
    qed
    moreover have "requesting N s' k (outbox s k)" if "requesting N s k (outbox s k)"
      using that ob False by (auto simp: requesting_def kid) (auto simp: s')
    moreover have "ending s' k (outbox s k) = ending s k (outbox s k)" by (simp add: ending_def s')
    ultimately show ?thesis unfolding eq outbox_ok_def by blast
  qed
  have req: "request_ok N s' p (mail s' k)" if k: "k < N" for k p
    unfolding request_ok_def
  proof (intro allI impI)
    fix pre x post assume "mail s' k = pre @ (p, CTermReq x) # post"
    then have "mail s k = pre @ (p, CTermReq x) # post" by (simp add: s')
    then consider "kid N s p x" | "(p, CTermAck) \<in> set post" | h where "h < N" "Post p CTermAck \<in> set (outbox s h)"
      using S(6) k unfolding request_ok_def by blast
    then show "kid N s' p x \<or> (p, CTermAck) \<in> set post \<or> (\<exists>t<N. Post p CTermAck \<in> set (outbox s' t))"
    proof cases
      case 1
      show ?thesis
      proof (cases "x = j")
        case True
        then have "own_owner ob = Some p" using 1 ob by (simp add: kid_def)
        then have "Post p CTermAck \<in> set (outbox s' ?t)" by (simp add: s' end_acts_def send_term_ack_def)
        then show ?thesis using t by blast
      qed (use 1 kid in simp)
    next
      case (3 h)
      then have "h \<noteq> ?t" using idle by auto
      then show ?thesis using 3 by (auto simp: s')
    qed simp
  qed
  have "live N s' (fst x)" if xm: "x \<in># flying N s'" for x
  proof (cases "x \<in># flying N s")
    case True
    then show ?thesis using S(4) nc by (cases x) (auto simp: live)
  next
    case False
    then obtain p where "own_owner ob = Some p" "x = (p, CTermAck)"
      using xm by (auto simp: fl split: option.splits)
    then show ?thesis using kid_invD(1,2)[OF I(3) parent] by (auto simp: live)
  qed
  moreover have "\<forall>i. fresh s' \<le> i \<longrightarrow> objs s' i = None" "\<forall>i o'. objs s' i = Some o' \<longrightarrow> own_tid o' < N"
      "\<forall>t<N. \<forall>x\<in>set (mail s' t). \<exists>ob. objs s' (fst x) = Some ob \<and> own_tid ob = t"
    using S(1,2,3) by (simp_all add: s')
  ultimately show "static_inv N s'" using box req unfolding static_inv_def by blast
qed

lemma ending_inv:
  assumes inv: "own_inv N s" and J: "live N s j" and ob: "objs s j = Some ob" and idle: "outbox s (own_tid ob) = []"
    and r: "ready ob" and s': "s' = s\<lparr>outbox := (outbox s)(own_tid ob := end_acts j ob)\<rparr>"
  shows "own_inv N s'"
proof -
  note E = ending_static[OF assms] and I = own_invD[OF inv]
  note nk = ready_no_kids[OF inv J ob idle r] and nc = ready_no_command[OF inv J ob idle r]
  have T: "terms N s' c = terms N s c" "owns N s' p c = owns N s p c" "counted N s' i = counted N s i"
      "acks N s' p = acks N s p + (if own_owner ob = Some p then 1 else 0)" for c p i
    by (simp_all add: tally_def E(4) split: option.splits)
  have st: "objs s' = objs s" "awaited s' = awaited s" by (simp_all add: s')
  have pj: "own_owner ob = Some p \<longleftrightarrow> kid N s p j" for p using J ob by (simp add: kid_def)
  have asked: "card (asked N s' p) + (if own_owner ob = Some p then 1 else 0) = card (asked N s p)" for p
  proof -
    have "asked N s' p = asked N s p - {j}" by (auto simp: asked_def E(2) T st)
    moreover have "j \<in> asked N s p \<longleftrightarrow> own_owner ob = Some p"
      using pj r ob by (auto simp: asked_def ready_def)
    moreover have "j \<in> asked N s p \<Longrightarrow> card (asked N s p) = Suc (card (asked N s p - {j}))"
      using asked_finite[OF I(1), of p] by (rule card.remove)
    ultimately show ?thesis by simp
  qed
  have "count_inv N s'"
    unfolding count_inv_def
  proof (intro allI impI)
    fix i o' assume "live N s' i \<and> objs s' i = Some o'"
    then have l: "live N s i" "objs s i = Some o'" "i \<noteq> j" by (simp_all add: E(3) st)
    note C = count_invD[OF I(2) l(1,2)]
    have "card (asked N s' i) + acks N s' i = card (asked N s i) + acks N s i"
      using asked[of i] T(4)[of i] by simp
    moreover have "kid N s' i c" if "c \<in> own_owned o'" for c
      using C(4)[OF that] owned_kid(4)[OF inv l(1,2) that] r ob by (auto simp: E(2) ready_def)
    ultimately show "unat (own_sent o') + pending_incs N s' i = unat (own_processed o') + counted N s' i \<and>
        own_acks o' = int (card (asked N s' i) + acks N s' i + awaited s' i) \<and>
        (own_terminating o' \<longrightarrow> own_owned o' = {}) \<and> (\<forall>c \<in> own_owned o'. kid N s' i c)"
      using C by (simp add: E(5) T(3) st)
  qed
  moreover have "kid_inv N s'"
    unfolding kid_inv_def
  proof (intro conjI allI impI)
    fix p c assume "kid N s' p c"
    then have k: "kid N s p c" "c \<noteq> j" by (simp_all add: E(2))
    show "p < c" by (rule kid_invD(1)[OF I(3) k(1)])
    show "live N s' p" using kid_invD(2)[OF I(3) k(1)] nk k(1) by (auto simp: E(3))
    show "stage N s' p c = 1" using kid_invD(3)[OF I(3) k(1)] by (simp add: stage_def T st)
  next
    fix p c assume o: "0 < owns N s' p c"
    then have k: "kid N s p c" using kid_invD(4)[OF I(3)] T(2) by simp
    then have "c \<noteq> j" using kid_invD(3)[OF I(3) k] o r ob T(2) by (auto simp: stage_def ready_def)
    then show "kid N s' p c" using k by (simp add: E(2))
  next
    fix c assume o: "0 < terms N s' c"
    then obtain p where k: "kid N s p c" using kid_invD(5)[OF I(3)] T(1) by auto
    then have "c \<noteq> j" using kid_invD(3)[OF I(3) k] o r ob T(1) by (auto simp: stage_def ready_def)
    then show "\<exists>p. kid N s' p c" using k by (auto simp: E(2))
  qed
  ultimately show ?thesis using E(1) by (simp add: own_inv_def)
qed

section \<open>The steps of a thread\<close>

lemma outbox_ok_tl:
  assumes "outbox_ok N s t (x # xs)"
  shows "outbox_ok N s t xs"
proof -
  consider "launching N s t (x # xs)" | "requesting N s t (x # xs)" | "terming (x # xs)" | "ending s t (x # xs)"
    using assms by (auto simp: outbox_ok_def)
  then show ?thesis
  proof cases
    case 1
    then obtain l lo c p where "x # xs \<in> {[IncSeq c, Post c CPlug, IncSeq p, Post p (COwn c)],
       [Post c CPlug, IncSeq p, Post p (COwn c)], [IncSeq p, Post p (COwn c)], [Post p (COwn c)]}"
       "kid N s p c" "objs s l = Some lo" "live N s l" "own_tid lo = t" "l = p \<or> kid N s p l \<and> l < c"
      unfolding launching_def by blast
    moreover from this(1) have "xs = [] \<or> xs \<in> {[IncSeq c, Post c CPlug, IncSeq p, Post p (COwn c)],
       [Post c CPlug, IncSeq p, Post p (COwn c)], [IncSeq p, Post p (COwn c)], [Post p (COwn c)]}" by auto
    ultimately have "xs = [] \<or> launching N s t xs" unfolding launching_def by blast
    then show ?thesis by (auto simp: outbox_ok_def terming_def)
  qed (auto simp: outbox_ok_def requesting_def terming_def ending_def)
qed

text \<open>A step of a thread that deallocates nothing.\<close>

lemma step_shape:
  assumes t: "t < N" and box: "outbox s t = x # as" and x: "\<forall>c. x \<noteq> DeleteThis c" and s': "outbox s' = (outbox s)(t := as)"
    and obs: "\<And>i. map_option (\<lambda>ob. (own_tid ob, own_owner ob)) (objs s' i) = map_option (\<lambda>ob. (own_tid ob, own_owner ob)) (objs s i)"
  shows "live N s' = live N s" "kid N s' = kid N s" "outbox_ok N s' k ys = outbox_ok N s k ys"
    "pending_incs N s' i + incs i [x] = pending_incs N s i"
proof -
  have dying: "dying N s' c = dying N s c" for c
    using t box x s' by (auto simp: dying_def; metis set_ConsD list.set_intros(2))
  show live: "live N s' = live N s"
  proof
    fix c show "live N s' c = live N s c" using obs[of c] by (cases "objs s c"; cases "objs s' c") (auto simp: live_def dying)
  qed
  have own: "own_owner (the (objs s' c)) = own_owner (the (objs s c))" if "objs s c \<noteq> None" for c
    using obs[of c] that by (cases "objs s c"; cases "objs s' c") auto
  show kid: "kid N s' = kid N s"
    using own by (intro ext) (auto simp: kid_def live live_def)
  have ex: "(\<exists>ob. objs s' l = Some ob \<and> Q (own_tid ob) (own_owner ob)) \<longleftrightarrow>
      (\<exists>ob. objs s l = Some ob \<and> Q (own_tid ob) (own_owner ob))" for Q l
    using obs[of l] by (cases "objs s l"; cases "objs s' l") auto
  have "launching N s' k ys = launching N s k ys"
    using ex[of _ "\<lambda>td ow. td = k"] unfolding launching_def kid live by blast
  moreover have "requesting N s' k ys = requesting N s k ys"
    using ex[of _ "\<lambda>td ow. td = k"] unfolding requesting_def kid by blast
  moreover have "ending s' k ys = ending s k ys"
    using ex[of _ "\<lambda>td ow. td = k \<and> (ys = [DeleteThis l] \<or> (\<exists>p. ow = Some p \<and> ys = [Post p CTermAck, DeleteThis l]))" for l]
    unfolding ending_def by blast
  ultimately show "outbox_ok N s' k ys = outbox_ok N s k ys" by (simp add: outbox_ok_def)
  show "pending_incs N s' i + incs i [x] = pending_incs N s i"
    using pending_incs_at[OF t, of s' s i] box s' by (cases x) (auto split: if_splits)
qed

lemma perform_inc:
  assumes inv: "own_inv N s" and t: "t < N" and box: "outbox s t = IncSeq j # as" and ob: "objs s j = Some ob"
    and bound: "unat (own_sent ob) + 1 < 4294967296"
    and s': "s' = s\<lparr>outbox := (outbox s)(t := as), objs := (objs s)(j \<mapsto> own_inc_seqnum ob)\<rparr>"
  shows "own_inv N s'"
proof -
  note I = own_invD[OF inv] and S = static_invD[OF own_invD(1)[OF inv]]
  have sent: "unat (own_sent (own_inc_seqnum ob)) = Suc (unat (own_sent ob))"
    using bound by (simp add: own_inc_seqnum_def counter_add_1)
  have same: "own_tid (own_inc_seqnum ob) = own_tid ob" "own_owner (own_inc_seqnum ob) = own_owner ob"
      "own_processed (own_inc_seqnum ob) = own_processed ob" "own_acks (own_inc_seqnum ob) = own_acks ob"
      "own_owned (own_inc_seqnum ob) = own_owned ob" "own_terminating (own_inc_seqnum ob) = own_terminating ob"
    by (simp_all add: own_inc_seqnum_def)
  have st: "outbox s' = (outbox s)(t := as)" "mail s' = mail s" "awaited s' = awaited s" "fresh s' = fresh s"
      "objs s' = (objs s)(j \<mapsto> own_inc_seqnum ob)" by (simp_all add: s')
  note P = step_shape[OF t box _ st(1)]
  have P': "live N s' = live N s" "kid N s' = kid N s" "outbox_ok N s' k ys = outbox_ok N s k ys"
    "pending_incs N s' i + incs i [IncSeq j] = pending_incs N s i" for k ys i
    by (rule P; simp add: st(5) ob same)+
  have fl: "flying N s' = flying N s"
    using flying_at[OF t, of s' s] box by (simp add: st)
  have T: "tally Q N s' = tally Q N s" for Q by (simp add: tally_def fl)
  have the: "own_owned (the (objs s' c)) = own_owned (the (objs s c))"
      "own_terminating (the (objs s' c)) = own_terminating (the (objs s c))" for c
    by (simp_all add: st(5) ob same)
  have asked: "asked N s' p = asked N s p" for p by (rule asked_cong) (simp_all add: P' T the)
  have "request_ok N s' p (mail s k)" if "k < N" for k p
  proof -
    have "request_ok N s p (mail s k)" using S(6) that by blast
    moreover have "Post p CTermAck \<in> set (outbox s' h) \<longleftrightarrow> Post p CTermAck \<in> set (outbox s h)" for h
      using box by (simp add: st)
    ultimately show ?thesis unfolding request_ok_def P' by blast
  qed
  moreover have "outbox_ok N s' k (outbox s' k)" if "k < N" for k
  proof (cases "k = t")
    case True
    have "outbox_ok N s t (IncSeq j # as)" using S(5) t box by metis
    then show ?thesis using True by (simp add: P' st outbox_ok_tl)
  qed (use S(5) that in \<open>simp add: P' st\<close>)
  moreover have "\<exists>o'. objs s' (fst x) = Some o' \<and> own_tid o' = k" if kx: "k < N" "x \<in> set (mail s k)" for k x
  proof -
    obtain o' where "objs s (fst x) = Some o'" "own_tid o' = k" using S(3) kx by blast
    then show ?thesis using ob same(1) by (cases "fst x = j") (simp_all add: st(5))
  qed
  moreover have "objs s' i = None" if "fresh s' \<le> i" for i
    using S(1) that ob by (cases "i = j") (auto simp: st)
  moreover have "own_tid o' < N" if "objs s' i = Some o'" for i o'
    using S(2) that ob same(1) by (cases "i = j") (auto simp: st(5))
  ultimately have "static_inv N s'"
    unfolding static_inv_def P' fl st(2) using S(4) by blast
  moreover have "count_inv N s'"
    unfolding count_inv_def
  proof (intro allI impI)
    fix i o' assume "live N s' i \<and> objs s' i = Some o'"
    then obtain o1 where o1: "live N s i" "objs s i = Some o1" "own_owned o' = own_owned o1" "own_acks o' = own_acks o1"
        "own_terminating o' = own_terminating o1" "own_processed o' = own_processed o1"
        "unat (own_sent o') = unat (own_sent o1) + (if i = j then 1 else 0)"
      using ob sent same by (cases "i = j") (auto simp: P'(1) st(5))
    note C = count_invD[OF I(2) o1(1,2)]
    have "unat (own_sent o') + pending_incs N s' i = unat (own_processed o') + counted N s' i"
      using C(1) o1(6,7) P'(4)[of i] T by (auto split: if_splits)
    then show "unat (own_sent o') + pending_incs N s' i = unat (own_processed o') + counted N s' i \<and>
        own_acks o' = int (card (asked N s' i) + acks N s' i + awaited s' i) \<and>
        (own_terminating o' \<longrightarrow> own_owned o' = {}) \<and> (\<forall>c \<in> own_owned o'. kid N s' i c)"
      using C(2-4) o1(3-5) by (simp add: asked T st(3) P'(2))
  qed
  moreover have "kid_inv N s'"
    using I(3) by (simp add: kid_inv_def stage_def P' T the)
  ultimately show ?thesis by (simp add: own_inv_def)
qed

lemma snoc_split: "xs @ [y] = pre @ a # post \<Longrightarrow> post = [] \<and> a = y \<or> (\<exists>post0. post = post0 @ [y] \<and> xs = pre @ a # post0)"
  by (cases post rule: rev_cases) auto

lemma perform_post:
  assumes inv: "own_inv N s" and t: "t < N" and box: "outbox s t = Post j c # as" and ob: "objs s j = Some ob"
    and s': "s' = s\<lparr>outbox := (outbox s)(t := as), mail := (mail s)(own_tid ob := mail s (own_tid ob) @ [(j, c)])\<rparr>"
  shows "own_inv N s'"
proof -
  note I = own_invD[OF inv] and S = static_invD[OF own_invD(1)[OF inv]]
  let ?u = "own_tid ob"
  have u: "?u < N" using S(2) ob by blast
  have st: "outbox s' = (outbox s)(t := as)" "mail s' = (mail s)(?u := mail s ?u @ [(j, c)])"
      "awaited s' = awaited s" "fresh s' = fresh s" "objs s' = objs s" by (simp_all add: s')
  note P = step_shape[OF t box _ st(1)]
  have P': "live N s' = live N s" "kid N s' = kid N s" "outbox_ok N s' k ys = outbox_ok N s k ys"
    "pending_incs N s' i + incs i [Post j c] = pending_incs N s i" for k ys i
    by (rule P; simp add: st)+
  have fl: "flying N s' = flying N s"
  proof -
    define s1 where "s1 = s\<lparr>outbox := (outbox s)(t := as)\<rparr>"
    have "flying N s1 + {#(j, c)#} = flying N s"
      using flying_at[OF t, of s1 s] box by (simp add: s1_def)
    moreover have "flying N s' = flying N s1 + {#(j, c)#}"
      using flying_at[OF u, of s' s1] by (simp add: s1_def st)
    ultimately show ?thesis by simp
  qed
  have T: "tally Q N s' = tally Q N s" for Q by (simp add: tally_def fl)
  have asked: "asked N s' p = asked N s p" for p by (rule asked_cong) (simp_all add: P' T st)
  have "request_ok N s' p (mail s' k)" if k: "k < N" for k p
    unfolding request_ok_def
  proof (intro allI impI)
    fix pre x post assume m: "mail s' k = pre @ (p, CTermReq x) # post"
    show "kid N s' p x \<or> (p, CTermAck) \<in> set post \<or> (\<exists>t<N. Post p CTermAck \<in> set (outbox s' t))"
    proof -
      consider "k = ?u" "post = []" "(p, CTermReq x) = (j, c)"
        | post0 where "mail s k = pre @ (p, CTermReq x) # post0" "set post0 \<subseteq> set post" "k = ?u \<longrightarrow> (j, c) \<in> set post"
        using m snoc_split[of "mail s ?u" "(j, c)" pre "(p, CTermReq x)" post] by (cases "k = ?u") (auto simp: st subset_insertI)
      then show ?thesis
      proof cases
        case 1
        then have "requesting N s t (outbox s t)"
          using S(5) t box by (auto simp: outbox_ok_def launching_def terming_def ending_def)
        then show ?thesis using 1 box by (auto simp: requesting_def P')
      next
        case (2 post0)
        have "request_ok N s p (mail s k)" using S(6) k by blast
        then consider "kid N s p x" | "(p, CTermAck) \<in> set post0" | h where "h < N" "Post p CTermAck \<in> set (outbox s h)"
          using 2(1) unfolding request_ok_def by blast
        then show ?thesis
        proof cases
          case 3
          show ?thesis
          proof (cases "Post p CTermAck = Post j c \<and> h = t")
            case True
            obtain o' where "objs s p = Some o'" "own_tid o' = k" using S(3) k 2(1) by fastforce
            then have "k = ?u" using True ob by simp
            then show ?thesis using 2(3) True by simp
          next
            case False
            then have "Post p CTermAck \<in> set (outbox s' h)" using 3 box by (auto simp: st)
            then show ?thesis using 3(1) by blast
          qed
        qed (use 2(2) in \<open>auto simp: P'\<close>)
      qed
    qed
  qed
  moreover have "outbox_ok N s' k (outbox s' k)" if "k < N" for k
  proof (cases "k = t")
    case True
    have "outbox_ok N s t (Post j c # as)" using S(5) t box by metis
    then show ?thesis using True by (simp add: P' st outbox_ok_tl)
  qed (use S(5) that in \<open>simp add: P' st\<close>)
  moreover have "\<exists>o'. objs s (fst x) = Some o' \<and> own_tid o' = k" if kx: "k < N" "x \<in> set (mail s' k)" for k x
  proof -
    have "x \<in> set (mail s k) \<or> k = ?u \<and> x = (j, c)" using kx(2) by (auto simp: st split: if_splits)
    then show ?thesis using S(3) kx(1) ob by auto
  qed
  ultimately have "static_inv N s'"
    unfolding static_inv_def P' fl st(4,5) using S(1,2,4) by blast
  moreover have "count_inv N s'"
    using I(2) by (simp add: count_inv_def P'(1,2) P'(4)[simplified] st(3,5) T asked)
  moreover have "kid_inv N s'"
    using I(3) by (simp add: kid_inv_def stage_def P'(1,2) T st(5))
  ultimately show ?thesis by (simp add: own_inv_def)
qed

lemma perform_delete:
  assumes inv: "own_inv N s" and t: "t < N" and box: "outbox s t = DeleteThis j # as"
    and s': "s' = s\<lparr>outbox := (outbox s)(t := as), objs := (objs s)(j := None)\<rparr>"
  shows "own_inv N s'" "objs s j \<noteq> None"
proof -
  note I = own_invD[OF inv] and S = static_invD[OF own_invD(1)[OF inv]]
  have "ending s t (outbox s t)"
    using S(5) t box by (auto simp: outbox_ok_def launching_def terming_def requesting_def)
  then obtain ob where ob: "objs s j = Some ob" "own_tid ob = t" "as = []"
    using box by (auto simp: ending_def)
  then show "objs s j \<noteq> None" by simp
  have st: "outbox s' = (outbox s)(t := [])" "mail s' = mail s" "awaited s' = awaited s" "fresh s' = fresh s"
      "objs s' = (objs s)(j := None)" by (simp_all add: s' ob(3))
  have dj: "dying N s j" using t box by (auto simp: dying_def)
  have dying: "dying N s' c \<longleftrightarrow> dying N s c \<and> c \<noteq> j" for c
  proof -
    have "DeleteThis j \<notin> set (outbox s h)" if "h < N" "h \<noteq> t" for h
    proof
      assume d: "DeleteThis j \<in> set (outbox s h)"
      then have "ending s h (outbox s h)"
        using S(5) that(1) by (auto simp: outbox_ok_def launching_def terming_def requesting_def)
      then show False using d ob(1,2) that(2) by (auto simp: ending_def)
    qed
    note other = this
    have "DeleteThis c \<in> set (outbox s' h) \<longleftrightarrow> DeleteThis c \<in> set (outbox s h) \<and> c \<noteq> j" if "h < N" for h
      using that other box ob(3) by (cases "h = t"; cases "c = j") (simp_all add: st)
    then show ?thesis unfolding dying_def by blast
  qed
  have live: "live N s' = live N s"
    using dj by (intro ext) (auto simp: live_def dying st)
  have nj: "\<not> live N s j" using dj by (simp add: live_def)
  have the: "objs s' c = objs s c" if "live N s c" for c using that nj by (auto simp: st)
  have kid: "kid N s' = kid N s"
    using the by (intro ext) (auto simp: kid_def live)
  have fl: "flying N s' = flying N s"
    using flying_at[OF t, of s' s] box ob(3) by (simp add: st)
  have pe: "pending_incs N s' i = pending_incs N s i" for i
    using pending_incs_at[OF t, of s' s i] box ob(3) by (simp add: st)
  have T: "tally Q N s' = tally Q N s" for Q by (simp add: tally_def fl)
  have asked: "asked N s' p = asked N s p" for p
    by (rule asked_cong) (simp_all add: kid T the kid_live)
  have box': "outbox_ok N s' k (outbox s' k)" if k: "k < N" for k
  proof (cases "k = t")
    case True
    then show ?thesis by (simp add: st outbox_ok_def terming_def)
  next
    case False
    have "outbox_ok N s k (outbox s k)" using S(5) k by blast
    moreover have "launching N s' k (outbox s k)" if "launching N s k (outbox s k)"
      using that the unfolding launching_def kid live by (metis (no_types, lifting))
    moreover have "requesting N s' k (outbox s k)" if "requesting N s k (outbox s k)"
      using that the kid_live unfolding requesting_def kid by (metis (no_types, lifting))
    moreover have "ending s' k (outbox s k)" if "ending s k (outbox s k)"
      using that ob(1,2) False unfolding ending_def st(5) by (metis fun_upd_other option.inject)
    ultimately show ?thesis using False by (auto simp: outbox_ok_def st)
  qed
  have "request_ok N s' p (mail s k)" if "k < N" for k p
  proof -
    have "request_ok N s p (mail s k)" using S(6) that by blast
    moreover have "Post p CTermAck \<in> set (outbox s' h) \<longleftrightarrow> Post p CTermAck \<in> set (outbox s h)" for h
      using box ob(3) by (simp add: st)
    ultimately show ?thesis unfolding request_ok_def kid by blast
  qed
  moreover have "\<exists>o'. objs s' (fst x) = Some o' \<and> own_tid o' = k" if kx: "k < N" "x \<in> set (mail s k)" for k x
  proof -
    have "live N s (fst x)" using S(4) in_flying_mail[OF kx] by blast
    then show ?thesis using S(3) kx the by simp
  qed
  moreover have "objs s' i = None" if "fresh s' \<le> i" for i using S(1) that by (simp add: st)
  moreover have "own_tid o' < N" if "objs s' i = Some o'" for i o'
    using S(2) that by (auto simp: st split: if_splits)
  ultimately have "static_inv N s'"
    unfolding static_inv_def live fl st(2) using S(4) box' by blast
  moreover have "count_inv N s'"
    unfolding count_inv_def
  proof (intro allI impI)
    fix i o' assume "live N s' i \<and> objs s' i = Some o'"
    then have l: "live N s i" "objs s i = Some o'" using the by (auto simp: live)
    show "unat (own_sent o') + pending_incs N s' i = unat (own_processed o') + counted N s' i \<and>
        own_acks o' = int (card (asked N s' i) + acks N s' i + awaited s' i) \<and>
        (own_terminating o' \<longrightarrow> own_owned o' = {}) \<and> (\<forall>c \<in> own_owned o'. kid N s' i c)"
      using count_invD[OF I(2) l] by (simp add: pe T asked st(3) kid)
  qed
  moreover have "kid_inv N s'"
    using I(3) the unfolding kid_inv_def stage_def live kid T by (metis (no_types, lifting) kid_live)
  ultimately show "own_inv N s'" by (simp add: own_inv_def)
qed

section \<open>New objects\<close>

lemma runnable_live:
  assumes "own_inv N s" "runnable i s"
  obtains ob where "objs s i = Some ob" "live N s i" "outbox s (own_tid ob) = []" "own_tid ob < N"
proof -
  note S = static_invD[OF own_invD(1)[OF assms(1)]]
  obtain ob where ob: "objs s i = Some ob" "outbox s (own_tid ob) = []"
    using assms(2) by (auto simp: runnable_def split: option.splits)
  have "\<not> dying N s i"
  proof
    assume "dying N s i"
    then obtain t where t: "t < N" "DeleteThis i \<in> set (outbox s t)" by (auto simp: dying_def)
    then have "ending s t (outbox s t)"
      using S(5) by (auto simp: outbox_ok_def launching_def terming_def requesting_def)
    then show False using t(2) ob by (auto simp: ending_def)
  qed
  then show ?thesis using that[OF ob(1) _ ob(2)] ob(1) S(2) by (auto simp: live_def)
qed

text \<open>Nothing refers to an object that does not exist yet.\<close>

lemma fresh_unknown:
  assumes inv: "own_inv N s" and c: "fresh s \<le> c"
  shows "objs s c = None" "\<not> live N s c" "\<not> kid N s p c" "\<not> kid N s c d" "x \<in># flying N s \<Longrightarrow> fst x \<noteq> c"
    "owns N s p c = 0" "terms N s c = 0" "counted N s c = 0" "acks N s c = 0" "owns N s c d = 0" "pending_incs N s c = 0"
    "asked N s c = {}" "\<not> dying N s c"
proof -
  note I = own_invD[OF inv] and S = static_invD[OF own_invD(1)[OF inv]]
  show o: "objs s c = None" using S(1) c by blast
  then show l: "\<not> live N s c" by (simp add: live_def)
  then show k: "\<not> kid N s p c" for p by (simp add: kid_def)
  show kd: "\<not> kid N s c d" for d using kid_invD(2)[OF I(3)] l by blast
  show "fst x \<noteq> c" if "x \<in># flying N s" for x using S(4) that l by blast
  show "owns N s p c = 0" using kid_invD(4)[OF I(3), of p c] k by blast
  show "terms N s c = 0" using kid_invD(5)[OF I(3), of c] k by blast
  have none: "tally P N s = 0" if "\<And>x. P x \<Longrightarrow> fst x = c" for P
    unfolding tally_0 using S(4) l that by metis
  show "counted N s c = 0" by (rule none) (auto simp: is_counted_iff)
  show "acks N s c = 0" by (rule none) auto
  show "owns N s c d = 0" by (rule none) auto
  show "asked N s c = {}" using kd by (simp add: asked_def)
  show "pending_incs N s c = 0"
    unfolding pending_incs_0
  proof (intro allI impI notI)
    fix t assume t: "t < N" "IncSeq c \<in> set (outbox s t)"
    then have "launching N s t (outbox s t)"
      using S(5) by (auto simp: outbox_ok_def ending_def terming_def requesting_def)
    then obtain d p where "kid N s p d" "c = d \<or> c = p" using t(2) by (auto simp: launching_def)
    then show False using k kd by blast
  qed
  show "\<not> dying N s c"
  proof
    assume "dying N s c"
    then obtain t where t: "t < N" "DeleteThis c \<in> set (outbox s t)" by (auto simp: dying_def)
    then have "ending s t (outbox s t)"
      using S(5) by (auto simp: outbox_ok_def launching_def terming_def requesting_def)
    then show False using t(2) o by (auto simp: ending_def)
  qed
qed

lemma new_root_inv:
  assumes inv: "own_inv N s" and t: "t < N"
    and s': "s' = s\<lparr>objs := (objs s)(fresh s \<mapsto> own_new t lngr), awaited := (awaited s)(fresh s := 0), fresh := fresh s + 1\<rparr>"
  shows "own_inv N s'"
proof -
  let ?c = "fresh s"
  note I = own_invD[OF inv] and S = static_invD[OF own_invD(1)[OF inv]] and F = fresh_unknown[OF inv order_refl]
  have st: "outbox s' = outbox s" "mail s' = mail s" "fresh s' = Suc ?c" "objs s' = (objs s)(?c \<mapsto> own_new t lngr)"
      "awaited s' = (awaited s)(?c := 0)" by (simp_all add: s')
  have fl: "flying N s' = flying N s" by (simp add: flying_def st)
  have pe: "pending_incs N s' i = pending_incs N s i" for i by (simp add: pending_incs_def st)
  have T: "tally Q N s' = tally Q N s" for Q by (simp add: tally_def fl)
  have live: "live N s' i \<longleftrightarrow> live N s i \<or> i = ?c" for i using F(1,13) by (auto simp: live_def dying_def st)
  have kid: "kid N s' = kid N s" using F(1,2) by (intro ext) (auto simp: kid_def live st own_new_def)
  have asked: "asked N s' p = asked N s p" for p
    by (rule asked_cong) (use F(3) in \<open>auto simp: kid T st\<close>)
  have old: "objs s' i = objs s i" if "objs s i \<noteq> None" for i using that F(1) by (auto simp: st)
  have "outbox_ok N s' k (outbox s k)" if "k < N" for k
  proof -
    have "outbox_ok N s k (outbox s k)" using S(5) that by blast
    moreover have "launching N s' k (outbox s k)" if "launching N s k (outbox s k)"
      using that old live unfolding launching_def kid by (metis (no_types, lifting) option.distinct(1))
    moreover have "requesting N s' k (outbox s k)" if "requesting N s k (outbox s k)"
      using that old unfolding requesting_def kid by (metis (no_types, lifting) option.distinct(1))
    moreover have "ending s' k (outbox s k)" if "ending s k (outbox s k)"
      using that old unfolding ending_def by (metis (no_types, lifting) option.distinct(1))
    ultimately show ?thesis by (auto simp: outbox_ok_def)
  qed
  moreover have "request_ok N s' p (mail s k)" if "k < N" for k p
    using S(6) that by (simp add: request_ok_def kid st(1))
  moreover have "\<exists>o'. objs s' (fst x) = Some o' \<and> own_tid o' = k" if kx: "k < N" "x \<in> set (mail s k)" for k x
    using S(3) kx old by (metis option.distinct(1))
  moreover have "objs s' i = None" if "fresh s' \<le> i" for i using S(1) that by (simp add: st)
  moreover have "own_tid o' < N" if "objs s' i = Some o'" for i o'
    using S(2) that t by (auto simp: st own_new_def split: if_splits)
  moreover have "\<forall>x\<in>#flying N s. live N s' (fst x)" using S(4) live by blast
  ultimately have "static_inv N s'" unfolding static_inv_def fl st(1,2) by blast
  moreover have "count_inv N s'"
    unfolding count_inv_def
  proof (intro allI impI)
    fix i o' assume a: "live N s' i \<and> objs s' i = Some o'"
    show "unat (own_sent o') + pending_incs N s' i = unat (own_processed o') + counted N s' i \<and>
        own_acks o' = int (card (asked N s' i) + acks N s' i + awaited s' i) \<and>
        (own_terminating o' \<longrightarrow> own_owned o' = {}) \<and> (\<forall>c \<in> own_owned o'. kid N s' i c)"
    proof (cases "i = ?c")
      case True
      then have "o' = own_new t lngr" using a by (simp add: st)
      then show ?thesis using True F by (simp add: own_new_def pe T asked st(5))
    next
      case False
      then have "live N s i" "objs s i = Some o'" using a by (simp_all add: live st)
      then show ?thesis using count_invD[OF I(2)] False by (simp add: pe T asked st(5) kid)
    qed
  qed
  moreover have "kid_inv N s'"
    unfolding kid_inv_def kid
  proof (intro conjI allI impI)
    fix p c assume k: "kid N s p c"
    show "p < c" "live N s' p" using kid_invD(1,2)[OF I(3) k] live by auto
    have "p \<noteq> ?c" "c \<noteq> ?c" using k F by auto
    then show "stage N s' p c = 1" using kid_invD(3)[OF I(3) k] by (simp add: stage_def T st(4))
  qed (use kid_invD(4,5)[OF I(3)] T in auto)
  ultimately show ?thesis by (simp add: own_inv_def)
qed

lemma launch_inv:
  assumes inv: "own_inv N s" and ob: "objs s i = Some ob" and li: "live N s i" and idle: "outbox s (own_tid ob) = []"
    and t: "t < N" and p: "p = i \<or> kid N s p i" and c: "c = fresh s"
    and s': "s' = s\<lparr>objs := (objs s)(c \<mapsto> (own_new t lngr)\<lparr>own_owner := Some p\<rparr>),
      outbox := (outbox s)(own_tid ob := send_plug c @ send_own p c), awaited := (awaited s)(c := 0), fresh := c + 1\<rparr>"
  shows "own_inv N s'"
proof -
  let ?u = "own_tid ob" and ?o = "(own_new t lngr)\<lparr>own_owner := Some p\<rparr>"
    and ?acts = "[IncSeq c, Post c CPlug, IncSeq p, Post p (COwn c)]"
  note I = own_invD[OF inv] and S = static_invD[OF own_invD(1)[OF inv]]
  note F = fresh_unknown[OF inv order_refl, folded c]
  have u: "?u < N" using S(2) ob by blast
  have lp: "live N s p" using p li kid_invD(2)[OF I(3)] by blast
  have below: "d < c" if "live N s d" for d using that S(1) live_objs unfolding c by (metis not_less)
  have st: "outbox s' = (outbox s)(?u := ?acts)" "mail s' = mail s" "fresh s' = Suc c" "objs s' = (objs s)(c \<mapsto> ?o)"
      "awaited s' = (awaited s)(c := 0)" by (simp_all add: s' send_plug_def send_own_def)
  have T: "tally Q N s' = tally Q N s + length (filter Q [(c, CPlug), (p, COwn c)])" for Q
    using tally_at[OF u, of s' s Q] idle by (simp add: st)
  have T': "terms N s' d = terms N s d" "acks N s' q = acks N s q"
      "owns N s' q d = owns N s q d + (if q = p \<and> d = c then 1 else 0)"
      "counted N s' q = counted N s q + (if q = c then 1 else 0) + (if q = p then 1 else 0)" for d q
    by (auto simp: T)
  have pe: "pending_incs N s' q = pending_incs N s q + (if q = c then 1 else 0) + (if q = p then 1 else 0)" for q
    using pending_incs_at[OF u, of s' s q] idle by (auto simp: st)
  have fl: "flying N s' = flying N s + {#(c, CPlug), (p, COwn c)#}"
    using flying_at[OF u, of s' s] idle by (simp add: st)
  have dying: "dying N s' d = dying N s d" for d
    using idle unfolding dying_def st(1) by (auto simp: fun_upd_def) (metis empty_iff list.set(1))
  have live: "live N s' d \<longleftrightarrow> live N s d \<or> d = c" for d using F(1,13) by (auto simp: live_def dying st)
  have kid: "kid N s' q d \<longleftrightarrow> kid N s q d \<or> q = p \<and> d = c" for q d
    using F(2,3) by (auto simp: kid_def live st)
  have asked: "asked N s' q = asked N s q" for q
    using F(3,7) by (auto simp: asked_def kid T' st own_new_def)
  have old: "objs s' d = objs s d" if "objs s d \<noteq> None" for d using that F(1) by (auto simp: st)
  have "outbox_ok N s' k (outbox s' k)" if k: "k < N" for k
  proof (cases "k = ?u")
    case True
    have "i = p \<or> kid N s' p i \<and> i < c" using p below li kid by blast
    moreover have "kid N s' p c" "objs s' i = Some ob" "live N s' i" using kid live li old ob by auto
    ultimately have "launching N s' k ?acts" unfolding launching_def using True by blast
    then show ?thesis using True by (simp add: outbox_ok_def st)
  next
    case False
    have "outbox_ok N s k (outbox s k)" using S(5) k by blast
    moreover have "launching N s' k (outbox s k)" if "launching N s k (outbox s k)"
      using that old live kid unfolding launching_def by (metis (no_types, lifting) option.distinct(1))
    moreover have "requesting N s' k (outbox s k)" if "requesting N s k (outbox s k)"
      using that old kid unfolding requesting_def by (metis (no_types, lifting) option.distinct(1))
    moreover have "ending s' k (outbox s k)" if "ending s k (outbox s k)"
      using that old unfolding ending_def by (metis (no_types, lifting) option.distinct(1))
    ultimately show ?thesis using False by (auto simp: outbox_ok_def st)
  qed
  moreover have "request_ok N s' q (mail s k)" if "k < N" for k q
  proof -
    have "request_ok N s q (mail s k)" using S(6) that by blast
    moreover have "Post q CTermAck \<in> set (outbox s' h)" if "Post q CTermAck \<in> set (outbox s h)" for h
      using that idle by (auto simp: st)
    ultimately show ?thesis unfolding request_ok_def kid by blast
  qed
  moreover have "\<exists>o'. objs s' (fst x) = Some o' \<and> own_tid o' = k" if kx: "k < N" "x \<in> set (mail s k)" for k x
    using S(3) kx old by (metis option.distinct(1))
  moreover have "objs s' d = None" if "fresh s' \<le> d" for d using S(1) that c by (simp add: st)
  moreover have "own_tid o' < N" if "objs s' d = Some o'" for d o'
    using S(2) that t by (auto simp: st own_new_def split: if_splits)
  moreover have "\<forall>x\<in>#flying N s'. live N s' (fst x)" using S(4) live lp by (auto simp: fl)
  ultimately have "static_inv N s'" unfolding static_inv_def st(2) by blast
  moreover have "count_inv N s'"
    unfolding count_inv_def
  proof (intro allI impI)
    fix d o' assume a: "live N s' d \<and> objs s' d = Some o'"
    show "unat (own_sent o') + pending_incs N s' d = unat (own_processed o') + counted N s' d \<and>
        own_acks o' = int (card (asked N s' d) + acks N s' d + awaited s' d) \<and>
        (own_terminating o' \<longrightarrow> own_owned o' = {}) \<and> (\<forall>e \<in> own_owned o'. kid N s' d e)"
    proof (cases "d = c")
      case True
      then have "o' = ?o" using a by (simp add: st)
      then show ?thesis using True F by (simp add: own_new_def pe T' asked st(5))
    next
      case False
      then have l: "live N s d" "objs s d = Some o'" using a by (simp_all add: live st)
      show ?thesis using count_invD[OF I(2) l] False by (simp add: pe T' asked st(5) kid)
    qed
  qed
  moreover have "kid_inv N s'"
    unfolding kid_inv_def
  proof (intro conjI allI impI)
    fix q d assume k: "kid N s' q d"
    show "q < d" using k kid_invD(1)[OF I(3)] below[OF lp] unfolding kid by blast
    show "live N s' q" using k kid_invD(2)[OF I(3)] lp unfolding kid live by blast
    show "stage N s' q d = 1"
    proof (cases "d = c")
      case True
      then have "q = p" using k F(3) kid by blast
      moreover have "c \<notin> own_owned (the (objs s' p))"
      proof -
        obtain po where po: "objs s p = Some po" using live_objs[OF lp] by blast
        then show ?thesis using count_invD(4)[OF I(2) lp po] F(3) old by auto
      qed
      ultimately show ?thesis using True F(6,7) by (simp add: stage_def T' st(4) own_new_def)
    next
      case False
      then have "kid N s q d" "q \<noteq> c" using k kid F(4) by blast+
      then show ?thesis using kid_invD(3)[OF I(3)] False by (simp add: stage_def T' st(4))
    qed
  next
    fix q d assume "0 < owns N s' q d"
    then show "kid N s' q d" using kid_invD(4)[OF I(3), of q d] by (auto simp: T' kid split: if_splits)
  next
    fix d assume "0 < terms N s' d"
    then show "\<exists>q. kid N s' q d" using kid_invD(5)[OF I(3), of d] by (auto simp: T' kid)
  qed
  ultimately show ?thesis by (simp add: own_inv_def)
qed

text \<open>An owned object asks its owner for its termination.\<close>

lemma request_inv:
  assumes inv: "own_inv N s" and ob: "objs s i = Some ob" and li: "live N s i" and idle: "outbox s (own_tid ob) = []"
    and p: "own_owner ob = Some p" and s': "s' = s\<lparr>outbox := (outbox s)(own_tid ob := send_term_req p i)\<rparr>"
  shows "own_inv N s'"
proof -
  have h: "handler N s i ob ob [] (send_term_req p i) (awaited s) s'"
    using static_invD(2)[OF own_invD(1)[OF inv]] ob idle
    unfolding handler_def by (auto simp: send_term_req_def s' fun_upd_idem)
  note H = handlerD[OF h] and T = handler_tally[OF h] and I = own_invD[OF inv]
  have k: "kid N s p i" using p li ob by (simp add: kid_def)
  have T': "terms N s' d = terms N s d" "owns N s' p d = owns N s p d" "acks N s' p = acks N s p"
      "counted N s' j = counted N s j" for d p j
    using T[of "is_term d"] T[of "(=) (p, COwn d)"] T[of "(=) (p, CTermAck)"] T[of "is_counted j"]
    by (simp_all add: send_term_req_def)
  have obs: "objs s' = objs s" by (simp add: s')
  have asked: "asked N s' q = asked N s q" for q
    by (rule asked_cong) (simp_all add: handler_kid[OF h] T' obs)
  have "static_inv N s'"
  proof (rule handler_static[OF I(1) h])
    show "outbox_ok N s (own_tid ob) (send_term_req p i)"
      using k ob by (auto simp: outbox_ok_def requesting_def send_term_req_def)
    show "\<forall>x\<in>set (posts (send_term_req p i)). live N s (fst x)"
      using kid_invD(2)[OF I(3) k] by (simp add: send_term_req_def)
  qed
  moreover have "count_inv N s'"
    by (rule handler_count[OF I(2) h]) (use count_invD[OF I(2) li ob] in \<open>simp_all add: T' asked\<close>)
  moreover have "kid_inv N s'"
    using kid_invD(4,5)[OF I(3)] by (intro handler_kid_inv[OF I(3) h]) (simp_all add: T' stage_def obs)
  ultimately show ?thesis by (simp add: own_inv_def)
qed

end
