(* ===== verification/OwnWork.thy ===== *)
theory OwnWork
  imports OwnShutdown
begin

text \<open>
  The work that is left: what the threads have to do and to handle, and what the objects that exist can still
  cause, which is to be asked to terminate once and to be deallocated once. Every step of a thread reduces it.
\<close>

fun act_work :: "own_act \<Rightarrow> nat" where
  "act_work (IncSeq j) = 1"
| "act_work (Post j c) = 2"
| "act_work (DeleteThis j) = 1"

definition box_work :: "tree \<Rightarrow> nat \<Rightarrow> nat" where
  "box_work s t = sum_list (map act_work (outbox s t)) + length (mail s t)"

definition obj_work :: "nat \<Rightarrow> tree \<Rightarrow> nat \<Rightarrow> nat" where
  "obj_work N s c = (if live N s c then 3 + (if terms N s c = 0 \<and> \<not> own_terminating (the (objs s c)) then 2 else 0) else 0)"

definition work :: "nat \<Rightarrow> tree \<Rightarrow> nat" where
  "work N s = (\<Sum>t<N. box_work s t) + (\<Sum>c<fresh s. obj_work N s c)"

lemma box_work_at:
  assumes "t < N" "\<And>k. k \<noteq> t \<Longrightarrow> outbox s' k = outbox s k \<and> mail s' k = mail s k"
  shows "(\<Sum>k<N. box_work s' k) + box_work s t = (\<Sum>k<N. box_work s k) + box_work s' t"
  by (rule sum_at[OF assms(1)]) (simp add: box_work_def assms(2))

lemma live_fresh: "static_inv N s \<Longrightarrow> live N s c \<Longrightarrow> c < fresh s"
  using static_invD(1) live_objs by (metis not_less)

lemma handler_work:
  assumes inv: "static_inv N s" and h: "handler N s j ob ob' [(j, c0)] (map (\<lambda>c. Post c (CTerm l)) ks) aw s'"
    and ks: "distinct ks" "\<And>c. c \<in> set ks \<Longrightarrow> live N s c \<and> terms N s c = 0 \<and> \<not> own_terminating (the (objs s c))"
    and tm: "own_terminating ob \<or> is_term j (j, c0) \<Longrightarrow> own_terminating ob'"
  shows "work N s' < work N s"
proof -
  note H = handlerD[OF h] and T = handler_tally[OF h]
  have tms: "terms N s' c + (if c = j \<and> is_term j (j, c0) then 1 else 0) = terms N s c + (if c \<in> set ks then 1 else 0)" for c
  proof -
    have "length (filter (\<lambda>k. k = c) ks) = (if c \<in> set ks then 1 else 0)"
      using ks(1) by (induction ks) auto
    then have "length (filter (is_term c) (posts (map (\<lambda>c. Post c (CTerm l)) ks))) = (if c \<in> set ks then 1 else 0)"
      by (simp add: posts_terms filter_map o_def)
    moreover have "length (filter (is_term c) [(j, c0)]) = (if c = j \<and> is_term j (j, c0) then 1 else 0)"
      by (cases c0) auto
    ultimately show ?thesis using T[of "is_term c"] by simp
  qed
  have obj: "obj_work N s' c + (if c \<in> set ks then 2 else 0) \<le> obj_work N s c" for c
  proof (cases "c = j")
    case True
    then show ?thesis using tms[of j] ks(2)[of j] tm H(1,6)
      by (cases "own_terminating ob"; cases "j \<in> set ks"; cases "is_term j (j, c0)")
        (auto simp: obj_work_def handler_live[OF h])
  next
    case False
    then show ?thesis using tms[of c] ks(2)[of c] H(6) by (auto simp: obj_work_def handler_live[OF h])
  qed
  have sub: "set ks \<subseteq> {..<fresh s}" using ks(2) live_fresh[OF inv] by blast
  have "(\<Sum>c<fresh s. obj_work N s' c) + 2 * length ks = (\<Sum>c<fresh s. obj_work N s' c + (if c \<in> set ks then 2 else 0))"
    using sub ks(1) by (simp add: sum.distrib sum.If_cases Int_absorb1 distinct_card)
  also have "\<dots> \<le> (\<Sum>c<fresh s. obj_work N s c)" by (rule sum_mono) (rule obj)
  finally have A: "(\<Sum>c<fresh s. obj_work N s' c) + 2 * length ks \<le> (\<Sum>c<fresh s. obj_work N s c)" .
  have "sum_list (map act_work (map (\<lambda>c. Post c (CTerm l)) ks)) = 2 * length ks" by (induction ks) simp_all
  then have "box_work s (own_tid ob) + 2 * length ks = box_work s' (own_tid ob) + 1"
    using H(3,7,10) by (simp add: box_work_def)
  moreover have "(\<Sum>k<N. box_work s' k) + box_work s (own_tid ob) = (\<Sum>k<N. box_work s k) + box_work s' (own_tid ob)"
    by (rule box_work_at[OF H(2)]) (use H(7,11) in simp)
  ultimately show ?thesis using A H(9) by (simp add: work_def)
qed

lemma ending_work:
  assumes inv: "own_inv N s" and J: "live N s j" and ob: "objs s j = Some ob" and idle: "outbox s (own_tid ob) = []"
    and r: "ready ob" and s': "s' = s\<lparr>outbox := (outbox s)(own_tid ob := end_acts j ob)\<rparr>"
  shows "work N s' \<le> work N s"
proof -
  note E = ending_static[OF assms] and I = own_invD[OF inv]
  have t: "own_tid ob < N" using static_invD(2)[OF I(1)] ob by blast
  have T: "terms N s' c = terms N s c" for c
    by (simp add: tally_def E(4) split: option.splits)
  have obj: "obj_work N s' c + (if c = j then 3 else 0) = obj_work N s c" for c
    using J ob r by (auto simp: obj_work_def E(3) T ready_def) (simp_all add: s')
  have "(\<Sum>c<fresh s. obj_work N s' c) + 3 = (\<Sum>c<fresh s. obj_work N s' c + (if c = j then 3 else 0))"
    using live_fresh[OF I(1) J] by (simp add: sum.distrib)
  then have "(\<Sum>c<fresh s. obj_work N s' c) + 3 = (\<Sum>c<fresh s. obj_work N s c)" by (simp add: obj)
  moreover have "box_work s' (own_tid ob) \<le> box_work s (own_tid ob) + 3"
    using idle by (simp add: box_work_def s' end_acts_def send_term_ack_def own_process_destroy_def split: option.splits)
  moreover have "(\<Sum>k<N. box_work s' k) + box_work s (own_tid ob) = (\<Sum>k<N. box_work s k) + box_work s' (own_tid ob)"
    by (rule box_work_at[OF t]) (simp add: s')
  moreover have "fresh s' = fresh s" by (simp add: s')
  ultimately show ?thesis by (simp add: work_def)
qed

text \<open>A step of what a handler does to others.\<close>

lemma perform_work:
  assumes obj: "\<And>c. obj_work N s' c \<le> obj_work N s c" and fr: "fresh s' = fresh s"
    and box: "(\<Sum>t<N. box_work s' t) < (\<Sum>t<N. box_work s t)"
  shows "work N s' < work N s"
  using sum_mono[of "{..<fresh s}" "obj_work N s'" "obj_work N s"] obj box fr by (simp add: work_def add_less_le_mono)

end
