(* ===== verification/OwnSafety.thy ===== *)
theory OwnSafety
  imports OwnWork
begin

text \<open>
  The shutdown of the tree of objects never uses a deallocated object and never fails an assertion.
\<close>

lemma check_ready:
  assumes "own_terminating ob \<Longrightarrow> own_owned ob = {}"
  shows "own_check_term_acks j ob = Some (if ready ob then end_acts j ob else [])"
proof -
  have "own_processed ob = ucast (own_sent ob) \<longleftrightarrow> unat (own_processed ob) = unat (own_sent ob)"
    using unat_ucast64[of "own_sent ob"] by (metis word_unat_eq_iff)
  then show ?thesis using assms
    by (simp add: own_check_term_acks_def ready_def end_acts_def atomic_counter_get_def zmq_assert_def)
qed

lemma none_readyD: "none_ready N s \<Longrightarrow> live N s i \<Longrightarrow> objs s i = Some ob \<Longrightarrow> \<not> ready ob"
  by (auto simp: none_ready_def)

text \<open>The object \<open>j\<close> runs a handler: what the handler does at once, then its end if it has become ready.\<close>

lemma run_step:
  assumes inv: "own_inv N s" and nr: "none_ready N s" and ob: "objs s j = Some ob" and J: "live N s j"
    and idle: "outbox s (own_tid ob) = []" and mail: "mail s (own_tid ob) = gone @ ms"
    and f: "f ob = Some (ob', acts @ (if ready ob' then end_acts j ob' else []))"
    and same: "own_tid ob' = own_tid ob" "own_owner ob' = own_owner ob" and acts: "\<forall>x \<in> set acts. \<exists>k c. x = Post k c"
    and r: "ready ob' \<Longrightarrow> acts = []"
    and step: "\<And>s1. handler N s j ob ob' gone acts aw s1 \<Longrightarrow> own_inv N s1"
    and wk: "\<And>s1. handler N s j ob ob' gone acts aw s1 \<Longrightarrow> gone = [] \<or> work N s1 < work N s"
  shows "\<exists>s'. run_at j f (s\<lparr>mail := (mail s)(own_tid ob := ms), awaited := aw\<rparr>) = Some s' \<and> own_inv N s' \<and>
    none_ready N s' \<and> (gone = [] \<or> work N s' < work N s)"
proof -
  define s1 where "s1 = s\<lparr>objs := (objs s)(j \<mapsto> ob'), mail := (mail s)(own_tid ob := ms),
    outbox := (outbox s)(own_tid ob := acts), awaited := aw\<rparr>"
  define s2 where "s2 = s1\<lparr>outbox := (outbox s1)(own_tid ob' := acts @ (if ready ob' then end_acts j ob' else []))\<rparr>"
  have t: "own_tid ob < N" using static_invD(2)[OF own_invD(1)[OF inv]] ob by blast
  have h: "handler N s j ob ob' gone acts aw s1"
    unfolding handler_def using ob t idle mail same acts by (auto simp: s1_def)
  note i1 = step[OF h] and live1 = handler_live[OF h]
  have ob1: "objs s1 j = Some ob'" "\<And>i. i \<noteq> j \<Longrightarrow> objs s1 i = objs s i" by (simp_all add: s1_def)
  have run: "run_at j f (s\<lparr>mail := (mail s)(own_tid ob := ms), awaited := aw\<rparr>) = Some s2"
    using ob f same(1) by (simp add: run_at_def s1_def s2_def)
  have "own_inv N s2 \<and> none_ready N s2 \<and> (gone = [] \<or> work N s2 < work N s)"
  proof (cases "ready ob'")
    case True
    have idle1: "outbox s1 (own_tid ob') = []" using r[OF True] same(1) by (simp add: s1_def)
    have s2: "s2 = s1\<lparr>outbox := (outbox s1)(own_tid ob' := end_acts j ob')\<rparr>" using r[OF True] True by (simp add: s2_def)
    have J1: "live N s1 j" using J live1 by simp
    have "\<not> ready o'" if "live N s2 i" "objs s2 i = Some o'" for i o'
    proof -
      have "live N s1 i" "i \<noteq> j" using that(1) ending_static(3)[OF i1 J1 ob1(1) idle1 True s2] by simp_all
      then show ?thesis using that(2) none_readyD[OF nr, of i o'] ob1(2) live1 by (simp add: s2)
    qed
    then show ?thesis
      using ending_inv[OF i1 J1 ob1(1) idle1 True s2] ending_work[OF i1 J1 ob1(1) idle1 True s2] wk[OF h]
      by (auto simp: none_ready_def)
  next
    case False
    then have s2: "s2 = s1" using same(1) by (simp add: s2_def s1_def)
    have "\<not> ready o'" if "live N s1 i" "objs s1 i = Some o'" for i o'
      using that none_readyD[OF nr, of i o'] ob1 live1 False by (cases "i = j") auto
    then show ?thesis using i1 wk[OF h] by (auto simp: s2 none_ready_def)
  qed
  then show ?thesis using run by blast
qed

lemma term_all_concat: "concat (map (\<lambda>c. send_term c lngr) cs) = map (\<lambda>c. Post c (CTerm lngr)) cs"
  by (induction cs) (simp_all add: send_term_def)

lemma own_acks_pos:
  assumes "own_inv N s" "live N s j" "objs s j = Some ob"
  shows "0 \<le> own_acks ob"
  using count_invD(2)[OF own_invD(2)[OF assms(1)] assms(2,3)] by simp

text \<open>Termination, asked for by a command or, for an object that has no owner, by the object itself.\<close>

lemma term_run:
  assumes inv: "own_inv N s" and nr: "none_ready N s" and ob: "objs s j = Some ob" and J: "live N s j"
    and idle: "outbox s (own_tid ob) = []" and mail: "mail s (own_tid ob) = gone @ ms"
    and nt: "\<not> own_terminating ob" and gone: "gone = [(j, CTerm l0)] \<or> gone = [] \<and> own_owner ob = None"
    and f: "f ob = own_process_term j lngr ob"
  shows "\<exists>s'. run_at j f (s\<lparr>mail := (mail s)(own_tid ob := ms), awaited := awaited s\<rparr>) = Some s' \<and>
    own_inv N s' \<and> none_ready N s' \<and> (gone = [] \<or> work N s' < work N s)"
proof -
  let ?ob' = "ob\<lparr>own_acks := own_acks ob + int (card (own_owned ob)), own_owned := {}, own_terminating := True\<rparr>"
  note fin = own_finite[OF inv J ob]
  show ?thesis
  proof (rule run_step[OF inv nr ob J idle mail, where acts = "term_all lngr (own_owned ob)" and ob' = ?ob'], goal_cases)
    case 1
    show ?case
      using nt fin check_ready[of ?ob' j]
      by (simp add: f own_process_term_def zmq_assert_def own_register_term_acks_def term_all_concat term_all_def Let_def)
  next
    case 4
    show ?case by (auto simp: term_all_def)
  next
    case 5
    then have "card (own_owned ob) = 0" using own_acks_pos[OF inv J ob] by (simp add: ready_def)
    then show ?case using fin by (simp add: term_all_def)
  next
    case (6 s1)
    show ?case by (rule core_term[OF inv J nt gone 6])
  next
    case (7 s1)
    show ?case
    proof (cases "gone = []")
      case False
      then have g: "gone = [(j, CTerm l0)]" using gone by simp
      have "live N s c \<and> terms N s c = 0 \<and> \<not> own_terminating (the (objs s c))" if "c \<in> own_owned ob" for c
        using owned_kid[OF inv J ob that] kid_live by blast
      then show ?thesis
        using handler_work[OF own_invD(1)[OF inv] 7[unfolded term_all_def g]] fin by simp
    qed simp
  qed simp_all
qed

lemma deliver_run:
  assumes inv: "own_inv N s" and nr: "none_ready N s" and t: "t < N" and idle: "outbox s t = []"
    and mail: "mail s t = (j, c) # ms"
  shows "\<exists>s'. run_at j (own_process_command j c) (s\<lparr>mail := (mail s)(t := ms), awaited := awaited s\<rparr>) = Some s' \<and>
    own_inv N s' \<and> none_ready N s' \<and> work N s' < work N s"
proof -
  note I = own_invD[OF inv] and S = static_invD[OF own_invD(1)[OF inv]]
  have "(j, c) \<in> set (mail s t)" using mail by simp
  then obtain ob where ob: "objs s j = Some ob" "own_tid ob = t" using S(3) t by fastforce
  have fly: "(j, c) \<in># flying N s" using in_flying_mail[OF t] mail by simp
  then have J: "live N s j" using S(4) by fastforce
  note C = count_invD[OF I(2) J ob(1)] and W = handler_work[OF I(1)] and R = run_step[OF inv nr ob(1) J idle[folded ob(2)], where aw = "awaited s"]
  have m: "mail s (own_tid ob) = [(j, c)] @ ms" using mail ob(2) by simp
  have R': "\<exists>s'. run_at j f (s\<lparr>mail := (mail s)(own_tid ob := ms), awaited := awaited s\<rparr>) = Some s' \<and>
      own_inv N s' \<and> none_ready N s' \<and> work N s' < work N s"
    if "mail s (own_tid ob) = [(j, c)] @ ms" "f ob = Some (ob', acts @ (if ready ob' then end_acts j ob' else []))"
      "own_tid ob' = own_tid ob" "own_owner ob' = own_owner ob" "\<forall>x \<in> set acts. \<exists>k c. x = Post k c"
      "ready ob' \<Longrightarrow> acts = []" "\<And>s1. handler N s j ob ob' [(j, c)] acts (awaited s) s1 \<Longrightarrow> own_inv N s1"
      "\<And>s1. handler N s j ob ob' [(j, c)] acts (awaited s) s1 \<Longrightarrow> work N s1 < work N s" for f ob' acts
    using R[where gone = "[(j, c)]" and ms = ms and f = f and ob' = ob' and acts = acts] that by fastforce
  have W: "work N s1 < work N s" if "handler N s j ob ob' [(j, c)] acts (awaited s) s1"
      "acts = map (\<lambda>c. Post c (CTerm l)) ks" "distinct ks"
      "\<And>c. c \<in> set ks \<Longrightarrow> kid N s j c \<and> terms N s c = 0 \<and> \<not> own_terminating (the (objs s c))"
      "own_terminating ob \<or> is_term j (j, c) \<Longrightarrow> own_terminating ob'" for s1 ob' acts l ks
    using W[OF that(1)[unfolded that(2)] that(3)] that(4,5) kid_live by blast
  show ?thesis
  proof (cases c)
    case CPlug
    have "\<exists>s'. run_at j (own_process_command j CPlug) (s\<lparr>mail := (mail s)(own_tid ob := ms), awaited := awaited s\<rparr>) = Some s' \<and>
      own_inv N s' \<and> none_ready N s' \<and> work N s' < work N s"
    proof (rule R'[OF m, where acts = "[]" and ob' = "ob\<lparr>own_processed := own_processed ob + 1\<rparr>"], goal_cases)
      case 1
      show ?case using check_ready[of "ob\<lparr>own_processed := own_processed ob + 1\<rparr>" j] C(3)
        by (simp add: Let_def own_process_seqnum_def)
    next
      case (6 s1)
      then show ?case using core_plug[OF inv] CPlug by simp
    next
      case (7 s1)
      show ?case by (rule W[OF 7, of 0 "[]"]) (simp_all add: CPlug)
    qed simp_all
    then show ?thesis by (simp add: CPlug ob(2))
  next
    case (COwn d)
    have "\<exists>s'. run_at j (own_process_command j (COwn d)) (s\<lparr>mail := (mail s)(own_tid ob := ms), awaited := awaited s\<rparr>) = Some s' \<and>
      own_inv N s' \<and> none_ready N s' \<and> work N s' < work N s"
    proof (cases "own_terminating ob")
      case True
      let ?ob' = "ob\<lparr>own_acks := own_acks ob + 1, own_processed := own_processed ob + 1\<rparr>"
      have nr': "\<not> ready ?ob'" using own_acks_pos[OF inv J ob(1)] by (simp add: ready_def)
      show ?thesis
      proof (rule R'[OF m, where acts = "[Post d (CTerm 0)]" and ob' = ?ob'], goal_cases)
        case 1
        show ?case using check_ready[of ?ob' j] C(3) nr' True
          by (simp add: Let_def own_process_seqnum_def own_process_own_def own_register_term_acks_def send_term_def)
      next
        case (6 s1)
        then show ?case using core_own_term[OF inv True] COwn by simp
      next
        case (7 s1)
        note K = own_kid[OF inv 7[unfolded COwn]]
        show ?case by (rule W[OF 7, of 0 "[d]"]) (use K True in \<open>simp_all add: COwn\<close>)
      qed (use nr' in simp_all)
    next
      case False
      let ?ob' = "ob\<lparr>own_owned := insert d (own_owned ob), own_processed := own_processed ob + 1\<rparr>"
      show ?thesis
      proof (rule R'[OF m, where acts = "[]" and ob' = ?ob'], goal_cases)
        case 1
        show ?case using check_ready[of ?ob' j] False
          by (simp add: Let_def own_process_seqnum_def own_process_own_def)
      next
        case (6 s1)
        then show ?case using core_own[OF inv False] COwn by simp
      next
        case (7 s1)
        show ?case by (rule W[OF 7, of 0 "[]"]) (use False in \<open>simp_all add: COwn\<close>)
      qed simp_all
    qed
    then show ?thesis by (simp add: COwn ob(2))
  next
    case (CTermReq d)
    have nr1: "\<not> ready ob" by (rule none_readyD[OF nr J ob(1)])
    have "\<exists>s'. run_at j (own_process_command j (CTermReq d)) (s\<lparr>mail := (mail s)(own_tid ob := ms), awaited := awaited s\<rparr>) = Some s' \<and>
      own_inv N s' \<and> none_ready N s' \<and> work N s' < work N s"
    proof (cases "own_terminating ob \<or> d \<notin> own_owned ob")
      case True
      show ?thesis
      proof (rule R'[OF m, where acts = "[]" and ob' = ob], goal_cases)
        case 1
        show ?case using True nr1 by (auto simp: own_process_term_req_def)
      next
        case (6 s1)
        then show ?case using core_ignore[OF inv] CTermReq by simp
      next
        case (7 s1)
        show ?case by (rule W[OF 7, of 0 "[]"]) (simp_all add: CTermReq)
      qed simp_all
    next
      case False
      let ?ob' = "ob\<lparr>own_owned := own_owned ob - {d}, own_acks := own_acks ob + 1\<rparr>"
      have nr': "\<not> ready ?ob'" using own_acks_pos[OF inv J ob(1)] by (simp add: ready_def)
      show ?thesis
      proof (rule R'[OF m, where acts = "[Post d (CTerm (own_linger ob))]" and ob' = ?ob'], goal_cases)
        case 1
        show ?case using nr' False by (simp add: own_process_term_req_def own_register_term_acks_def send_term_def)
      next
        case (6 s1)
        have "d \<in> own_owned ob" "\<not> own_terminating ob" using False by blast+
        then show ?case using core_grant[OF inv _ _ 6[unfolded CTermReq]] by blast
      next
        case (7 s1)
        have "d \<in> own_owned ob" using False by blast
        note K = owned_kid[OF inv J ob(1) this]
        show ?case by (rule W[OF 7, of "own_linger ob" "[d]"]) (use K False in \<open>simp_all add: CTermReq\<close>)
      qed (use nr' in simp_all)
    qed
    then show ?thesis by (simp add: CTermReq ob(2))
  next
    case (CTerm l)
    have "0 < terms N s j" using fly CTerm terms_posI by blast
    then obtain p where k: "kid N s p j" using kid_invD(5)[OF I(3)] by blast
    have nt: "\<not> own_terminating ob"
      using kid_invD(3)[OF I(3) k] \<open>0 < terms N s j\<close> ob(1) by (auto simp: stage_def split: if_splits)
    show ?thesis
      using term_run[OF inv nr ob(1) J idle[folded ob(2)] m nt, where lngr = l and f = "own_process_command j c"] CTerm
      by (simp add: ob(2))
  next
    case CTermAck
    let ?ob' = "ob\<lparr>own_acks := own_acks ob - 1\<rparr>"
    define s1 where "s1 = s\<lparr>objs := (objs s)(j \<mapsto> ?ob'), mail := (mail s)(own_tid ob := ms),
      outbox := (outbox s)(own_tid ob := []), awaited := awaited s\<rparr>"
    have "handler N s j ob ?ob' [(j, CTermAck)] [] (awaited s) s1"
      unfolding handler_def using ob t idle m CTermAck by (auto simp: s1_def)
    then have pos: "0 < own_acks ob" using core_acks(2)[OF inv J] by blast
    have "\<exists>s'. run_at j (own_process_command j CTermAck) (s\<lparr>mail := (mail s)(own_tid ob := ms), awaited := awaited s\<rparr>) = Some s' \<and>
      own_inv N s' \<and> none_ready N s' \<and> work N s' < work N s"
    proof (rule R'[OF m, where acts = "[]" and ob' = ?ob'], goal_cases)
      case 1
      show ?case using check_ready[of ?ob' j] C(3) pos
        by (simp add: Let_def own_process_term_ack_def own_unregister_term_ack_def zmq_assert_def)
    next
      case (6 s1)
      then show ?case using core_acks(1)[OF inv J] CTermAck by blast
    next
      case (7 s1)
      show ?case by (rule W[OF 7, of 0 "[]"]) (simp_all add: CTermAck)
    qed simp_all
    then show ?thesis by (simp add: CTermAck ob(2))
  qed
qed

lemma none_ready_step:
  assumes "none_ready N s"
    and "\<And>i ob. live N s' i \<Longrightarrow> objs s' i = Some ob \<Longrightarrow> ready ob \<Longrightarrow> live N s i \<and> objs s i = Some ob"
  shows "none_ready N s'"
  using assms none_readyD unfolding none_ready_def by blast

lemma perform_run:
  assumes inv: "own_inv N s" and nr: "none_ready N s" and en: "own_enabled N (Perform t) s"
  shows "\<exists>s'. own_exec (Perform t) s = Some s' \<and> own_inv N s' \<and> none_ready N s' \<and> work N s' < work N s"
proof -
  note I = own_invD[OF inv] and S = static_invD[OF own_invD(1)[OF inv]]
  obtain a as where box: "outbox s t = a # as" using en by (cases "outbox s t") auto
  have t: "t < N" using en by simp
  show ?thesis
  proof (cases a)
    case (IncSeq j)
    then have "launching N s t (outbox s t)"
      using S(5) t box by (auto simp: outbox_ok_def requesting_def terming_def ending_def)
    then have "live N s j" using box IncSeq kid_live kid_invD(2)[OF I(3)] by (auto simp: launching_def)
    then obtain ob where ob: "objs s j = Some ob" using live_objs by blast
    have bound: "unat (own_sent ob) + 1 < 4294967296" using en box IncSeq ob by simp
    define s' where "s' = s\<lparr>outbox := (outbox s)(t := as), objs := (objs s)(j \<mapsto> own_inc_seqnum ob)\<rparr>"
    note box' = box[unfolded IncSeq]
    have ex: "own_exec (Perform t) s = Some s'" using box' ob by (simp add: s'_def)
    have i': "own_inv N s'" by (rule perform_inc[OF inv t box' ob bound s'_def])
    have "none_ready N s'"
    proof (rule none_ready_step[OF nr])
      fix i o' assume a: "live N s' i" "objs s' i = Some o'" "ready o'"
      have l: "live N s' = live N s"
        by (rule step_shape(1)[OF t box', of s']) (use ob in \<open>simp_all add: s'_def own_inc_seqnum_def\<close>)
      show "live N s i \<and> objs s i = Some o'"
      proof (cases "i = j")
        case True
        have o': "o' = own_inc_seqnum ob" using a(2) True by (simp add: s'_def)
        have "unat (own_sent o') = Suc (unat (own_sent ob))"
          using bound by (simp add: o' own_inc_seqnum_def counter_add_1)
        moreover have "unat (own_processed o') \<le> unat (own_sent ob)"
          using count_invD(1)[OF I(2) \<open>live N s j\<close> ob] pending_le[OF S(5) t, of j] by (simp add: o' own_inc_seqnum_def)
        ultimately show ?thesis using a(3) by (simp add: ready_def)
      qed (use a l in \<open>simp add: s'_def\<close>)
    qed
    moreover have "work N s' < work N s"
    proof (rule perform_work)
      have l: "live N s' = live N s"
        by (rule step_shape(1)[OF t box', of s']) (use ob in \<open>simp_all add: s'_def own_inc_seqnum_def\<close>)
      have "flying N s' = flying N s" using flying_at[OF t, of s' s] box' by (simp add: s'_def)
      then have "terms N s' c = terms N s c" for c by (simp add: tally_def)
      moreover have "own_terminating (the (objs s' c)) = own_terminating (the (objs s c))" for c
        using ob by (simp add: s'_def own_inc_seqnum_def)
      ultimately show "obj_work N s' c \<le> obj_work N s c" for c by (simp add: obj_work_def l)
      show "(\<Sum>t<N. box_work s' t) < (\<Sum>t<N. box_work s t)"
        using box_work_at[OF t, of s' s] box' by (simp add: box_work_def s'_def)
    qed (simp add: s'_def)
    ultimately show ?thesis using ex i' by blast
  next
    case (Post j c)
    note box' = box[unfolded Post]
    have "(j, c) \<in># flying N s" using t box' by (auto simp: in_flying)
    then have "live N s j" using S(4) by fastforce
    then obtain ob where ob: "objs s j = Some ob" using live_objs by blast
    define s' where "s' = s\<lparr>outbox := (outbox s)(t := as), mail := (mail s)(own_tid ob := mail s (own_tid ob) @ [(j, c)])\<rparr>"
    have ex: "own_exec (Perform t) s = Some s'" using box' ob by (simp add: s'_def)
    have i': "own_inv N s'" by (rule perform_post[OF inv t box' ob s'_def])
    have l: "live N s' = live N s"
      by (rule step_shape(1)[OF t box', of s']) (simp_all add: s'_def)
    have "none_ready N s'" by (rule none_ready_step[OF nr]) (simp_all add: l, simp add: s'_def)
    moreover have "work N s' < work N s"
    proof (rule perform_work)
      define s1 where "s1 = s\<lparr>outbox := (outbox s)(t := as)\<rparr>"
      have u: "own_tid ob < N" using S(2) ob by blast
      have "flying N s1 + {#(j, c)#} = flying N s" using flying_at[OF t, of s1 s] box' by (simp add: s1_def)
      moreover have "flying N s' = flying N s1 + {#(j, c)#}"
        using flying_at[OF u, of s' s1] by (simp add: s1_def s'_def)
      ultimately have "terms N s' d = terms N s d" for d by (simp add: tally_def)
      moreover have "objs s' = objs s" by (simp add: s'_def)
      ultimately show "obj_work N s' d \<le> obj_work N s d" for d by (simp add: obj_work_def l)
      have "(\<Sum>t<N. box_work s1 t) + 2 = (\<Sum>t<N. box_work s t)"
        using box_work_at[OF t, of s1 s] box' by (simp add: box_work_def s1_def)
      moreover have "(\<Sum>t<N. box_work s' t) = (\<Sum>t<N. box_work s1 t) + 1"
        using box_work_at[OF u, of s' s1] by (simp add: box_work_def s1_def s'_def)
      ultimately show "(\<Sum>t<N. box_work s' t) < (\<Sum>t<N. box_work s t)" by simp
    qed (simp add: s'_def)
    ultimately show ?thesis using ex i' by blast
  next
    case (DeleteThis j)
    note box' = box[unfolded DeleteThis]
    define s' where "s' = s\<lparr>outbox := (outbox s)(t := as), objs := (objs s)(j := None)\<rparr>"
    note D = perform_delete[OF inv t box' s'_def]
    have ex: "own_exec (Perform t) s = Some s'" using box' D(2) by (auto simp: s'_def)
    have step: "live N s i \<and> i \<noteq> j \<and> objs s i = objs s' i" if a: "live N s' i" for i
    proof -
      have ij: "i \<noteq> j" using a live_objs[of N s' i] by (auto simp: s'_def)
      have "ending s t (outbox s t)"
        using S(5) t box' by (auto simp: outbox_ok_def launching_def terming_def requesting_def)
      then have "as = []" using box' by (auto simp: ending_def)
      have "\<not> dying N s i"
      proof
        assume "dying N s i"
        then obtain k where "k < N" "DeleteThis i \<in> set (outbox s k)" by (auto simp: dying_def)
        then have "DeleteThis i \<in> set (outbox s' k)" "k < N"
          using box' ij by (cases "k = t"; simp add: s'_def)+
        then show False using a by (auto simp: live_def dying_def)
      qed
      then show ?thesis using a ij by (simp add: s'_def live_def)
    qed
    have "none_ready N s'" by (rule none_ready_step[OF nr]) (use step in auto)
    moreover have "work N s' < work N s"
    proof (rule perform_work)
      have d: "dying N s j" using t box' by (auto simp: dying_def)
      have "flying N s' = flying N s" using flying_at[OF t, of s' s] box' by (simp add: s'_def)
      then have "terms N s' c = terms N s c" for c by (simp add: tally_def)
      then show "obj_work N s' c \<le> obj_work N s c" for c
        using step[of c] by (simp add: obj_work_def)
      show "(\<Sum>t<N. box_work s' t) < (\<Sum>t<N. box_work s t)"
        using box_work_at[OF t, of s' s] box' by (simp add: box_work_def s'_def)
    qed (simp add: s'_def)
    ultimately show ?thesis using ex D(1) by blast
  qed
qed

lemma launch_run:
  assumes inv: "own_inv N s" and nr: "none_ready N s" and ru: "runnable i s" and t: "t < N"
    and f: "\<And>ob. objs s i = Some ob \<Longrightarrow> f (fresh s) ob (own_new t lngr) =
      Some ((own_new t lngr)\<lparr>own_owner := Some p\<rparr>, send_plug (fresh s) @ send_own p (fresh s))"
    and p: "p = i \<or> kid N s p i"
  shows "\<exists>s'. launch i f (own_new t lngr) s = Some s' \<and> own_inv N s' \<and> none_ready N s'"
proof -
  obtain ob where ob: "objs s i = Some ob" "live N s i" "outbox s (own_tid ob) = []" "own_tid ob < N"
    by (rule runnable_live[OF inv ru])
  define s' where "s' = s\<lparr>objs := (objs s)(fresh s \<mapsto> (own_new t lngr)\<lparr>own_owner := Some p\<rparr>),
    outbox := (outbox s)(own_tid ob := send_plug (fresh s) @ send_own p (fresh s)),
    awaited := (awaited s)(fresh s := 0), fresh := fresh s + 1\<rparr>"
  have "launch i f (own_new t lngr) s = Some s'" using f[OF ob(1)] ob(1) by (simp add: launch_def s'_def)
  moreover have "own_inv N s'" by (rule launch_inv[OF inv ob(1-3) t p refl s'_def])
  moreover have "none_ready N s'"
  proof (rule none_ready_step[OF nr])
    fix k o' assume a: "live N s' k" "objs s' k = Some o'" "ready o'"
    have kc: "k \<noteq> fresh s" using a(2,3) by (auto simp: s'_def ready_def own_new_def)
    have "\<not> dying N s k"
    proof
      assume "dying N s k"
      then obtain h where "h < N" "DeleteThis k \<in> set (outbox s h)" by (auto simp: dying_def)
      then have "DeleteThis k \<in> set (outbox s' h)" "h < N" using ob(3) by (cases "h = own_tid ob"; simp add: s'_def)+
      then show False using a(1) by (auto simp: live_def dying_def)
    qed
    then show "live N s k \<and> objs s k = Some o'" using a(2) kc by (simp add: s'_def live_def)
  qed
  ultimately show ?thesis by blast
qed

lemma own_set_owner_new: "own_set_owner p (own_new t lngr) = Some ((own_new t lngr)\<lparr>own_owner := Some p\<rparr>)"
  by (simp add: own_set_owner_def own_new_def zmq_assert_def)

lemma root_run:
  assumes inv: "own_inv N s" and nr: "none_ready N s" and t: "t < N"
  shows "\<exists>s'. own_exec (NewRoot t lngr) s = Some s' \<and> own_inv N s' \<and> none_ready N s'"
proof -
  define s' where "s' = s\<lparr>objs := (objs s)(fresh s \<mapsto> own_new t lngr), awaited := (awaited s)(fresh s := 0),
    fresh := fresh s + 1\<rparr>"
  have "own_inv N s'" by (rule new_root_inv[OF inv t s'_def])
  moreover have "none_ready N s'"
  proof (rule none_ready_step[OF nr])
    fix k o' assume a: "live N s' k" "objs s' k = Some o'" "ready o'"
    then have "k \<noteq> fresh s" by (auto simp: s'_def ready_def own_new_def)
    then show "live N s k \<and> objs s k = Some o'" using a by (simp add: s'_def live_def dying_def)
  qed
  ultimately show ?thesis by (simp add: s'_def)
qed

lemma terminate_run:
  assumes inv: "own_inv N s" and nr: "none_ready N s" and ru: "runnable i s"
  shows "\<exists>s'. own_exec (Terminate i) s = Some s' \<and> own_inv N s' \<and> none_ready N s'"
proof -
  obtain ob where ob: "objs s i = Some ob" "live N s i" "outbox s (own_tid ob) = []" "own_tid ob < N"
    by (rule runnable_live[OF inv ru])
  show ?thesis
  proof (cases "own_terminating ob")
    case True
    then have "own_exec (Terminate i) s = Some s"
      using ob by (simp add: run_at_def own_terminate_def fun_upd_idem)
    then show ?thesis using inv nr by blast
  next
    case nt: False
    show ?thesis
    proof (cases "own_owner ob")
      case None
      have m: "mail s (own_tid ob) = [] @ mail s (own_tid ob)" by simp
      have e: "s\<lparr>mail := (mail s)(own_tid ob := mail s (own_tid ob)), awaited := awaited s\<rparr> = s" by simp
      show ?thesis
        using term_run[OF inv nr ob(1-3) m nt, where f = "own_terminate i" and lngr = "own_linger ob", unfolded e] None nt
        by (simp add: own_terminate_def)
    next
      case (Some p)
      define s' where "s' = s\<lparr>outbox := (outbox s)(own_tid ob := send_term_req p i)\<rparr>"
      have "own_exec (Terminate i) s = Some s'"
        using ob(1) nt Some by (simp add: run_at_def own_terminate_def s'_def fun_upd_idem)
      moreover have "own_inv N s'" by (rule request_inv[OF inv ob(1-3) Some s'_def])
      moreover have "none_ready N s'"
      proof (rule none_ready_step[OF nr])
        fix k o' assume a: "live N s' k" "objs s' k = Some o'"
        have "dying N s' k" if "dying N s k"
          using that ob(3) unfolding dying_def s'_def by (auto simp: fun_upd_def) (metis empty_iff list.set(1))
        then show "live N s k \<and> objs s k = Some o'" using a by (auto simp: live_def s'_def)
      qed
      ultimately show ?thesis by blast
    qed
  qed
qed

lemma acks_run:
  assumes inv: "own_inv N s" and nr: "none_ready N s" and ob: "objs s i = Some ob" and li: "live N s i"
    and idle: "outbox s (own_tid ob) = []" and aw: "aw = (awaited s)(i := k)"
    and k: "n - int k = own_acks ob - int (awaited s i)"
    and f: "f ob = Some (ob\<lparr>own_acks := n\<rparr>, if ready (ob\<lparr>own_acks := n\<rparr>) then end_acts i (ob\<lparr>own_acks := n\<rparr>) else [])"
  shows "\<exists>s'. run_at i f (s\<lparr>awaited := aw\<rparr>) = Some s' \<and> own_inv N s' \<and> none_ready N s'"
proof -
  have m: "mail s (own_tid ob) = [] @ mail s (own_tid ob)" by simp
  have e: "s\<lparr>mail := (mail s)(own_tid ob := mail s (own_tid ob)), awaited := aw\<rparr> = s\<lparr>awaited := aw\<rparr>" by simp
  have "\<exists>s'. run_at i f (s\<lparr>mail := (mail s)(own_tid ob := mail s (own_tid ob)), awaited := aw\<rparr>) = Some s' \<and>
    own_inv N s' \<and> none_ready N s' \<and> ([] = ([] :: (nat \<times> own_cmd) list) \<or> work N s' < work N s)"
  proof (rule run_step[OF inv nr ob li idle m, where acts = "[]" and ob' = "ob\<lparr>own_acks := n\<rparr>"], goal_cases)
    case (6 s1)
    show ?case by (rule core_acks(1)[OF inv li _ 6]) (use aw k in simp)
  qed (simp_all add: f)
  then show ?thesis unfolding e by blast
qed

lemma own_exec_run:
  assumes inv: "own_inv N s" and nr: "none_ready N s" and en: "own_enabled N e s"
  shows "\<exists>s'. own_exec e s = Some s' \<and> own_inv N s' \<and> none_ready N s' \<and>
    ((\<exists>t. e = Perform t \<or> e = Deliver t) \<longrightarrow> work N s' < work N s)"
proof (cases e)
  case (Perform t)
  then show ?thesis using perform_run[OF inv nr] en by blast
next
  case (Deliver t)
  then obtain j c ms where m: "mail s t = (j, c) # ms" "t < N" "outbox s t = []"
    using en by (cases "mail s t") auto
  have e: "s\<lparr>mail := (mail s)(t := ms), awaited := awaited s\<rparr> = s\<lparr>mail := (mail s)(t := ms)\<rparr>" by (cases s) simp
  show ?thesis using deliver_run[OF inv nr m(2,3,1), unfolded e] Deliver m(1) by simp
next
  case (NewRoot t lngr)
  then show ?thesis using root_run[OF inv nr] en by simp
next
  case (LaunchChild i t lngr)
  then show ?thesis
    using launch_run[OF inv nr, of i t "\<lambda>c ob child. own_launch_child i c child" lngr i] en
    by (simp add: own_launch_child_def[abs_def] own_set_owner_new)
next
  case (LaunchSibling i t lngr)
  then obtain ob p where ob: "objs s i = Some ob" "own_owner ob = Some p" "live N s i"
    using en runnable_live[OF inv, of i] by (metis option.exhaust_sel option.sel own_enabled.simps(5))
  then have "kid N s p i" by (simp add: kid_def)
  then show ?thesis
    using launch_run[OF inv nr, of i t "\<lambda>c ob child. own_launch_sibling ob c child" lngr p] en LaunchSibling ob
    by (simp add: own_launch_sibling_def[abs_def] own_set_owner_new)
next
  case (Terminate i)
  then show ?thesis using terminate_run[OF inv nr] en by simp
next
  case (AwaitAck i n)
  then obtain ob where ob: "objs s i = Some ob" "live N s i" "outbox s (own_tid ob) = []"
    using en runnable_live[OF inv, of i] by auto
  have "\<not> ready (ob\<lparr>own_acks := own_acks ob + int n\<rparr>)"
    using none_readyD[OF nr ob(2,1)] own_acks_pos[OF inv ob(2,1)] by (auto simp: ready_def)
  then show ?thesis
    using acks_run[OF inv nr ob refl, of "own_acks ob + int n" "awaited s i + n"] AwaitAck
    by (simp add: own_register_term_acks_def)
next
  case (AckArrives i)
  then obtain ob where ob: "objs s i = Some ob" "live N s i" "outbox s (own_tid ob) = []" and pos: "0 < awaited s i"
    using en runnable_live[OF inv, of i] by auto
  note C = count_invD[OF own_invD(2)[OF inv] ob(2,1)]
  have "0 < own_acks ob" using C(2) pos by simp
  then show ?thesis
    using acks_run[OF inv nr ob refl, of "own_acks ob - 1" "awaited s i - 1" "own_unregister_term_ack i"] AckArrives pos C(3)
      check_ready[of "ob\<lparr>own_acks := own_acks ob - 1\<rparr>" i]
    by (simp add: own_unregister_term_ack_def zmq_assert_def Let_def)
qed

lemma own_reach_inv:
  assumes "own_reach N s"
  shows "own_inv N s \<and> none_ready N s"
  using assms
proof (induction rule: own_reach.induct)
  case own_init
  have [simp]: "flying N tree_new = {#}" by (simp add: flying_def tree_new_def)
  have "static_inv N tree_new"
    unfolding static_inv_def by (simp add: request_ok_def outbox_ok_def terming_def) (simp add: tree_new_def)
  moreover have l: "\<not> live N tree_new c" for c by (simp add: live_def tree_new_def)
  ultimately show ?case
    by (simp add: own_inv_def count_inv_def kid_inv_def none_ready_def kid_def tally_def)
next
  case (own_step s e s')
  then show ?case using own_exec_run by fastforce
qed

end
