(* ===== verification/Shutdown.thy ===== *)
theory Shutdown
  imports OwnSafety
begin

text \<open>
  What the shutdown of the tree of objects promises: it never fails, it comes to an end, and then nothing that was
  asked to terminate is left. Last, a request for termination that is lost.
\<close>

lemma own_reach_run:
  assumes "own_reach N s" "own_enabled N e s"
  shows "\<exists>s'. own_exec e s = Some s' \<and> own_inv N s' \<and> none_ready N s' \<and>
    ((\<exists>t. e = Perform t \<or> e = Deliver t) \<longrightarrow> work N s' < work N s)"
proof -
  have "own_inv N s" "none_ready N s" using own_reach_inv[OF assms(1)] by simp_all
  then show ?thesis using own_exec_run assms(2) by simp
qed

text \<open>A run: each event happens when it can.\<close>

fun own_runs :: "nat \<Rightarrow> own_ev list \<Rightarrow> tree \<Rightarrow> tree option" where
  "own_runs N [] s = Some s"
| "own_runs N (e # es) s = (if own_enabled N e s then do { s' \<leftarrow> own_exec e s; own_runs N es s' } else None)"

fun of_thread :: "own_ev \<Rightarrow> bool" where
  "of_thread (Perform t) \<longleftrightarrow> True"
| "of_thread (Deliver t) \<longleftrightarrow> True"
| "of_thread _ \<longleftrightarrow> False"

lemma of_thread_iff: "of_thread e \<longleftrightarrow> (\<exists>t. e = Perform t \<or> e = Deliver t)"
  by (cases e) simp_all

lemma own_runs_reach: "own_reach N s \<Longrightarrow> own_runs N es s = Some s' \<Longrightarrow> own_reach N s'"
  by (induction es arbitrary: s) (auto split: if_splits bind_splits intro: own_step)

lemma own_runs_new: "own_runs N es tree_new = Some s \<Longrightarrow> own_reach N s"
  by (rule own_runs_reach[OF own_init])

text \<open>A root, a child that stays and a child that terminates itself.\<close>

definition own_example :: "own_ev list" where
  "own_example =
     [NewRoot 0 7, LaunchChild 0 1 7, Perform 0, Perform 0, Perform 0, Perform 0, Deliver 1, Deliver 0,
      LaunchSibling 1 0 7, Perform 1, Perform 1, Perform 1, Perform 1, Deliver 0, Deliver 0,
      Terminate 2, Perform 0, Deliver 0, Perform 0, Deliver 0, Perform 0, Perform 0, Deliver 0]"

lemmas own_eval = own_example_def run_at_def runnable_def launch_def own_launch_child_def own_launch_sibling_def
  own_set_owner_def own_new_def zmq_assert_def send_plug_def send_own_def send_term_req_def send_term_def
  send_term_ack_def own_process_destroy_def own_check_term_acks_def own_process_seqnum_def own_register_term_acks_def
  own_unregister_term_ack_def own_process_term_ack_def own_process_own_def own_process_term_req_def own_process_term_def
  own_terminate_def own_inc_seqnum_def atomic_counter_add_def atomic_counter_get_def tree_new_def Let_def

lemma less_two: "(\<forall>t<(2::nat). P t) \<longleftrightarrow> P 0 \<and> P 1"
  by (auto simp: less_2_cases_iff)

lemma less_three: "(\<forall>t<(3::nat). P t) \<longleftrightarrow> P 0 \<and> P 1 \<and> P 2"
  by (auto simp: less_Suc_eq numeral_3_eq_3 numeral_2_eq_2)

text \<open>C7: the shutdown of the objects of a library is safe. In every state that the threads can reach by creating
  objects, launching children and siblings into other threads, terminating any of them, waiting for the acknowledgements
  of pipes, and handling and sending the commands one by one in any interleaving of the threads, every step that can
  happen succeeds: no command is ever sent to, counted for or handled by an object that has been deallocated (the
  counters of sent and processed commands hold the deallocation back), and no assertion of the code fails.\<close>
theorem own_shutdown_safe:
  assumes "own_reach N s" "own_enabled N e s"
  shows "own_exec e s \<noteq> None"
  using own_reach_run[OF assms] by auto

theorem own_shutdown_safe_witness:
  "\<exists>s. own_runs 2 (take 19 own_example) tree_new = Some s \<and> hd (mail s 0) = (2, CTerm 7) \<and> own_exec (Deliver 0) s \<noteq> None"
proof -
  obtain s where s: "own_runs 2 (take 19 own_example) tree_new = Some s" "own_enabled 2 (Deliver 0) s"
      "hd (mail s 0) = (2, CTerm 7)"
  proof -
    have "\<exists>s. own_runs 2 (take 19 own_example) tree_new = Some s \<and> own_enabled 2 (Deliver 0) s \<and> hd (mail s 0) = (2, CTerm 7)"
      by (simp add: own_eval)
    then show ?thesis using that by blast
  qed
  then show ?thesis using own_shutdown_safe[OF own_runs_new[OF s(1)] s(2)] by blast
qed

text \<open>C9: the shutdown comes to an end. From every reachable state, a run in which the threads only send and handle
  the commands that are there (no new object is launched and nothing more is asked for) has at most \<open>work N s\<close> steps,
  a bound that depends only on the commands on their way and on the number of objects.\<close>
theorem own_shutdown_ends:
  assumes "own_reach N s" "own_runs N es s = Some s'" "list_all of_thread es"
  shows "length es + work N s' \<le> work N s"
  using assms
proof (induction es arbitrary: s)
  case Nil
  then show ?case by simp
next
  case (Cons e es)
  then have en: "own_enabled N e s" and th: "of_thread e" by (auto split: if_splits)
  obtain s1 where s1: "own_exec e s = Some s1" "work N s1 < work N s"
    using own_reach_run[OF Cons.prems(1) en] th unfolding of_thread_iff by blast
  then have "own_runs N es s1 = Some s'" using Cons.prems(2) en by simp
  then show ?case
    using Cons.IH[OF own_step[OF Cons.prems(1) en s1(1)]] Cons.prems(3) s1(2) by simp
qed

theorem own_shutdown_ends_witness:
  "\<exists>s s'. own_runs 2 (take 18 own_example) tree_new = Some s \<and> own_runs 2 [Perform 0, Deliver 0] s = Some s' \<and>
    length [Perform 0, Deliver 0] + work 2 s' \<le> work 2 s"
proof -
  obtain s s' where s: "own_runs 2 (take 18 own_example) tree_new = Some s" "own_runs 2 [Perform 0, Deliver 0] s = Some s'"
  proof -
    have "\<exists>s s'. own_runs 2 (take 18 own_example) tree_new = Some s \<and> own_runs 2 [Perform 0, Deliver 0] s = Some s'"
      by (simp add: own_eval)
    then show ?thesis using that by blast
  qed
  then show ?thesis using own_shutdown_ends[OF own_runs_new[OF s(1)] s(2)] by auto
qed

text \<open>The threads have nothing to do and no pipe is to be acknowledged.\<close>

definition quiet :: "nat \<Rightarrow> tree \<Rightarrow> bool" where
  "quiet N s \<longleftrightarrow> (\<forall>t<N. outbox s t = [] \<and> mail s t = []) \<and> (\<forall>i<fresh s. awaited s i = 0)"

lemma quiet_none:
  assumes "quiet N s"
  shows "flying N s = {#}" "pending_incs N s i = 0" "\<not> dying N s i"
  using assms by (simp_all add: quiet_def flying_def pending_incs_def dying_def)

lemma quiet_not_terminating:
  assumes inv: "own_inv N s" and nr: "none_ready N s" and q: "quiet N s" and ob: "objs s i = Some ob"
  shows "\<not> own_terminating ob"
  using ob
proof (induction "fresh s - i" arbitrary: i ob rule: less_induct)
  case less
  note Q = quiet_none[OF q] and I = own_invD[OF inv]
  have l: "live N s i" using less.prems Q(3) by (simp add: live_def)
  note C = count_invD[OF I(2) l less.prems]
  have i: "i < fresh s" by (rule live_fresh[OF I(1) l])
  show ?case
  proof
    assume tm: "own_terminating ob"
    have "unat (own_sent ob) = unat (own_processed ob)" using C(1) Q by (simp add: tally_def)
    then have "own_acks ob \<noteq> 0" using none_readyD[OF nr l less.prems] tm by (simp add: ready_def)
    moreover have "awaited s i = 0" using q i by (simp add: quiet_def)
    ultimately have "asked N s i \<noteq> {}" using C(2) Q(1) by (auto simp: tally_def)
    then obtain c where c: "kid N s i c" "own_terminating (the (objs s c))"
      using Q(1) by (auto simp: asked_def tally_def)
    obtain oc where oc: "objs s c = Some oc" using live_objs[OF kid_live[OF c(1)]] by blast
    have "c < fresh s" "i < c" using live_fresh[OF I(1) kid_live[OF c(1)]] kid_invD(1)[OF I(3) c(1)] by simp_all
    then have "\<not> own_terminating oc" using less.hyps[OF _ oc] by simp
    then show False using c(2) oc by simp
  qed
qed

text \<open>C8: the shutdown is complete. When the threads have no command left to send or to handle and no acknowledgement
  of a pipe is outstanding, no object that was asked to terminate is left: every object that still exists is not
  terminating, and if it has an owner, the owner exists as well and owns it. So with a root the whole tree below it has
  gone, and nothing leaks or hangs because of the order in which the threads ran.\<close>
theorem own_shutdown_complete:
  assumes "own_reach N s" "quiet N s" "objs s i = Some ob"
  shows "\<not> own_terminating ob \<and>
    (\<forall>p. own_owner ob = Some p \<longrightarrow> (\<exists>po. objs s p = Some po \<and> i \<in> own_owned po \<and> \<not> own_terminating po))"
proof -
  have inv: "own_inv N s" "none_ready N s" using own_reach_inv[OF assms(1)] by simp_all
  note Q = quiet_none[OF assms(2)] and I = own_invD[OF inv(1)] and nt = quiet_not_terminating[OF inv assms(2)]
  have "\<exists>po. objs s p = Some po \<and> i \<in> own_owned po \<and> \<not> own_terminating po" if p: "own_owner ob = Some p" for p
  proof -
    have k: "kid N s p i" using assms(3) p Q(3) by (simp add: kid_def live_def)
    obtain po where po: "objs s p = Some po" using live_objs[OF kid_invD(2)[OF I(3) k]] by blast
    have "stage N s p i = 1" by (rule kid_invD(3)[OF I(3) k])
    then have "i \<in> own_owned po"
      using nt[OF assms(3)] assms(3) po Q(1) by (simp add: stage_def tally_def split: if_splits)
    then show ?thesis using po nt[OF po] by blast
  qed
  then show ?thesis using nt[OF assms(3)] by blast
qed

theorem own_shutdown_complete_witness:
  "\<exists>s ob. own_runs 2 own_example tree_new = Some s \<and> objs s 2 = None \<and> objs s 1 = Some ob \<and> \<not> own_terminating ob \<and>
    (\<forall>p. own_owner ob = Some p \<longrightarrow> (\<exists>po. objs s p = Some po \<and> 1 \<in> own_owned po \<and> \<not> own_terminating po))"
proof -
  obtain s ob where s: "own_runs 2 own_example tree_new = Some s" "quiet 2 s" "objs s 2 = None" "objs s 1 = Some ob"
  proof -
    have "\<exists>s ob. own_runs 2 own_example tree_new = Some s \<and> quiet 2 s \<and> objs s 2 = None \<and> objs s 1 = Some ob"
      by (simp add: own_eval quiet_def less_two less_three)
    then show ?thesis using that by blast
  qed
  then show ?thesis using own_shutdown_complete[OF own_runs_new[OF s(1)] s(2,4)] by blast
qed

section \<open>A lost request\<close>

text \<open>
  The launcher plugs a child into its thread before it announces the child to its owner. The child can ask for its
  termination in between: the owner does not know it yet and ignores the request, and the child stays. The comment of
  the code assumes that a child that is not found was asked to terminate already.
\<close>

definition own_race :: "own_ev list" where
  "own_race =
     [NewRoot 0 7, LaunchChild 0 1 7, Perform 0, Perform 0, Deliver 1, Terminate 1, Perform 1, Perform 0, Perform 0,
      Deliver 0, Deliver 0]"

lemma own_request_lost:
  "\<exists>s ob. own_runs 2 own_race tree_new = Some s \<and> quiet 2 s \<and> objs s 1 = Some ob \<and> \<not> own_terminating ob"
  by (simp add: own_race_def own_eval quiet_def less_two)

end
