(* ===== verification/SocketBase.thy ===== *)
theory SocketBase
  imports Ctx Message
begin

text \<open>
  \<^verbatim>\<open>src/socket_base.cpp\<close>: what all socket types share. The socket type is a parameter: its state \<open>'x\<close> and its operations
  \<^verbatim>\<open>xsend\<close>, \<^verbatim>\<open>xrecv\<close>, \<^verbatim>\<open>xhas_in\<close> and \<^verbatim>\<open>xhas_out\<close>. The environment of a call is what it observes: the results of
  receiving from the mailbox, as a list that ends where the observation ends, and the readings of the two clocks. A call
  whose list ends before it returns is \<open>Blocked\<close>; a call that stops the process is \<open>Aborted\<close>.
\<close>

datatype 'a outcome = Returns 'a | Blocked | Aborted

datatype 'c scmd = Stop | Other 'c

datatype 'c mail_ev = Got "'c scmd" | Empty | Interrupted

record 'c env =
  mails :: "'c mail_ev list"
  ms :: "nat \<Rightarrow> u64"
  ms_reads :: nat
  tsc :: "nat \<Rightarrow> u64"
  tsc_reads :: nat

record ('x, 'c) sock_ops =
  x_send :: "msg \<Rightarrow> 'x \<Rightarrow> (rc \<times> 'x) option"
  x_recv :: "'x \<Rightarrow> (rc \<times> msg option \<times> 'x) option"
  x_has_in :: "'x \<Rightarrow> (bool \<times> 'x) option"
  x_has_out :: "'x \<Rightarrow> (bool \<times> 'x) option"
  x_setsockopt :: "sockopt \<Rightarrow> byte list \<Rightarrow> 'x \<Rightarrow> rc \<times> 'x"
  x_command :: "'c \<Rightarrow> 'x \<Rightarrow> 'x option"

record 'x sock =
  sx :: 'x
  sopts :: options_t
  ctx_terminated :: bool
  last_tsc :: u64
  ticks :: nat
  rcvmore :: bool

definition sock_new :: "'x \<Rightarrow> options_t \<Rightarrow> 'x sock" where
  "sock_new x opts = \<lparr>sx = x, sopts = opts, ctx_terminated = False, last_tsc = 0, ticks = 0, rcvmore = False\<rparr>"

definition inbound_poll_rate :: nat where "inbound_poll_rate = 100"
definition max_command_delay :: u64 where "max_command_delay = 3000000"

definition ZMQ_NOBLOCK :: u32 where "ZMQ_NOBLOCK = 1"
definition ZMQ_SNDMORE :: u32 where "ZMQ_SNDMORE = 2"

section \<open>Processing commands\<close>

definition process_command :: "('x, 'c) sock_ops \<Rightarrow> 'c scmd \<Rightarrow> 'x sock \<Rightarrow> 'x sock option" where
  "process_command ops c s =
     (case c of
        Stop \<Rightarrow> Some (s\<lparr>ctx_terminated := True\<rparr>)
      | Other c \<Rightarrow> do { x \<leftarrow> x_command ops c (sx s); Some (s\<lparr>sx := x\<rparr>) })"

text \<open>The loop over the commands that are available.\<close>

fun process_available ::
  "('x, 'c) sock_ops \<Rightarrow> 'c mail_ev list \<Rightarrow> 'x sock \<Rightarrow> (rc \<times> 'x sock \<times> 'c mail_ev list) outcome" where
  "process_available ops [] s = Blocked"
| "process_available ops (Empty # es) s = Returns (OK, s, es)"
| "process_available ops (Interrupted # es) s = Returns (Err EINTR, s, es)"
| "process_available ops (Got c # es) s =
     (case process_command ops c s of None \<Rightarrow> Aborted | Some s' \<Rightarrow> process_available ops es s')"

text \<open>An infinite wait does not time out.\<close>

definition first_wait :: "int \<Rightarrow> 'c mail_ev list \<Rightarrow> 'c mail_ev list" where
  "first_wait timeout es = (if timeout < 0 then dropWhile (\<lambda>e. case e of Empty \<Rightarrow> True | _ \<Rightarrow> False) es else es)"

definition process_mails ::
  "('x, 'c) sock_ops \<Rightarrow> int \<Rightarrow> 'x sock \<Rightarrow> 'c env \<Rightarrow> (rc \<times> 'x sock \<times> 'c env) outcome" where
  "process_mails ops timeout s env =
     (case process_available ops (first_wait timeout (mails env)) s of
        Returns (r, s', es) \<Rightarrow>
          Returns (if r = OK \<and> ctx_terminated s' then Err ETERM else r, s', env\<lparr>mails := es\<rparr>)
      | Blocked \<Rightarrow> Blocked
      | Aborted \<Rightarrow> Aborted)"

definition process_commands ::
  "('x, 'c) sock_ops \<Rightarrow> int \<Rightarrow> bool \<Rightarrow> 'x sock \<Rightarrow> 'c env \<Rightarrow> (rc \<times> 'x sock \<times> 'c env) outcome" where
  "process_commands ops timeout throttle s env =
     (if timeout \<noteq> 0 then process_mails ops timeout s env
      else
        let now = tsc env (tsc_reads env); env1 = env\<lparr>tsc_reads := tsc_reads env + 1\<rparr>
        in if now \<noteq> 0 \<and> throttle then
             if now \<ge> last_tsc s \<and> now - last_tsc s \<le> max_command_delay then Returns (OK, s, env1)
             else process_mails ops 0 (s\<lparr>last_tsc := now\<rparr>) env1
           else process_mails ops 0 s env1)"

definition now_ms :: "'c env \<Rightarrow> u64 \<times> 'c env" where
  "now_ms env = (ms env (ms_reads env), env\<lparr>ms_reads := ms_reads env + 1\<rparr>)"

text \<open>The time that is left, as an \<^verbatim>\<open>int\<close>.\<close>

definition time_left :: "u64 \<Rightarrow> u64 \<Rightarrow> int" where
  "time_left end now = sint (ucast (end - now) :: u32)"

lemma process_available_shorter:
  "process_available ops es s = Returns (r, s', es') \<Longrightarrow> length es' < length es"
  by (induction ops es s rule: process_available.induct) (auto split: option.splits)

lemma first_wait_shorter: "length (first_wait t es) \<le> length es"
  by (simp add: first_wait_def length_dropWhile_le)

lemma process_mails_shorter:
  "process_mails ops t s env = Returns (r, s', env') \<Longrightarrow> length (mails env') < length (mails env)"
  using process_available_shorter first_wait_shorter[of t "mails env"]
  by (fastforce simp: process_mails_def split: outcome.splits)

lemma process_commands_shorter:
  "process_commands ops t False s env = Returns (r, s', env') \<Longrightarrow> length (mails env') < length (mails env)"
  using process_mails_shorter[of ops _ s _ r s' env'] by (fastforce simp: process_commands_def Let_def split: if_splits)

section \<open>Sending\<close>

definition valid_flags :: "byte \<Rightarrow> bool" where
  "valid_flags fl \<longleftrightarrow> fl OR ZMQ_MSG_MASK = 255"

definition add_more :: "u32 \<Rightarrow> msg \<Rightarrow> msg" where
  "add_more fl m = (if fl AND ZMQ_SNDMORE \<noteq> 0 then m\<lparr>mflags := mflags m OR ZMQ_MSG_MORE\<rparr> else m)"

function send_loop ::
  "('x, 'c) sock_ops \<Rightarrow> msg \<Rightarrow> int \<Rightarrow> u64 \<Rightarrow> 'x sock \<Rightarrow> 'c env \<Rightarrow> (rc \<times> 'x sock \<times> 'c env) outcome" where
  "send_loop ops m timeout end s env =
     (case process_commands ops timeout False s env of
        Returns (OK, s1, env1) \<Rightarrow>
          (case x_send ops m (sx s1) of
             None \<Rightarrow> Aborted
           | Some (OK, x) \<Rightarrow> Returns (OK, s1\<lparr>sx := x\<rparr>, env1)
           | Some (Err e, x) \<Rightarrow>
               if e \<noteq> EAGAIN then Returns (Err e, s1\<lparr>sx := x\<rparr>, env1)
               else if timeout > 0 then
                 (let (now, env2) = now_ms env1; left = time_left end now
                  in if left \<le> 0 then Returns (Err EAGAIN, s1\<lparr>sx := x\<rparr>, env2)
                     else send_loop ops m left end (s1\<lparr>sx := x\<rparr>) env2)
               else send_loop ops m timeout end (s1\<lparr>sx := x\<rparr>) env1)
      | Returns (Err e, s1, env1) \<Rightarrow> Returns (Err e, s1, env1)
      | Blocked \<Rightarrow> Blocked
      | Aborted \<Rightarrow> Aborted)"
  by pat_completeness auto
termination
  by (relation "measure (\<lambda>(ops, m, t, e, s, env). length (mails env))")
    (auto simp: now_ms_def dest: process_commands_shorter)

declare send_loop.simps [simp del]

definition deadline :: "int \<Rightarrow> 'c env \<Rightarrow> u64 \<times> 'c env" where
  "deadline timeout env =
     (if timeout < 0 then (0, env) else let (now, env1) = now_ms env in (now + word_of_int timeout, env1))"

text \<open>The message is changed even if it is not sent.\<close>

definition socket_send ::
  "('x, 'c) sock_ops \<Rightarrow> msg \<Rightarrow> u32 \<Rightarrow> 'x sock \<Rightarrow> 'c env \<Rightarrow> (rc \<times> msg \<times> 'x sock \<times> 'c env) outcome" where
  "socket_send ops m fl s env =
     (if ctx_terminated s then Returns (Err ETERM, m, s, env)
      else if \<not> valid_flags (mflags m) then Returns (Err EFAULT, m, s, env)
      else case process_commands ops 0 True s env of
        Returns (Err e, s1, env1) \<Rightarrow> Returns (Err e, m, s1, env1)
      | Returns (OK, s1, env1) \<Rightarrow>
          (let m1 = add_more fl m
           in case x_send ops m1 (sx s1) of
                None \<Rightarrow> Aborted
              | Some (OK, x) \<Rightarrow> Returns (OK, m1, s1\<lparr>sx := x\<rparr>, env1)
              | Some (Err e, x) \<Rightarrow>
                  (let s2 = s1\<lparr>sx := x\<rparr>; timeout = sint (sndtimeo (sopts s2))
                   in if e \<noteq> EAGAIN then Returns (Err e, m1, s2, env1)
                      else if fl AND ZMQ_NOBLOCK \<noteq> 0 \<or> timeout = 0 then Returns (Err EAGAIN, m1, s2, env1)
                      else
                        let (end, env2) = deadline timeout env1
                        in case send_loop ops m1 timeout end s2 env2 of
                             Returns (r, s3, env3) \<Rightarrow> Returns (r, m1, s3, env3)
                           | Blocked \<Rightarrow> Blocked
                           | Aborted \<Rightarrow> Aborted))
      | Blocked \<Rightarrow> Blocked
      | Aborted \<Rightarrow> Aborted)"

section \<open>Receiving\<close>

definition take_more :: "msg \<Rightarrow> 'x sock \<Rightarrow> msg \<times> 'x sock" where
  "take_more m s =
     (if has_more m then (m\<lparr>mflags := mflags m AND NOT ZMQ_MSG_MORE\<rparr>, s\<lparr>rcvmore := True\<rparr>)
      else (m, s\<lparr>rcvmore := False\<rparr>))"

text \<open>A call of \<^verbatim>\<open>xrecv\<close> that succeeds leaves a message.\<close>

definition try_recv ::
  "('x, 'c) sock_ops \<Rightarrow> 'x sock \<Rightarrow> ((errno + msg) \<times> 'x sock) option" where
  "try_recv ops s = do {
     (r, v, x) \<leftarrow> x_recv ops (sx s);
     (case r of
        OK \<Rightarrow> do { m \<leftarrow> v; Some (Inr m, s\<lparr>sx := x\<rparr>) }
      | Err e \<Rightarrow> Some (Inl e, s\<lparr>sx := x\<rparr>))
   }"

function recv_loop ::
  "('x, 'c) sock_ops \<Rightarrow> bool \<Rightarrow> int \<Rightarrow> u64 \<Rightarrow> 'x sock \<Rightarrow> 'c env \<Rightarrow> ((errno + msg) \<times> 'x sock \<times> 'c env) outcome" where
  "recv_loop ops block timeout end s env =
     (case process_commands ops (if block then timeout else 0) False s env of
        Returns (OK, s1, env1) \<Rightarrow>
          (case try_recv ops s1 of
             None \<Rightarrow> Aborted
           | Some (Inr m, s2) \<Rightarrow> Returns (Inr m, s2\<lparr>ticks := 0\<rparr>, env1)
           | Some (Inl e, s2) \<Rightarrow>
               if e \<noteq> EAGAIN then Returns (Inl e, s2, env1)
               else if timeout > 0 then
                 (let (now, env2) = now_ms env1; left = time_left end now
                  in if left \<le> 0 then Returns (Inl EAGAIN, s2, env2)
                     else recv_loop ops True left end s2 env2)
               else recv_loop ops True timeout end s2 env1)
      | Returns (Err e, s1, env1) \<Rightarrow> Returns (Inl e, s1, env1)
      | Blocked \<Rightarrow> Blocked
      | Aborted \<Rightarrow> Aborted)"
  by pat_completeness auto
termination
  by (relation "measure (\<lambda>(ops, b, t, e, s, env). length (mails env))")
    (auto simp: now_ms_def dest: process_commands_shorter)

declare recv_loop.simps [simp del]

text \<open>The result of the first attempt, the commands that are processed once every \<open>inbound_poll_rate\<close> calls, and the
  rest of the call. \<open>fl0\<close> are the flags of the message that the caller passes.\<close>

definition tick ::
  "('x, 'c) sock_ops \<Rightarrow> 'x sock \<Rightarrow> 'c env \<Rightarrow> (rc \<times> 'x sock \<times> 'c env) outcome" where
  "tick ops s env =
     (let s1 = s\<lparr>ticks := ticks s + 1\<rparr>
      in if ticks s1 = inbound_poll_rate then
           (case process_commands ops 0 False s1 env of
              Returns (OK, s2, env2) \<Rightarrow> Returns (OK, s2\<lparr>ticks := 0\<rparr>, env2)
            | other \<Rightarrow> other)
         else Returns (OK, s1, env))"

definition recv_again ::
  "('x, 'c) sock_ops \<Rightarrow> 'x sock \<Rightarrow> 'c env \<Rightarrow> ((errno + msg) \<times> 'x sock \<times> 'c env) outcome" where
  "recv_again ops s env =
     (case process_commands ops 0 False s env of
        Returns (OK, s1, env1) \<Rightarrow>
          (case try_recv ops (s1\<lparr>ticks := 0\<rparr>) of None \<Rightarrow> Aborted | Some (r, s2) \<Rightarrow> Returns (r, s2, env1))
      | Returns (Err e, s1, env1) \<Rightarrow> Returns (Inl e, s1, env1)
      | Blocked \<Rightarrow> Blocked
      | Aborted \<Rightarrow> Aborted)"

definition sock_recv_wait ::
  "('x, 'c) sock_ops \<Rightarrow> u32 \<Rightarrow> 'x sock \<Rightarrow> 'c env \<Rightarrow> ((errno + msg) \<times> 'x sock \<times> 'c env) outcome" where
  "sock_recv_wait ops fl s env =
     (let timeout = sint (rcvtimeo (sopts s))
      in if fl AND ZMQ_NOBLOCK \<noteq> 0 \<or> timeout = 0 then recv_again ops s env
         else let (end, env1) = deadline timeout env in recv_loop ops (ticks s \<noteq> 0) timeout end s env1)"

definition recv_msg ::
  "('x, 'c) sock_ops \<Rightarrow> u32 \<Rightarrow> 'x sock \<Rightarrow> 'c env \<Rightarrow> ((errno + msg) \<times> 'x sock \<times> 'c env) outcome" where
  "recv_msg ops fl s env =
     (case try_recv ops s of
        None \<Rightarrow> Aborted
      | Some (first, s1) \<Rightarrow>
          if (case first of Inl e \<Rightarrow> e \<noteq> EAGAIN | Inr _ \<Rightarrow> False) then Returns (first, s1, env)
          else case tick ops s1 env of
            Returns (OK, s2, env2) \<Rightarrow>
              (case first of Inr m \<Rightarrow> Returns (Inr m, s2, env2) | Inl _ \<Rightarrow> sock_recv_wait ops fl s2 env2)
          | Returns (Err e, s2, env2) \<Rightarrow> Returns (Inl e, s2, env2)
          | Blocked \<Rightarrow> Blocked
          | Aborted \<Rightarrow> Aborted)"

definition socket_recv ::
  "('x, 'c) sock_ops \<Rightarrow> byte \<Rightarrow> u32 \<Rightarrow> 'x sock \<Rightarrow> 'c env \<Rightarrow> ((errno + msg) \<times> 'x sock \<times> 'c env) outcome" where
  "socket_recv ops fl0 fl s env =
     (if ctx_terminated s then Returns (Inl ETERM, s, env)
      else if \<not> valid_flags fl0 then Returns (Inl EFAULT, s, env)
      else case recv_msg ops fl s env of
        Returns (Inr m, s1, env1) \<Rightarrow> (let (m', s2) = take_more m s1 in Returns (Inr m', s2, env1))
      | other \<Rightarrow> other)"

end
