(* ===== verification/SocketApi.thy ===== *)
theory SocketApi
  imports SocketBase
begin

text \<open>
  What the calls of \<open>SocketBase\<close> promise to the user: the messages of the socket type reach the user one by one, with
  the structure of multipart messages in the option \<^verbatim>\<open>ZMQ_RCVMORE\<close>, and a timeout is kept.
\<close>

section \<open>What goes through the socket type\<close>

text \<open>The operations of a socket type, with a log of the messages that were accepted and delivered.\<close>

record 'y logged =
  inner :: 'y
  sent_log :: "msg list"
  recv_log :: "msg list"

definition log_ops :: "('y, 'c) sock_ops \<Rightarrow> ('y logged, 'c) sock_ops" where
  "log_ops ops = \<lparr>
     x_send = (\<lambda>m l. do {
       (r, y) \<leftarrow> x_send ops m (inner l);
       Some (r, l\<lparr>inner := y, sent_log := sent_log l @ (if r = OK then [m] else [])\<rparr>) }),
     x_recv = (\<lambda>l. do {
       (r, v, y) \<leftarrow> x_recv ops (inner l);
       Some (r, v, l\<lparr>inner := y, recv_log := recv_log l @ (case (r, v) of (OK, Some m) \<Rightarrow> [m] | _ \<Rightarrow> [])\<rparr>) }),
     x_has_in = (\<lambda>l. do { (b, y) \<leftarrow> x_has_in ops (inner l); Some (b, l\<lparr>inner := y\<rparr>) }),
     x_has_out = (\<lambda>l. do { (b, y) \<leftarrow> x_has_out ops (inner l); Some (b, l\<lparr>inner := y\<rparr>) }),
     x_setsockopt = (\<lambda>opt v l. let (r, y) = x_setsockopt ops opt v (inner l) in (r, l\<lparr>inner := y\<rparr>)),
     x_command = (\<lambda>c l. do { y \<leftarrow> x_command ops c (inner l); Some (l\<lparr>inner := y\<rparr>) })\<rparr>"

abbreviation logs :: "'y logged sock \<Rightarrow> msg list \<times> msg list" where
  "logs s \<equiv> (sent_log (sx s), recv_log (sx s))"

definition gained :: "errno + msg \<Rightarrow> msg list" where
  "gained r = (case r of Inr m \<Rightarrow> [m] | Inl _ \<Rightarrow> [])"

lemma gained_simps [simp]: "gained (Inr m) = [m]" "gained (Inl e) = []"
  by (simp_all add: gained_def)

lemma command_logs: "process_command (log_ops ops) c s = Some s' \<Longrightarrow> logs s' = logs s"
  by (auto simp: process_command_def log_ops_def split: scmd.splits bind_splits)

lemma available_logs:
  "process_available (log_ops ops) es s = Returns (r, s', es') \<Longrightarrow> logs s' = logs s"
proof (induction "log_ops ops" es s rule: process_available.induct)
  case (4 c es s)
  then show ?case using command_logs by (auto split: option.splits)
qed auto

lemma mails_logs: "process_mails (log_ops ops) t s env = Returns (r, s', env') \<Longrightarrow> logs s' = logs s"
  using available_logs by (fastforce simp: process_mails_def split: outcome.splits)

lemma commands_logs:
  assumes "process_commands (log_ops ops) t thr s env = Returns (r, s', env')"
  shows "logs s' = logs s"
  using assms mails_logs[of ops t s env r s' env']
    mails_logs[of ops 0 "s\<lparr>last_tsc := tsc env (tsc_reads env)\<rparr>" "env\<lparr>tsc_reads := tsc_reads env + 1\<rparr>" r s' env']
    mails_logs[of ops 0 s "env\<lparr>tsc_reads := tsc_reads env + 1\<rparr>" r s' env']
  by (auto simp: process_commands_def Let_def split: if_splits)

lemma try_recv_logs:
  "try_recv (log_ops ops) s = Some (r, s') \<Longrightarrow> logs s' = (sent_log (sx s), recv_log (sx s) @ gained r)"
  by (auto simp: try_recv_def log_ops_def split: rc.splits bind_splits option.splits)

text \<open>Processing commands fails only with \<open>EINTR\<close> and \<open>ETERM\<close>, and changes neither the options nor the counter.\<close>

lemma available_errors:
  "process_available ops es s = Returns (r, s', es') \<Longrightarrow> r \<in> {OK, Err EINTR} \<and> sopts s' = sopts s \<and> ticks s' = ticks s"
  by (induction ops es s rule: process_available.induct)
    (auto simp: process_command_def split: option.splits scmd.splits bind_splits)

lemma mails_errors:
  "process_mails ops t s env = Returns (r, s', env') \<Longrightarrow>
    r \<in> {OK, Err EINTR, Err ETERM} \<and> sopts s' = sopts s \<and> ticks s' = ticks s \<and> ms env' = ms env \<and> ms_reads env' = ms_reads env"
  by (fastforce simp: process_mails_def split: outcome.splits if_splits dest: available_errors)

lemma commands_errors_fixed:
  assumes "process_commands ops t thr s env = Returns (r, s', env')"
  shows "r \<in> {OK, Err EINTR, Err ETERM} \<and> sopts s' = sopts s \<and> ticks s' = ticks s \<and> ms env' = ms env \<and> ms_reads env' = ms_reads env"
  using assms mails_errors[of ops t s env r s' env']
    mails_errors[of ops 0 "s\<lparr>last_tsc := tsc env (tsc_reads env)\<rparr>" "env\<lparr>tsc_reads := tsc_reads env + 1\<rparr>" r s' env']
    mails_errors[of ops 0 s "env\<lparr>tsc_reads := tsc_reads env + 1\<rparr>" r s' env']
  by (auto simp: process_commands_def Let_def split: if_splits)

lemma commands_errors:
  "process_commands ops t thr s env = Returns (Err e, s', env') \<Longrightarrow> e = EINTR \<or> e = ETERM"
  by (auto dest: commands_errors_fixed)

lemma commands_fixed:
  assumes "process_commands ops t thr s env = Returns (r, s', env')"
  shows "sopts s' = sopts s" "ticks s' = ticks s" "ms env' = ms env" "ms_reads env' = ms_reads env"
  using commands_errors_fixed[OF assms] by simp_all

section \<open>One round of the loops\<close>

lemma recv_loop_cases:
  assumes run: "recv_loop ops b t d s env = Returns (r, s', env')"
  obtains (cmd) e where "process_commands ops (if b then t else 0) False s env = Returns (Err e, s', env')" "r = Inl e"
  | (msg) m s1 s2 where "process_commands ops (if b then t else 0) False s env = Returns (OK, s1, env')"
      "try_recv ops s1 = Some (Inr m, s2)" "r = Inr m" "s' = s2\<lparr>ticks := 0\<rparr>"
  | (error) e s1 where "process_commands ops (if b then t else 0) False s env = Returns (OK, s1, env')"
      "try_recv ops s1 = Some (Inl e, s')" "r = Inl e" "e \<noteq> EAGAIN"
  | (expired) s1 env1 where "process_commands ops (if b then t else 0) False s env = Returns (OK, s1, env1)"
      "try_recv ops s1 = Some (Inl EAGAIN, s')" "r = Inl EAGAIN" "0 < t" "time_left d (ms env1 (ms_reads env1)) \<le> 0"
      "env' = env1\<lparr>ms_reads := ms_reads env1 + 1\<rparr>"
  | (again) s1 env1 s2 t2 env2 where "process_commands ops (if b then t else 0) False s env = Returns (OK, s1, env1)"
      "try_recv ops s1 = Some (Inl EAGAIN, s2)" "recv_loop ops True t2 d s2 env2 = Returns (r, s', env')"
      "length (mails env2) < length (mails env)"
      "if 0 < t then t2 = time_left d (ms env1 (ms_reads env1)) \<and> 0 < t2 \<and> env2 = env1\<lparr>ms_reads := ms_reads env1 + 1\<rparr>
       else t2 = t \<and> env2 = env1"
proof (cases "process_commands ops (if b then t else 0) False s env")
  case (Returns x)
  obtain c s1 env1 where x: "x = (c, s1, env1)" by (cases x)
  note C = Returns[unfolded x] and S = process_commands_shorter[OF Returns[unfolded x]]
  note R = run[unfolded recv_loop.simps[of ops b t d s env] C]
  show ?thesis
  proof (cases c)
    case (Err e)
    with R have "r = Inl e" "s1 = s'" "env1 = env'" by simp_all
    with C Err show ?thesis by (intro cmd[of e]) simp_all
  next
    case OK
    note C' = C[unfolded OK] and R' = R[unfolded OK outcome.case prod.case rc.case]
    show ?thesis
    proof (cases "try_recv ops s1")
      case None
      then show ?thesis using R' by simp
    next
      case (Some y)
      obtain q s2 where y: "y = (q, s2)" by (cases y)
      note T = Some[unfolded y]
      show ?thesis
      proof (cases q)
        case (Inr m)
        with R' T have "Inr m = r" "s2\<lparr>ticks := 0\<rparr> = s'" "env1 = env'" by simp_all
        with T C' Inr show ?thesis by (intro msg[of s1 m s2]) simp_all
      next
        case (Inl e)
        show ?thesis
        proof (cases "e = EAGAIN")
          case False
          with R' T Inl have "Inl e = r" "s2 = s'" "env1 = env'" by simp_all
          with T C' Inl False show ?thesis by (intro error[of s1 e]) simp_all
        next
          case True
          show ?thesis
          proof (cases "0 < t")
            case pos: True
            show ?thesis
            proof (cases "time_left d (ms env1 (ms_reads env1)) \<le> 0")
              case le: True
              with R' T Inl True pos
              have "Inl EAGAIN = r" "s2 = s'" "env1\<lparr>ms_reads := ms_reads env1 + 1\<rparr> = env'" by (simp_all add: now_ms_def)
              with T C' Inl True pos le show ?thesis by (intro expired[of s1 env1]) simp_all
            next
              case False
              then show ?thesis
                using R' T C' Inl True pos S
                by (intro again[of s1 env1 s2 "time_left d (ms env1 (ms_reads env1))" "env1\<lparr>ms_reads := ms_reads env1 + 1\<rparr>"])
                  (simp_all add: now_ms_def)
            qed
          next
            case False
            then show ?thesis
              using R' T C' Inl True S by (intro again[of s1 env1 s2 t env1]) simp_all
          qed
        qed
      qed
    qed
  qed
qed (use run in \<open>simp_all add: recv_loop.simps[of ops b t d s env]\<close>)

lemma send_loop_cases:
  assumes run: "send_loop ops m t d s env = Returns (r, s', env')"
  obtains (cmd) e where "process_commands ops t False s env = Returns (Err e, s', env')" "r = Err e"
  | (sent) s1 x where "process_commands ops t False s env = Returns (OK, s1, env')"
      "x_send ops m (sx s1) = Some (OK, x)" "r = OK" "s' = s1\<lparr>sx := x\<rparr>"
  | (error) e s1 x where "process_commands ops t False s env = Returns (OK, s1, env')"
      "x_send ops m (sx s1) = Some (Err e, x)" "r = Err e" "e \<noteq> EAGAIN" "s' = s1\<lparr>sx := x\<rparr>"
  | (expired) s1 env1 x where "process_commands ops t False s env = Returns (OK, s1, env1)"
      "x_send ops m (sx s1) = Some (Err EAGAIN, x)" "r = Err EAGAIN" "0 < t" "time_left d (ms env1 (ms_reads env1)) \<le> 0"
      "s' = s1\<lparr>sx := x\<rparr>" "env' = env1\<lparr>ms_reads := ms_reads env1 + 1\<rparr>"
  | (again) s1 env1 x t2 env2 where "process_commands ops t False s env = Returns (OK, s1, env1)"
      "x_send ops m (sx s1) = Some (Err EAGAIN, x)" "send_loop ops m t2 d (s1\<lparr>sx := x\<rparr>) env2 = Returns (r, s', env')"
      "length (mails env2) < length (mails env)"
      "if 0 < t then t2 = time_left d (ms env1 (ms_reads env1)) \<and> 0 < t2 \<and> env2 = env1\<lparr>ms_reads := ms_reads env1 + 1\<rparr>
       else t2 = t \<and> env2 = env1"
proof (cases "process_commands ops t False s env")
  case (Returns y)
  obtain c s1 env1 where y: "y = (c, s1, env1)" by (cases y)
  note C = Returns[unfolded y] and S = process_commands_shorter[OF Returns[unfolded y]]
  note R = run[unfolded send_loop.simps[of ops m t d s env] C]
  show ?thesis
  proof (cases c)
    case (Err e)
    with R have "r = Err e" "s1 = s'" "env1 = env'" by simp_all
    with C Err show ?thesis by (intro cmd[of e]) simp_all
  next
    case OK
    note C' = C[unfolded OK] and R' = R[unfolded OK outcome.case prod.case rc.case]
    show ?thesis
    proof (cases "x_send ops m (sx s1)")
      case None
      then show ?thesis using R' by simp
    next
      case (Some z)
      obtain q x where z: "z = (q, x)" by (cases z)
      note T = Some[unfolded z]
      show ?thesis
      proof (cases q)
        case OK
        with R' T have "OK = r" "s1\<lparr>sx := x\<rparr> = s'" "env1 = env'" by simp_all
        with T C' OK show ?thesis by (intro sent[of s1 x]) simp_all
      next
        case (Err e)
        show ?thesis
        proof (cases "e = EAGAIN")
          case False
          with R' T Err have "Err e = r" "s1\<lparr>sx := x\<rparr> = s'" "env1 = env'" by simp_all
          with T C' Err False show ?thesis by (intro error[of s1 e x]) simp_all
        next
          case True
          show ?thesis
          proof (cases "0 < t")
            case pos: True
            show ?thesis
            proof (cases "time_left d (ms env1 (ms_reads env1)) \<le> 0")
              case le: True
              with R' T Err True pos
              have "Err EAGAIN = r" "s1\<lparr>sx := x\<rparr> = s'" "env1\<lparr>ms_reads := ms_reads env1 + 1\<rparr> = env'"
                by (simp_all add: now_ms_def)
              with T C' Err True pos le show ?thesis by (intro expired[of s1 env1 x]) simp_all
            next
              case False
              then show ?thesis
                using R' T C' Err True pos S
                by (intro again[of s1 env1 x "time_left d (ms env1 (ms_reads env1))" "env1\<lparr>ms_reads := ms_reads env1 + 1\<rparr>"])
                  (simp_all add: now_ms_def)
            qed
          next
            case False
            then show ?thesis
              using R' T C' Err True S by (intro again[of s1 env1 x t env1]) simp_all
          qed
        qed
      qed
    qed
  qed
qed (use run in \<open>simp_all add: send_loop.simps[of ops m t d s env]\<close>)

section \<open>Nothing is lost or changed\<close>

lemma recv_loop_logs:
  "recv_loop (log_ops ops) b t d s env = Returns (r, s', env') \<Longrightarrow>
    logs s' = (sent_log (sx s), recv_log (sx s) @ gained r)"
proof (induction "length (mails env)" arbitrary: b t s env rule: less_induct)
  case less
  from less.prems show ?case
  proof (cases rule: recv_loop_cases)
    case (cmd e)
    then show ?thesis using commands_logs[OF cmd(1)] by simp
  next
    case (msg m s1 s2)
    then show ?thesis using commands_logs[OF msg(1)] try_recv_logs[OF msg(2)] by simp
  next
    case (error e s1)
    then show ?thesis using commands_logs[OF error(1)] try_recv_logs[OF error(2)] by simp
  next
    case (expired s1 env1)
    then show ?thesis using commands_logs[OF expired(1)] try_recv_logs[OF expired(2)] by simp
  next
    case (again s1 env1 s2 t2 env2)
    then show ?thesis using commands_logs[OF again(1)] try_recv_logs[OF again(2)] less.hyps[OF again(4,3)] by simp
  qed
qed

lemma xsend_logs:
  "x_send (log_ops ops) m l = Some (r, l') \<Longrightarrow>
    sent_log l' = sent_log l @ (if r = OK then [m] else []) \<and> recv_log l' = recv_log l"
  by (auto simp: log_ops_def split: bind_splits)

lemma send_loop_logs:
  "send_loop (log_ops ops) m t d s env = Returns (r, s', env') \<Longrightarrow>
    logs s' = (sent_log (sx s) @ (if r = OK then [m] else []), recv_log (sx s))"
proof (induction "length (mails env)" arbitrary: t s env rule: less_induct)
  case less
  from less.prems show ?case
  proof (cases rule: send_loop_cases)
    case (cmd e)
    then show ?thesis using commands_logs[OF cmd(1)] by simp
  next
    case (sent s1 x)
    then show ?thesis using commands_logs[OF sent(1)] xsend_logs[OF sent(2)] by simp
  next
    case (error e s1 x)
    then show ?thesis using commands_logs[OF error(1)] xsend_logs[OF error(2)] by simp
  next
    case (expired s1 env1 x)
    then show ?thesis using commands_logs[OF expired(1)] xsend_logs[OF expired(2)] by simp
  next
    case (again s1 env1 x t2 env2)
    then show ?thesis using commands_logs[OF again(1)] xsend_logs[OF again(2)] less.hyps[OF again(4,3)] by simp
  qed
qed

lemma socket_send_logs:
  assumes "socket_send (log_ops ops) m fl s env = Returns (r, m', s', env')"
  shows "logs s' = (sent_log (sx s) @ (if r = OK then [add_more fl m] else []), recv_log (sx s))"
proof (cases "process_commands (log_ops ops) 0 True s env")
  case (Returns y)
  obtain c s1 env1 where y: "y = (c, s1, env1)" by (cases y)
  note C = Returns[unfolded y]
  note L = commands_logs[OF C]
  show ?thesis
  proof (cases "ctx_terminated s \<or> \<not> valid_flags (mflags m) \<or> c \<noteq> OK")
    case True
    then show ?thesis using assms C L by (cases c) (auto simp: socket_send_def split: if_splits)
  next
    case False
    then have c: "c = OK" by simp
    obtain q x where q: "x_send (log_ops ops) (add_more fl m) (sx s1) = Some (q, x)"
      using assms C False by (auto simp: socket_send_def Let_def split: option.splits)
    note X = xsend_logs[OF q]
    obtain e where dl: "deadline (sint (sndtimeo (sopts s1))) env1 = e" by simp
    show ?thesis
    proof (cases q)
      case OK
      with assms C False q c have "OK = r" "s1\<lparr>sx := x\<rparr> = s'" by (simp_all add: socket_send_def Let_def)
      then show ?thesis using L X OK by auto
    next
      case (Err e')
      show ?thesis
      proof (cases "e' \<noteq> EAGAIN \<or> fl AND ZMQ_NOBLOCK \<noteq> 0 \<or> sint (sndtimeo (sopts s1)) = 0")
        case True
        then show ?thesis using assms C False q L X Err by (auto simp: socket_send_def Let_def split: if_splits)
      next
        case go: False
        obtain d env2 where d: "deadline (sint (sndtimeo (sopts s1))) env1 = (d, env2)" by fastforce
        have "send_loop (log_ops ops) (add_more fl m) (sint (sndtimeo (sopts s1))) d (s1\<lparr>sx := x\<rparr>) env2 = Returns (r, s', env')"
          using assms C False q Err go d by (auto simp: socket_send_def Let_def split: outcome.splits prod.splits)
        from send_loop_logs[OF this] show ?thesis using L X Err by simp
      qed
    qed
  qed
qed (use assms in \<open>auto simp: socket_send_def split: if_splits\<close>)

section \<open>Receiving\<close>

lemma tick_cases:
  assumes "tick ops s env = Returns (r, s', env')"
  obtains (quiet) "r = OK" "s' = s\<lparr>ticks := ticks s + 1\<rparr>" "env' = env"
  | (polled) s1 where "process_commands ops 0 False (s\<lparr>ticks := ticks s + 1\<rparr>) env = Returns (r, s1, env')"
      "ticks s + 1 = inbound_poll_rate" "s' = (if r = OK then s1\<lparr>ticks := 0\<rparr> else s1)"
proof (cases "ticks s + 1 = inbound_poll_rate")
  case True
  with assms show ?thesis
    using polled by (auto simp: tick_def Let_def split: outcome.splits prod.splits rc.splits)
next
  case False
  with assms show ?thesis by (intro quiet) (auto simp: tick_def Let_def)
qed

lemma tick_logs:
  assumes "tick (log_ops ops) s env = Returns (r, s', env')"
  shows "logs s' = logs s" and "r \<noteq> OK \<Longrightarrow> r \<in> {Err EINTR, Err ETERM} \<and> ticks s' = inbound_poll_rate"
proof -
  have "logs s' = logs s \<and> (r \<noteq> OK \<longrightarrow> r \<in> {Err EINTR, Err ETERM} \<and> ticks s' = inbound_poll_rate)"
    using assms
  proof (cases rule: tick_cases)
    case (polled s1)
    from commands_logs[OF polled(1)] commands_errors_fixed[OF polled(1)] polled(2,3) show ?thesis by auto
  qed auto
  then show "logs s' = logs s" "r \<noteq> OK \<Longrightarrow> r \<in> {Err EINTR, Err ETERM} \<and> ticks s' = inbound_poll_rate" by auto
qed

lemma recv_again_logs:
  assumes "recv_again (log_ops ops) s env = Returns (r, s', env')"
  shows "logs s' = (sent_log (sx s), recv_log (sx s) @ gained r)"
proof (cases "process_commands (log_ops ops) 0 False s env")
  case (Returns y)
  obtain c s1 env1 where y: "y = (c, s1, env1)" by (cases y)
  note L = commands_logs[OF Returns[unfolded y]]
  show ?thesis
  proof (cases c)
    case OK
    then have "try_recv (log_ops ops) (s1\<lparr>ticks := 0\<rparr>) = Some (r, s')"
      using assms Returns y by (simp add: recv_again_def split: option.splits prod.splits)
    from try_recv_logs[OF this] show ?thesis using L by simp
  next
    case (Err e)
    with assms Returns y have "Inl e = r" "s1 = s'" by (simp_all add: recv_again_def)
    then show ?thesis using L by auto
  qed
qed (use assms in \<open>simp_all add: recv_again_def\<close>)

lemma recv_wait_logs:
  assumes "sock_recv_wait (log_ops ops) fl s env = Returns (r, s', env')"
  shows "logs s' = (sent_log (sx s), recv_log (sx s) @ gained r)"
proof (cases "fl AND ZMQ_NOBLOCK \<noteq> 0 \<or> sint (rcvtimeo (sopts s)) = 0")
  case True
  with assms have "recv_again (log_ops ops) s env = Returns (r, s', env')" by (simp add: sock_recv_wait_def Let_def)
  from recv_again_logs[OF this] show ?thesis .
next
  case False
  obtain d env1 where "deadline (sint (rcvtimeo (sopts s))) env = (d, env1)" by fastforce
  with assms False have "recv_loop (log_ops ops) (ticks s \<noteq> 0) (sint (rcvtimeo (sopts s))) d s env1 = Returns (r, s', env')"
    by (simp add: sock_recv_wait_def Let_def)
  from recv_loop_logs[OF this] show ?thesis .
qed

text \<open>A message that was fetched is lost when the commands that are processed after it fail.\<close>

definition lost :: "errno + msg \<Rightarrow> 'x sock \<Rightarrow> bool" where
  "lost r s \<longleftrightarrow> r \<in> {Inl EINTR, Inl ETERM} \<and> ticks s = inbound_poll_rate"

lemma recv_msg_logs:
  assumes "recv_msg (log_ops ops) fl s env = Returns (r, s', env')" "\<not> lost r s'"
  shows "logs s' = (sent_log (sx s), recv_log (sx s) @ gained r)"
proof (cases "try_recv (log_ops ops) s")
  case (Some y)
  obtain first s1 where y: "y = (first, s1)" by (cases y)
  note T = Some[unfolded y]
  note L = try_recv_logs[OF T]
  show ?thesis
  proof (cases "\<exists>e. first = Inl e \<and> e \<noteq> EAGAIN")
    case True
    then show ?thesis using assms T L by (auto simp: recv_msg_def)
  next
    case stop: False
    then obtain c s2 env2 where K: "tick (log_ops ops) s1 env = Returns (c, s2, env2)"
      using assms T by (cases "tick (log_ops ops) s1 env") (auto simp: recv_msg_def split: sum.splits if_splits)
    note K1 = tick_logs(1)[OF K]
    show ?thesis
    proof (cases c)
      case (Err e)
      then show ?thesis using assms T K stop tick_logs[OF K] by (auto simp: recv_msg_def lost_def split: sum.splits if_splits)
    next
      case OK
      show ?thesis
      proof (cases first)
        case (Inr m)
        then show ?thesis using assms T K OK L K1 by (auto simp: recv_msg_def)
      next
        case (Inl e)
        then have "sock_recv_wait (log_ops ops) fl s2 env2 = Returns (r, s', env')"
          using assms T K OK stop by (auto simp: recv_msg_def)
        from recv_wait_logs[OF this] show ?thesis using L K1 Inl by simp
      qed
    qed
  qed
qed (use assms in \<open>simp add: recv_msg_def\<close>)

text \<open>The message as the socket type delivered it.\<close>

definition put_more :: "bool \<Rightarrow> msg \<Rightarrow> msg" where
  "put_more b m = (if b then m\<lparr>mflags := mflags m OR ZMQ_MSG_MORE\<rparr> else m)"

lemma take_more_put:
  assumes "take_more m s = (m', s')"
  shows "put_more (rcvmore s') m' = m" and "\<not> has_more m'" and "sx s' = sx s" and "ticks s' = ticks s"
proof -
  have "(x AND NOT 1) OR 1 = x" if "x AND 1 \<noteq> 0" for x :: byte
    using that by (intro bit_eqI) (auto simp: bit_simps and_one_eq odd_iff_mod_2_eq_one bit_0 split: if_splits)
  then show "put_more (rcvmore s') m' = m"
    using assms by (cases m) (auto simp: take_more_def put_more_def has_more_def ZMQ_MSG_MORE_def split: if_splits)
  show "\<not> has_more m'"
    using assms by (auto simp: take_more_def has_more_def and.assoc split: if_splits)
  show "sx s' = sx s" "ticks s' = ticks s"
    using assms by (auto simp: take_more_def split: if_splits)
qed

definition delivered :: "errno + msg \<Rightarrow> bool \<Rightarrow> msg list" where
  "delivered r b = map (put_more b) (gained r)"

lemma socket_recv_logs:
  assumes "socket_recv (log_ops ops) fl0 fl s env = Returns (r, s', env')" "\<not> lost r s'"
  shows "logs s' = (sent_log (sx s), recv_log (sx s) @ delivered r (rcvmore s'))"
    and "r = Inr m \<Longrightarrow> \<not> has_more m"
proof -
  have "logs s' = (sent_log (sx s), recv_log (sx s) @ delivered r (rcvmore s')) \<and> (r = Inr m \<longrightarrow> \<not> has_more m)"
  proof (cases "ctx_terminated s \<or> \<not> valid_flags fl0")
    case True
    with assms obtain e where "Inl e = r" "s = s'" by (auto simp: socket_recv_def split: if_splits)
    then show ?thesis by (auto simp: delivered_def)
  next
    case False
    then obtain q s1 env1 where q: "recv_msg (log_ops ops) fl s env = Returns (q, s1, env1)"
      using assms by (cases "recv_msg (log_ops ops) fl s env") (auto simp: socket_recv_def)
    show ?thesis
    proof (cases q)
      case (Inl e)
      with assms False q have "Inl e = r" "s1 = s'" by (auto simp: socket_recv_def)
      with recv_msg_logs[OF q] Inl assms(2) show ?thesis by (auto simp: delivered_def)
    next
      case (Inr m1)
      obtain m2 s2 where t: "take_more m1 s1 = (m2, s2)" by fastforce
      with assms False q Inr have "Inr m2 = r" "s2 = s'" by (auto simp: socket_recv_def)
      with recv_msg_logs[OF q] Inr take_more_put[OF t] show ?thesis by (auto simp: delivered_def lost_def)
    qed
  qed
  then show "logs s' = (sent_log (sx s), recv_log (sx s) @ delivered r (rcvmore s'))" "r = Inr m \<Longrightarrow> \<not> has_more m"
    by auto
qed

end
