(* ===== verification/SocketCalls.thy ===== *)
theory SocketCalls
  imports SocketApi
begin

text \<open>Sequences of calls, and how long a call of \<^verbatim>\<open>zmq_recv\<close> waits.\<close>

datatype call = Send_call msg u32 | Recv_call byte u32

text \<open>What the user sees of a call: the result and, for a received message, the option \<^verbatim>\<open>ZMQ_RCVMORE\<close>.\<close>

datatype api_ev = Sent msg u32 rc | Received "errno + msg" bool

fun api_step :: "('x, 'c) sock_ops \<Rightarrow> call \<Rightarrow> 'x sock \<Rightarrow> 'c env \<Rightarrow> (api_ev \<times> 'x sock \<times> 'c env) outcome" where
  "api_step ops (Send_call m fl) s env =
     (case socket_send ops m fl s env of
        Returns (r, m', s', env') \<Rightarrow> Returns (Sent m fl r, s', env')
      | Blocked \<Rightarrow> Blocked
      | Aborted \<Rightarrow> Aborted)"
| "api_step ops (Recv_call fl0 fl) s env =
     (case socket_recv ops fl0 fl s env of
        Returns (r, s', env') \<Rightarrow> Returns (Received r (rcvmore s'), s', env')
      | Blocked \<Rightarrow> Blocked
      | Aborted \<Rightarrow> Aborted)"

fun api_run :: "('x, 'c) sock_ops \<Rightarrow> call list \<Rightarrow> 'x sock \<Rightarrow> 'c env \<Rightarrow> (api_ev list \<times> 'x sock \<times> 'c env) outcome" where
  "api_run ops [] s env = Returns ([], s, env)"
| "api_run ops (c # cs) s env =
     (case api_step ops c s env of
        Returns (e, s', env') \<Rightarrow>
          (case api_run ops cs s' env' of
             Returns (es, s'', env'') \<Rightarrow> Returns (e # es, s'', env'')
           | Blocked \<Rightarrow> Blocked
           | Aborted \<Rightarrow> Aborted)
      | Blocked \<Rightarrow> Blocked
      | Aborted \<Rightarrow> Aborted)"

fun accepted :: "api_ev \<Rightarrow> msg list" where
  "accepted (Sent m fl r) = (if r = OK then [add_more fl m] else [])"
| "accepted (Received r b) = []"

fun obtained :: "api_ev \<Rightarrow> msg list" where
  "obtained (Sent m fl r) = []"
| "obtained (Received r b) = delivered r b"

fun interrupted :: "api_ev \<Rightarrow> bool" where
  "interrupted (Sent m fl r) = False"
| "interrupted (Received r b) = (r \<in> {Inl EINTR, Inl ETERM})"

fun single_part :: "api_ev \<Rightarrow> bool" where
  "single_part (Received (Inr m) b) = (\<not> has_more m)"
| "single_part e = True"

lemma api_step_logs:
  assumes "api_step (log_ops ops) c s env = Returns (e, s', env')" "\<not> interrupted e"
  shows "logs s' = (sent_log (sx s) @ accepted e, recv_log (sx s) @ obtained e) \<and> single_part e"
proof (cases c)
  case (Send_call m fl)
  with assms(1) obtain r m' where "socket_send (log_ops ops) m fl s env = Returns (r, m', s', env')" "Sent m fl r = e"
    by (auto split: outcome.splits)
  from this(2) socket_send_logs[OF this(1)] show ?thesis by auto
next
  case (Recv_call fl0 fl)
  with assms(1) obtain r where r: "socket_recv (log_ops ops) fl0 fl s env = Returns (r, s', env')" "Received r (rcvmore s') = e"
    by (auto split: outcome.splits)
  with assms(2) have "\<not> lost r s'" by (auto simp: lost_def)
  note L = socket_recv_logs[OF r(1) this]
  from r(2) L show ?thesis by (cases r) auto
qed

lemma api_run_logs:
  "api_run (log_ops ops) cs s env = Returns (es, s', env') \<Longrightarrow> \<forall>e\<in>set es. \<not> interrupted e \<Longrightarrow>
    logs s' = (sent_log (sx s) @ concat (map accepted es), recv_log (sx s) @ concat (map obtained es)) \<and> list_all single_part es"
proof (induction cs arbitrary: es s env)
  case (Cons c cs)
  from Cons.prems(1) obtain e s1 env1 es1 where
    e: "api_step (log_ops ops) c s env = Returns (e, s1, env1)" "api_run (log_ops ops) cs s1 env1 = Returns (es1, s', env')"
      "e # es1 = es"
    by (auto split: outcome.splits)
  with Cons.prems(2) have "\<not> interrupted e" "\<forall>e\<in>set es1. \<not> interrupted e" by auto
  with e(3) api_step_logs[OF e(1)] Cons.IH[OF e(2)] show ?case by auto
qed simp

section \<open>Time\<close>

lemma recv_loop_expires:
  "recv_loop ops b t d s env = Returns (Inl EAGAIN, s', env') \<Longrightarrow>
    0 < t \<and> ms env' = ms env \<and> ms_reads env < ms_reads env' \<and> time_left d (ms env (ms_reads env' - 1)) \<le> 0"
proof (induction "length (mails env)" arbitrary: b t s env rule: less_induct)
  case less
  from less.prems show ?case
  proof (cases rule: recv_loop_cases)
    case (cmd e)
    then show ?thesis using commands_errors[OF cmd(1)] by auto
  next
    case (expired s1 env1)
    then show ?thesis using commands_fixed[OF expired(1)] by simp
  next
    case (again s1 env1 s2 t2 env2)
    then show ?thesis using commands_fixed[OF again(1)] less.hyps[OF again(4,3)] by (auto split: if_splits)
  qed simp_all
qed

lemma narrow_of_int: "(ucast (word_of_int z :: u64) :: u32) = word_of_int z"
  by (rule bit_word_eqI) (simp add: bit_simps)

lemma time_left_le:
  assumes "time_left (start + word_of_int t) now \<le> 0" "start \<le> now" "unat now - unat start < 2 ^ 31" "0 < t" "t < 2 ^ 31"
  shows "t \<le> int (unat now - unat start)"
proof -
  define k where "k = int (unat now - unat start)"
  have k: "k = uint now - uint start"
    using assms(2) unfolding k_def word_le_nat_alt by (simp only: of_nat_diff uint_nat)
  have "now = start + word_of_int k"
    by (simp add: k)
  then have "start + word_of_int t - now = word_of_int (t - k)" by simp
  then have "time_left (start + word_of_int t) now = sint (word_of_int (t - k) :: u32)"
    unfolding time_left_def by (simp only: narrow_of_int)
  moreover have "sint (word_of_int (t - k) :: u32) = t - k"
    using assms(3,4,5) unfolding k_def by (simp del: of_int_diff add: signed_of_int signed_take_bit_int_eq_self)
  ultimately show ?thesis using assms(1) by (simp add: k_def)
qed

lemma recv_timeout:
  assumes "recv_msg ops fl s env = Returns (Inl EAGAIN, s', env')" "fl AND ZMQ_NOBLOCK = 0" "sint (rcvtimeo (sopts s)) \<noteq> 0"
  shows "0 < sint (rcvtimeo (sopts s)) \<and> ms_reads env + 1 < ms_reads env' \<and>
    time_left (ms env (ms_reads env) + word_of_int (sint (rcvtimeo (sopts s)))) (ms env (ms_reads env' - 1)) \<le> 0"
proof (cases "try_recv ops s")
  case (Some y)
  obtain first s1 where y: "y = (first, s1)" by (cases y)
  note T = Some[unfolded y]
  have o1: "sopts s1 = sopts s" using T by (auto simp: try_recv_def split: rc.splits bind_splits)
  have stop: "\<not> (\<exists>e. first = Inl e \<and> e \<noteq> EAGAIN)" using assms(1) T by (auto simp: recv_msg_def split: if_splits)
  then obtain c s2 env2 where K: "tick ops s1 env = Returns (c, s2, env2)"
    using assms T by (cases "tick ops s1 env") (auto simp: recv_msg_def split: sum.splits if_splits)
  have K1: "sopts s2 = sopts s1 \<and> ms env2 = ms env \<and> ms_reads env2 = ms_reads env \<and> c \<noteq> Err EAGAIN"
    using K
  proof (cases rule: tick_cases)
    case (polled s3)
    then show ?thesis using commands_errors_fixed[OF polled(1)] by auto
  qed auto
  have "sock_recv_wait ops fl s2 env2 = Returns (Inl EAGAIN, s', env')"
    using assms T K K1 stop by (cases c; cases first) (auto simp: recv_msg_def)
  moreover obtain d env3 where D: "deadline (sint (rcvtimeo (sopts s2))) env2 = (d, env3)" by fastforce
  ultimately have "recv_loop ops (ticks s2 \<noteq> 0) (sint (rcvtimeo (sopts s2))) d s2 env3 = Returns (Inl EAGAIN, s', env')"
    using assms(2,3) o1 K1 by (simp add: sock_recv_wait_def Let_def)
  from recv_loop_expires[OF this] D o1 K1 show ?thesis by (auto simp: deadline_def now_ms_def)
qed (use assms in \<open>simp add: recv_msg_def\<close>)

section \<open>A message that is lost\<close>

text \<open>A socket type that queues messages.\<close>

definition queue_ops :: "(msg list, unit) sock_ops" where
  "queue_ops = \<lparr>
     x_send = (\<lambda>m q. Some (OK, q @ [m])),
     x_recv = (\<lambda>q. case q of [] \<Rightarrow> Some (Err EAGAIN, None, []) | m # q' \<Rightarrow> Some (OK, Some m, q')),
     x_has_in = (\<lambda>q. Some (q \<noteq> [], q)),
     x_has_out = (\<lambda>q. Some (True, q)),
     x_setsockopt = (\<lambda>opt v q. (Err EINVAL, q)),
     x_command = (\<lambda>c q. Some q)\<rparr>"

definition env_of :: "unit mail_ev list \<Rightarrow> (nat \<Rightarrow> u64) \<Rightarrow> unit env" where
  "env_of es clk = \<lparr>mails = es, ms = clk, ms_reads = 0, tsc = (\<lambda>_. 0), tsc_reads = 0\<rparr>"

text \<open>The hundredth message is fetched, and a signal arrives while the commands are processed. The call fails, the message
  is gone, and the counter stays above the rate, so that the commands are never processed again while messages arrive.\<close>

lemma recv_message_lost:
  "socket_recv queue_ops 254 ZMQ_NOBLOCK (sock_new [m, m'] opts\<lparr>ticks := 99\<rparr>) (env_of [Interrupted] (\<lambda>_. 0)) =
    Returns (Inl EINTR, sock_new [m'] opts\<lparr>ticks := 100\<rparr>, (env_of [] (\<lambda>_. 0))\<lparr>tsc_reads := 1\<rparr>)"
  by (simp add: socket_recv_def valid_flags_def ZMQ_MSG_MASK_def recv_msg_def try_recv_def queue_ops_def sock_new_def tick_def
      Let_def inbound_poll_rate_def process_commands_def process_mails_def first_wait_def env_of_def)

section \<open>The properties\<close>

text \<open>C14: In every sequence of calls of zmq_send and zmq_recv in which no receiving call fails with EINTR or ETERM, on every
  socket type: the messages handed to the socket type are exactly the accepted ones, with the MORE flag that ZMQ_SNDMORE
  asks for, and the messages taken from the socket type are exactly the received ones, with ZMQ_RCVMORE as their MORE flag;
  both in order. No received message has the flag itself.\<close>

theorem socket_api_transparent:
  assumes "api_run (log_ops ops) cs (sock_new \<lparr>inner = y, sent_log = [], recv_log = []\<rparr> opts) env = Returns (es, s', env')"
    and "list_all (\<lambda>e. \<not> interrupted e) es"
  shows "sent_log (sx s') = concat (map accepted es) \<and> recv_log (sx s') = concat (map obtained es) \<and>
    list_all single_part es"
  using api_run_logs[OF assms(1)] assms(2) by (simp add: sock_new_def list_all_iff)

definition demo_part :: msg where
  "demo_part = \<lparr>is_delim = False, mflags = 254, body = [7]\<rparr>"

theorem socket_api_transparent_witness:
  "case api_run (log_ops queue_ops)
      [Recv_call 254 ZMQ_NOBLOCK, Send_call demo_part ZMQ_SNDMORE, Send_call demo_part 0, Recv_call 254 0, Recv_call 254 0]
      (sock_new \<lparr>inner = [], sent_log = [], recv_log = []\<rparr> options_new) (env_of [Empty, Empty, Empty] (\<lambda>_. 0)) of
     Returns (es, s', env') \<Rightarrow>
       recv_log (sx s') = concat (map obtained es) \<and>
       es = [Received (Inl EAGAIN) False, Sent demo_part 2 OK, Sent demo_part 0 OK,
             Received (Inr demo_part) True, Received (Inr demo_part) False]
   | Blocked \<Rightarrow> False
   | Aborted \<Rightarrow> False"
proof -
  let ?cs = "[Recv_call 254 ZMQ_NOBLOCK, Send_call demo_part ZMQ_SNDMORE, Send_call demo_part 0, Recv_call 254 0, Recv_call 254 0]"
  let ?es = "[Received (Inl EAGAIN) False, Sent demo_part 2 OK, Sent demo_part 0 OK,
              Received (Inr demo_part) True, Received (Inr demo_part) False]"
  obtain s' env' where run: "api_run (log_ops queue_ops) ?cs
      (sock_new \<lparr>inner = [], sent_log = [], recv_log = []\<rparr> options_new) (env_of [Empty, Empty, Empty] (\<lambda>_. 0))
      = Returns (?es, s', env')"
    by (simp add: socket_recv_def socket_send_def valid_flags_def ZMQ_MSG_MASK_def recv_msg_def try_recv_def queue_ops_def
        log_ops_def sock_new_def tick_def Let_def inbound_poll_rate_def process_commands_def process_mails_def first_wait_def
        env_of_def demo_part_def add_more_def take_more_def has_more_def ZMQ_SNDMORE_def ZMQ_NOBLOCK_def
        ZMQ_MSG_MORE_def sock_recv_wait_def recv_again_def)
  show ?thesis
    using socket_api_transparent[OF run] unfolding run by simp
qed

text \<open>C17: A blocking call of zmq_recv gives up with EAGAIN only if a receive timeout is set, and only when that many
  milliseconds have passed since the call looked at the clock for the first time; provided that the clock does not run
  backwards and the call takes less than 2^31 milliseconds.\<close>

theorem recv_timeout_kept:
  assumes "socket_recv ops fl0 fl s env = Returns (Inl EAGAIN, s', env')"
    and "fl AND ZMQ_NOBLOCK = 0" and "sint (rcvtimeo (sopts s)) \<noteq> 0"
    and "\<forall>i \<ge> ms_reads env. ms env (ms_reads env) \<le> ms env i \<and> unat (ms env i) - unat (ms env (ms_reads env)) < 2 ^ 31"
  shows "0 < sint (rcvtimeo (sopts s)) \<and> ms_reads env + 1 < ms_reads env' \<and>
    sint (rcvtimeo (sopts s)) \<le> int (unat (ms env (ms_reads env' - 1)) - unat (ms env (ms_reads env)))"
proof -
  from assms(1) have "recv_msg ops fl s env = Returns (Inl EAGAIN, s', env')"
    by (auto simp: socket_recv_def split: if_splits outcome.splits sum.splits prod.splits)
  note R = recv_timeout[OF this assms(2,3)]
  then have "ms_reads env \<le> ms_reads env' - 1" by linarith
  from R assms(4)[rule_format, OF this] show ?thesis
    using time_left_le[of "ms env (ms_reads env)" "sint (rcvtimeo (sopts s))" "ms env (ms_reads env' - 1)"]
      sint_lt[of "rcvtimeo (sopts s)"] by simp
qed

theorem recv_timeout_kept_witness:
  "case socket_recv queue_ops 254 0 (sock_new [] (options_new\<lparr>rcvtimeo := 20\<rparr>))
      (env_of [Empty, Empty, Empty, Empty] (\<lambda>i. if i = 0 then 100 else if i = 1 then 115 else 120)) of
     Returns (r, s', env') \<Rightarrow> r = Inl EAGAIN \<and> ms_reads env' = 3 \<and> 20 \<le> int (unat (ms env' (3 - 1)) - 100)
   | Blocked \<Rightarrow> False
   | Aborted \<Rightarrow> False"
proof -
  let ?clk = "\<lambda>i::nat. if i = 0 then 100 else if i = 1 then 115 else 120 :: u64"
  let ?s = "sock_new [] (options_new\<lparr>rcvtimeo := 20\<rparr>)"
  let ?env = "env_of [Empty, Empty, Empty, Empty] ?clk"
  obtain s' env' where run: "socket_recv queue_ops 254 0 ?s ?env = Returns (Inl EAGAIN, s', env')"
      "ms_reads env' = 3" "ms env' = ?clk"
    by (simp add: socket_recv_def valid_flags_def ZMQ_MSG_MASK_def recv_msg_def try_recv_def queue_ops_def sock_new_def
        tick_def Let_def inbound_poll_rate_def process_commands_def process_mails_def first_wait_def env_of_def
        ZMQ_NOBLOCK_def sock_recv_wait_def deadline_def now_ms_def recv_loop.simps time_left_def)
  show ?thesis
    using recv_timeout_kept[OF run(1)] unfolding run(1) by (simp add: run sock_new_def env_of_def ZMQ_NOBLOCK_def)
qed

end
