(* ===== verification/Connect.thy ===== *)
theory Connect
  imports SocketBase Session Req Rep Pair Xsub Xrep
begin

text \<open>
  \<^verbatim>\<open>src/socket_base.cpp\<close>: creating sockets, binding and connecting them, and their sessions. All socket types are
  one type here, and attaching pipes is the virtual call. What a call starts in other threads is an effect; the pipes get
  the identities the caller passes. Resolving an address and opening a listening socket are system calls, whose results
  are arguments.
\<close>

datatype any_sock =
    PairS pair_t | PubS dist_t | SubS xsub_t | ReqS "xreq_t req_t" | RepS rep_t | XreqS xreq_t | XrepS xrep_t
  | PullS fq_t | PushS lb_t | XpubS dist_t | XsubS xsub_t

definition socket_create :: "u32 \<Rightarrow> (any_sock \<times> options_t) option" where
  "socket_create t =
     (if t = ZMQ_PAIR then Some (PairS pair_new, pair_options options_new)
      else if t = ZMQ_PUB then Some (PubS dist_new, pub_options options_new)
      else if t = ZMQ_SUB then Some (SubS xsub_new, sub_options options_new)
      else if t = ZMQ_REQ then Some (ReqS (req_new xreq_new), req_options options_new)
      else if t = ZMQ_REP then Some (RepS rep_new, rep_options options_new)
      else if t = ZMQ_XREQ then Some (XreqS xreq_new, xreq_options options_new)
      else if t = ZMQ_XREP then Some (XrepS xrep_new, xrep_options options_new)
      else if t = ZMQ_PULL then Some (PullS fq_new, pull_options options_new)
      else if t = ZMQ_PUSH then Some (PushS lb_new, push_options options_new)
      else if t = ZMQ_XPUB then Some (XpubS dist_new, xpub_options options_new)
      else if t = ZMQ_XSUB then Some (XsubS xsub_new, xsub_options options_new)
      else None)"

section \<open>Attaching pipes\<close>

definition wrap :: "('x \<Rightarrow> 's) \<Rightarrow> ('x \<times> 'w \<times> 'a) option \<Rightarrow> ('s \<times> 'w \<times> 'a) option" where
  "wrap C r = do { (x, w, a) \<leftarrow> r; Some (C x, w, a) }"

fun xattach_pipes ::
  "nat option \<Rightarrow> nat option \<Rightarrow> blob \<Rightarrow> any_sock \<Rightarrow> pipe_world \<Rightarrow> (any_sock \<times> pipe_world \<times> sock_act list) option" where
  "xattach_pipes i out peer (PairS x) w = wrap PairS (pair_attach pipe_reader_ops pipe_writer_ops i out x w)"
| "xattach_pipes i out peer (PubS x) w = wrap PubS (xpub_attach pipe_writer_ops i out x w)"
| "xattach_pipes i out peer (SubS x) w = wrap SubS (xsub_attach pipe_reader_ops i out x w)"
| "xattach_pipes i out peer (ReqS x) w =
     wrap (\<lambda>b. ReqS (x\<lparr>rq_base := b\<rparr>)) (xreq_attach pipe_reader_ops pipe_writer_ops i out (rq_base x) w)"
| "xattach_pipes i out peer (RepS x) w = wrap (\<lambda>b. RepS (x\<lparr>rep_base := b\<rparr>)) (xrep_attach pipe_router i out peer (rep_base x) w)"
| "xattach_pipes i out peer (XreqS x) w = wrap XreqS (xreq_attach pipe_reader_ops pipe_writer_ops i out x w)"
| "xattach_pipes i out peer (XrepS x) w = wrap XrepS (xrep_attach pipe_router i out peer x w)"
| "xattach_pipes i out peer (PullS x) w = wrap PullS (pull_attach pipe_reader_ops i out x w)"
| "xattach_pipes i out peer (PushS x) w = wrap PushS (push_attach pipe_writer_ops i out x w)"
| "xattach_pipes i out peer (XpubS x) w = wrap XpubS (xpub_attach pipe_writer_ops i out x w)"
| "xattach_pipes i out peer (XsubS x) w = wrap XsubS (xsub_attach pipe_reader_ops i out x w)"

text \<open>A peer without an identity gets a unique one, which starts with a zero byte.\<close>

definition socket_attach_pipes ::
  "blob \<Rightarrow> nat option \<Rightarrow> nat option \<Rightarrow> blob \<Rightarrow> any_sock \<Rightarrow> pipe_world \<Rightarrow> (any_sock \<times> pipe_world \<times> sock_act list) option" where
  "socket_attach_pipes uuid i out peer s w = xattach_pipes i out (if peer \<noteq> [] then peer else 0 # uuid) s w"

definition socket_process_bind ::
  "blob \<Rightarrow> nat option \<Rightarrow> nat option \<Rightarrow> blob \<Rightarrow> any_sock \<Rightarrow> pipe_world \<Rightarrow> (any_sock \<times> pipe_world \<times> sock_act list) option" where
  "socket_process_bind uuid i out peer s w = socket_attach_pipes uuid i out peer s w"

section \<open>Addresses\<close>

fun find_sub :: "string \<Rightarrow> string \<Rightarrow> nat option" where
  "find_sub pat s =
     (if take (length pat) s = pat then Some 0
      else case s of [] \<Rightarrow> None | _ # s' \<Rightarrow> map_option Suc (find_sub pat s'))"

definition parse_uri :: "string \<Rightarrow> errno + string \<times> string" where
  "parse_uri uri =
     (case find_sub ''://'' uri of
        None \<Rightarrow> Inl EINVAL
      | Some pos \<Rightarrow>
          let protocol = take pos uri; address = drop (pos + 3) uri
          in if protocol = [] \<or> address = [] then Inl EINVAL else Inr (protocol, address))"

text \<open>\<open>pgm\<close>: whether the library was built with OpenPGM.\<close>

definition check_protocol :: "bool \<Rightarrow> options_t \<Rightarrow> string \<Rightarrow> rc" where
  "check_protocol pgm opts p =
     (if p \<notin> {''inproc'', ''ipc'', ''tcp'', ''pgm'', ''epgm'', ''sys''} then Err EPROTONOSUPPORT
      else if \<not> pgm \<and> p \<in> {''pgm'', ''epgm''} then Err EPROTONOSUPPORT
      else if p \<in> {''pgm'', ''epgm''} \<and> socket_type opts \<notin> {ZMQ_PUB, ZMQ_SUB, ZMQ_XPUB, ZMQ_XSUB} then Err ENOCOMPATPROTO
      else OK)"

section \<open>Connecting\<close>

text \<open>What a call starts: the command \<^verbatim>\<open>bind\<close> to the peer, a listener or a session in an I/O thread.\<close>

datatype conn_effect =
    BindTo nat "nat option" "nat option" blob
  | NewListener nat string string
  | NewSession nat string string session_t

type_synonym raw_mem = "byte list \<times> byte list \<times> nat"

definition make_pipe ::
  "bool \<Rightarrow> nat \<Rightarrow> u64 \<Rightarrow> u64 \<Rightarrow> raw_mem \<Rightarrow> pipe_world \<Rightarrow> (nat option \<times> pipe_world) option" where
  "make_pipe required p hw sw raw w =
     (if required then do {
        c \<leftarrow> create_pipe hw (sint sw) (fst raw) (fst (snd raw)) (snd (snd raw));
        Some (Some p, set_conn p c [] w)
      }
      else Some (None, w))"

definition inproc_hwm :: "options_t \<Rightarrow> options_t \<Rightarrow> u64" where
  "inproc_hwm mine peer = (if hwm mine = 0 \<or> hwm peer = 0 then 0 else hwm mine + hwm peer)"

definition inproc_swap :: "options_t \<Rightarrow> options_t \<Rightarrow> u64" where
  "inproc_swap mine peer = (if swap mine = 0 \<and> swap peer = 0 then 0 else swap mine + swap peer)"

definition connect_inproc ::
  "nat \<Rightarrow> nat \<Rightarrow> raw_mem \<Rightarrow> blob \<Rightarrow> endpoint_t \<Rightarrow> any_sock \<Rightarrow> options_t \<Rightarrow> pipe_world \<Rightarrow>
    (any_sock \<times> pipe_world \<times> sock_act list \<times> conn_effect list) option" where
  "connect_inproc p_in p_out raw uuid peer s opts w = do {
     let hw = inproc_hwm opts (ep_options peer);
     let sw = inproc_swap opts (ep_options peer);
     (inp, w1) \<leftarrow> make_pipe (requires_in opts) p_in hw sw raw w;
     (outp, w2) \<leftarrow> make_pipe (requires_out opts) p_out hw sw raw w1;
     (s', w3, acts) \<leftarrow> socket_attach_pipes uuid inp outp (identity (ep_options peer)) s w2;
     Some (s', w3, acts, [BindTo (ep_socket peer) outp inp (identity opts)])
   }"

definition connect_session ::
  "nat \<Rightarrow> nat \<Rightarrow> nat \<Rightarrow> raw_mem \<Rightarrow> blob \<Rightarrow> string \<Rightarrow> string \<Rightarrow> any_sock \<Rightarrow> options_t \<Rightarrow> pipe_world \<Rightarrow>
    (any_sock \<times> pipe_world \<times> sock_act list \<times> conn_effect list) option" where
  "connect_session io p_in p_out raw uuid protocol address s opts w =
     (let ses = session_new opts
      in if immediate_connect opts then do {
           (inp, w1) \<leftarrow> make_pipe (requires_in opts) p_in (hwm opts) (swap opts) raw w;
           (outp, w2) \<leftarrow> make_pipe (requires_out opts) p_out (hwm opts) (swap opts) raw w1;
           (s', w3, acts) \<leftarrow> socket_attach_pipes uuid inp outp [] s w2;
           (ses', w4, _) \<leftarrow> attach_pipes outp inp ses w3;
           Some (s', w4, acts, [NewSession io protocol address ses'])
         }
         else Some (s, w, [], [NewSession io protocol address ses]))"

definition failed :: "errno \<Rightarrow> 's \<Rightarrow> 'c \<Rightarrow> 'w \<Rightarrow> (rc \<times> 's \<times> 'c \<times> 'w \<times> 'a list \<times> 'e list) option" where
  "failed e s c w = Some (Err e, s, c, w, [], [])"

text \<open>The arguments of a call: whether OpenPGM is there, the result of resolving the address, the loads of the I/O threads,
  the identities of new pipes, the memory of their swaps and a unique identifier.\<close>

record conn_args =
  ca_pgm :: bool
  ca_resolve :: "string \<Rightarrow> string \<Rightarrow> rc"
  ca_listen :: "string \<Rightarrow> string \<Rightarrow> rc"
  ca_load :: "nat \<Rightarrow> int"
  ca_in :: nat
  ca_out :: nat
  ca_raw :: raw_mem
  ca_uuid :: blob

definition socket_connect ::
  "conn_args \<Rightarrow> string \<Rightarrow> any_sock sock \<Rightarrow> ctx_t \<Rightarrow> pipe_world \<Rightarrow>
    (rc \<times> any_sock sock \<times> ctx_t \<times> pipe_world \<times> sock_act list \<times> conn_effect list) option" where
  "socket_connect ca addr s c w =
     (if ctx_terminated s then failed ETERM s c w
      else case parse_uri addr of
        Inl e \<Rightarrow> failed e s c w
      | Inr (protocol, address) \<Rightarrow>
          (case check_protocol (ca_pgm ca) (sopts s) protocol of
             Err e \<Rightarrow> failed e s c w
           | OK \<Rightarrow>
               (case (if protocol \<in> {''tcp'', ''ipc''} then ca_resolve ca protocol address else OK) of
                  Err e \<Rightarrow> failed e s c w
                | OK \<Rightarrow>
                    if protocol \<in> {''inproc'', ''sys''} then
                      (case find_endpoint addr c of
                         Inl e \<Rightarrow> failed e s c w
                       | Inr peer \<Rightarrow> do {
                           (x, w', acts, effs) \<leftarrow>
                             connect_inproc (ca_in ca) (ca_out ca) (ca_raw ca) (ca_uuid ca) peer (sx s) (sopts s) w;
                           Some (OK, s\<lparr>sx := x\<rparr>, c, w', acts, effs)
                         })
                    else do {
                      io \<leftarrow> choose_io_thread (affinity (sopts s)) (ca_load ca) c;
                      (case io of
                         None \<Rightarrow> failed EMTHREAD s c w
                       | Some t \<Rightarrow> do {
                           (x, w', acts, effs) \<leftarrow>
                             connect_session t (ca_in ca) (ca_out ca) (ca_raw ca) (ca_uuid ca) protocol address
                               (sx s) (sopts s) w;
                           Some (OK, s\<lparr>sx := x\<rparr>, c, w', acts, effs)
                         })
                    })))"

definition socket_bind ::
  "conn_args \<Rightarrow> nat \<Rightarrow> string \<Rightarrow> any_sock sock \<Rightarrow> ctx_t \<Rightarrow> pipe_world \<Rightarrow>
    (rc \<times> any_sock sock \<times> ctx_t \<times> pipe_world \<times> sock_act list \<times> conn_effect list) option" where
  "socket_bind ca me addr s c w =
     (if ctx_terminated s then failed ETERM s c w
      else case parse_uri addr of
        Inl e \<Rightarrow> failed e s c w
      | Inr (protocol, address) \<Rightarrow>
          (case check_protocol (ca_pgm ca) (sopts s) protocol of
             Err e \<Rightarrow> failed e s c w
           | OK \<Rightarrow>
               if protocol \<in> {''inproc'', ''sys''} then
                 (let (r, c') = register_endpoint addr \<lparr>ep_socket = me, ep_options = sopts s\<rparr> c
                  in Some (r, s, c', w, [], []))
               else if protocol \<in> {''tcp'', ''ipc''} then do {
                 io \<leftarrow> choose_io_thread (affinity (sopts s)) (ca_load ca) c;
                 (case io of
                    None \<Rightarrow> failed EMTHREAD s c w
                  | Some t \<Rightarrow>
                      (case ca_listen ca protocol address of
                         Err e \<Rightarrow> failed e s c w
                       | OK \<Rightarrow> Some (OK, s, c, w, [], [NewListener t protocol address])))
               }
               else if protocol \<in> {''pgm'', ''epgm''} then socket_connect ca addr s c w
               else None))"

section \<open>Options\<close>

definition socket_setsockopt ::
  "('x, 'c) sock_ops \<Rightarrow> bool \<Rightarrow> sockopt \<Rightarrow> byte list \<Rightarrow> 'x sock \<Rightarrow> rc \<times> 'x sock" where
  "socket_setsockopt ops swap_dir_ok o' v s =
     (if ctx_terminated s then (Err ETERM, s)
      else let (r, x) = x_setsockopt ops o' v (sx s); s1 = s\<lparr>sx := x\<rparr>
           in if r \<noteq> Err EINVAL then (r, s1)
              else let (r', opts) = options_setsockopt swap_dir_ok o' v (sopts s1) in (r', s1\<lparr>sopts := opts\<rparr>))"

text \<open>\<open>ZMQ_POLLIN\<close> and \<open>ZMQ_POLLOUT\<close>.\<close>

definition event_bits :: "bool \<Rightarrow> bool \<Rightarrow> u32" where
  "event_bits out inp = (if out then 2 else 0) OR (if inp then 1 else 0)"

definition socket_getsockopt ::
  "('x, 'c) sock_ops \<Rightarrow> u32 \<Rightarrow> sockopt \<Rightarrow> nat \<Rightarrow> 'x sock \<Rightarrow> 'c env \<Rightarrow> ((errno + byte list) \<times> 'x sock \<times> 'c env) outcome" where
  "socket_getsockopt ops fd o' len s env =
     (if ctx_terminated s then Returns (Inl ETERM, s, env)
      else if o' = RCVMORE then
        Returns (if len < 8 then Inl EINVAL else Inr (mem64 (if rcvmore s then 1 else 0)), s, env)
      else if o' = FD then
        Returns (if len < 4 then Inl EINVAL else Inr (mem32 fd), s, env)
      else if o' = EVENTS then
        (if len < 4 then Returns (Inl EINVAL, s, env)
         else case process_commands ops 0 False s env of
           Returns (Err e, s1, env1) \<Rightarrow> Returns (Inl e, s1, env1)
         | Returns (OK, s1, env1) \<Rightarrow>
             (case x_has_out ops (sx s1) of
                None \<Rightarrow> Aborted
              | Some (out, x1) \<Rightarrow>
                  (case x_has_in ops x1 of
                     None \<Rightarrow> Aborted
                   | Some (inp, x2) \<Rightarrow> Returns (Inr (mem32 (event_bits out inp)), s1\<lparr>sx := x2\<rparr>, env1)))
         | Blocked \<Rightarrow> Blocked
         | Aborted \<Rightarrow> Aborted)
      else Returns (options_getsockopt o' len (sopts s), s, env))"

section \<open>Named sessions\<close>

type_synonym sessions = "blob \<rightharpoonup> nat"

definition register_session :: "blob \<Rightarrow> nat \<Rightarrow> sessions \<Rightarrow> bool \<times> sessions" where
  "register_session name ses m = (if m name \<noteq> None then (False, m) else (True, m(name \<mapsto> ses)))"

definition unregister_session :: "blob \<Rightarrow> sessions \<Rightarrow> sessions option" where
  "unregister_session name m = do { zmq_assert (m name \<noteq> None); Some (m(name := None)) }"

text \<open>The sequence number of the session that is found is incremented, so that it waits for the command to come.\<close>

definition find_session :: "blob \<Rightarrow> sessions \<Rightarrow> nat option" where
  "find_session name m = m name"

end
