(* ===== verification/ConnectTypes.thy ===== *)
theory ConnectTypes
  imports Connect
begin

text \<open>Which socket types can be connected to each other inside a process.\<close>

section \<open>Fresh ends of pipes\<close>

definition rfresh :: "pipe_world \<Rightarrow> nat \<Rightarrow> bool" where
  "rfresh w p \<longleftrightarrow> (\<exists>r. creader (conns w p) = Some r \<and> \<not> r_sink r)"

definition wfresh :: "pipe_world \<Rightarrow> nat \<Rightarrow> bool" where
  "wfresh w p \<longleftrightarrow> (\<exists>v. cwriter (conns w p) = Some v \<and> \<not> w_sink v)"

definition rset :: "nat \<Rightarrow> pipe_world \<Rightarrow> pipe_world" where
  "rset p w = set_conn p (the (reader_set_event_sink (conns w p))) [] w"

definition wset :: "nat \<Rightarrow> pipe_world \<Rightarrow> pipe_world" where
  "wset p w = set_conn p (the (writer_set_event_sink (conns w p))) [] w"

lemma set_sinks:
  "rfresh w p \<Longrightarrow> op_rset_sink pipe_reader_ops p w = Some (rset p w)"
  "wfresh w p \<Longrightarrow> op_set_sink pipe_writer_ops p w = Some (wset p w)"
  by (auto simp: rfresh_def wfresh_def rset_def wset_def pipe_reader_ops_def pipe_writer_ops_def
      reader_set_event_sink_def writer_set_event_sink_def)

lemma fresh_rset [simp]:
  assumes "rfresh w p"
  shows "wfresh (rset p w) q = wfresh w q" "q \<noteq> p \<Longrightarrow> rfresh (rset p w) q = rfresh w q"
  using assms by (auto simp: rfresh_def wfresh_def rset_def reader_set_event_sink_def)

lemma fresh_wset [simp]:
  assumes "wfresh w p"
  shows "rfresh (wset p w) q = rfresh w q" "q \<noteq> p \<Longrightarrow> wfresh (wset p w) q = wfresh w q"
  using assms by (auto simp: rfresh_def wfresh_def wset_def writer_set_event_sink_def)

lemma create_pipe_fresh:
  obtains c where "create_pipe hw sw r1 r2 g = Some c"
    "\<exists>r. creader c = Some r \<and> \<not> r_sink r" "\<exists>v. cwriter c = Some v \<and> \<not> w_sink v"
proof -
  obtain p :: "msg ypipe_t" where p: "ypipe_new message_pipe_granularity = Some p"
    using ypipe_new_rel[where N = message_pipe_granularity and 'a = msg] by (auto simp: message_pipe_granularity_def)
  obtain v where v: "writer_new hw sw r1 r2 g = Some v" "\<not> w_sink v"
    by (cases "sw > 0") (auto simp: writer_new_def swap_new_def swap_block_size_def)
  show ?thesis
    by (rule that) (use p v in \<open>auto simp: create_pipe_def reader_set_writer_def reader_new_def\<close>)
qed

lemma make_pipe_fresh:
  assumes "make_pipe req p hw sw raw w = Some (i, w')"
  shows "i = (if req then Some p else None)"
    and "req \<Longrightarrow> rfresh w' p \<and> wfresh w' p" and "q \<noteq> p \<Longrightarrow> rfresh w' q = rfresh w q \<and> wfresh w' q = wfresh w q"
proof -
  obtain c where "create_pipe hw (sint sw) (fst raw) (fst (snd raw)) (snd (snd raw)) = Some c"
    "\<exists>r. creader c = Some r \<and> \<not> r_sink r" "\<exists>v. cwriter c = Some v \<and> \<not> w_sink v"
    by (rule create_pipe_fresh)
  then show "i = (if req then Some p else None)" "req \<Longrightarrow> rfresh w' p \<and> wfresh w' p"
    "q \<noteq> p \<Longrightarrow> rfresh w' q = rfresh w q \<and> wfresh w' q = wfresh w q"
    using assms by (auto simp: make_pipe_def rfresh_def wfresh_def split: if_splits)
qed

lemma make_pipe_some: "\<exists>i w'. make_pipe req p hw sw raw w = Some (i, w')"
  by (rule create_pipe_fresh[of hw "sint sw" "fst raw" "fst (snd raw)" "snd (snd raw)"]) (auto simp: make_pipe_def)

section \<open>What a new socket accepts\<close>

fun accepts :: "any_sock \<Rightarrow> bool \<Rightarrow> bool \<Rightarrow> bool" where
  "accepts (PairS _) i out = (i \<and> out)"
| "accepts (ReqS _) i out = (i \<and> out)"
| "accepts (XreqS _) i out = (i \<and> out)"
| "accepts (PubS _) i out = (\<not> i \<and> out)"
| "accepts (XpubS _) i out = (\<not> i \<and> out)"
| "accepts (PushS _) i out = (\<not> i \<and> out)"
| "accepts (SubS _) i out = (i \<and> \<not> out)"
| "accepts (XsubS _) i out = (i \<and> \<not> out)"
| "accepts (PullS _) i out = (i \<and> \<not> out)"
| "accepts (RepS _) i out = True"
| "accepts (XrepS _) i out = True"

lemma create_cases:
  assumes "socket_create t = Some (x, opts)"
  obtains "t = ZMQ_PAIR" "x = PairS pair_new" "opts = pair_options options_new"
  | "t = ZMQ_PUB" "x = PubS dist_new" "opts = pub_options options_new"
  | "t = ZMQ_SUB" "x = SubS xsub_new" "opts = sub_options options_new"
  | "t = ZMQ_REQ" "x = ReqS (req_new xreq_new)" "opts = req_options options_new"
  | "t = ZMQ_REP" "x = RepS rep_new" "opts = rep_options options_new"
  | "t = ZMQ_XREQ" "x = XreqS xreq_new" "opts = xreq_options options_new"
  | "t = ZMQ_XREP" "x = XrepS xrep_new" "opts = xrep_options options_new"
  | "t = ZMQ_PULL" "x = PullS fq_new" "opts = pull_options options_new"
  | "t = ZMQ_PUSH" "x = PushS lb_new" "opts = push_options options_new"
  | "t = ZMQ_XPUB" "x = XpubS dist_new" "opts = xpub_options options_new"
  | "t = ZMQ_XSUB" "x = XsubS xsub_new" "opts = xsub_options options_new"
  using assms by (auto simp: socket_create_def split: if_splits)

lemma new_attach:
  "rfresh w p \<Longrightarrow> \<exists>fq'. fq_attach pipe_reader_ops p fq_new w = Some (fq', rset p w, [])"
  "wfresh w p \<Longrightarrow> \<exists>lb'. lb_attach pipe_writer_ops p lb_new w = Some (lb', wset p w, [])"
  "wfresh w p \<Longrightarrow> \<exists>d'. dist_attach pipe_writer_ops p dist_new w = Some (d', wset p w, [])"
  by (simp_all add: fq_attach_def lb_attach_def dist_attach_def set_sinks fq_new_def lb_new_def dist_new_def arr_new_def
      arr_push_back_def arr_size_def arr_swap_def Let_def)

definition keeps_fresh :: "nat option \<Rightarrow> nat option \<Rightarrow> pipe_world \<Rightarrow> pipe_world \<Rightarrow> bool" where
  "keeps_fresh i out w w' \<longleftrightarrow>
     (\<forall>p. i \<noteq> Some p \<longrightarrow> rfresh w p \<longrightarrow> rfresh w' p) \<and> (\<forall>p. out \<noteq> Some p \<longrightarrow> wfresh w p \<longrightarrow> wfresh w' p)"

lemma keeps_fresh_intros:
  "keeps_fresh i out w w"
  "rfresh w p \<Longrightarrow> keeps_fresh (Some p) out w (rset p w)"
  "wfresh w q \<Longrightarrow> keeps_fresh i (Some q) w (wset q w)"
  "rfresh w p \<Longrightarrow> wfresh w q \<Longrightarrow> keeps_fresh (Some p) (Some q) w (wset q (rset p w))"
  "rfresh w p \<Longrightarrow> wfresh w q \<Longrightarrow> keeps_fresh (Some p) (Some q) w (rset p (wset q w))"
  by (auto simp: keeps_fresh_def)

lemma xrep_attach_new:
  assumes "\<And>p. i = Some p \<Longrightarrow> rfresh w p" "\<And>q. out = Some q \<Longrightarrow> wfresh w q"
  shows "\<exists>x' w' acts. xrep_attach pipe_router i out peer xrep_new w = Some (x', w', acts) \<and> keeps_fresh i out w w'"
  using assms
  by (cases i; cases out) (auto simp: xrep_attach_def xrep_new_def pipe_router_def set_sinks intro: keeps_fresh_intros)

lemma attach_ends:
  assumes "socket_create t = Some (x, opts)" "\<And>p. i = Some p \<Longrightarrow> rfresh w p" "\<And>q. out = Some q \<Longrightarrow> wfresh w q"
    "accepts x (i \<noteq> None) (out \<noteq> None)"
  shows "\<exists>x' w' acts. xattach_pipes i out peer x w = Some (x', w', acts) \<and> keeps_fresh i out w w'"
proof -
  note defs = wrap_def pair_attach_def pair_new_def xreq_attach_def xreq_new_def push_attach_def pull_attach_def
    xpub_attach_def xsub_attach_def xsub_new_def req_new_def rep_new_def set_sinks Let_def
  show ?thesis
  proof (cases "x = RepS rep_new \<or> x = XrepS xrep_new")
    case True
    moreover obtain x' w' acts where "xrep_attach pipe_router i out peer xrep_new w = Some (x', w', acts)" "keeps_fresh i out w w'"
      using xrep_attach_new[where peer = peer and i = i and out = out and w = w] assms(2,3) by blast
    ultimately show ?thesis by (auto simp: defs)
  next
    case False
    show ?thesis
    proof (cases i; cases out)
      fix p q assume pq: "i = Some p" "out = Some q"
      then have F: "rfresh w p" "wfresh w q" "wfresh (rset p w) q" using assms(2,3) by simp_all
      obtain f l where "fq_attach pipe_reader_ops p fq_new w = Some (f, rset p w, [])"
          "lb_attach pipe_writer_ops q lb_new (rset p w) = Some (l, wset q (rset p w), [])"
        using new_attach(1)[OF F(1)] new_attach(2)[OF F(3)] by blast
      with assms(1,4) False pq F keeps_fresh_intros(4)[OF F(1,2)] show ?thesis
        by (elim create_cases) (simp_all add: defs)
    next
      fix p assume pq: "i = Some p" "out = None"
      then have F: "rfresh w p" using assms(2) by simp
      obtain f where "fq_attach pipe_reader_ops p fq_new w = Some (f, rset p w, [])"
        using new_attach(1)[OF F] by blast
      with assms(1,4) False pq F keeps_fresh_intros(2)[OF F] show ?thesis
        by (elim create_cases) (simp_all add: defs)
    next
      fix q assume pq: "i = None" "out = Some q"
      then have F: "wfresh w q" using assms(3) by simp
      obtain d l where "dist_attach pipe_writer_ops q dist_new w = Some (d, wset q w, [])"
          "lb_attach pipe_writer_ops q lb_new w = Some (l, wset q w, [])"
        using new_attach(2,3)[OF F] by blast
      with assms(1,4) False pq F keeps_fresh_intros(3)[OF F] show ?thesis
        by (elim create_cases) (simp_all add: defs)
    qed (use assms(1,4) False in \<open>elim create_cases; simp\<close>)
  qed
qed

lemma attach_fails:
  assumes "socket_create t = Some (x, opts)" "\<not> accepts x (i \<noteq> None) (out \<noteq> None)"
  shows "xattach_pipes i out peer x w = None"
  using assms
  by (elim create_cases; cases i; cases out)
    (simp_all add: wrap_def pair_attach_def pair_new_def xreq_attach_def xreq_new_def push_attach_def pull_attach_def
      xpub_attach_def xsub_attach_def xsub_new_def req_new_def)

section \<open>The property\<close>

definition compatible :: "u32 \<Rightarrow> u32 \<Rightarrow> bool" where
  "compatible t1 t2 =
     (let both = {ZMQ_PAIR, ZMQ_REQ, ZMQ_REP, ZMQ_XREQ, ZMQ_XREP}; outs = {ZMQ_PUB, ZMQ_XPUB, ZMQ_PUSH};
          ins = {ZMQ_SUB, ZMQ_XSUB, ZMQ_PULL}; routers = {ZMQ_REP, ZMQ_XREP}
      in t1 \<in> both \<and> t2 \<in> both \<or> t1 \<in> outs \<and> t2 \<in> ins \<union> routers \<or> t1 \<in> ins \<and> t2 \<in> outs \<union> routers)"

lemmas type_codes = ZMQ_PAIR_def ZMQ_PUB_def ZMQ_SUB_def ZMQ_REQ_def ZMQ_REP_def ZMQ_XREQ_def ZMQ_XREP_def ZMQ_PULL_def
  ZMQ_PUSH_def ZMQ_XPUB_def ZMQ_XSUB_def

lemmas type_options = pair_options_def pub_options_def xpub_options_def sub_options_def xsub_options_def req_options_def
  xreq_options_def rep_options_def xrep_options_def pull_options_def push_options_def

text \<open>A socket accepts the pipes that it asks for, and the peer gets them the other way round.\<close>

lemma accepts_own:
  "socket_create t = Some (x, opts) \<Longrightarrow> accepts x (requires_in opts) (requires_out opts)"
  by (elim create_cases) (simp_all add: type_options)

lemma accepts_peer:
  assumes "socket_create t1 = Some (x1, o1)" "socket_create t2 = Some (x2, o2)"
  shows "accepts x2 (requires_out o1) (requires_in o1) = compatible t1 t2"
  using assms(1)
  by (elim create_cases; use assms(2) in \<open>elim create_cases\<close>) (simp_all add: type_options compatible_def type_codes)

lemma connect_inproc_some:
  assumes t: "socket_create t = Some (x, o')"
    and req: "requires_in opts = requires_in o'" "requires_out opts = requires_out o'" and ne: "p_in \<noteq> p_out"
  shows "\<exists>x' w' acts i out. connect_inproc p_in p_out raw uuid peer x opts w
      = Some (x', w', acts, [BindTo (ep_socket peer) out i (identity opts)]) \<and>
    i = (if requires_in o' then Some p_in else None) \<and> out = (if requires_out o' then Some p_out else None) \<and>
    (requires_in o' \<longrightarrow> wfresh w' p_in) \<and> (requires_out o' \<longrightarrow> rfresh w' p_out)"
proof -
  let ?hw = "inproc_hwm opts (ep_options peer)" and ?sw = "inproc_swap opts (ep_options peer)"
  obtain i w1 where 1: "make_pipe (requires_in opts) p_in ?hw ?sw raw w = Some (i, w1)" using make_pipe_some by blast
  obtain out w2 where 2: "make_pipe (requires_out opts) p_out ?hw ?sw raw w1 = Some (out, w2)" using make_pipe_some by blast
  note F1 = make_pipe_fresh[OF 1, unfolded req] and F2 = make_pipe_fresh[OF 2, unfolded req]
  have fi: "rfresh w2 p_in \<and> wfresh w2 p_in" if "requires_in o'" using F1(2)[OF that] F2(3)[OF ne] by simp
  have r: "rfresh w2 p" if "i = Some p" for p using that F1(1) fi by (auto split: if_splits)
  have v: "wfresh w2 q" if "out = Some q" for q using that F2(1,2) by (auto split: if_splits)
  let ?peer = "if identity (ep_options peer) \<noteq> [] then identity (ep_options peer) else 0 # uuid"
  have "accepts x (i \<noteq> None) (out \<noteq> None)" using accepts_own[OF t] F1(1) F2(1) by (auto split: if_splits)
  then obtain x' w3 acts where 3: "xattach_pipes i out ?peer x w2 = Some (x', w3, acts)" "keeps_fresh i out w2 w3"
    using attach_ends[OF t, of i w2 out ?peer] r v by blast
  have "wfresh w3 p_in" if "requires_in o'"
    using 3(2) fi[OF that] F2(1) ne by (auto simp: keeps_fresh_def split: if_splits)
  moreover have "rfresh w3 p_out" if "requires_out o'"
    using 3(2) F2(2)[OF that] F1(1) ne by (auto simp: keeps_fresh_def split: if_splits)
  ultimately show ?thesis
    using 1 2 3(1) F1(1) F2(1) by (auto simp: connect_inproc_def socket_attach_pipes_def Let_def)
qed

text \<open>C16: When a new socket connects to another new socket of the same process, its own side always succeeds, whatever
  options were set; the other socket, when it handles the command, accepts the pipes exactly if the two types fit together,
  and fails an assertion otherwise.\<close>

theorem inproc_connect_types:
  assumes "socket_create t1 = Some (x1, o1)" and "socket_create t2 = Some (x2, o2)"
    and "requires_in opts = requires_in o1" and "requires_out opts = requires_out o1" and "p_in \<noteq> p_out"
  shows "\<exists>x1' w' acts i out. connect_inproc p_in p_out raw uuid peer x1 opts w
      = Some (x1', w', acts, [BindTo (ep_socket peer) out i (identity opts)]) \<and>
    (socket_process_bind uuid' out i (identity opts) x2 w' \<noteq> None) = compatible t1 t2"
proof -
  obtain x' w' acts i out where C: "connect_inproc p_in p_out raw uuid peer x1 opts w
      = Some (x', w', acts, [BindTo (ep_socket peer) out i (identity opts)])"
      "i = (if requires_in o1 then Some p_in else None)" "out = (if requires_out o1 then Some p_out else None)"
      "requires_in o1 \<longrightarrow> wfresh w' p_in" "requires_out o1 \<longrightarrow> rfresh w' p_out"
    using connect_inproc_some[OF assms(1,3,4,5)] by blast
  have "(\<exists>r. xattach_pipes out i id x2 w' = Some r) = compatible t1 t2" for id
    using attach_ends[OF assms(2), of out w' i id] attach_fails[OF assms(2), of out i id w'] accepts_peer[OF assms(1,2)] C(2-5)
    by (cases "compatible t1 t2") (auto split: if_splits)
  then show ?thesis using C(1) by (auto simp: socket_process_bind_def socket_attach_pipes_def)
qed

definition demo_peer :: endpoint_t where
  "demo_peer = \<lparr>ep_socket = 7, ep_options = push_options options_new\<rparr>"

theorem inproc_connect_types_witness:
  "(\<exists>x1' w' acts i out. connect_inproc 0 1 ([], [], 0) [5] demo_peer (PullS fq_new) (pull_options options_new\<lparr>hwm := 3\<rparr>)
      \<lparr>conns = (\<lambda>_. \<lparr>cpipe = None, creader = None, cwriter = None\<rparr>), pipe_log = []\<rparr>
      = Some (x1', w', acts, [BindTo 7 out i []]) \<and>
    (socket_process_bind [6] out i [] (PushS lb_new) w' \<noteq> None) = True)"
  using inproc_connect_types[of ZMQ_PULL "PullS fq_new" "pull_options options_new" ZMQ_PUSH "PushS lb_new"
      "push_options options_new" "pull_options options_new\<lparr>hwm := 3\<rparr>" 0 1 "([], [], 0)" "[5]" demo_peer
      "\<lparr>conns = (\<lambda>_. \<lparr>cpipe = None, creader = None, cwriter = None\<rparr>), pipe_log = []\<rparr>" "[6]"]
  by (simp add: socket_create_def compatible_def type_codes type_options demo_peer_def options_new_def)

end
