(* ===== verification/SwapFifo.thy ===== *)
theory SwapFifo
  imports Swap
begin

text \<open>
  The message swap is a queue. The bytes between the read and the write position, read through the two cached blocks and
  the file, are the encodings of the messages that were stored and not fetched yet.
\<close>

section \<open>The bytes of the ring\<close>

definition byte_at :: "swap_t \<Rightarrow> nat \<Rightarrow> byte" where
  "byte_at s p =
     (if p div block_size s = read_pos s div block_size s \<and> read_pos s \<le> p then get_buf (read_buf s) s ! (p mod block_size s)
      else if p div block_size s = write_pos s div block_size s \<and> p < write_pos s
      then get_buf (write_buf s) s ! (p mod block_size s)
      else swap_file s ! p)"

definition positions :: "swap_t \<Rightarrow> nat list" where
  "positions s =
     (if read_pos s \<le> write_pos s then [read_pos s..<write_pos s]
      else [read_pos s..<filesize s] @ [0..<write_pos s])"

definition ring :: "swap_t \<Rightarrow> byte list" where
  "ring s = map (byte_at s) (positions s)"

text \<open>The caches are the same block exactly when the reader is behind the writer in the block of the writer.\<close>

definition swap_ok :: "swap_t \<Rightarrow> bool" where
  "swap_ok s \<longleftrightarrow> 0 < block_size s \<and> read_pos s < filesize s \<and> write_pos s < filesize s \<and>
     length (buf1 s) = block_size s \<and> length (buf2 s) = block_size s \<and>
     write_buf_start_addr s = write_pos s - write_pos s mod block_size s \<and>
     (read_buf s = write_buf s \<longleftrightarrow> read_pos s div block_size s = write_pos s div block_size s \<and> read_pos s \<le> write_pos s) \<and>
     write_buf_start_addr s \<le> length (swap_file s) \<and> (write_pos s < read_pos s \<longrightarrow> filesize s \<le> length (swap_file s))"

lemma length_ring: "swap_ok s \<Longrightarrow> length (ring s) = filesize s - buffer_space s"
  by (auto simp: ring_def positions_def buffer_space_def swap_ok_def)

lemma set_buf_simps [simp]:
  "get_buf b (set_buf c bs s) = (if b = c then bs else get_buf b s)"
  "filesize (set_buf c bs s) = filesize s" "block_size (set_buf c bs s) = block_size s"
  "read_pos (set_buf c bs s) = read_pos s" "write_pos (set_buf c bs s) = write_pos s"
  "read_buf (set_buf c bs s) = read_buf s" "write_buf (set_buf c bs s) = write_buf s"
  "write_buf_start_addr (set_buf c bs s) = write_buf_start_addr s" "swap_file (set_buf c bs s) = swap_file s"
  "file_pos (set_buf c bs s) = file_pos s"
  by (auto simp: set_buf_def get_buf_def)

lemma get_buf_update [simp]:
  "get_buf b (s\<lparr>write_pos := x\<rparr>) = get_buf b s" "get_buf b (s\<lparr>read_pos := x\<rparr>) = get_buf b s"
  "get_buf b (s\<lparr>file_pos := x\<rparr>) = get_buf b s" "get_buf b (s\<lparr>swap_file := f\<rparr>) = get_buf b s"
  "get_buf b (s\<lparr>read_buf := y\<rparr>) = get_buf b s" "get_buf b (s\<lparr>write_buf := y\<rparr>) = get_buf b s"
  "get_buf b (s\<lparr>write_buf_start_addr := x\<rparr>) = get_buf b s"
  by (auto simp: get_buf_def)

lemma length_get_buf: "swap_ok s \<Longrightarrow> length (get_buf b s) = block_size s"
  by (simp add: swap_ok_def get_buf_def)

lemma buf_lengths:
  "length (buf1 s) = n \<and> length (buf2 s) = n \<longleftrightarrow> (\<forall>b. length (get_buf b s) = n)"
  by (auto simp: get_buf_def split: if_splits)

lemma overwrite_nth:
  "pos \<le> length old \<Longrightarrow> overwrite pos new old ! i = (if pos \<le> i \<and> i < pos + length new then new ! (i - pos) else old ! i)"
  if "i < length old \<or> i < pos + length new"
  using that by (auto simp: overwrite_def nth_append)

lemma length_overwrite: "length (overwrite pos new old) = max (length old) (pos + length new)"
  by (auto simp: overwrite_def)

section \<open>Blocks\<close>

abbreviation blk :: "swap_t \<Rightarrow> nat \<Rightarrow> nat" where
  "blk s p \<equiv> p - p mod block_size s"

lemma same_block:
  fixes B p w :: nat
  assumes "0 < B"
  shows "p div B = w div B \<longleftrightarrow> w - w mod B \<le> p \<and> p < w - w mod B + B"
proof -
  have w: "w - w mod B = B * (w div B)" by (simp add: minus_mod_eq_mult_div)
  have p: "p = B * (p div B) + p mod B" by simp
  have "p mod B < B" using assms by simp
  show ?thesis
  proof
    assume "p div B = w div B"
    with p \<open>p mod B < B\<close> show "w - w mod B \<le> p \<and> p < w - w mod B + B" unfolding w by (metis le_add1 nat_add_left_cancel_less)
  next
    assume "w - w mod B \<le> p \<and> p < w - w mod B + B"
    then show "p div B = w div B" unfolding w by (intro div_nat_eqI) (auto simp: algebra_simps)
  qed
qed

lemma blocks_apart:
  fixes B p w :: nat
  shows "p - p mod B = w - w mod B \<or> p - p mod B + B \<le> w - w mod B \<or> w - w mod B + B \<le> p - p mod B"
proof -
  have "p - p mod B = B * (p div B)" "w - w mod B = B * (w div B)" by (simp_all add: minus_mod_eq_mult_div)
  moreover have "B * x + B \<le> B * y" if "x < y" for x y
    using mult_le_mono2[of "Suc x" y B] that by simp
  ultimately show ?thesis by (metis linorder_neqE_nat)
qed

lemma in_block:
  fixes B p w :: nat
  assumes "w - w mod B \<le> p" "p < w - w mod B + B"
  shows "p mod B = p - (w - w mod B)"
proof -
  have "0 < B" using assms by simp
  then have "p div B = w div B" using assms same_block by blast
  then show ?thesis by (simp add: minus_mod_eq_mult_div minus_div_mult_eq_mod[symmetric] mult.commute)
qed

lemma byte_at_alt:
  assumes "0 < block_size s"
  shows "byte_at s p =
    (if read_pos s \<le> p \<and> p < blk s (read_pos s) + block_size s then get_buf (read_buf s) s ! (p - blk s (read_pos s))
     else if blk s (write_pos s) \<le> p \<and> p < write_pos s then get_buf (write_buf s) s ! (p - blk s (write_pos s))
     else swap_file s ! p)"
proof -
  have "blk s (read_pos s) \<le> read_pos s" by simp
  then have 1: "p div block_size s = read_pos s div block_size s \<and> read_pos s \<le> p \<longleftrightarrow>
      read_pos s \<le> p \<and> p < blk s (read_pos s) + block_size s"
    using same_block[OF assms, of p "read_pos s"] by auto
  have "write_pos s < blk s (write_pos s) + block_size s"
    using mod_less_divisor[OF assms, of "write_pos s"] by linarith
  then have 2: "p div block_size s = write_pos s div block_size s \<and> p < write_pos s \<longleftrightarrow>
      blk s (write_pos s) \<le> p \<and> p < write_pos s"
    using same_block[OF assms, of p "write_pos s"] by auto
  have 3: "p mod block_size s = p - blk s (read_pos s)" if "read_pos s \<le> p" "p < blk s (read_pos s) + block_size s"
    using in_block[of "read_pos s" "block_size s" p] that by simp
  have 4: "p mod block_size s = p - blk s (write_pos s)" if "blk s (write_pos s) \<le> p" "p < write_pos s"
    using in_block[of "write_pos s" "block_size s" p] that \<open>write_pos s < _\<close> by simp
  show ?thesis
    unfolding byte_at_def 1 2 using 3 4 by simp
qed

lemma positions_iff:
  "p \<in> set (positions s) \<longleftrightarrow>
    (if read_pos s \<le> write_pos s then read_pos s \<le> p \<and> p < write_pos s
     else read_pos s \<le> p \<and> p < filesize s \<or> p < write_pos s)"
  by (auto simp: positions_def)

text \<open>What \<open>swap_ok\<close> says of a block start.\<close>

lemma swap_okD:
  assumes "swap_ok s"
  shows "0 < block_size s" "read_pos s < filesize s" "write_pos s < filesize s"
    "length (get_buf b s) = block_size s" "write_buf_start_addr s = blk s (write_pos s)"
    "read_buf s = write_buf s \<longleftrightarrow> blk s (write_pos s) \<le> read_pos s \<and> read_pos s \<le> write_pos s"
    "blk s (write_pos s) \<le> length (swap_file s)" "write_pos s < read_pos s \<Longrightarrow> filesize s \<le> length (swap_file s)"
proof -
  have *: "0 < block_size s" using assms by (simp add: swap_ok_def)
  then have "write_pos s < blk s (write_pos s) + block_size s"
    using mod_less_divisor[OF *, of "write_pos s"] by linarith
  then show "read_buf s = write_buf s \<longleftrightarrow> blk s (write_pos s) \<le> read_pos s \<and> read_pos s \<le> write_pos s"
    using assms same_block[OF *, of "read_pos s" "write_pos s"] by (auto simp: swap_ok_def)
qed (use assms length_get_buf[OF assms] in \<open>auto simp: swap_ok_def\<close>)

lemma swap_okI:
  assumes "0 < block_size s" "read_pos s < filesize s" "write_pos s < filesize s"
    "\<And>b. length (get_buf b s) = block_size s" "write_buf_start_addr s = blk s (write_pos s)"
    "read_buf s = write_buf s \<longleftrightarrow> blk s (write_pos s) \<le> read_pos s \<and> read_pos s \<le> write_pos s"
    "blk s (write_pos s) \<le> length (swap_file s)" "write_pos s < read_pos s \<Longrightarrow> filesize s \<le> length (swap_file s)"
  shows "swap_ok s"
proof -
  have "write_pos s < blk s (write_pos s) + block_size s"
    using mod_less_divisor[OF assms(1), of "write_pos s"] by linarith
  then have "read_pos s div block_size s = write_pos s div block_size s \<and> read_pos s \<le> write_pos s \<longleftrightarrow>
      blk s (write_pos s) \<le> read_pos s \<and> read_pos s \<le> write_pos s"
    using same_block[OF assms(1), of "read_pos s" "write_pos s"] by auto
  then show ?thesis
    using assms buf_lengths[of s "block_size s"] by (simp add: swap_ok_def)
qed

section \<open>Writing\<close>

lemma save_write_buf_simps [simp]:
  "swap_file (save_write_buf s) = overwrite (write_buf_start_addr s)
     (take (min (block_size s) (filesize s - write_buf_start_addr s)) (get_buf (write_buf s) s)) (swap_file s)"
  "get_buf b (save_write_buf s) = get_buf b s" "filesize (save_write_buf s) = filesize s"
  "block_size (save_write_buf s) = block_size s" "read_pos (save_write_buf s) = read_pos s"
  "write_pos (save_write_buf s) = write_pos s" "read_buf (save_write_buf s) = read_buf s"
  "write_buf (save_write_buf s) = write_buf s"
  by (simp_all add: save_write_buf_def Let_def)

lemma write_chunk_ring:
  assumes ok: "swap_ok s" and src: "src \<noteq> []" and space: "length (ring s) + length src < filesize s"
    and step: "write_chunk src s = (k, s')"
  shows "0 < k" "k \<le> length src" "swap_ok s'" "ring s' = ring s @ take k src"
    "filesize s' = filesize s" "block_size s' = block_size s"
proof -
  define B F r w q where "B = block_size s" "F = filesize s" "r = read_pos s" "w = write_pos s" "q = blk s (write_pos s)"
  note v = this
  note D = swap_okD[OF ok, folded v]
  have o: "w mod B < B" "q = w - w mod B" "q \<le> w" using D(1) by (simp_all add: v)
  have k: "k = min (length src) (min (F - w) (B - w mod B))" using step by (simp add: write_chunk_def Let_def v)
  show k0: "0 < k" and "k \<le> length src" using src D(3) o(1) by (simp_all add: k)
  have used: "(if r \<le> w then w - r else F - r + w) + k < F"
    using space \<open>k \<le> length src\<close> D(2,3) by (auto simp: ring_def positions_def v split: if_splits)
  have le: "w + k \<le> F" "w + k \<le> q + B" using k D(3) o by linarith+
  define c where "c = r - r mod B"
  have old_at: "byte_at s p = (if r \<le> p \<and> p < c + B then get_buf (read_buf s) s ! (p - c)
      else if q \<le> p \<and> p < w then get_buf (write_buf s) s ! (p - q) else swap_file s ! p)" for p
    unfolding byte_at_alt[OF D(1)[unfolded v]] c_def o(2) by (simp add: v)
  have rw: "read_buf s = write_buf s \<longleftrightarrow> q \<le> r \<and> r \<le> w" by (rule D(6))
  have cq: "c = q" if "q \<le> r" "r \<le> w"
  proof -
    have "r div B = w div B" unfolding same_block[OF D(1), of r w] using that o by linarith
    then show ?thesis by (simp add: c_def o(2) minus_mod_eq_mult_div)
  qed
  have wq: "w < q + B" using o by linarith
  have apart: "c = q \<or> c + B \<le> q \<or> q + B \<le> c" using blocks_apart[of r B w] by (simp add: c_def o(2))
  have cr: "c \<le> r" "r < c + B" using mod_less_divisor[OF D(1), of r] unfolding c_def by linarith+
  define wb where "wb = overwrite (w mod B) (take k src) (get_buf (write_buf s) s)"
  have len_wb: "length wb = B" using D(4) le o \<open>k \<le> length src\<close> by (simp add: wb_def length_overwrite)
  have wb_old: "wb ! i = get_buf (write_buf s) s ! i" if "i < w - q" for i
    using that D(4) o k0 by (simp add: wb_def overwrite_nth)
  have wb_new: "wb ! (w + i - q) = src ! i" if "i < k" for i
  proof -
    have "w + i - q = w mod B + i" using o by simp
    then show ?thesis using that D(4) o \<open>k \<le> length src\<close> by (simp add: wb_def overwrite_nth)
  qed
  define s2 where "s2 = (set_buf (write_buf s) wb s)\<lparr>write_pos := (w + k) mod F\<rparr>"
  have wp: "write_pos s2 = (w + k) mod F" "block_size s2 = B" by (simp_all add: s2_def v)
  have s': "s' = (if (w + k) mod F mod B = 0 then
      let s3 = (save_write_buf s2)\<lparr>write_buf_start_addr := (w + k) mod F\<rparr>
      in if write_buf s3 = read_buf s3 then s3\<lparr>write_buf := \<not> read_buf s3\<rparr> else s3 else s2)"
    using step unfolding write_chunk_def Let_def v[symmetric] k[symmetric] wb_def[symmetric] s2_def[symmetric] wp
    by (auto split: if_splits)
  have "swap_ok s' \<and> ring s' = ring s @ take k src \<and> filesize s' = F \<and> block_size s' = B"
  proof (cases "(w + k) mod F mod B = 0")
    case False
    then have "w + k \<noteq> F" by auto
    then have w': "(w + k) mod F = w + k" "w + k < F" using le by simp_all
    have "w + k \<noteq> q + B"
    proof
      assume "w + k = q + B"
      moreover have "q = B * (w div B)" by (simp add: o(2) minus_mod_eq_mult_div)
      ultimately show False using False w' by simp
    qed
    then have q': "w + k < q + B" using le by simp
    then have blk': "(w + k) - (w + k) mod B = q" using in_block[of w B "w + k"] o by simp
    have s2: "s' = s2" using False s' by simp
    have fields: "read_pos s2 = r" "write_pos s2 = w + k" "filesize s2 = F" "block_size s2 = B"
        "read_buf s2 = read_buf s" "write_buf s2 = write_buf s" "swap_file s2 = swap_file s"
        "\<And>b. get_buf b s2 = (if b = write_buf s then wb else get_buf b s)" "write_buf_start_addr s2 = q"
      using D(5) w'(1) by (simp_all add: s2_def) (simp_all add: v)
    have pos: "positions s2 = positions s @ [w..<w + k]"
    proof (cases "r \<le> w")
      case True
      with upt_add_eq_append[OF True, of k] show ?thesis by (simp add: positions_def fields v[symmetric])
    next
      case False
      moreover have "w + k < r" using False used D(2) by simp
      ultimately show ?thesis using upt_add_eq_append[of 0 w k] by (simp add: positions_def fields v[symmetric])
    qed
    have new_at: "byte_at s2 p = (if r \<le> p \<and> p < c + B then get_buf (read_buf s) s2 ! (p - c)
        else if q \<le> p \<and> p < w + k then wb ! (p - q) else swap_file s ! p)" for p
      unfolding byte_at_alt[of s2, unfolded fields, OF D(1)] blk' c_def by (simp add: fields)
    have old: "byte_at s2 p = byte_at s p" if "p \<in> set (positions s)" for p
    proof -
      have "p < w \<or> w + k < p \<and> w < r"
        using that used D(2) unfolding positions_iff v[symmetric] by (auto split: if_splits)
      moreover have "wb ! (p - q) = get_buf (write_buf s) s ! (p - q)" if "q \<le> p" "p < w" using wb_old[of "p - q"] that by simp
      ultimately show ?thesis unfolding old_at new_at using rw cq by (auto simp: fields)
    qed
    have new: "byte_at s2 (w + i) = src ! i" if "i < k" for i
      unfolding new_at using that wb_new[OF that] used D(2) rw cq apart cr wq q' o(3) by (auto simp: fields split: if_splits)
    have "ring s2 = ring s @ take k src"
      using old new \<open>k \<le> length src\<close> by (auto simp: ring_def pos intro!: nth_equalityI)
    moreover have "swap_ok s2"
      using D used w' len_wb k0 o(3) q' by (intro swap_okI) (auto simp: fields blk')
    ultimately show ?thesis by (simp add: s2 fields)
  next
    case True
    have w': "w + k = q + B \<and> w + k < F \<and> (w + k) mod F = w + k \<or> w + k = F \<and> (w + k) mod F = 0"
    proof (cases "w + k = F")
      case False
      then have lt: "w + k < F" using le by simp
      moreover have "w + k = q + B"
      proof (rule ccontr)
        assume "w + k \<noteq> q + B"
        then have "(w + k) mod B = w + k - q" using in_block[of w B "w + k"] o le by simp
        then show False using True lt o k0 by simp
      qed
      ultimately show ?thesis by simp
    qed simp
    then have blk': "(w + k) mod F - (w + k) mod F mod B = (w + k) mod F" using True by simp
    define f where "f = overwrite q (take (min B (F - q)) wb) (swap_file s)"
    have fields: "read_pos s' = r" "write_pos s' = (w + k) mod F" "filesize s' = F" "block_size s' = B"
        "read_buf s' = read_buf s" "write_buf s' = (\<not> read_buf s)" "swap_file s' = f"
        "\<And>b. get_buf b s' = (if b = write_buf s then wb else get_buf b s)" "write_buf_start_addr s' = (w + k) mod F"
      using D(5) True by (simp_all add: s' Let_def s2_def f_def v)
    have pos: "positions s' = positions s @ [w..<w + k]"
    proof (cases "r \<le> w")
      case True
      with upt_add_eq_append[OF True, of k] w' used D(2) show ?thesis by (auto simp: positions_def fields v[symmetric])
    next
      case False
      moreover have "w + k < r" using False used D(2) by simp
      ultimately show ?thesis using upt_add_eq_append[of 0 w k] w' D(2) by (auto simp: positions_def fields v[symmetric])
    qed
    have f: "f ! p = (if q \<le> p \<and> p < q + B \<and> p < F then wb ! (p - q) else swap_file s ! p)"
        if "p < length (swap_file s) \<or> q \<le> p \<and> p < q + B \<and> p < F" for p
    proof -
      have "q \<le> w" "w < F" using o D(3) by simp_all
      then have "q \<le> p \<and> p < q + B \<and> p < F \<longleftrightarrow> q \<le> p \<and> p < q + min B (F - q)" by auto
      moreover have "length (take (min B (F - q)) wb) = min B (F - q)" using len_wb by simp
      moreover have "take (min B (F - q)) wb ! (p - q) = wb ! (p - q)" if "q \<le> p" "p < q + min B (F - q)"
        using that by (intro nth_take) linarith
      ultimately show ?thesis
        using that D(7) overwrite_nth[of p "swap_file s" q "take (min B (F - q)) wb"] unfolding f_def by auto
    qed
    have new_at: "byte_at s' p = (if r \<le> p \<and> p < c + B then get_buf (read_buf s) s' ! (p - c)
        else if (w + k) mod F \<le> p \<and> p < (w + k) mod F then get_buf (\<not> read_buf s) s' ! (p - (w + k) mod F) else f ! p)" for p
      unfolding byte_at_alt[of s', unfolded fields, OF D(1)] blk' c_def by (simp add: fields)
    have old: "byte_at s' p = byte_at s p" if "p \<in> set (positions s)" for p
    proof -
      have "p < length (swap_file s) \<or> q \<le> p \<and> p < w"
        using that D(7,8) D(2) unfolding positions_iff v[symmetric] by (auto split: if_splits)
      then have fp: "f ! p = (if q \<le> p \<and> p < q + B \<and> p < F then wb ! (p - q) else swap_file s ! p)"
        using D(3) o le k0 by (intro f) auto
      have reg: "p < w \<or> w + k < p \<and> w < r \<and> r \<le> p"
        using that used D(2) unfolding positions_iff v[symmetric] by (auto split: if_splits)
      have "wb ! (p - q) = get_buf (write_buf s) s ! (p - q)" if "q \<le> p" "p < w" using wb_old[of "p - q"] that by simp
      moreover have "\<not> ((w + k) mod F \<le> p \<and> p < (w + k) mod F)" by simp
      moreover have "q + B \<le> p" if "w + k < p"
        using that w' \<open>p \<in> set (positions s)\<close> D(2,3) unfolding positions_iff v[symmetric] by (auto split: if_splits)
      ultimately show ?thesis
        unfolding old_at new_at fp using reg rw cq wq D(3) by (cases "p < w"; cases "r \<le> p \<and> p < c + B") (auto simp: fields)
    qed
    have new: "byte_at s' (w + i) = src ! i" if "i < k" for i
      unfolding new_at using that wb_new[OF that] used D(2,3) rw cq apart cr wq w' o(3) le f[of "w + i"]
      by (auto simp: fields split: if_splits)
    have "ring s' = ring s @ take k src"
      using old new \<open>k \<le> length src\<close> by (auto simp: ring_def pos intro!: nth_equalityI)
    moreover have "swap_ok s'"
    proof -
      have "length f = max (length (swap_file s)) (q + min B (F - q))" by (simp add: f_def length_overwrite len_wb)
      then have "length (swap_file s) \<le> length f" "w + k \<le> length f" using le o(3) D(3) by auto
      then show ?thesis using D(1-6,8) used w' len_wb k0 o(3) by (intro swap_okI) (auto simp: fields blk')
    qed
    ultimately show ?thesis by (simp add: fields)
  qed
  then show "swap_ok s'" "ring s' = ring s @ take k src" "filesize s' = filesize s" "block_size s' = block_size s"
    by (simp_all add: v)
qed

section \<open>Reading\<close>

lemma read_chunk_ring:
  assumes ok: "swap_ok s" and n: "0 < n" "n \<le> length (ring s)"
  obtains k s' where "read_chunk n s = Some (k, take k (ring s), s')" "0 < k" "k \<le> n" "swap_ok s'" "ring s' = drop k (ring s)"
    "filesize s' = filesize s" "block_size s' = block_size s"
proof -
  define B F r w q c where "B = block_size s" "F = filesize s" "r = read_pos s" "w = write_pos s" "q = blk s (write_pos s)"
    "c = blk s (read_pos s)"
  note v = this
  note D = swap_okD[OF ok, folded v]
  define k where "k = min n (min (F - r) (B - r mod B))"
  have o: "r mod B < B" "w mod B < B" "q = w - w mod B" "q \<le> w" "c = r - r mod B" "c \<le> r" using D(1) by (simp_all add: v)
  have wq: "w < q + B" and rc: "r < c + B" using o by linarith+
  have apart: "c = q \<or> c + B \<le> q \<or> q + B \<le> c" using blocks_apart[of r B w] by (simp add: o)
  have k0: "0 < k" "k \<le> n" using n D(2) o by (simp_all add: k_def)
  have le: "r + k \<le> F" "r + k \<le> c + B" using k_def D(2) o by linarith+
  have used: "if r \<le> w then r + k \<le> w else k \<le> F - r + w"
    using n k0 by (auto simp: ring_def positions_def v split: if_splits)
  have at: "byte_at s p = (if r \<le> p \<and> p < c + B then get_buf (read_buf s) s ! (p - c)
      else if q \<le> p \<and> p < w then get_buf (write_buf s) s ! (p - q) else swap_file s ! p)" for p
    unfolding byte_at_alt[OF D(1)[unfolded v]] by (simp add: v)
  define r' where "r' = (r + k) mod F"
  have r': "r + k < F \<and> r' = r + k \<or> r + k = F \<and> r' = 0 \<and> w < r"
    using le used D(2,3) by (cases "r + k = F") (auto simp: r'_def split: if_splits)
  have pos: "positions s = [r..<r + k] @ (if r' \<le> w then [r'..<w] else [r'..<F] @ [0..<w])"
  proof (cases "r \<le> w")
    case True
    with used upt_add_eq_append[of r "r + k" "w - (r + k)"] r' show ?thesis by (auto simp: positions_def v[symmetric])
  next
    case False
    with le upt_add_eq_append[of r "r + k" "F - (r + k)"] r' show ?thesis by (auto simp: positions_def v[symmetric])
  qed
  have first: "take k (ring s) = take k (drop (r mod B) (get_buf (read_buf s) s))"
  proof (rule nth_equalityI)
    show "length (take k (ring s)) = length (take k (drop (r mod B) (get_buf (read_buf s) s)))"
      using pos le o D(4) by (simp add: ring_def)
    fix i assume "i < length (take k (ring s))"
    then have i: "i < k" by simp
    moreover have "r + i - c = r mod B + i" using o by simp
    ultimately show "take k (ring s) ! i = take k (drop (r mod B) (get_buf (read_buf s) s)) ! i"
      using le o D(4) by (simp add: ring_def pos nth_append at add.commute)
  qed
  define s1 where "s1 = s\<lparr>read_pos := r'\<rparr>"
  have g1 [simp]: "get_buf b s1 = get_buf b s" for b by (simp add: s1_def)
  define next_s where "next_s = (if r' mod B = 0 then
      if r' div B = w div B then Some (s1\<lparr>read_buf := write_buf s1\<rparr>) else fill_buf (read_buf s1) r' s1 else Some s1)"
  have step: "read_chunk n s = do { s2 \<leftarrow> next_s; Some (k, take k (ring s), s2) }"
    unfolding read_chunk_def Let_def v[symmetric] k_def[symmetric] r'_def[symmetric] first next_s_def
    by (simp add: s1_def v)
  have "\<exists>s2. next_s = Some s2 \<and> swap_ok s2 \<and> map (byte_at s2) (positions s2) = map (byte_at s) (positions s2) \<and>
      read_pos s2 = r' \<and> write_pos s2 = w \<and> filesize s2 = F \<and> block_size s2 = B"
  proof (cases "r' mod B = 0")
    case False
    then have less: "r' = r + k" "r + k < F" using r' by auto
    have "r + k \<noteq> c + B"
    proof
      assume "r + k = c + B"
      moreover have "c = B * (r div B)" by (simp add: o(5) minus_mod_eq_mult_div)
      ultimately show False using False less by simp
    qed
    then have r'c: "r' < c + B" using le less by simp
    then have blk': "r' - r' mod B = c" using in_block[of r B r'] o less by simp
    have fields: "read_pos s1 = r'" "write_pos s1 = w" "filesize s1 = F" "block_size s1 = B" "read_buf s1 = read_buf s"
        "write_buf s1 = write_buf s" "swap_file s1 = swap_file s" "\<And>b. get_buf b s1 = get_buf b s"
        "write_buf_start_addr s1 = q"
      using D(5) by (simp_all add: s1_def v)
    have new_at: "byte_at s1 p = (if r' \<le> p \<and> p < c + B then get_buf (read_buf s) s ! (p - c)
        else if q \<le> p \<and> p < w then get_buf (write_buf s) s ! (p - q) else swap_file s ! p)" for p
      unfolding byte_at_alt[of s1, unfolded fields, OF D(1)] blk' by (simp add: o)
    have "byte_at s1 p = byte_at s p" if "p \<in> set (positions s1)" for p
      using that used less unfolding new_at at positions_iff fields by (auto split: if_splits)
    moreover have "swap_ok s1"
      using D used less o apart r'c rc wq by (intro swap_okI) (auto simp: fields split: if_splits)
    ultimately show ?thesis using False by (simp add: next_s_def fields)
  next
    case True
    then have blk': "r' - r' mod B = r'" by simp
    have r'B: "r' = 0 \<or> r' = c + B"
    proof (rule ccontr)
      assume "\<not> (r' = 0 \<or> r' = c + B)"
      then have "r' mod B = r' - c" using in_block[of r B r'] o le r' by auto
      then show False using True r' k0 o(6) \<open>\<not> _\<close> by simp
    qed
    show ?thesis
    proof (cases "r' div B = w div B")
      case same: True
      then have q': "q = r'" using True unfolding o(3) by (simp add: minus_mod_eq_mult_div) (metis div_mult_mod_eq add_0_right mult.commute)
      let ?s = "s1\<lparr>read_buf := write_buf s1\<rparr>"
      have fields: "read_pos ?s = r'" "write_pos ?s = w" "filesize ?s = F" "block_size ?s = B" "read_buf ?s = write_buf s"
          "write_buf ?s = write_buf s" "swap_file ?s = swap_file s" "\<And>b. get_buf b ?s = get_buf b s"
          "write_buf_start_addr ?s = q"
        using D(5) by (simp_all add: s1_def v)
      have new_at: "byte_at ?s p = (if r' \<le> p \<and> p < r' + B then get_buf (write_buf s) s ! (p - r')
          else if q \<le> p \<and> p < w then get_buf (write_buf s) s ! (p - q) else swap_file s ! p)" for p
        unfolding byte_at_alt[of ?s, unfolded fields, OF D(1)] blk' by (simp add: o)
      have "byte_at ?s p = byte_at s p" if "p \<in> set (positions ?s)" for p
        using that r' r'B q' o wq rc D(2,3) k0 unfolding new_at at positions_iff fields by (auto split: if_splits)
      moreover have "swap_ok ?s"
        using D r' q' o wq by (intro swap_okI) (auto simp: fields split: if_splits)
      ultimately show ?thesis using True same by (simp add: next_s_def fields)
    next
      case other: False
      have r'q: "r' + B \<le> q \<or> q + B \<le> r'"
        using blocks_apart[of r' B w] blk' o(3) other same_block[OF D(1), of r' w] D(1) by auto
      have nb: "read_buf s \<noteq> write_buf s"
        unfolding D(6) using r' r'B used apart wq rc r'q k0 o by (auto split: if_splits)
      have "r' < F" using r' D(2) by auto
      define t where "t = min B (F - r')"
      define octets where "octets = take t (drop r' (swap_file s))"
      have len: "r' + t \<le> length (swap_file s)"
        using D(7,8) r' r'q used wq o \<open>r' < F\<close> by (auto simp: t_def split: if_splits)
      then have loct: "length octets = t" by (simp add: octets_def)
      define buf where "buf = overwrite 0 octets (get_buf (read_buf s) s)"
      have lbuf: "length buf = B" using D(4) loct by (simp add: buf_def length_overwrite t_def)
      have buf: "buf ! i = swap_file s ! (r' + i)" if "i < t" for i
        using that D(4) loct len overwrite_nth[of i "get_buf (read_buf s) s" 0 octets] by (simp add: buf_def octets_def)
      let ?s = "set_buf (read_buf s) buf (s1\<lparr>file_pos := r' + t\<rparr>)"
      have fill: "fill_buf (read_buf s1) r' s1 = Some ?s"
        using len by (simp add: fill_buf_def Let_def s1_def buf_def octets_def t_def v[symmetric])
      have fields: "read_pos ?s = r'" "write_pos ?s = w" "filesize ?s = F" "block_size ?s = B" "read_buf ?s = read_buf s"
          "write_buf ?s = write_buf s" "swap_file ?s = swap_file s"
          "\<And>b. get_buf b ?s = (if b = read_buf s then buf else get_buf b s)" "write_buf_start_addr ?s = q"
        using D(5) by (simp_all add: s1_def v)
      have new_at: "byte_at ?s p = (if r' \<le> p \<and> p < r' + B then buf ! (p - r')
          else if q \<le> p \<and> p < w then get_buf (write_buf s) s ! (p - q) else swap_file s ! p)" for p
        unfolding byte_at_alt[of ?s, unfolded fields, OF D(1)] blk' using nb by (simp add: o fields)
      have "byte_at ?s p = byte_at s p" if p: "p \<in> set (positions ?s)" for p
      proof -
        have "p < F" using p D(3) unfolding positions_iff fields by (auto split: if_splits)
        then have "buf ! (p - r') = swap_file s ! p" if "r' \<le> p" "p < r' + B"
        proof -
          have "p - r' < B \<and> p - r' < F - r'" using that \<open>p < F\<close> by linarith
          then show ?thesis using buf[of "p - r'"] that by (simp add: t_def)
        qed
        then show ?thesis
          using p r' r'B r'q o wq rc D(2,3) k0 used unfolding new_at at positions_iff fields by (auto split: if_splits)
      qed
      moreover have "swap_ok ?s"
      proof (rule swap_okI, unfold fields)
        show "(read_buf s = write_buf s) = (w - w mod B \<le> r' \<and> r' \<le> w)" using nb r'q o wq D(1) by auto
        show "F \<le> length (swap_file s)" if "w < r'" using that r' used D(8) by (auto split: if_splits)
        show "length (if b = read_buf s then buf else get_buf b s) = B" for b using lbuf D(4) by simp
      qed (use D(1,3,7) \<open>r' < F\<close> o in auto)
      moreover have "read_pos s1 = r'" "write_pos s1 = w" "filesize s1 = F" "block_size s1 = B" by (simp_all add: s1_def v)
      ultimately show ?thesis using True other fill by (simp add: next_s_def)
    qed
  qed
  then obtain s2 where s2: "next_s = Some s2" "swap_ok s2" "map (byte_at s2) (positions s2) = map (byte_at s) (positions s2)"
      "read_pos s2 = r'" "write_pos s2 = w" "filesize s2 = F" "block_size s2 = B" by blast
  have "ring s2 = drop k (ring s)"
  proof -
    have pos2: "positions s = [r..<r + k] @ positions s2" using pos by (simp add: positions_def s2(4-6))
    show ?thesis unfolding ring_def s2(3) by (simp add: pos2)
  qed
  then show ?thesis using that[of k s2] step s2 k0 by (simp add: v)
qed

section \<open>Messages\<close>

lemma copy_to_file_ring:
  "swap_ok s \<Longrightarrow> length (ring s) + length src < filesize s \<Longrightarrow>
    \<exists>s'. copy_to_file src s = Some s' \<and> swap_ok s' \<and> ring s' = ring s @ src \<and>
      filesize s' = filesize s \<and> block_size s' = block_size s"
proof (induction "length src" arbitrary: src s rule: less_induct)
  case less
  show ?case
  proof (cases "src = []")
    case True
    then show ?thesis using less.prems by (simp add: copy_to_file.simps)
  next
    case False
    obtain k s1 where c: "write_chunk src s = (k, s1)" by fastforce
    note W = write_chunk_ring[OF less.prems(1) False less.prems(2) c]
    have "length (ring s1) + length (drop k src) < filesize s1" using W less.prems(2) by simp
    with less.hyps[of "drop k src" s1] W obtain s' where "copy_to_file (drop k src) s1 = Some s'" "swap_ok s'"
        "ring s' = ring s1 @ drop k src" "filesize s' = filesize s" "block_size s' = block_size s"
      using False by auto
    then show ?thesis using False W c by (simp add: copy_to_file.simps[of src s])
  qed
qed

lemma copy_from_file_ring:
  "swap_ok s \<Longrightarrow> n \<le> length (ring s) \<Longrightarrow>
    \<exists>s'. copy_from_file n s = Some (take n (ring s), s') \<and> swap_ok s' \<and> ring s' = drop n (ring s) \<and>
      filesize s' = filesize s \<and> block_size s' = block_size s"
proof (induction n arbitrary: s rule: less_induct)
  case (less n)
  show ?case
  proof (cases "n = 0")
    case True
    then show ?thesis using less.prems by (simp add: copy_from_file.simps)
  next
    case False
    then obtain k s1 where R: "read_chunk n s = Some (k, take k (ring s), s1)" "0 < k" "k \<le> n" "swap_ok s1"
        "ring s1 = drop k (ring s)" "filesize s1 = filesize s" "block_size s1 = block_size s"
      using read_chunk_ring[OF less.prems(1), of n] less.prems(2) by (metis neq0_conv)
    then obtain s' where "copy_from_file (n - k) s1 = Some (take (n - k) (ring s1), s')" "swap_ok s'"
        "ring s' = drop (n - k) (ring s1)" "filesize s' = filesize s" "block_size s' = block_size s"
    proof -
      have "n - k \<le> length (ring s1)" "n - k < n" using R less.prems(2) by auto
      from less.IH[OF this(2) R(4) this(1)] show ?thesis using that R by auto
    qed
    moreover have "take k (ring s) @ take (n - k) (drop k (ring s)) = take n (ring s)"
      using R(3) by (simp add: take_add[symmetric])
    ultimately show ?thesis using False R by (simp add: copy_from_file.simps[of n s])
  qed
qed

definition encoded :: "msg \<Rightarrow> byte list" where
  "encoded m = size_bytes (length (body m)) @ [mflags m AND NOT ZMQ_MSG_SHARED] @ body m"

text \<open>What comes back.\<close>

definition stored :: "msg \<Rightarrow> msg" where
  "stored m = \<lparr>is_delim = False, mflags = mflags m AND NOT ZMQ_MSG_SHARED, body = body m\<rparr>"

lemma bytes_size_bytes:
  assumes "n < 2 ^ 64"
  shows "bytes_size (size_bytes n) = n"
proof -
  have "bytes_size (size_bytes n) = (\<Sum>i = 0..<8. n div 256 ^ i mod 256 * 256 ^ i)"
    by (simp add: bytes_size_def size_bytes_def unat_of_nat del: of_nat_div)
  also have "\<dots> = n mod 256 ^ 8"
  proof -
    have "(\<Sum>i = 0..<k. n div 256 ^ i mod 256 * 256 ^ i) = n mod 256 ^ k" for k
    proof (induction k)
      case (Suc k)
      then show ?case by (simp add: mod_mult2_eq[of n "256 ^ k" 256, unfolded mult.commute[of "256 ^ k" 256]] algebra_simps)
    qed simp
    then show ?thesis .
  qed
  finally show ?thesis using assms by simp
qed

lemma length_encoded: "length (encoded m) = 8 + 1 + length (body m)"
  by (simp add: encoded_def size_bytes_def)

lemma swap_store_ring:
  assumes "swap_ok s"
  shows "\<exists>s'. swap_store m s = Some (length (ring s) + length (encoded m) < filesize s, s') \<and> swap_ok s' \<and>
    ring s' = (if length (ring s) + length (encoded m) < filesize s then ring s @ encoded m else ring s) \<and>
    filesize s' = filesize s"
proof -
  have sp: "buffer_space s \<le> 8 + 1 + length (body m) \<longleftrightarrow> \<not> length (ring s) + length (encoded m) < filesize s"
    using length_ring[OF assms] assms by (auto simp: length_encoded buffer_space_def swap_ok_def split: if_splits)
  show ?thesis
  proof (cases "length (ring s) + length (encoded m) < filesize s")
    case True
    let ?a = "size_bytes (length (body m))" and ?b = "[mflags m AND NOT ZMQ_MSG_SHARED]"
    have len: "length ?a = 8" by (simp add: size_bytes_def)
    obtain s1 where 1: "copy_to_file ?a s = Some s1" "swap_ok s1" "ring s1 = ring s @ ?a" "filesize s1 = filesize s"
      using copy_to_file_ring[OF assms, of ?a] True by (auto simp: len length_encoded)
    obtain s2 where 2: "copy_to_file ?b s1 = Some s2" "swap_ok s2" "ring s2 = ring s1 @ ?b" "filesize s2 = filesize s1"
      using copy_to_file_ring[OF 1(2), of ?b] True 1 by (auto simp: len length_encoded)
    obtain s3 where 3: "copy_to_file (body m) s2 = Some s3" "swap_ok s3" "ring s3 = ring s2 @ body m" "filesize s3 = filesize s2"
      using copy_to_file_ring[OF 2(2), of "body m"] True 1 2 by (auto simp: len length_encoded)
    show ?thesis using 1 2 3 True sp by (simp add: swap_store_def encoded_def)
  next
    case False
    then show ?thesis using assms sp by (simp add: swap_store_def)
  qed
qed

lemma swap_fetch_ring:
  assumes "swap_ok s" "ring s = encoded m @ rest" "filesize s < 2 ^ 63"
  shows "\<exists>s'. swap_fetch s = Some (stored m, s') \<and> swap_ok s' \<and> ring s' = rest \<and> filesize s' = filesize s"
proof -
  let ?a = "size_bytes (length (body m))" and ?b = "[mflags m AND NOT ZMQ_MSG_SHARED]"
  have len: "length ?a = 8" by (simp add: size_bytes_def)
  have "length (ring s) < filesize s" using length_ring[OF assms(1)] assms(1) by (auto simp: buffer_space_def swap_ok_def)
  then have "length (body m) < 2 ^ 64" using assms(2,3) by (simp add: length_encoded)
  then have size: "bytes_size ?a = length (body m)" by (rule bytes_size_bytes)
  have "ring s \<noteq> []" using assms(2) by (simp add: encoded_def)
  then have ne: "read_pos s \<noteq> write_pos s" by (auto simp: ring_def positions_def)
  obtain s1 where 1: "copy_from_file 8 s = Some (?a, s1)" "swap_ok s1" "ring s1 = ?b @ body m @ rest" "filesize s1 = filesize s"
    using copy_from_file_ring[OF assms(1), of 8] by (auto simp: assms(2) encoded_def len)
  obtain s2 where 2: "copy_from_file 1 s1 = Some (?b, s2)" "swap_ok s2" "ring s2 = body m @ rest" "filesize s2 = filesize s"
    using copy_from_file_ring[OF 1(2), of 1] 1 by auto
  obtain s3 where 3: "copy_from_file (length (body m)) s2 = Some (body m, s3)" "swap_ok s3" "ring s3 = rest" "filesize s3 = filesize s"
    using copy_from_file_ring[OF 2(2), of "length (body m)"] 2 by auto
  show ?thesis using ne 1 2 3 by (simp add: swap_fetch_def size stored_def)
qed

section \<open>The property\<close>

datatype swap_call = StoreMsg msg | FetchMsg | CommitMsgs | AskEmpty | AskFits msg

datatype swap_result = Answer bool | Fetched msg | Done

fun swap_step :: "swap_call \<Rightarrow> swap_t \<Rightarrow> (swap_result \<times> swap_t) option" where
  "swap_step (StoreMsg m) s = do { (ok, s') \<leftarrow> swap_store m s; Some (Answer ok, s') }"
| "swap_step FetchMsg s = do { (m, s') \<leftarrow> swap_fetch s; Some (Fetched m, s') }"
| "swap_step CommitMsgs s = Some (Done, swap_commit s)"
| "swap_step AskEmpty s = Some (Answer (swap_empty s), s)"
| "swap_step (AskFits m) s = Some (Answer (swap_fits m s), s)"

text \<open>The queue that the swap implements: a message takes nine bytes more than its body, and one byte stays free.\<close>

definition queue_room :: "nat \<Rightarrow> msg list \<Rightarrow> msg \<Rightarrow> bool" where
  "queue_room n q m \<longleftrightarrow> (\<Sum>x\<leftarrow>q @ [m]. 9 + length (body x)) < n"

fun queue_step :: "nat \<Rightarrow> swap_call \<Rightarrow> msg list \<Rightarrow> (swap_result \<times> msg list) option" where
  "queue_step n (StoreMsg m) q = Some (Answer (queue_room n q m), if queue_room n q m then q @ [stored m] else q)"
| "queue_step n FetchMsg [] = None"
| "queue_step n FetchMsg (m # q) = Some (Fetched m, q)"
| "queue_step n CommitMsgs q = Some (Done, q)"
| "queue_step n AskEmpty q = Some (Answer (q = []), q)"
| "queue_step n (AskFits m) q = Some (Answer (queue_room n q m), q)"

fun run_calls :: "('c \<Rightarrow> 's \<Rightarrow> ('r \<times> 's) option) \<Rightarrow> 'c list \<Rightarrow> 's \<Rightarrow> 'r list option" where
  "run_calls step [] s = Some []"
| "run_calls step (c # cs) s = do { (r, s') \<leftarrow> step c s; rs \<leftarrow> run_calls step cs s'; Some (r # rs) }"

definition swap_holds :: "nat \<Rightarrow> swap_t \<Rightarrow> msg list \<Rightarrow> bool" where
  "swap_holds n s q \<longleftrightarrow> swap_ok s \<and> filesize s = n \<and> ring s = concat (map encoded q) \<and> (\<forall>m\<in>set q. stored m = m)"

lemma stored_simps [simp]: "stored (stored m) = stored m" "encoded (stored m) = encoded m"
  by (simp_all add: stored_def encoded_def and.assoc)

lemma concat_length: "length (concat (map encoded q)) = (\<Sum>x\<leftarrow>q. 9 + length (body x))"
  by (induction q) (simp_all add: length_encoded)

lemma swap_new_holds:
  assumes "swap_new n b raw1 raw2 g = Some s"
  shows "swap_holds n s []"
  using assms by (auto simp: swap_new_def swap_holds_def swap_ok_def ring_def positions_def split: bind_splits)

lemma swap_step_holds:
  assumes "swap_holds n s q" "n < 2 ^ 63"
  shows "rel_option (\<lambda>(r, s') (r', q'). r = r' \<and> swap_holds n s' q') (swap_step c s) (queue_step n c q)"
proof -
  note H = assms(1)[unfolded swap_holds_def]
  have room: "queue_room n q m \<longleftrightarrow> length (ring s) + length (encoded m) < filesize s" for m
    using H by (simp add: queue_room_def concat_length length_encoded)
  show ?thesis
  proof (cases c)
    case (StoreMsg m)
    obtain s' where "swap_store m s = Some (queue_room n q m, s')" "swap_ok s'"
        "ring s' = (if queue_room n q m then ring s @ encoded m else ring s)" "filesize s' = n"
      using swap_store_ring[of s m] H unfolding room by auto
    then show ?thesis using StoreMsg H by (auto simp: swap_holds_def)
  next
    case FetchMsg
    show ?thesis
    proof (cases q)
      case Nil
      then have "read_pos s = write_pos s" using H by (auto simp: ring_def positions_def swap_ok_def split: if_splits)
      then show ?thesis using Nil FetchMsg by (simp add: swap_fetch_def)
    next
      case (Cons m q')
      then obtain s' where "swap_fetch s = Some (stored m, s')" "swap_ok s'" "ring s' = concat (map encoded q')" "filesize s' = n"
        using swap_fetch_ring[of s m "concat (map encoded q')"] H assms(2) by auto
      then show ?thesis using FetchMsg Cons H by (simp add: swap_holds_def)
    qed
  next
    case CommitMsgs
    have "ring (swap_commit s) = ring s"
      by (simp add: ring_def swap_commit_def positions_def byte_at_def[abs_def] get_buf_def)
    then show ?thesis using H CommitMsgs by (auto simp: swap_holds_def swap_ok_def swap_commit_def)
  next
    case AskEmpty
    have "read_pos s < filesize s" using H by (simp add: swap_ok_def)
    then have "swap_empty s \<longleftrightarrow> ring s = []" by (auto simp: swap_empty_def ring_def positions_def)
    also have "\<dots> \<longleftrightarrow> q = []" using H by (cases q) (auto simp: encoded_def)
    finally show ?thesis using AskEmpty assms(1) by simp
  next
    case (AskFits m)
    have "swap_fits m s \<longleftrightarrow> queue_room n q m"
      unfolding room using length_ring[of s] H
      by (auto simp: swap_fits_def length_encoded buffer_space_def swap_ok_def split: if_splits)
    then show ?thesis using AskFits assms(1) by simp
  qed
qed

lemma run_calls_simulates:
  assumes "\<And>c s q. R s q \<Longrightarrow> rel_option (\<lambda>(r, s') (r', q'). r = r' \<and> R s' q') (step1 c s) (step2 c q)"
  shows "R s q \<Longrightarrow> run_calls step1 cs s = run_calls step2 cs q"
proof (induction cs arbitrary: s q)
  case (Cons c cs)
  from assms[OF Cons.prems, of c] show ?case
    by (cases rule: option.rel_cases) (auto dest: Cons.IH)
qed simp



section \<open>Rollback\<close>

text \<open>Rolling back sets the address of the block to the offset of the commit position in its block. When the message that is
  rolled back fills a block of its own, the next message is written to the wrong place of the file, and the message that
  was rolled back is fetched in its stead.\<close>

definition swap_letter :: "byte \<Rightarrow> msg" where
  "swap_letter b = \<lparr>is_delim = False, mflags = 0, body = [b, b, b]\<rparr>"

lemma bytes_size_eight:
  "bytes_size [a, b, c, d, e, f, g, h] = unat a + unat b * 256 + unat c * 256 ^ 2 + unat d * 256 ^ 3 + unat e * 256 ^ 4 +
    unat f * 256 ^ 5 + unat g * 256 ^ 6 + unat h * 256 ^ 7"
  by (simp add: bytes_size_def sum.atLeast0_lessThan_Suc)

lemma swap_rollback_wrong_message:
  "do {
     s0 \<leftarrow> swap_new 100 12 [0, 0, 0, 0, 0, 0, 0, 0, 0, 0, 0, 0] [0, 0, 0, 0, 0, 0, 0, 0, 0, 0, 0, 0] 0;
     (_, s1) \<leftarrow> swap_store (swap_letter 1) s0;
     (_, s2) \<leftarrow> swap_store (swap_letter 2) (swap_commit s1);
     s3 \<leftarrow> swap_rollback s2;
     (_, s4) \<leftarrow> swap_store (swap_letter 3) s3;
     (m1, s5) \<leftarrow> swap_fetch (swap_commit s4);
     (m2, _) \<leftarrow> swap_fetch s5;
     Some (m1 = swap_letter 1 \<and> m2 = swap_letter 2)
   } = Some True"
  by (simp add: swap_new_def swap_store_def buffer_space_def copy_to_file.simps write_chunk_def Let_def overwrite_def
      set_buf_def get_buf_def save_write_buf_def swap_commit_def swap_rollback_def fill_buf_def swap_fetch_def
      copy_from_file.simps read_chunk_def size_bytes_def bytes_size_eight swap_letter_def upt_rec ZMQ_MSG_SHARED_def)

end
