(* ===== verification/Object.thy ===== *)
theory Object
  imports Prelude
begin

text \<open>
  \<^verbatim>\<open>src/command.hpp\<close>, \<^verbatim>\<open>src/command.cpp\<close>, \<^verbatim>\<open>src/object.cpp\<close>: the commands that objects in different threads send each
  other, and how a command reaches the handler of its class. Objects are numbers. A copy of an identity in a command is
  \<open>None\<close> for a null pointer.
\<close>

datatype command =
    CmdStop | CmdPlug | CmdOwn nat | CmdAttach "nat option" "blob option" | CmdBind "nat option" "nat option" "blob option"
  | CmdActivateReader | CmdActivateWriter u64 | CmdPipeTerm | CmdPipeTermAck | CmdTermReq nat | CmdTerm int | CmdTermAck
  | CmdReap nat | CmdReaped | CmdDone

text \<open>What sending does: the sequence number of the destination, and the command in its mailbox.\<close>

datatype obj_act = IncSeqnum nat | SendTo nat command

definition deallocate_command :: "command \<Rightarrow> blob list" where
  "deallocate_command c =
     (case c of
        CmdAttach _ (Some b) \<Rightarrow> [b]
      | CmdBind _ _ (Some b) \<Rightarrow> [b]
      | _ \<Rightarrow> [])"

text \<open>The copy of an identity: its size has to fit into a byte.\<close>

definition copy_identity :: "blob \<Rightarrow> blob option option" where
  "copy_identity peer =
     (if peer = [] then Some None else do { zmq_assert (length peer \<le> 255); Some (Some peer) })"

definition identity_of :: "blob option \<Rightarrow> blob" where
  "identity_of p = (case p of None \<Rightarrow> [] | Some b \<Rightarrow> b)"

section \<open>Sending\<close>

definition obj_send_stop :: "nat \<Rightarrow> obj_act list" where
  "obj_send_stop this_obj = [SendTo this_obj CmdStop]"

definition obj_send_plug :: "nat \<Rightarrow> bool \<Rightarrow> obj_act list" where
  "obj_send_plug dest inc = (if inc then [IncSeqnum dest] else []) @ [SendTo dest CmdPlug]"

definition obj_send_own :: "nat \<Rightarrow> nat \<Rightarrow> obj_act list" where
  "obj_send_own dest ob = [IncSeqnum dest, SendTo dest (CmdOwn ob)]"

definition send_attach :: "nat \<Rightarrow> nat option \<Rightarrow> blob \<Rightarrow> bool \<Rightarrow> obj_act list option" where
  "send_attach dest engine peer inc = do {
     copy \<leftarrow> copy_identity peer;
     Some ((if inc then [IncSeqnum dest] else []) @ [SendTo dest (CmdAttach engine copy)])
   }"

definition send_bind :: "nat \<Rightarrow> nat option \<Rightarrow> nat option \<Rightarrow> blob \<Rightarrow> bool \<Rightarrow> obj_act list option" where
  "send_bind dest inpipe outpipe peer inc = do {
     copy \<leftarrow> copy_identity peer;
     Some ((if inc then [IncSeqnum dest] else []) @ [SendTo dest (CmdBind inpipe outpipe copy)])
   }"

definition send_activate_reader :: "nat \<Rightarrow> obj_act list" where
  "send_activate_reader dest = [SendTo dest CmdActivateReader]"

definition send_activate_writer :: "nat \<Rightarrow> u64 \<Rightarrow> obj_act list" where
  "send_activate_writer dest msgs_read = [SendTo dest (CmdActivateWriter msgs_read)]"

definition send_pipe_term :: "nat \<Rightarrow> obj_act list" where
  "send_pipe_term dest = [SendTo dest CmdPipeTerm]"

definition send_pipe_term_ack :: "nat \<Rightarrow> obj_act list" where
  "send_pipe_term_ack dest = [SendTo dest CmdPipeTermAck]"

definition obj_send_term_req :: "nat \<Rightarrow> nat \<Rightarrow> obj_act list" where
  "obj_send_term_req dest ob = [SendTo dest (CmdTermReq ob)]"

definition obj_send_term :: "nat \<Rightarrow> int \<Rightarrow> obj_act list" where
  "obj_send_term dest lngr = [SendTo dest (CmdTerm lngr)]"

definition obj_send_term_ack :: "nat \<Rightarrow> obj_act list" where
  "obj_send_term_ack dest = [SendTo dest CmdTermAck]"

definition send_reap :: "nat \<Rightarrow> nat \<Rightarrow> obj_act list" where
  "send_reap reaper socket = [SendTo reaper (CmdReap socket)]"

definition send_reaped :: "nat \<Rightarrow> obj_act list" where
  "send_reaped reaper = [SendTo reaper CmdReaped]"

text \<open>\<^verbatim>\<open>done\<close> goes to the mailbox of \<^verbatim>\<open>zmq_term\<close> and has no destination.\<close>

definition send_done :: "nat \<Rightarrow> obj_act list" where
  "send_done term_box = [SendTo term_box CmdDone]"

section \<open>Handlers\<close>

text \<open>The virtual functions; those that a class does not define fail an assertion.\<close>

record 'o handlers =
  h_stop :: "'o \<Rightarrow> 'o option"
  h_plug :: "'o \<Rightarrow> 'o option"
  h_own :: "nat \<Rightarrow> 'o \<Rightarrow> 'o option"
  h_attach :: "nat option \<Rightarrow> blob \<Rightarrow> 'o \<Rightarrow> 'o option"
  h_bind :: "nat option \<Rightarrow> nat option \<Rightarrow> blob \<Rightarrow> 'o \<Rightarrow> 'o option"
  h_activate_reader :: "'o \<Rightarrow> 'o option"
  h_activate_writer :: "u64 \<Rightarrow> 'o \<Rightarrow> 'o option"
  h_pipe_term :: "'o \<Rightarrow> 'o option"
  h_pipe_term_ack :: "'o \<Rightarrow> 'o option"
  h_term_req :: "nat \<Rightarrow> 'o \<Rightarrow> 'o option"
  h_term :: "int \<Rightarrow> 'o \<Rightarrow> 'o option"
  h_term_ack :: "'o \<Rightarrow> 'o option"
  h_reap :: "nat \<Rightarrow> 'o \<Rightarrow> 'o option"
  h_reaped :: "'o \<Rightarrow> 'o option"
  h_seqnum :: "'o \<Rightarrow> 'o option"

definition default_handlers :: "'o handlers" where
  "default_handlers = \<lparr>h_stop = (\<lambda>_. None), h_plug = (\<lambda>_. None), h_own = (\<lambda>_ _. None), h_attach = (\<lambda>_ _ _. None),
     h_bind = (\<lambda>_ _ _ _. None), h_activate_reader = (\<lambda>_. None), h_activate_writer = (\<lambda>_ _. None), h_pipe_term = (\<lambda>_. None),
     h_pipe_term_ack = (\<lambda>_. None), h_term_req = (\<lambda>_ _. None), h_term = (\<lambda>_ _. None), h_term_ack = (\<lambda>_. None),
     h_reap = (\<lambda>_ _. None), h_reaped = (\<lambda>_. None), h_seqnum = (\<lambda>_. None)\<rparr>"

text \<open>The result is the object and the memory of the command that is released. After \<^verbatim>\<open>plug\<close> and \<^verbatim>\<open>pipe_term\<close> nothing is
  released; \<^verbatim>\<open>done\<close> is never dispatched.\<close>

definition object_process_command :: "'o handlers \<Rightarrow> command \<Rightarrow> 'o \<Rightarrow> ('o \<times> blob list) option" where
  "object_process_command h c s =
     (let release = (\<lambda>r. do { s' \<leftarrow> r; Some (s', deallocate_command c) });
          counted = (\<lambda>r. do { s' \<leftarrow> r; h_seqnum h s' })
      in case c of
        CmdActivateReader \<Rightarrow> release (h_activate_reader h s)
      | CmdActivateWriter n \<Rightarrow> release (h_activate_writer h n s)
      | CmdStop \<Rightarrow> release (h_stop h s)
      | CmdPlug \<Rightarrow> do { s' \<leftarrow> counted (h_plug h s); Some (s', []) }
      | CmdOwn ob \<Rightarrow> release (counted (h_own h ob s))
      | CmdAttach e p \<Rightarrow> release (counted (h_attach h e (identity_of p) s))
      | CmdBind i out p \<Rightarrow> release (counted (h_bind h i out (identity_of p) s))
      | CmdPipeTerm \<Rightarrow> do { s' \<leftarrow> h_pipe_term h s; Some (s', []) }
      | CmdPipeTermAck \<Rightarrow> release (h_pipe_term_ack h s)
      | CmdTermReq ob \<Rightarrow> release (h_term_req h ob s)
      | CmdTerm lngr \<Rightarrow> release (h_term h lngr s)
      | CmdTermAck \<Rightarrow> release (h_term_ack h s)
      | CmdReap sock \<Rightarrow> release (h_reap h sock s)
      | CmdReaped \<Rightarrow> release (h_reaped h s)
      | CmdDone \<Rightarrow> None)"

section \<open>Lemmas\<close>

lemma copy_identity_ok: "copy_identity peer = Some p \<longleftrightarrow> length peer \<le> 255 \<and> p = (if peer = [] then None else Some peer)"
  by (auto simp: copy_identity_def split: bind_splits)

lemma identity_of_copy [simp]: "copy_identity peer = Some p \<Longrightarrow> identity_of p = peer"
  by (auto simp: copy_identity_ok identity_of_def)

text \<open>A command that carries an identity brings it unchanged to the handler and releases the copy once.\<close>

lemma attach_arrives:
  assumes "send_attach dest e peer inc = Some acts"
  shows "\<exists>c. acts = (if inc then [IncSeqnum dest] else []) @ [SendTo dest c] \<and>
    object_process_command h c s =
      (case h_attach h e peer s of None \<Rightarrow> None
       | Some s' \<Rightarrow> (case h_seqnum h s' of None \<Rightarrow> None | Some s'' \<Rightarrow> Some (s'', if peer = [] then [] else [peer])))"
proof -
  let ?c = "CmdAttach e (if peer = [] then None else Some peer)"
  from assms have "acts = (if inc then [IncSeqnum dest] else []) @ [SendTo dest ?c]"
    by (auto simp: send_attach_def copy_identity_ok split: bind_splits)
  moreover have "identity_of (if peer = [] then None else Some peer) = peer" by (simp add: identity_of_def)
  moreover have "deallocate_command ?c = (if peer = [] then [] else [peer])" by (simp add: deallocate_command_def)
  ultimately show ?thesis
    by (intro exI[of _ ?c]) (simp add: object_process_command_def Let_def split: option.splits)
qed

end
