(* ===== verification/Handshake.thy ===== *)
theory Handshake
  imports Object Connect
begin

text \<open>
  \<^verbatim>\<open>src/zmq_init.cpp\<close> and the sessions of \<^verbatim>\<open>src/named_session.cpp\<close> and \<^verbatim>\<open>src/transient_session.cpp\<close>: the first message of
  each side of a connection is its identity. When both have gone through, the engine is given to the session of the peer:
  the session that connected, or, at a listener, a session that is found or made for the identity.
\<close>

datatype session_kind = TransientSession | NamedSession blob

datatype init_act =
    InitEngineUnplug nat | InitEnginePlug nat | InitEngineTerminate nat
  | InitSend obj_act | LaunchSession nat session_kind | InitTerminate

record zmq_init_t =
  zi_engine :: "nat option"
  zi_ephemeral :: "nat option"
  zi_sent :: bool
  zi_received :: bool
  zi_socket :: "nat option"
  zi_session :: "nat option"
  zi_identity :: blob

definition zmq_init_new :: "nat \<Rightarrow> nat option \<Rightarrow> nat option \<Rightarrow> zmq_init_t" where
  "zmq_init_new engine socket session = \<lparr>zi_engine = Some engine, zi_ephemeral = None, zi_sent = False, zi_received = False,
     zi_socket = socket, zi_session = session, zi_identity = []\<rparr>"

definition zmq_init_delete :: "zmq_init_t \<Rightarrow> init_act list" where
  "zmq_init_delete z = (case zi_engine z of None \<Rightarrow> [] | Some e \<Rightarrow> [InitEngineTerminate e])"

definition finalise_initialisation :: "zmq_init_t \<Rightarrow> (zmq_init_t \<times> init_act list) option" where
  "finalise_initialisation z =
     (if zi_sent z \<and> zi_received z
      then do { e \<leftarrow> zi_engine z; Some (z\<lparr>zi_ephemeral := Some e, zi_engine := None\<rparr>, [InitEngineUnplug e]) }
      else Some (z, []))"

definition zmq_init_read :: "options_t \<Rightarrow> zmq_init_t \<Rightarrow> (msg option \<times> zmq_init_t \<times> init_act list) option" where
  "zmq_init_read opts z =
     (if zi_sent z then Some (None, z, [])
      else do {
        (z', acts) \<leftarrow> finalise_initialisation (z\<lparr>zi_sent := True\<rparr>);
        Some (Some (empty_msg\<lparr>body := identity opts\<rparr>), z', acts)
      })"

definition zmq_init_write :: "blob \<Rightarrow> msg \<Rightarrow> zmq_init_t \<Rightarrow> (bool \<times> zmq_init_t \<times> init_act list) option" where
  "zmq_init_write uuid m z =
     (if zi_received z then Some (False, z, [])
      else do {
        let peer = (if body m = [] then 0 # uuid else body m);
        (z', acts) \<leftarrow> finalise_initialisation (z\<lparr>zi_identity := peer, zi_received := True\<rparr>);
        Some (True, z', acts)
      })"

section \<open>Sessions\<close>

definition named_session_new :: "blob \<Rightarrow> nat \<Rightarrow> sessions \<Rightarrow> sessions option" where
  "named_session_new name ses reg = do {
     zmq_assert (name \<noteq> []);
     zmq_assert (hd name \<noteq> 0);
     let (registered, reg') = register_session name ses reg;
     zmq_assert registered;
     Some reg'
   }"

definition named_session_delete :: "blob \<Rightarrow> sessions \<Rightarrow> sessions option" where
  "named_session_delete name reg = (if name \<noteq> [] then unregister_session name reg else Some reg)"

text \<open>\<^verbatim>\<open>attached\<close>: the name of the session and the registry.\<close>

definition named_session_attached :: "blob \<Rightarrow> blob \<Rightarrow> nat \<Rightarrow> sessions \<Rightarrow> (blob \<times> sessions) option" where
  "named_session_attached name peer ses reg =
     (if name \<noteq> [] then do {
        (if hd name \<noteq> 0 \<or> peer = [] \<or> hd peer \<noteq> 0 then zmq_assert (name = peer) else Some ());
        Some (name, reg)
      }
      else if peer \<noteq> [] then do {
        let (registered, reg') = register_session peer ses reg;
        zmq_assert registered;
        Some (peer, reg')
      }
      else Some (name, reg))"

text \<open>\<^verbatim>\<open>detached\<close>: a named session stays, a transient one terminates.\<close>

definition session_detached :: "session_kind \<Rightarrow> session_t \<Rightarrow> session_t \<times> session_act list" where
  "session_detached k s = (case k of NamedSession _ \<Rightarrow> (s, []) | TransientSession \<Rightarrow> session_terminate s)"

section \<open>Dispatching the engine\<close>

text \<open>The session of the peer is searched in one critical section and registered in another. \<open>new_id\<close> is the address of a
  session that is created.\<close>

definition dispatch_to :: "nat \<Rightarrow> bool \<Rightarrow> zmq_init_t \<Rightarrow> init_act list option" where
  "dispatch_to ses inc z = do {
     acts \<leftarrow> send_attach ses (zi_ephemeral z) (zi_identity z) inc;
     Some (map InitSend acts @ [InitTerminate])
   }"

definition create_and_dispatch ::
  "nat \<Rightarrow> zmq_init_t \<Rightarrow> sessions \<Rightarrow> (zmq_init_t \<times> sessions \<times> init_act list) option" where
  "create_and_dispatch new_id z reg = do {
     reg' \<leftarrow> named_session_new (zi_identity z) new_id reg;
     acts \<leftarrow> dispatch_to new_id False z;
     Some (z\<lparr>zi_session := Some new_id\<rparr>, reg',
       [InitSend (IncSeqnum new_id), LaunchSession new_id (NamedSession (zi_identity z))] @ acts)
   }"

definition dispatch_engine ::
  "nat \<Rightarrow> zmq_init_t \<Rightarrow> sessions \<Rightarrow> (zmq_init_t \<times> sessions \<times> init_act list) option" where
  "dispatch_engine new_id z reg =
     (if zi_sent z \<and> zi_received z then do {
        zmq_assert (zi_engine z = None);
        zmq_assert (zi_ephemeral z \<noteq> None);
        (case zi_session z of
           Some ses \<Rightarrow> do { acts \<leftarrow> dispatch_to ses True z; Some (z, reg, acts) }
         | None \<Rightarrow> do {
             zmq_assert (zi_socket z \<noteq> None);
             (if hd (zi_identity z) = 0 then do {
                acts \<leftarrow> dispatch_to new_id False z;
                Some (z\<lparr>zi_session := Some new_id\<rparr>, reg,
                  [InitSend (IncSeqnum new_id), LaunchSession new_id TransientSession] @ acts)
              }
              else case find_session (zi_identity z) reg of
                Some ses \<Rightarrow> do {
                  acts \<leftarrow> dispatch_to ses False z;
                  Some (z\<lparr>zi_session := Some ses\<rparr>, reg, InitSend (IncSeqnum ses) # acts)
                }
              | None \<Rightarrow> create_and_dispatch new_id z reg)
           })
      }
      else Some (z, reg, []))"

definition zmq_init_flush ::
  "nat \<Rightarrow> zmq_init_t \<Rightarrow> sessions \<Rightarrow> (zmq_init_t \<times> sessions \<times> init_act list) option" where
  "zmq_init_flush new_id z reg =
     (if \<not> zi_received z then Some (z, reg, [])
      else if zi_ephemeral z \<noteq> None then dispatch_engine new_id z reg
      else Some (z, reg, []))"

definition zmq_init_detach :: "zmq_init_t \<Rightarrow> (zmq_init_t \<times> init_act list) option" where
  "zmq_init_detach z = do {
     acts \<leftarrow> (case zi_session z of None \<Rightarrow> Some [] | Some ses \<Rightarrow> send_attach ses None [] True);
     Some (z\<lparr>zi_engine := None\<rparr>, map InitSend acts @ [InitTerminate])
   }"

definition zmq_init_process_plug :: "zmq_init_t \<Rightarrow> init_act list option" where
  "zmq_init_process_plug z = do { e \<leftarrow> zi_engine z; Some [InitEnginePlug e] }"

definition zmq_init_process_unplug :: "zmq_init_t \<Rightarrow> init_act list" where
  "zmq_init_process_unplug z = (case zi_engine z of None \<Rightarrow> [] | Some e \<Rightarrow> [InitEngineUnplug e])"

end
