(* ===== verification/HandshakeRun.thy ===== *)
theory HandshakeRun
  imports Handshake
begin

text \<open>The calls that an engine makes of a \<^verbatim>\<open>zmq_init_t\<close>, in any order, until its connection is given to a session.\<close>

datatype init_call = InitRead | InitWrite msg | InitFlush

record init_env =
  ie_opts :: options_t
  ie_uuid :: blob
  ie_new :: nat

fun init_step :: "init_env \<Rightarrow> init_call \<Rightarrow> zmq_init_t \<times> sessions \<Rightarrow> ((zmq_init_t \<times> sessions) \<times> init_act list) option" where
  "init_step v InitRead (z, reg) = do { (_, z', acts) \<leftarrow> zmq_init_read (ie_opts v) z; Some ((z', reg), acts) }"
| "init_step v (InitWrite m) (z, reg) = do { (_, z', acts) \<leftarrow> zmq_init_write (ie_uuid v) m z; Some ((z', reg), acts) }"
| "init_step v InitFlush (z, reg) = do { (z', reg', acts) \<leftarrow> zmq_init_flush (ie_new v) z reg; Some ((z', reg'), acts) }"

fun init_run :: "init_env \<Rightarrow> init_call list \<Rightarrow> zmq_init_t \<times> sessions \<Rightarrow> (sessions \<times> init_act list) option" where
  "init_run v [] (z, reg) = Some (reg, [])"
| "init_run v (c # cs) (z, reg) = do {
     ((z', reg'), acts) \<leftarrow> init_step v c (z, reg);
     (if InitTerminate \<in> set acts then Some (reg', acts)
      else do { (reg'', acts') \<leftarrow> init_run v cs (z', reg'); Some (reg'', acts @ acts') })
   }"

section \<open>What the handshake should do\<close>

text \<open>The identity that the peer has sent when both sides are through and the engine flushes.\<close>

fun handshake :: "bool \<Rightarrow> blob option \<Rightarrow> init_call list \<Rightarrow> blob option" where
  "handshake sent their [] = None"
| "handshake sent their (InitRead # cs) = handshake True their cs"
| "handshake sent their (InitWrite m # cs) = handshake sent (if their = None then Some (body m) else their) cs"
| "handshake sent their (InitFlush # cs) = (if sent \<and> their \<noteq> None then their else handshake sent their cs)"

definition peer_name :: "init_env \<Rightarrow> blob \<Rightarrow> blob" where
  "peer_name v b = (if b = [] then 0 # ie_uuid v else b)"

text \<open>The session that gets the engine.\<close>

definition route :: "init_env \<Rightarrow> nat option \<Rightarrow> sessions \<Rightarrow> blob \<Rightarrow> nat \<times> sessions \<times> (nat \<times> session_kind) list" where
  "route v session reg name =
     (case session of
        Some s \<Rightarrow> (s, reg, [])
      | None \<Rightarrow>
          if hd name = 0 then (ie_new v, reg, [(ie_new v, TransientSession)])
          else case reg name of
            Some s \<Rightarrow> (s, reg, [])
          | None \<Rightarrow> (ie_new v, reg(name \<mapsto> ie_new v), [(ie_new v, NamedSession name)]))"

fun attaches :: "init_act list \<Rightarrow> (nat \<times> nat option \<times> blob) list" where
  "attaches [] = []"
| "attaches (InitSend (SendTo d (CmdAttach e c)) # as) = (d, e, identity_of c) # attaches as"
| "attaches (_ # as) = attaches as"

fun counted :: "init_act list \<Rightarrow> nat list" where
  "counted [] = []"
| "counted (InitSend (IncSeqnum d) # as) = d # counted as"
| "counted (_ # as) = counted as"

fun launched :: "init_act list \<Rightarrow> (nat \<times> session_kind) list" where
  "launched [] = []"
| "launched (LaunchSession s k # as) = (s, k) # launched as"
| "launched (_ # as) = launched as"

text \<open>The engine is given away at most once, to the right session under the right name; its session counts the command once.\<close>

definition given :: "init_env \<Rightarrow> nat option \<Rightarrow> nat \<Rightarrow> sessions \<Rightarrow> blob option \<Rightarrow> sessions \<Rightarrow> init_act list \<Rightarrow> bool" where
  "given v session e reg their reg' acts =
     (case their of
        None \<Rightarrow> attaches acts = [] \<and> counted acts = [] \<and> launched acts = [] \<and> reg' = reg
      | Some b \<Rightarrow>
          let (target, reg1, new) = route v session reg (peer_name v b)
          in attaches acts = [(target, Some e, peer_name v b)] \<and> counted acts = [target] \<and> launched acts = new \<and> reg' = reg1)"

lemma acts_append:
  "attaches (a @ b) = attaches a @ attaches b" "counted (a @ b) = counted a @ counted b" "launched (a @ b) = launched a @ launched b"
proof -
  show "attaches (a @ b) = attaches a @ attaches b" by (induction a rule: attaches.induct) simp_all
  show "counted (a @ b) = counted a @ counted b" by (induction a rule: counted.induct) simp_all
  show "launched (a @ b) = launched a @ launched b" by (induction a rule: launched.induct) simp_all
qed

section \<open>The states in between\<close>

definition init_state :: "init_env \<Rightarrow> nat \<Rightarrow> nat option \<Rightarrow> nat option \<Rightarrow> bool \<Rightarrow> blob option \<Rightarrow> zmq_init_t" where
  "init_state v e socket session sent their =
     (let ready = sent \<and> their \<noteq> None
      in \<lparr>zi_engine = (if ready then None else Some e), zi_ephemeral = (if ready then Some e else None),
          zi_sent = sent, zi_received = (their \<noteq> None), zi_socket = socket, zi_session = session,
          zi_identity = (case their of None \<Rightarrow> [] | Some b \<Rightarrow> peer_name v b)\<rparr>)"

lemma init_state_new: "zmq_init_new e socket session = init_state v e socket session False None"
  by (simp add: zmq_init_new_def init_state_def)

definition quiet :: "init_act list \<Rightarrow> bool" where
  "quiet acts \<longleftrightarrow> InitTerminate \<notin> set acts \<and> attaches acts = [] \<and> counted acts = [] \<and> launched acts = []"

lemma quiet_given: "quiet a \<Longrightarrow> given v session e reg their reg' (a @ acts) = given v session e reg their reg' acts"
  by (simp add: given_def quiet_def acts_append split: option.splits)

lemma read_state:
  "\<exists>acts. init_step v InitRead (init_state v e socket session sent their, reg) =
     Some ((init_state v e socket session True their, reg), acts) \<and> quiet acts"
  by (cases sent; cases their) (auto simp: zmq_init_read_def finalise_initialisation_def init_state_def Let_def quiet_def)

lemma write_state:
  "\<exists>acts. init_step v (InitWrite m) (init_state v e socket session sent their, reg) =
     Some ((init_state v e socket session sent (if their = None then Some (body m) else their), reg), acts) \<and> quiet acts"
  by (cases sent; cases their)
    (auto simp: zmq_init_write_def finalise_initialisation_def init_state_def Let_def quiet_def peer_name_def)

lemma flush_waits:
  "\<not> (sent \<and> their \<noteq> None) \<Longrightarrow>
    init_step v InitFlush (init_state v e socket session sent their, reg) = Some ((init_state v e socket session sent their, reg), [])"
  by (auto simp: zmq_init_flush_def init_state_def Let_def)

lemma peer_name_ok: "length b \<le> 255 \<Longrightarrow> length (ie_uuid v) = 16 \<Longrightarrow> peer_name v b \<noteq> [] \<and> length (peer_name v b) \<le> 255"
  by (simp add: peer_name_def)

lemma flush_dispatches:
  assumes "length b \<le> 255" "length (ie_uuid v) = 16" "session \<noteq> None \<or> socket \<noteq> None"
    and "route v session reg (peer_name v b) = (target, reg', new)"
  shows "\<exists>z acts. init_step v InitFlush (init_state v e socket session True (Some b), reg) = Some ((z, reg'), acts) \<and>
    InitTerminate \<in> set acts \<and> attaches acts = [(target, Some e, peer_name v b)] \<and> counted acts = [target] \<and> launched acts = new"
proof -
  have ok: "peer_name v b \<noteq> []" "length (peer_name v b) \<le> 255" using peer_name_ok[OF assms(1,2)] by simp_all
  have attach: "send_attach d (Some e) (peer_name v b) inc =
      Some ((if inc then [IncSeqnum d] else []) @ [SendTo d (CmdAttach (Some e) (Some (peer_name v b)))])" for d inc
    using ok by (simp add: send_attach_def copy_identity_def)
  note defs = zmq_init_flush_def dispatch_engine_def init_state_def Let_def dispatch_to_def attach find_session_def
    create_and_dispatch_def named_session_new_def register_session_def identity_of_def
  show ?thesis
    using assms(3,4) ok
    by (cases session; cases socket; cases "reg (peer_name v b)"; cases "hd (peer_name v b) = 0") (auto simp: defs route_def)
qed

lemma init_run_state:
  assumes "length (ie_uuid v) = 16" "session \<noteq> None \<or> socket \<noteq> None"
  shows "\<forall>m. InitWrite m \<in> set cs \<longrightarrow> length (body m) \<le> 255 \<Longrightarrow> (\<forall>b. their = Some b \<longrightarrow> length b \<le> 255) \<Longrightarrow>
    \<exists>reg' acts. init_run v cs (init_state v e socket session sent their, reg) = Some (reg', acts) \<and>
      given v session e reg (handshake sent their cs) reg' acts"
proof (induction cs arbitrary: sent their)
  case (Cons c cs)
  have one: "init_run v (c # cs) (init_state v e socket session sent their, reg) =
      (case init_run v cs (init_state v e socket session sent' their', reg) of
         None \<Rightarrow> None | Some (reg', acts') \<Rightarrow> Some (reg', acts @ acts'))"
    if "init_step v c (init_state v e socket session sent their, reg) = Some ((init_state v e socket session sent' their', reg), acts)"
      "quiet acts" for sent' their' acts
    using that by (auto simp: quiet_def split: bind_splits option.splits)
  have prems: "\<forall>m. InitWrite m \<in> set cs \<longrightarrow> length (body m) \<le> 255" using Cons.prems(1) by simp
  show ?case
  proof (cases c)
    case InitRead
    obtain acts where r: "init_step v InitRead (init_state v e socket session sent their, reg) =
        Some ((init_state v e socket session True their, reg), acts)" "quiet acts" using read_state by blast
    from Cons.IH[OF prems Cons.prems(2), of True] one[unfolded InitRead, OF r] r(2) show ?thesis
      unfolding InitRead by (auto simp: quiet_given)
  next
    case (InitWrite m)
    let ?their = "if their = None then Some (body m) else their"
    obtain acts where r: "init_step v (InitWrite m) (init_state v e socket session sent their, reg) =
        Some ((init_state v e socket session sent ?their, reg), acts)" "quiet acts" using write_state by blast
    have "\<forall>b. ?their = Some b \<longrightarrow> length b \<le> 255" using Cons.prems InitWrite by auto
    from Cons.IH[OF prems this, of sent] one[unfolded InitWrite, OF r] r(2) show ?thesis
      unfolding InitWrite by (auto simp: quiet_given)
  next
    case InitFlush
    show ?thesis
    proof (cases "sent \<and> their \<noteq> None")
      case True
      then obtain b where b: "their = Some b" "sent" "length b \<le> 255" using Cons.prems(2) by auto
      obtain target reg1 new where rt: "route v session reg (peer_name v b) = (target, reg1, new)" by (cases "route v session reg (peer_name v b)")
      obtain z acts where "init_step v InitFlush (init_state v e socket session True (Some b), reg) = Some ((z, reg1), acts)"
          "InitTerminate \<in> set acts" "attaches acts = [(target, Some e, peer_name v b)]" "counted acts = [target]" "launched acts = new"
        using flush_dispatches[OF b(3) assms rt] by blast
      then show ?thesis using b rt unfolding InitFlush by (auto simp: given_def)
    next
      case False
      have "quiet []" by (simp add: quiet_def)
      from Cons.IH[OF prems Cons.prems(2), of sent] one[unfolded InitFlush, OF flush_waits[OF False] this] False show ?thesis
        unfolding InitFlush by auto
    qed
  qed
qed (simp add: given_def)

section \<open>The property\<close>

text \<open>C18: In whatever order the engine reads, writes and flushes, once both identities have gone through and the engine
  flushes, the connection is given to a session exactly once and the session counts one command for it: the session that
  connected; otherwise a new transient one for a peer without a name, the session that has the name of the peer, or a new
  one that is registered under it. Before that nothing is given away. (For identities of at most 255 bytes.)\<close>

theorem handshake_gives_engine_once:
  assumes "length (ie_uuid v) = 16" and "session \<noteq> None \<or> socket \<noteq> None"
    and "\<forall>m. InitWrite m \<in> set cs \<longrightarrow> length (body m) \<le> 255"
  shows "\<exists>reg' acts. init_run v cs (zmq_init_new e socket session, reg) = Some (reg', acts) \<and>
    given v session e reg (handshake False None cs) reg' acts"
  using init_run_state[OF assms(1,2,3), of None] unfolding init_state_new[of e socket session v] by simp

definition demo_env :: init_env where
  "demo_env = \<lparr>ie_opts = options_new, ie_uuid = replicate 16 7, ie_new = 40\<rparr>"

theorem handshake_gives_engine_once_witness:
  "\<exists>reg' acts. init_run demo_env [InitFlush, InitWrite (empty_msg\<lparr>body := [65, 66]\<rparr>), InitRead, InitFlush]
      (zmq_init_new 3 (Some 1) None, [[65] \<mapsto> 9]) = Some (reg', acts) \<and>
    attaches acts = [(40, Some 3, [65, 66])] \<and> counted acts = [40] \<and> launched acts = [(40, NamedSession [65, 66])] \<and>
    reg' = [[65] \<mapsto> 9, [65, 66] \<mapsto> 40]"
proof -
  have "length (ie_uuid demo_env) = 16" "\<forall>m. InitWrite m \<in> set [InitFlush, InitWrite (empty_msg\<lparr>body := [65, 66]\<rparr>), InitRead, InitFlush]
      \<longrightarrow> length (body m) \<le> 255" by (simp_all add: demo_env_def)
  from handshake_gives_engine_once[OF this(1) _ this(2), of None "Some 1" 3 "[[65] \<mapsto> 9]"] show ?thesis
    by (simp add: given_def route_def peer_name_def demo_env_def)
qed

section \<open>Two faults\<close>

text \<open>An identity of more than 255 bytes, which a peer can send, stops the process.\<close>

lemma long_identity_aborts:
  assumes "255 < length (body m)" "session \<noteq> None \<or> socket \<noteq> None"
  shows "init_run v [InitRead, InitWrite m, InitFlush] (zmq_init_new e socket session, reg) = None"
proof -
  have "body m \<noteq> []" using assms(1) by auto
  with assms show ?thesis
    by (cases session; cases "find_session (body m) reg")
      (auto simp: zmq_init_read_def zmq_init_write_def zmq_init_flush_def finalise_initialisation_def zmq_init_new_def Let_def
        dispatch_engine_def dispatch_to_def send_attach_def copy_identity_def create_and_dispatch_def split: bind_splits)
qed

text \<open>Two connections of peers with the same identity, handled in two I/O threads: when both have searched for the session
  and found none, the second one to create it fails an assertion.\<close>

lemma same_identity_race:
  assumes "find_session (zi_identity z1) reg = None" "find_session (zi_identity z2) reg = None"
    and "zi_identity z1 = zi_identity z2" "create_and_dispatch new1 z1 reg = Some (z1', reg', acts)"
  shows "create_and_dispatch new2 z2 reg' = None"
  using assms
  by (auto simp: create_and_dispatch_def named_session_new_def register_session_def Let_def split: bind_splits if_splits)

text \<open>Identities that are set as an option have at most 255 bytes and do not start with zero.\<close>

lemma identity_option_ok:
  assumes "options_setsockopt ok IDENTITY w opts = (OK, opts')"
  shows "identity opts' \<noteq> [] \<and> length (identity opts') \<le> 255 \<and> hd (identity opts') \<noteq> 0"
  using assms by (cases w) (auto split: if_splits)

end
