(* ===== verification/Connecter.thy ===== *)
theory Connecter
  imports Options "HOL-Library.Signed_Division"
begin

text \<open>
  \<^verbatim>\<open>src/zmq_connecter.cpp\<close>, \<^verbatim>\<open>src/zmq_listener.cpp\<close>, \<^verbatim>\<open>src/connect_session.cpp\<close>: establishing connections. What the
  system calls of \<^verbatim>\<open>tcp_connecter_t\<close> and \<^verbatim>\<open>tcp_listener_t\<close> answer and the I/O thread that is chosen are arguments. An
  operation returns the new state and, in order, what it asks of the poller and of others. A C \<^verbatim>\<open>int\<close> whose value does not
  fit is undefined behaviour and \<open>None\<close>.
\<close>

datatype conn_act =
    WatchFd nat | UnwatchFd nat | PollIn nat | PollOut nat | StartTimer int | StopTimer | CloseFd
  | LaunchInit nat "nat option" "nat option" nat | StopSelf | OwnTerm int
  | LaunchConnecter nat string string bool | AttachPgm bool bool string

definition c_int :: "int \<Rightarrow> int option" where
  "c_int x = (if - (2 ^ 31) \<le> x \<and> x < 2 ^ 31 then Some x else None)"

section \<open>The connecter\<close>

record connecter_t =
  cn_handle :: "nat option"
  cn_wait :: bool
  cn_session :: nat
  cn_ivl :: int

definition connecter_new :: "nat \<Rightarrow> options_t \<Rightarrow> rc \<Rightarrow> bool \<Rightarrow> connecter_t option" where
  "connecter_new session opts addr_ok wait = do {
     zmq_assert (addr_ok = OK);
     Some \<lparr>cn_handle = None, cn_wait = wait, cn_session = session, cn_ivl = sint (reconnect_ivl opts)\<rparr>
   }"

definition connecter_delete :: "connecter_t \<Rightarrow> conn_act list" where
  "connecter_delete c =
     (if cn_wait c then [StopTimer] else []) @ (case cn_handle c of None \<Rightarrow> [] | Some h \<Rightarrow> [UnwatchFd h])"

text \<open>The interval and the state for the next call.\<close>

definition get_new_reconnect_ivl :: "int \<Rightarrow> options_t \<Rightarrow> connecter_t \<Rightarrow> (int \<times> connecter_t) option" where
  "get_new_reconnect_ivl pid opts c = do {
     let ivl = sint (reconnect_ivl opts);
     let max_ivl = sint (reconnect_ivl_max opts);
     p \<leftarrow> c_int (pid * 13);
     zmq_assert (ivl \<noteq> 0);
     this_ivl \<leftarrow> c_int (cn_ivl c + p smod ivl);
     (if max_ivl > 0 \<and> max_ivl > ivl then do {
        d \<leftarrow> c_int (cn_ivl c * 2);
        Some (this_ivl, c\<lparr>cn_ivl := if d \<ge> max_ivl then max_ivl else d\<rparr>)
      }
      else Some (this_ivl, c))
   }"

definition add_reconnect_timer :: "int \<Rightarrow> options_t \<Rightarrow> connecter_t \<Rightarrow> (connecter_t \<times> conn_act list) option" where
  "add_reconnect_timer pid opts c = do { (t, c') \<leftarrow> get_new_reconnect_ivl pid opts c; Some (c', [StartTimer t]) }"

text \<open>The answers of the system: the result of opening and its descriptor, the connected descriptor, the I/O thread.\<close>

record conn_env =
  ce_open :: rc
  ce_fd :: nat
  ce_connected :: "nat option"
  ce_io :: "nat option"

definition connecter_out_event ::
  "int \<Rightarrow> options_t \<Rightarrow> conn_env \<Rightarrow> connecter_t \<Rightarrow> (connecter_t \<times> conn_act list) option" where
  "connecter_out_event pid opts v c = do {
     h \<leftarrow> cn_handle c;
     let c1 = c\<lparr>cn_handle := None\<rparr>;
     (case ce_connected v of
        None \<Rightarrow> do {
          (c2, acts) \<leftarrow> add_reconnect_timer pid opts (c1\<lparr>cn_wait := True\<rparr>);
          Some (c2, [UnwatchFd h, CloseFd] @ acts)
        }
      | Some fd \<Rightarrow> do {
          io \<leftarrow> ce_io v;
          Some (c1, [UnwatchFd h, LaunchInit io None (Some (cn_session c)) fd, StopSelf])
        })
   }"

definition connecter_in_event ::
  "int \<Rightarrow> options_t \<Rightarrow> conn_env \<Rightarrow> connecter_t \<Rightarrow> (connecter_t \<times> conn_act list) option" where
  "connecter_in_event pid opts v c = connecter_out_event pid opts v c"

definition start_connecting ::
  "int \<Rightarrow> options_t \<Rightarrow> conn_env \<Rightarrow> connecter_t \<Rightarrow> (connecter_t \<times> conn_act list) option" where
  "start_connecting pid opts v c =
     (case ce_open v of
        OK \<Rightarrow> do {
          (c', acts) \<leftarrow> connecter_out_event pid opts v (c\<lparr>cn_handle := Some (ce_fd v)\<rparr>);
          Some (c', WatchFd (ce_fd v) # acts)
        }
      | Err e \<Rightarrow>
          if e = EAGAIN
          then Some (c\<lparr>cn_handle := Some (ce_fd v)\<rparr>, [WatchFd (ce_fd v), PollOut (ce_fd v)])
          else add_reconnect_timer pid opts (c\<lparr>cn_wait := True\<rparr>))"

definition connecter_process_plug ::
  "int \<Rightarrow> options_t \<Rightarrow> conn_env \<Rightarrow> connecter_t \<Rightarrow> (connecter_t \<times> conn_act list) option" where
  "connecter_process_plug pid opts v c =
     (if cn_wait c then add_reconnect_timer pid opts c else start_connecting pid opts v c)"

definition connecter_timer_event ::
  "int \<Rightarrow> options_t \<Rightarrow> conn_env \<Rightarrow> connecter_t \<Rightarrow> (connecter_t \<times> conn_act list) option" where
  "connecter_timer_event pid opts v c = start_connecting pid opts v (c\<lparr>cn_wait := False\<rparr>)"

section \<open>The listener and the connecting session\<close>

definition listener_process_plug :: "nat \<Rightarrow> conn_act list" where
  "listener_process_plug fd = [WatchFd fd, PollIn fd]"

definition listener_process_term :: "nat \<Rightarrow> int \<Rightarrow> conn_act list" where
  "listener_process_term fd lngr = [UnwatchFd fd, OwnTerm lngr]"

text \<open>\<open>accepted\<close>: the descriptor of the new connection, unless it was reset.\<close>

definition listener_in_event :: "nat \<Rightarrow> nat option \<Rightarrow> nat option \<Rightarrow> conn_act list option" where
  "listener_in_event socket io accepted =
     (case accepted of
        None \<Rightarrow> Some []
      | Some fd \<Rightarrow> do { t \<leftarrow> io; Some [LaunchInit t (Some socket) None fd] })"

text \<open>\<open>pgm\<close>: whether OpenPGM is there; \<open>pgm_ok\<close>: whether its engine could be initialised.\<close>

definition connect_session_start ::
  "bool \<Rightarrow> bool \<Rightarrow> bool \<Rightarrow> nat option \<Rightarrow> string \<Rightarrow> string \<Rightarrow> bool \<Rightarrow> bool \<Rightarrow> conn_act list option" where
  "connect_session_start pgm sends receives io protocol address pgm_ok wait = do {
     t \<leftarrow> io;
     (if protocol = ''tcp'' \<or> protocol = ''ipc'' then Some [LaunchConnecter t protocol address wait]
      else if pgm \<and> (protocol = ''pgm'' \<or> protocol = ''epgm'') then do {
        zmq_assert (sends \<or> receives);
        zmq_assert pgm_ok;
        Some [AttachPgm sends (protocol = ''epgm'') address]
      }
      else None)
   }"

definition connect_session_plug ::
  "bool \<Rightarrow> bool \<Rightarrow> bool \<Rightarrow> nat option \<Rightarrow> string \<Rightarrow> string \<Rightarrow> bool \<Rightarrow> conn_act list option" where
  "connect_session_plug pgm sends receives io protocol address pgm_ok =
     connect_session_start pgm sends receives io protocol address pgm_ok False"

definition connect_session_detached ::
  "bool \<Rightarrow> bool \<Rightarrow> bool \<Rightarrow> nat option \<Rightarrow> string \<Rightarrow> string \<Rightarrow> bool \<Rightarrow> conn_act list option" where
  "connect_session_detached pgm sends receives io protocol address pgm_ok =
     connect_session_start pgm sends receives io protocol address pgm_ok True"

section \<open>Attempts\<close>

text \<open>What the poller calls: only the timer that was started, only the descriptor that is watched.\<close>

datatype conn_event = ConnPlug conn_env | ConnTimer conn_env | ConnReady conn_env

fun conn_allowed :: "conn_event \<Rightarrow> connecter_t \<Rightarrow> bool" where
  "conn_allowed (ConnPlug v) c = True"
| "conn_allowed (ConnTimer v) c = cn_wait c"
| "conn_allowed (ConnReady v) c = (cn_handle c \<noteq> None)"

fun conn_step :: "int \<Rightarrow> options_t \<Rightarrow> conn_event \<Rightarrow> connecter_t \<Rightarrow> (connecter_t \<times> conn_act list) option" where
  "conn_step pid opts (ConnPlug v) c = connecter_process_plug pid opts v c"
| "conn_step pid opts (ConnTimer v) c = connecter_timer_event pid opts v c"
| "conn_step pid opts (ConnReady v) c = connecter_out_event pid opts v c"

text \<open>A run stops when an event comes that the poller would not report.\<close>

fun conn_run :: "int \<Rightarrow> options_t \<Rightarrow> conn_event list \<Rightarrow> connecter_t \<Rightarrow> (connecter_t \<times> conn_act list) option" where
  "conn_run pid opts [] c = Some (c, [])"
| "conn_run pid opts (e # es) c =
     (if conn_allowed e c then do {
        (c1, a1) \<leftarrow> conn_step pid opts e c;
        (c2, a2) \<leftarrow> conn_run pid opts es c1;
        Some (c2, a1 @ a2)
      }
      else Some (c, []))"

fun timers_started :: "conn_act list \<Rightarrow> int list" where
  "timers_started [] = []"
| "timers_started (StartTimer t # as) = t # timers_started as"
| "timers_started (_ # as) = timers_started as"

fun watched :: "nat set \<Rightarrow> conn_act list \<Rightarrow> nat set" where
  "watched W [] = W"
| "watched W (WatchFd h # as) = watched (insert h W) as"
| "watched W (UnwatchFd h # as) = watched (W - {h}) as"
| "watched W (_ # as) = watched W as"

text \<open>The interval before the attempt \<open>i\<close>, without the part that depends on the process.\<close>

definition backoff :: "options_t \<Rightarrow> nat \<Rightarrow> int" where
  "backoff opts i =
     (let ivl = sint (reconnect_ivl opts); mx = sint (reconnect_ivl_max opts)
      in if mx > ivl then min (ivl * 2 ^ i) mx else ivl)"

definition jitter :: "int \<Rightarrow> options_t \<Rightarrow> int" where
  "jitter pid opts = pid * 13 mod sint (reconnect_ivl opts)"

text \<open>Options and process numbers with which no interval overflows.\<close>

definition sane :: "int \<Rightarrow> options_t \<Rightarrow> bool" where
  "sane pid opts \<longleftrightarrow> 0 < sint (reconnect_ivl opts) \<and> sint (reconnect_ivl opts) < 2 ^ 30 \<and>
     sint (reconnect_ivl_max opts) < 2 ^ 30 \<and> 0 \<le> pid \<and> pid * 13 < 2 ^ 31"

definition conn_ok :: "options_t \<Rightarrow> nat \<Rightarrow> connecter_t \<Rightarrow> bool" where
  "conn_ok opts n c \<longleftrightarrow> cn_ivl c = backoff opts n \<and> (cn_wait c \<longrightarrow> cn_handle c = None)"

definition env_ok :: "conn_event \<Rightarrow> bool" where
  "env_ok e \<longleftrightarrow> (case e of ConnPlug v \<Rightarrow> False | ConnTimer v \<Rightarrow> ce_io v \<noteq> None | ConnReady v \<Rightarrow> ce_io v \<noteq> None)"

lemma backoff_bounds:
  assumes "sane pid opts"
  shows "0 < backoff opts i" "backoff opts i < 2 ^ 30"
  using assms by (auto simp: sane_def backoff_def Let_def min_def)

lemma backoff_Suc:
  assumes "sane pid opts"
  shows "backoff opts (Suc i) = (let mx = sint (reconnect_ivl_max opts)
    in if mx > 0 \<and> mx > sint (reconnect_ivl opts) then if backoff opts i * 2 \<ge> mx then mx else backoff opts i * 2 else backoff opts i)"
  using assms by (auto simp: sane_def backoff_def Let_def min_def)

lemma jitter_bounds: "sane pid opts \<Longrightarrow> 0 \<le> jitter pid opts \<and> jitter pid opts < sint (reconnect_ivl opts)"
  by (simp add: jitter_def sane_def)

lemma add_timer_ok:
  assumes "sane pid opts" "cn_ivl c = backoff opts n"
  shows "add_reconnect_timer pid opts c =
    Some (c\<lparr>cn_ivl := backoff opts (Suc n)\<rparr>, [StartTimer (backoff opts n + jitter pid opts)])"
proof -
  note B = backoff_bounds[OF assms(1), of n] and J = jitter_bounds[OF assms(1)] and S = assms(1)[unfolded sane_def]
  have "pid * 13 smod sint (reconnect_ivl opts) = jitter pid opts"
    using S by (simp add: jitter_def smod_mod_positive)
  moreover have "c_int (pid * 13) = Some (pid * 13)" using S by (simp add: c_int_def)
  moreover have "c_int (backoff opts n + jitter pid opts) = Some (backoff opts n + jitter pid opts)"
    using S B J by (simp add: c_int_def)
  moreover have "c_int (backoff opts n * 2) = Some (backoff opts n * 2)" using B by (simp add: c_int_def)
  ultimately show ?thesis
    using S assms(2) by (simp add: add_reconnect_timer_def get_new_reconnect_ivl_def Let_def backoff_Suc[OF assms(1)])
qed

definition planned :: "int \<Rightarrow> options_t \<Rightarrow> nat \<Rightarrow> nat \<Rightarrow> int list" where
  "planned pid opts n k = map (\<lambda>i. backoff opts i + jitter pid opts) [n..<n + k]"

lemma planned_append: "planned pid opts n (k + l) = planned pid opts n k @ planned pid opts (n + k) l"
proof -
  have "[n..<n + (k + l)] = [n..<n + k] @ [n + k..<n + k + l]" using upt_add_eq_append[of n "n + k" l] by (simp add: add.assoc)
  then show ?thesis by (simp add: planned_def)
qed

definition step_ok :: "int \<Rightarrow> options_t \<Rightarrow> nat \<Rightarrow> connecter_t \<Rightarrow> (connecter_t \<times> conn_act list) option \<Rightarrow> bool" where
  "step_ok pid opts n c r \<longleftrightarrow> (\<exists>c' acts k. r = Some (c', acts) \<and> timers_started acts = planned pid opts n k \<and>
     conn_ok opts (n + k) c' \<and> watched (set_option (cn_handle c)) acts = set_option (cn_handle c'))"

lemma step_okI:
  "r = Some (c', acts) \<Longrightarrow> timers_started acts = planned pid opts n k \<Longrightarrow> conn_ok opts (n + k) c' \<Longrightarrow>
    watched (set_option (cn_handle c)) acts = set_option (cn_handle c') \<Longrightarrow> step_ok pid opts n c r"
  by (auto simp: step_ok_def)

lemma planned_simps: "planned pid opts n 0 = []" "planned pid opts n (Suc 0) = [backoff opts n + jitter pid opts]"
  by (simp_all add: planned_def)

lemma out_event_ok:
  assumes "sane pid opts" "cn_ivl c = backoff opts n" "cn_handle c = Some h" "\<not> cn_wait c" "ce_io v \<noteq> None"
  shows "step_ok pid opts n c (connecter_out_event pid opts v c)"
proof (cases "ce_connected v")
  case None
  let ?c = "c\<lparr>cn_handle := None, cn_wait := True\<rparr>"
  show ?thesis
    by (rule step_okI[of _ "?c\<lparr>cn_ivl := backoff opts (Suc n)\<rparr>" "[UnwatchFd h, CloseFd, StartTimer (backoff opts n + jitter pid opts)]" _ _ _ 1])
      (use None assms add_timer_ok[OF assms(1), of ?c n] in
        \<open>simp_all add: connecter_out_event_def Let_def planned_simps conn_ok_def\<close>)
next
  case (Some fd)
  with assms(5) obtain io where "ce_io v = Some io" by auto
  with Some assms show ?thesis
    by (intro step_okI[of _ "c\<lparr>cn_handle := None\<rparr>" "[UnwatchFd h, LaunchInit io None (Some (cn_session c)) fd, StopSelf]" _ _ _ 0])
      (simp_all add: connecter_out_event_def Let_def planned_simps conn_ok_def)
qed

lemma start_connecting_ok:
  assumes "sane pid opts" "cn_ivl c = backoff opts n" "cn_handle c = None" "\<not> cn_wait c" "ce_io v \<noteq> None"
  shows "step_ok pid opts n c (start_connecting pid opts v c)"
proof (cases "ce_open v")
  case OK
  have "step_ok pid opts n (c\<lparr>cn_handle := Some (ce_fd v)\<rparr>) (connecter_out_event pid opts v (c\<lparr>cn_handle := Some (ce_fd v)\<rparr>))"
    by (rule out_event_ok) (use assms in simp_all)
  then show ?thesis using OK assms(3) by (force simp: step_ok_def start_connecting_def)
next
  case (Err e)
  show ?thesis
  proof (cases "e = EAGAIN")
    case True
    with Err assms show ?thesis
      by (intro step_okI[of _ "c\<lparr>cn_handle := Some (ce_fd v)\<rparr>" "[WatchFd (ce_fd v), PollOut (ce_fd v)]" _ _ _ 0])
        (simp_all add: start_connecting_def planned_simps conn_ok_def)
  next
    case False
    with Err assms add_timer_ok[OF assms(1), of "c\<lparr>cn_wait := True\<rparr>" n] show ?thesis
      by (intro step_okI[of _ "c\<lparr>cn_wait := True, cn_ivl := backoff opts (Suc n)\<rparr>"
            "[StartTimer (backoff opts n + jitter pid opts)]" _ _ _ 1])
        (simp_all add: start_connecting_def planned_simps conn_ok_def)
  qed
qed

lemma conn_step_ok:
  assumes "sane pid opts" "conn_ok opts n c" "conn_allowed e c" "env_ok e"
  shows "step_ok pid opts n c (conn_step pid opts e c)"
proof (cases e)
  case (ConnTimer v)
  have "step_ok pid opts n (c\<lparr>cn_wait := False\<rparr>) (start_connecting pid opts v (c\<lparr>cn_wait := False\<rparr>))"
    by (rule start_connecting_ok) (use assms ConnTimer in \<open>auto simp: conn_ok_def env_ok_def\<close>)
  then show ?thesis using ConnTimer by (simp add: step_ok_def connecter_timer_event_def)
next
  case (ConnReady v)
  then obtain h where "cn_handle c = Some h" "\<not> cn_wait c" using assms(2,3) by (auto simp: conn_ok_def)
  then show ?thesis using out_event_ok[OF assms(1)] assms ConnReady by (simp add: conn_ok_def env_ok_def)
qed (use assms in \<open>simp add: env_ok_def\<close>)

lemma watched_append: "watched W (a @ b) = watched (watched W a) b"
  by (induction W a rule: watched.induct) simp_all

lemma timers_append: "timers_started (a @ b) = timers_started a @ timers_started b"
  by (induction a rule: timers_started.induct) simp_all

lemma step_ok_then:
  assumes "step_ok pid opts n c r"
    and "\<And>c' k. conn_ok opts (n + k) c' \<Longrightarrow> step_ok pid opts (n + k) c' (f c')"
  shows "step_ok pid opts n c (do { (c1, a1) \<leftarrow> r; (c2, a2) \<leftarrow> f c1; Some (c2, a1 @ a2) })"
proof -
  obtain c1 a1 k where 1: "r = Some (c1, a1)" "timers_started a1 = planned pid opts n k" "conn_ok opts (n + k) c1"
      "watched (set_option (cn_handle c)) a1 = set_option (cn_handle c1)"
    using assms(1) by (auto simp: step_ok_def)
  obtain c2 a2 l where 2: "f c1 = Some (c2, a2)" "timers_started a2 = planned pid opts (n + k) l" "conn_ok opts (n + k + l) c2"
      "watched (set_option (cn_handle c1)) a2 = set_option (cn_handle c2)"
    using assms(2)[OF 1(3)] by (auto simp: step_ok_def)
  show ?thesis
    by (rule step_okI[of _ c2 "a1 @ a2" _ _ _ "k + l"])
      (use 1 2 in \<open>simp_all add: planned_append timers_append watched_append add.assoc\<close>)
qed

lemma conn_run_ok:
  "sane pid opts \<Longrightarrow> conn_ok opts n c \<Longrightarrow> list_all env_ok es \<Longrightarrow> step_ok pid opts n c (conn_run pid opts es c)"
proof (induction es arbitrary: n c)
  case Nil
  then show ?case by (intro step_okI[of _ c "[]" _ _ _ 0]) (simp_all add: planned_simps)
next
  case (Cons e es)
  show ?case
  proof (cases "conn_allowed e c")
    case True
    then show ?thesis
      using step_ok_then[OF conn_step_ok[OF Cons.prems(1,2) True], where f = "conn_run pid opts es"] Cons by simp
  next
    case False
    then show ?thesis
      by (intro step_okI[of _ c "[]" _ _ _ 0]) (use Cons in \<open>simp_all add: planned_simps\<close>)
  qed
qed


definition demo_conn_opts :: options_t where
  "demo_conn_opts = options_new\<lparr>reconnect_ivl_max := 300\<rparr>"

definition refused :: conn_env where
  "refused = \<lparr>ce_open = Err ECONNREFUSED, ce_fd = 4, ce_connected = None, ce_io = Some 2\<rparr>"


text \<open>The option allows a reconnect interval of zero, with which the connecter divides by zero.\<close>

lemma reconnect_interval_zero:
  assumes "options_setsockopt ok RECONNECT_IVL [0, 0, 0, 0] opts = (r, opts')"
  shows "r = OK \<and> get_new_reconnect_ivl pid opts' c = None"
  using assms
  by (auto simp: read32_def get_uint32_def get_new_reconnect_ivl_def Let_def split: if_splits bind_splits)

end
