(* ===== verification/Spec2Isabelle.thy ===== *)
theory Spec2Isabelle
  imports Wire Msg Ypipe Mailbox Context Trie Dist Engine SessionLife Req Pair Rep Xsub Shutdown SocketCalls ConnectTypes
    SwapFifo HandshakeRun Connecter
begin

text \<open>
  The core of the ZeroMQ 2.2.0 library.
\<close>

end
